(* ===== verification/Prelude.thy ===== *)
theory Prelude
  imports Main "HOL-Library.Word"
begin

section \<open>Prelude\<close>

text \<open>
  What every component of the development shares: the fixed-width integers of the C++
  sources, the error values its operations can end with, the result monad that models
  \<open>throw\<close> and undefined behaviour, and generic lemmas on lists and folds.

  \<^item> \<open>u64\<close>, \<open>u32\<close>, \<open>u8\<close> are the typedefs of \<open>cryptoTools/Common/Defines.h\<close>;
    \<open>block\<close> is the 128-bit value of \<open>cryptoTools/Common/block.h\<close>.
  \<^item> \<open>exn\<close>: \<open>RTE_LOC\<close> is the macro the code throws, \<open>RuntimeError\<close> a
    \<open>std::runtime_error\<close>, \<open>AssertFail\<close> an \<open>assert\<close> that fails, \<open>UB\<close> an
    operation C++ leaves undefined (an out-of-range access, \<open>back()\<close> of an empty
    vector), \<open>Diverges\<close> a loop that has used up the fuel its model is given, and \<open>Terminated\<close>
    the call of \<open>std::terminate\<close> that follows an exception nobody catches.
\<close>

unbundle bit_operations_syntax

type_synonym u8 = "8 word"
type_synonym u32 = "32 word"
type_synonym u64 = "64 word"
type_synonym block = "128 word"

datatype exn = RTE_LOC | RuntimeError string | AssertFail | UB | Diverges | Terminated

type_synonym 'a res = "exn + 'a"

named_theorems bounds \<open>range facts of the model\<close>
named_theorems model_simps \<open>unfolding of small model definitions\<close>

subsection \<open>The result monad\<close>

definition rbind :: "'a res \<Rightarrow> ('a \<Rightarrow> 'b res) \<Rightarrow> 'b res" where
  "rbind m f = (case m of Inl e \<Rightarrow> Inl e | Inr x \<Rightarrow> f x)"

lemma rbind_simps [simp]:
  "rbind (Inl e) f = Inl e" "rbind (Inr x) f = f x"
  by (simp_all add: rbind_def)

lemma rbind_Inr_iff: "rbind m f = Inr y \<longleftrightarrow> (\<exists>x. m = Inr x \<and> f x = Inr y)"
  by (auto simp: rbind_def split: sum.splits)

lemma rbind_Inl_iff: "rbind m f = Inl e \<longleftrightarrow> m = Inl e \<or> (\<exists>x. m = Inr x \<and> f x = Inl e)"
  by (auto simp: rbind_def split: sum.splits)

lemma rbind_cong [fundef_cong]:
  "m = m' \<Longrightarrow> (\<And>x. m' = Inr x \<Longrightarrow> f x = f' x) \<Longrightarrow> rbind m f = rbind m' f'"
  by (auto simp: rbind_def split: sum.splits)

definition guardr :: "bool \<Rightarrow> exn \<Rightarrow> unit res" where
  "guardr b e = (if b then Inr () else Inl e)"

lemma guardr_simps [simp]: "guardr True e = Inr ()" "guardr False e = Inl e"
  by (simp_all add: guardr_def)

lemma guardr_Inr_iff: "guardr b e = Inr u \<longleftrightarrow> b"
  by (auto simp: guardr_def)

text \<open>A range-based \<open>for\<close> over a list whose body may throw.\<close>

fun foldr_res :: "('a \<Rightarrow> 's \<Rightarrow> 's res) \<Rightarrow> 'a list \<Rightarrow> 's \<Rightarrow> 's res" where
  "foldr_res f [] s = Inr s"
| "foldr_res f (x # xs) s = rbind (f x s) (foldr_res f xs)"

lemma foldr_res_append:
  "foldr_res f (xs @ ys) s = rbind (foldr_res f xs s) (foldr_res f ys)"
proof (induction xs arbitrary: s)
  case (Cons x xs)
  then show ?case by (cases "f x s") auto
qed simp

lemma foldr_res_cong [fundef_cong]:
  "xs = ys \<Longrightarrow> s = t \<Longrightarrow> (\<And>x s. x \<in> set ys \<Longrightarrow> f x s = g x s) \<Longrightarrow>
     foldr_res f xs s = foldr_res g ys t"
proof (induction xs arbitrary: s t ys)
  case (Cons x xs)
  then show ?case by (auto simp: rbind_def split: sum.splits)
qed simp

text \<open>Loops that never throw are plain folds.\<close>

lemma foldr_res_pure:
  "(\<And>x s. x \<in> set xs \<Longrightarrow> f x s = Inr (g x s)) \<Longrightarrow> foldr_res f xs s = Inr (fold g xs s)"
  by (induction xs arbitrary: s) auto

lemma foldr_res_invariant:
  assumes "foldr_res f xs s = Inr t" and "P s"
    and "\<And>x s t. x \<in> set xs \<Longrightarrow> P s \<Longrightarrow> f x s = Inr t \<Longrightarrow> P t"
  shows "P t"
  using assms
proof (induction xs arbitrary: s)
  case (Cons x xs)
  then obtain u where "f x s = Inr u" "foldr_res f xs u = Inr t"
    by (auto simp: rbind_Inr_iff)
  with Cons show ?case by (meson list.set_intros)
qed simp

text \<open>A loop that fills a list.\<close>

fun mapr :: "('a \<Rightarrow> 'b res) \<Rightarrow> 'a list \<Rightarrow> 'b list res" where
  "mapr f [] = Inr []"
| "mapr f (x # xs) = rbind (f x) (\<lambda>y. rbind (mapr f xs) (\<lambda>ys. Inr (y # ys)))"

lemma mapr_cong [fundef_cong]: "xs = ys \<Longrightarrow> (\<And>x. x \<in> set ys \<Longrightarrow> f x = g x) \<Longrightarrow> mapr f xs = mapr g ys"
  by (induction xs arbitrary: ys) auto

lemma mapr_pure: "(\<And>x. x \<in> set xs \<Longrightarrow> f x = Inr (g x)) \<Longrightarrow> mapr f xs = Inr (map g xs)"
  by (induction xs) auto

lemma mapr_Inr_iff: "mapr f xs = Inr ys \<longleftrightarrow> length ys = length xs \<and> (\<forall>i<length xs. f (xs ! i) = Inr (ys ! i))"
proof (induction xs arbitrary: ys)
  case (Cons x xs)
  show ?case
  proof (cases ys)
    case Nil
    then show ?thesis by (auto simp: rbind_Inr_iff)
  next
    case (Cons y zs)
    then show ?thesis using Cons.IH [of zs] by (auto simp: rbind_Inr_iff All_less_Suc2)
  qed
qed auto

subsection \<open>Lists\<close>

lemma fold_invariant_list:
  assumes "P s" and "\<And>x s. x \<in> set xs \<Longrightarrow> P s \<Longrightarrow> P (f x s)"
  shows "P (fold f xs s)"
  using assms by (induction xs arbitrary: s) auto

lemma fold_length: "(\<And>x s. length (f x s) = length s) \<Longrightarrow> length (fold f xs s) = length s"
  by (induction xs arbitrary: s) auto

text \<open>A checked read of a vector; reading past the end is undefined behaviour in C++.\<close>

definition at :: "'a list \<Rightarrow> nat \<Rightarrow> 'a res" where
  "at xs i = (if i < length xs then Inr (xs ! i) else Inl UB)"

lemma at_Inr [simp]: "i < length xs \<Longrightarrow> at xs i = Inr (xs ! i)"
  by (simp add: at_def)

lemma at_UB [simp]: "\<not> i < length xs \<Longrightarrow> at xs i = Inl UB"
  by (simp add: at_def)

lemma at_Inr_iff: "at xs i = Inr x \<longleftrightarrow> i < length xs \<and> x = xs ! i"
  by (auto simp: at_def)

lemma foldr_res_concat:
  "foldr_res (\<lambda>x s. foldr_res (f x) (g x) s) xs s = foldr_res (\<lambda>(x, y). f x y) (concat (map (\<lambda>x. map (Pair x) (g x)) xs)) s"
proof (induction xs arbitrary: s)
  case (Cons x xs)
  have "foldr_res (\<lambda>(x, y). f x y) (map (Pair x) ys) s = foldr_res (f x) ys s" for ys s
    by (induction ys arbitrary: s) (auto simp: rbind_def split: sum.splits)
  with Cons show ?case by (auto simp: foldr_res_append rbind_def split: sum.splits)
qed simp

lemma foldr_res_map: "foldr_res f (map g xs) s = foldr_res (\<lambda>x. f (g x)) xs s"
  by (induction xs arbitrary: s) (auto simp: rbind_def split: sum.splits)

lemma foldr_res_upt_nth: "foldr_res f xs s = foldr_res (\<lambda>i. f (xs ! i)) [0..<length xs] s"
  using foldr_res_map [of f "(!) xs" "[0..<length xs]"] by (simp add: map_nth)

text \<open>Counting occurrences over an initial segment that contains every element.\<close>

lemma sum_count_list: "(\<And>x. x \<in> set xs \<Longrightarrow> x < n) \<Longrightarrow> (\<Sum>c<n. count_list xs c) = length xs" for n :: nat
proof (induction xs)
  case (Cons x xs)
  have "(\<Sum>c<n. count_list (x # xs) c) = (\<Sum>c<n. (if c = x then 1 else 0) + count_list xs c)"
    by (intro sum.cong) auto
  also have "\<dots> = (\<Sum>c<n. if c = x then 1 else 0) + length xs" using Cons by (simp add: sum.distrib)
  also have "(\<Sum>c<n. if c = x then 1 else 0) = (1 :: nat)"
    using Cons.prems [of x] sum.delta [of "{..<n}" x "\<lambda>_. 1 :: nat"] by simp
  finally show ?case by simp
qed simp

text \<open>Cutting a list into blocks and joining the blocks.\<close>

lemma concat_take_drop: "concat (map (\<lambda>k. take m (drop (m * k) xs)) [0..<n]) = take (m * n) xs"
proof (induction n)
  case (Suc n)
  have "take (m * Suc n) xs = take (m * n) xs @ take m (drop (m * n) xs)"
    by (simp add: take_add [symmetric] add.commute)
  with Suc show ?case by simp
qed simp

end
