(* ===== verification/Combination.thy ===== *)
theory Combination
  imports Prelude
begin

section \<open>Enumerating combinations\<close>

text \<open>
  \<open>choose\<close> and \<open>ithCombination\<close> of \<open>src/out/libOTe/libOTe/Tools/LDPC/Util.cpp\<close>, which the binary
  encoder uses to try the choices of its dense columns one after the other. All arithmetic is on
  64-bit words, a division by zero is \<open>UB\<close>.

  As long as no product leaves 64 bits, \<open>choose\<close> is the binomial coefficient and
  \<open>ithCombination\<close> numbers the k-element subsets of [0, n): the index of a combination is its
  rank in the combinatorial number system.
\<close>

definition udiv :: "u64 \<Rightarrow> u64 \<Rightarrow> u64 res" where
  "udiv a b = (if b = 0 then Inl UB else Inr (a div b))"

fun choose_u64 :: "u64 \<Rightarrow> nat \<Rightarrow> u64" where
  "choose_u64 n 0 = 1"
| "choose_u64 n (Suc k) = (n * choose_u64 (n - 1) k) div of_nat (Suc k)"

text \<open>The loop that computes the number of combinations.\<close>

definition comb_count :: "u64 \<Rightarrow> nat \<Rightarrow> u64" where
  "comb_count n k = fold (\<lambda>i nCk. nCk * (n - of_nat i) div of_nat (i + 1)) [0..<k] 1"

text \<open>The inner loop; its state is \<open>curIndex\<close>, \<open>nCk\<close> and \<open>n\<close>.\<close>

fun comb_skip :: "nat \<Rightarrow> u64 \<Rightarrow> u64 \<Rightarrow> u64 \<times> u64 \<times> u64 \<Rightarrow> (u64 \<times> u64 \<times> u64) res" where
  "comb_skip fuel index kk (curIndex, nCk, n) =
     (if \<not> curIndex - nCk > index then Inr (curIndex, nCk, n)
      else case fuel of
        0 \<Rightarrow> Inl Diverges
      | Suc fuel \<Rightarrow>
          let curIndex = curIndex - nCk;
              nCk = nCk * (n - kk);
              nCk = nCk - nCk mod kk;
              n = n - 1
          in rbind (udiv nCk n) (\<lambda>nCk. comb_skip fuel index kk (curIndex, nCk, n)))"

declare comb_skip.simps [simp del]

text \<open>The outer loop, for \<open>kk\<close> down to 1; the set is filled from its end.\<close>

fun comb_loop :: "u64 \<Rightarrow> nat \<Rightarrow> u64 \<times> u64 \<times> u64 \<Rightarrow> u64 list \<Rightarrow> u64 list res" where
  "comb_loop index 0 s sel = Inr sel"
| "comb_loop index (Suc kk) s sel =
     (let (curIndex, nCk, n) = s in
      rbind (udiv (nCk * of_nat (Suc kk)) n) (\<lambda>nCk.
      rbind (comb_skip (unat n) index (of_nat (Suc kk)) (curIndex, nCk, n)) (\<lambda>(curIndex, nCk, n).
      comb_loop index kk (curIndex, nCk, n - 1) (sel[kk := n - 1]))))"

definition ithCombination :: "u64 \<Rightarrow> u64 \<Rightarrow> nat \<Rightarrow> u64 list res" where
  "ithCombination index n k =
     (let nCk = comb_count n k in comb_loop index k (nCk, nCk, n) (replicate k 0))"

subsection \<open>No wrap-around\<close>

lemma unat_mult_small: "unat a * unat b < 2 ^ 64 \<Longrightarrow> unat (a * b) = unat a * unat b" for a b :: u64
  using unat_mult_lem [of a b] by simp

lemma unat_of_nat_small: "n < 2 ^ 64 \<Longrightarrow> unat (of_nat n :: u64) = n"
  by (simp add: unat_of_nat take_bit_nat_eq_self)

lemma unat_minus_small: "unat b \<le> unat a \<Longrightarrow> unat (a - b) = unat a - unat b" for a b :: u64
  by (simp add: unat_sub_if_size)

lemma choose_step: "Suc k \<le> n \<Longrightarrow> n * ((n - 1) choose k) div Suc k = n choose Suc k"
  using nonzero_mult_div_cancel_left [of "Suc k" "n choose Suc k"] by (simp only: binomial_absorption [symmetric])

text \<open>Every intermediate product is bounded by one number.\<close>

definition comb_ok :: "nat \<Rightarrow> nat \<Rightarrow> bool" where
  "comb_ok n k \<longleftrightarrow> k \<le> n \<and> n < 2 ^ 64 \<and> (\<forall>i\<le>k. n * (n choose i) < 2 ^ 64)"

lemma comb_ok_small:
  assumes "n \<le> 64" "0 < k" "k \<le> 9" "k \<le> n"
  shows "comb_ok n k"
proof -
  have "n * (n choose i) < 2 ^ 64" if "i \<le> k" for i
  proof -
    have "n choose i \<le> n ^ i" using assms(4) that by (intro binomial_le_pow) simp
    also have "\<dots> \<le> 64 ^ i" using assms(1) by (rule power_mono) simp
    also have "\<dots> \<le> 64 ^ 9" using that assms(3) by (intro power_increasing) simp_all
    finally have "n * (n choose i) \<le> 64 * 64 ^ 9" using assms(1) by (intro mult_le_mono)
    also have "\<dots> < (2 :: nat) ^ 64" by simp
    finally show ?thesis .
  qed
  with assms show ?thesis by (simp add: comb_ok_def)
qed

lemma choose_u64_eq:
  assumes "k \<le> unat n" and "\<forall>i\<le>k. unat n * (unat n choose i) < 2 ^ 64"
  shows "unat (choose_u64 n k) = unat n choose k"
  using assms
proof (induction k arbitrary: n)
  case (Suc k)
  then have n: "0 < unat n" by simp
  then have u: "unat (n - 1) = unat n - 1" by (subst unat_minus_small) simp_all
  have mono: "(unat n - 1 choose i) \<le> (unat n choose i)" for i by (rule binomial_right_mono) simp
  have "\<forall>i\<le>k. unat (n - 1) * (unat (n - 1) choose i) < 2 ^ 64"
  proof (intro allI impI)
    fix i assume "i \<le> k"
    then have "unat n * (unat n choose i) < 2 ^ 64" using Suc.prems by simp
    moreover have "unat (n - 1) * (unat (n - 1) choose i) \<le> unat n * (unat n choose i)"
      unfolding u by (intro mult_le_mono mono) simp
    ultimately show "unat (n - 1) * (unat (n - 1) choose i) < 2 ^ 64" by linarith
  qed
  with Suc.IH [of "n - 1"] Suc.prems u have IH: "unat (choose_u64 (n - 1) k) = (unat n - 1 choose k)" by simp
  have "unat n * (unat n - 1 choose k) \<le> unat n * (unat n choose k)" by (intro mult_le_mono mono) simp
  also have "\<dots> < 2 ^ 64" using Suc.prems by simp
  finally have "unat (n * choose_u64 (n - 1) k) = unat n * (unat n - 1 choose k)"
    using IH by (simp add: unat_mult_small)
  moreover have "unat (of_nat (Suc k) :: u64) = Suc k"
    using Suc.prems(1) unsigned_less [of n, where ?'a = nat] by (intro unat_of_nat_small) simp
  ultimately have "unat (choose_u64 n (Suc k)) = unat n * (unat n - 1 choose k) div Suc k"
    by (simp only: choose_u64.simps unat_div)
  also have "\<dots> = unat n choose Suc k" using Suc.prems(1) by (rule choose_step)
  finally show ?case .
qed simp

lemma comb_count_eq:
  assumes "comb_ok (unat n) k"
  shows "unat (comb_count n k) = unat n choose k"
proof -
  have "j \<le> k \<Longrightarrow> unat (fold (\<lambda>i nCk. nCk * (n - of_nat i) div of_nat (i + 1)) [0..<j] 1) = unat n choose j" for j
  proof (induction j)
    case (Suc j)
    let ?c = "fold (\<lambda>i nCk. nCk * (n - of_nat i) div of_nat (i + 1)) [0..<j] 1"
    have lt: "j < unat n" "Suc j < 2 ^ 64" using Suc.prems assms unsigned_less [of n, where ?'a = nat] by (auto simp: comb_ok_def)
    then have u: "unat (of_nat j :: u64) = j" "unat (of_nat (j + 1) :: u64) = Suc j"
      by (simp_all add: unat_of_nat_small del: of_nat_add of_nat_Suc)
    have d: "unat (n - of_nat j) = unat n - j" using u lt by (subst unat_minus_small) simp_all
    have "(unat n choose j) * (unat n - j) \<le> (unat n choose j) * unat n" by (intro mult_le_mono) simp_all
    also have "\<dots> < 2 ^ 64" using assms Suc.prems by (simp add: comb_ok_def mult.commute)
    finally have "unat (?c * (n - of_nat j)) = (unat n choose j) * (unat n - j)"
      using Suc d by (simp add: unat_mult_small)
    then have "unat (?c * (n - of_nat j) div of_nat (j + 1)) = (unat n choose j) * (unat n - j) div Suc j"
      by (simp only: unat_div u)
    also have "(unat n choose j) * (unat n - j) = Suc j * (unat n choose Suc j)"
      by (metis binomial_absorb_comp binomial_absorption mult.commute)
    also have "\<dots> div Suc j = unat n choose Suc j" by (rule nonzero_mult_div_cancel_left) simp
    finally show ?case by (simp only: upt_Suc_append le0 fold_append fold_simps comp_apply)
  qed simp
  then show ?thesis by (simp add: comb_count_def)
qed

subsection \<open>The search for a combination\<close>

text \<open>Inside the loops, for the largest binomial coefficient \<open>B\<close> and the number of items \<open>N\<close>.\<close>

definition comb_state :: "nat \<Rightarrow> nat \<Rightarrow> u64 \<Rightarrow> nat \<Rightarrow> u64 \<times> u64 \<times> u64 \<Rightarrow> bool" where
  "comb_state N B index kk s \<longleftrightarrow> (case s of (cur, nCk, n) \<Rightarrow>
     Suc kk \<le> unat n \<and> unat n \<le> N \<and> unat nCk = (unat n - 1 choose kk) \<and>
     (unat n choose Suc kk) \<le> unat cur \<and> unat cur \<le> B \<and> unat cur - (unat n choose Suc kk) \<le> unat index)"

lemma binomial_pred: "Suc kk \<le> n \<Longrightarrow> (n choose Suc kk) = (n - 1 choose kk) + (n - 1 choose Suc kk)"
  by (cases n) simp_all

lemma comb_skip_step:
  assumes st: "comb_state N B index kk (cur, nCk, n)" and big: "N * B < 2 ^ 64" and go: "cur - nCk > index"
  shows "\<exists>nCk'. udiv (nCk * (n - of_nat (Suc kk)) - nCk * (n - of_nat (Suc kk)) mod of_nat (Suc kk)) (n - 1) = Inr nCk' \<and>
    comb_state N B index kk (cur - nCk, nCk', n - 1) \<and> (index < cur \<longrightarrow> index < cur - nCk) \<and> unat (n - 1) = unat n - 1 \<and>
    unat (cur - nCk) - (unat (n - 1) choose Suc kk) = unat cur - (unat n choose Suc kk)"
proof -
  let ?n = "unat n" and ?c = "unat cur"
  have S: "Suc kk \<le> ?n" "?n \<le> N" "unat nCk = (?n - 1 choose kk)" "(?n choose Suc kk) \<le> ?c" "?c \<le> B"
    "?c - (?n choose Suc kk) \<le> unat index" using st by (auto simp: comb_state_def)
  note pas = binomial_pred [OF S(1)]
  have cn: "unat (cur - nCk) = ?c - (?n - 1 choose kk)" using S pas by (subst unat_minus_small) simp_all
  have "unat index < ?c - (?n - 1 choose kk)" using go cn by (simp add: word_less_nat_alt)
  then have "0 < (?n - 1 choose Suc kk)" using S(4,6) pas by linarith
  then have n1: "Suc kk \<le> ?n - 1" using zero_less_binomial_iff by auto
  have un: "unat (n - 1) = ?n - 1" using S(1) by (subst unat_minus_small) simp_all
  have uk: "unat (of_nat (Suc kk) :: u64) = Suc kk"
    using S(1) unsigned_less [of n, where ?'a = nat] by (intro unat_of_nat_small) simp
  have unk: "unat (n - of_nat (Suc kk)) = ?n - Suc kk" using uk S(1) by (subst unat_minus_small) simp_all
  have "(?n - 1 choose kk) * (?n - Suc kk) \<le> B * N" using S pas by (intro mult_le_mono) linarith+
  then have prod: "unat (nCk * (n - of_nat (Suc kk))) = (?n - 1 choose kk) * (?n - Suc kk)"
    using S(3) unk big by (subst unat_mult_small) (simp_all add: mult.commute)
  have e1: "(?n - 1 choose kk) * (?n - Suc kk) = (?n - 1) * (?n - 1 - 1 choose kk)"
    using binomial_absorb_comp [of "?n - 1" kk] by (simp add: mult.commute)
  have e2: "(?n - 1 choose kk) * (?n - Suc kk) = Suc kk * (?n - 1 choose Suc kk)"
    using binomial_absorb_comp [of "?n - 1" kk] binomial_absorption [of kk "?n - 1"] by (simp add: mult.commute)
  have n0: "?n - 1 \<noteq> 0" using n1 by simp
  then have div: "(?n - 1 choose kk) * (?n - Suc kk) mod Suc kk = 0"
    "(?n - 1 choose kk) * (?n - Suc kk) div (?n - 1) = (?n - 1 - 1 choose kk)"
    by (simp only: e2 mod_mult_self1_is_0, simp only: e1 nonzero_mult_div_cancel_left [OF n0])
  let ?q = "(nCk * (n - of_nat (Suc kk)) - nCk * (n - of_nat (Suc kk)) mod of_nat (Suc kk)) div (n - 1)"
  have "nCk * (n - of_nat (Suc kk)) mod of_nat (Suc kk) = 0"
    using prod div(1) uk by (simp add: unat_mod word_unat_eq_iff del: of_nat_Suc)
  then have q: "unat ?q = (unat (n - 1) - 1 choose kk)" using prod div(2) un by (simp add: unat_div)
  have "n - 1 \<noteq> 0" using n1 un by (metis Suc_le_lessD not_less0 unsigned_0)
  moreover have "comb_state N B index kk (cur - nCk, ?q, n - 1)"
    using S n1 q pas unfolding comb_state_def prod.case cn un by (intro conjI) linarith+
  moreover have "index < cur - nCk" using go .
  moreover have "unat (cur - nCk) - (unat (n - 1) choose Suc kk) = ?c - (?n choose Suc kk)"
    using cn un pas S by simp
  ultimately show ?thesis using un by (intro exI [of _ ?q]) (simp add: udiv_def)
qed

lemma comb_skip_ok:
  assumes "comb_state N B index kk (cur, nCk, n)" and big: "N * B < 2 ^ 64" and "unat n - Suc kk \<le> fuel"
  shows "\<exists>cur' nCk' n'. comb_skip fuel index (of_nat (Suc kk)) (cur, nCk, n) = Inr (cur', nCk', n') \<and>
    comb_state N B index kk (cur', nCk', n') \<and> (index < cur \<longrightarrow> index < cur') \<and> unat n' \<le> unat n \<and>
    unat cur' - unat nCk' \<le> unat index \<and>
    unat cur' - (unat n' choose Suc kk) = unat cur - (unat n choose Suc kk)"
  using assms(1,3)
proof (induction fuel arbitrary: cur nCk n)
  case 0
  then have "unat n = Suc kk" by (auto simp: comb_state_def)
  with 0 have b: "unat nCk \<le> unat cur" "unat cur - unat nCk \<le> unat index" by (auto simp: comb_state_def)
  then have "\<not> cur - nCk > index" by (simp add: word_less_nat_alt unat_minus_small)
  with 0 b show ?case by (subst comb_skip.simps) auto
next
  case (Suc fuel)
  show ?case
  proof (cases "cur - nCk > index")
    case False
    have "unat nCk \<le> unat cur" using Suc.prems(1) binomial_pred [of kk "unat n"] by (auto simp: comb_state_def)
    then have "unat cur - unat nCk \<le> unat index" using False by (simp add: word_less_nat_alt unat_minus_small)
    with False Suc.prems show ?thesis by (subst comb_skip.simps) auto
  next
    case True
    from comb_skip_step [OF Suc.prems(1) big True] obtain nCk' where
      1: "udiv (nCk * (n - of_nat (Suc kk)) - nCk * (n - of_nat (Suc kk)) mod of_nat (Suc kk)) (n - 1) = Inr nCk'"
      "comb_state N B index kk (cur - nCk, nCk', n - 1)" "index < cur \<longrightarrow> index < cur - nCk" "unat (n - 1) = unat n - 1"
      "unat (cur - nCk) - (unat (n - 1) choose Suc kk) = unat cur - (unat n choose Suc kk)" by blast
    have "unat (n - 1) - Suc kk \<le> fuel" using 1(4) Suc.prems(2) by simp
    from Suc.IH [OF 1(2) this] obtain cur' nCk'' n' where
      2: "comb_skip fuel index (of_nat (Suc kk)) (cur - nCk, nCk', n - 1) = Inr (cur', nCk'', n')"
      "comb_state N B index kk (cur', nCk'', n')" "index < cur - nCk \<longrightarrow> index < cur'" "unat n' \<le> unat (n - 1)"
      "unat cur' - unat nCk'' \<le> unat index"
      "unat cur' - (unat n' choose Suc kk) = unat (cur - nCk) - (unat (n - 1) choose Suc kk)" by blast
    have "comb_skip (Suc fuel) index (of_nat (Suc kk)) (cur, nCk, n) = Inr (cur', nCk'', n')"
      using True 1(1) 2(1) by (subst comb_skip.simps) (simp only: Let_def if_False not_True_eq_False nat.case rbind_simps simp_thms)
    moreover have "unat n' \<le> unat n" using 2(4) 1(4) by simp
    ultimately show ?thesis using 1 2 by (intro exI [of _ cur'] exI [of _ nCk''] exI [of _ n']) simp
  qed
qed

lemma comb_loop_ok:
  assumes "kk \<le> unat n" "unat n \<le> N" "unat nCk = (unat n choose kk)" "unat nCk \<le> unat cur" "unat cur \<le> B"
    and "unat cur - unat nCk \<le> unat index" and big: "N * B < 2 ^ 64" "N < 2 ^ 64" and "kk \<le> length sel"
  shows "\<exists>sel'. comb_loop index kk (cur, nCk, n) sel = Inr sel' \<and> length sel' = length sel \<and>
    (\<forall>i<length sel. kk \<le> i \<longrightarrow> sel' ! i = sel ! i) \<and> (\<forall>i<kk. unat (sel' ! i) < unat n) \<and>
    (\<forall>i j. i < j \<longrightarrow> j < kk \<longrightarrow> unat (sel' ! i) < unat (sel' ! j)) \<and>
    (index < cur \<longrightarrow> unat cur - unat nCk + (\<Sum>i<kk. unat (sel' ! i) choose Suc i) = unat index)"
  using assms(1-6,9)
proof (induction kk arbitrary: cur nCk n sel)
  case 0
  then show ?case by (auto simp: word_less_nat_alt)
next
  case (Suc kk)
  let ?n = "unat n" and ?q = "nCk * of_nat (Suc kk) div n"
  have uk: "unat (of_nat (Suc kk) :: u64) = Suc kk" using Suc.prems(1,2) big(2) by (intro unat_of_nat_small) simp
  have "(?n choose Suc kk) * Suc kk \<le> B * N" using Suc.prems by (intro mult_le_mono) linarith+
  then have "unat (nCk * of_nat (Suc kk)) = (?n choose Suc kk) * Suc kk"
    using Suc.prems(3) uk big(1) by (subst unat_mult_small) (simp_all add: mult.commute del: of_nat_Suc)
  moreover have "(?n choose Suc kk) * Suc kk = ?n * (?n - 1 choose kk)"
    using binomial_absorption [of kk ?n] by (simp only: mult.commute)
  moreover have "?n \<noteq> 0" using Suc.prems(1) by simp
  ultimately have q: "unat ?q = (?n - 1 choose kk)" by (simp only: unat_div nonzero_mult_div_cancel_left [OF \<open>?n \<noteq> 0\<close>])
  then have u: "udiv (nCk * of_nat (Suc kk)) n = Inr ?q" using \<open>?n \<noteq> 0\<close> by (auto simp: udiv_def)
  have "comb_state N B index kk (cur, ?q, n)" using Suc.prems q by (simp add: comb_state_def)
  from comb_skip_ok [OF this big(1), of ?n] obtain cur' nCk' n' where
    s: "comb_skip ?n index (of_nat (Suc kk)) (cur, ?q, n) = Inr (cur', nCk', n')"
    "comb_state N B index kk (cur', nCk', n')" "index < cur \<longrightarrow> index < cur'" "unat n' \<le> ?n"
    "unat cur' - unat nCk' \<le> unat index" "unat cur' - (unat n' choose Suc kk) = unat cur - (?n choose Suc kk)" by auto
  have S: "Suc kk \<le> unat n'" "unat n' \<le> N" "unat nCk' = (unat n' - 1 choose kk)" "(unat n' choose Suc kk) \<le> unat cur'"
    "unat cur' \<le> B" using s(2) by (auto simp: comb_state_def)
  have un: "unat (n' - 1) = unat n' - 1" using S(1) by (subst unat_minus_small) simp_all
  note pas = binomial_pred [OF S(1)]
  have "kk \<le> unat (n' - 1)" "unat (n' - 1) \<le> N" "unat nCk' = (unat (n' - 1) choose kk)" "unat nCk' \<le> unat cur'"
    "kk \<le> length (sel[kk := n' - 1])" using S un pas Suc.prems(7) by simp_all
  from Suc.IH [OF this(1-4) S(5) s(5) this(5), unfolded length_list_update] obtain sel' where
    l: "comb_loop index kk (cur', nCk', n' - 1) (sel[kk := n' - 1]) = Inr sel'" "length sel' = length sel"
    "\<forall>i<length sel. kk \<le> i \<longrightarrow> sel' ! i = sel[kk := n' - 1] ! i" "\<forall>i<kk. unat (sel' ! i) < unat (n' - 1)"
    "\<forall>i j. i < j \<longrightarrow> j < kk \<longrightarrow> unat (sel' ! i) < unat (sel' ! j)"
    "index < cur' \<longrightarrow> unat cur' - unat nCk' + (\<Sum>i<kk. unat (sel' ! i) choose Suc i) = unat index" by blast
  have k: "sel' ! kk = n' - 1" using l(3) Suc.prems(7) by simp
  have "comb_loop index (Suc kk) (cur, nCk, n) sel = Inr sel'" using u s(1) l(1) by simp
  moreover have "\<forall>i<length sel. Suc kk \<le> i \<longrightarrow> sel' ! i = sel ! i" using l(3) by simp
  moreover have "\<forall>i<Suc kk. unat (sel' ! i) < ?n"
    using l(4) k un S(1) s(4) by (auto simp: less_Suc_eq)
  moreover have "\<forall>i j. i < j \<longrightarrow> j < Suc kk \<longrightarrow> unat (sel' ! i) < unat (sel' ! j)"
    using l(4,5) k by (auto simp: less_Suc_eq)
  moreover have "index < cur \<longrightarrow> unat cur - unat nCk + (\<Sum>i<Suc kk. unat (sel' ! i) choose Suc i) = unat index"
    using l(6) s(3,6) S(3,4) pas Suc.prems(3) unfolding sum.lessThan_Suc k un by linarith
  ultimately show ?case using l(2) by (intro exI [of _ sel']) simp
qed

subsection \<open>The properties\<close>

lemma sorted_unat: "sorted_wrt (<) (map unat xs) \<longleftrightarrow> sorted_wrt (<) xs" for xs :: "'a::len word list"
  by (simp add: sorted_wrt_map flip: word_less_nat_alt)

lemma ithCombination_correct_aux:
  assumes "comb_ok (unat n) k"
  shows "unat (choose_u64 n k) = (unat n choose k) \<and>
    (\<exists>sel. ithCombination index n k = Inr sel \<and> length sel = k \<and> sorted_wrt (<) sel \<and> (\<forall>x\<in>set sel. x < n) \<and>
      (unat index < (unat n choose k) \<longrightarrow> (\<Sum>i<k. unat (sel ! i) choose Suc i) = unat index))"
proof
  have ok: "k \<le> unat n" "unat n < 2 ^ 64" "\<forall>i\<le>k. unat n * (unat n choose i) < 2 ^ 64" using assms by (auto simp: comb_ok_def)
  then show "unat (choose_u64 n k) = (unat n choose k)" by (intro choose_u64_eq)
  let ?c = "comb_count n k"
  have c: "unat ?c = (unat n choose k)" using assms by (rule comb_count_eq)
  have "unat n * (unat n choose k) < 2 ^ 64" "unat ?c - unat ?c \<le> unat index" using ok(3) by simp_all
  from comb_loop_ok [OF ok(1) order_refl c order_refl _ this(2,1) ok(2), of "replicate k 0"] c
  obtain sel where s: "comb_loop index k (?c, ?c, n) (replicate k 0) = Inr sel" "length sel = k"
    "\<forall>i<k. unat (sel ! i) < unat n" "\<forall>i j. i < j \<longrightarrow> j < k \<longrightarrow> unat (sel ! i) < unat (sel ! j)"
    "index < ?c \<longrightarrow> (\<Sum>i<k. unat (sel ! i) choose Suc i) = unat index" by (auto simp del: comb_loop.simps)
  have "\<forall>x\<in>set sel. x < n" using s(2,3) by (simp add: all_set_conv_all_nth word_less_nat_alt)
  moreover have "sorted_wrt (<) sel" using s(2,4) by (simp add: sorted_wrt_iff_nth_less word_less_nat_alt)
  moreover have "unat index < (unat n choose k) \<longrightarrow> (\<Sum>i<k. unat (sel ! i) choose Suc i) = unat index"
    using s(5) c by (simp add: word_less_nat_alt)
  ultimately show "\<exists>sel. ithCombination index n k = Inr sel \<and> length sel = k \<and> sorted_wrt (<) sel \<and> (\<forall>x\<in>set sel. x < n) \<and>
      (unat index < (unat n choose k) \<longrightarrow> (\<Sum>i<k. unat (sel ! i) choose Suc i) = unat index)"
    using s(1,2) by (intro exI [of _ sel]) (simp add: ithCombination_def Let_def)
qed

text \<open>C21: as long as no product exceeds 64 bits, choose returns the binomial coefficient, and for every
  index below it ithCombination returns a strictly increasing list of k numbers below n whose rank
  in the combinatorial number system is the index, so that distinct indices give distinct
  combinations.\<close>

theorem ithCombination_correct:
  assumes "comb_ok (unat n) k"
  shows "unat (choose_u64 n k) = (unat n choose k) \<and>
    (\<exists>sel. ithCombination index n k = Inr sel \<and> length sel = k \<and> sorted_wrt (<) sel \<and> (\<forall>x\<in>set sel. x < n) \<and>
      (unat index < (unat n choose k) \<longrightarrow> (\<Sum>i<k. unat (sel ! i) choose Suc i) = unat index))"
  using assms by (rule ithCombination_correct_aux)

theorem ithCombination_correct_witness:
  "\<exists>sel. ithCombination 4 5 2 = Inr sel \<and> length sel = 2 \<and> (\<Sum>i<2. unat (sel ! i) choose Suc i) = 4"
proof -
  have "i \<le> 2 \<Longrightarrow> 5 * (5 choose i) < (2 :: nat) ^ 64" for i :: nat
    by (cases "i = 0"; cases "i = 1"; cases "i = 2") (simp_all add: choose_two)
  then have "comb_ok (unat (5 :: u64)) 2" by (simp add: comb_ok_def)
  from ithCombination_correct [OF this, of 4] show ?thesis by (auto simp: choose_two)
qed

lemma ithCombination_complete_aux:
  assumes "comb_ok (unat n) k" and "B \<subseteq> {..<unat n}" and "card B = k"
  shows "\<exists>index sel. unat index < (unat n choose k) \<and> ithCombination index n k = Inr sel \<and> unat ` set sel = B"
proof -
  let ?N = "unat n choose k" and ?S = "{B. B \<subseteq> {..<unat n} \<and> card B = k}"
  let ?sel = "\<lambda>i. projr (ithCombination (of_nat i) n k)"
  let ?f = "\<lambda>i. unat ` set (?sel i)"
  have "?N < 2 ^ 64"
  proof (cases "unat n = 0")
    case False
    then have "1 * ?N \<le> unat n * ?N" by (intro mult_le_mono1) simp
    moreover have "unat n * ?N < 2 ^ 64" using assms(1) by (simp add: comb_ok_def)
    ultimately show ?thesis by linarith
  qed (cases k; simp)
  then have u: "unat (of_nat i :: u64) = i" if "i < ?N" for i using that by (intro unat_of_nat_small) simp
  have sel: "ithCombination (of_nat i) n k = Inr (?sel i) \<and> length (?sel i) = k \<and> sorted_wrt (<) (map unat (?sel i)) \<and>
      set (?sel i) \<subseteq> {..<n} \<and> (\<Sum>j<k. unat (?sel i ! j) choose Suc j) = i" if "i < ?N" for i
  proof -
    note i = that
    obtain s where "ithCombination (of_nat i) n k = Inr s" "length s = k" "sorted_wrt (<) s" "\<forall>x\<in>set s. x < n"
      "(\<Sum>j<k. unat (s ! j) choose Suc j) = i"
      using ithCombination_correct_aux [OF assms(1), of "of_nat i"] u [OF i] i by auto
    then show ?thesis by (simp only: sum.sel sorted_unat) auto
  qed
  have fi: "?f i \<in> ?S" if "i < ?N" for i
  proof -
    have "?f i = set (map unat (?sel i))" by simp
    moreover have "distinct (map unat (?sel i))" using sel [OF that] strict_sorted_iff by blast
    ultimately have "card (?f i) = k" using sel [OF that] distinct_card [of "map unat (?sel i)"] by simp
    moreover have "?f i \<subseteq> {..<unat n}" using sel [OF that] by (auto simp: word_less_nat_alt)
    ultimately show ?thesis by simp
  qed
  have "inj_on ?f {..<?N}"
  proof (rule inj_onI)
    fix i j assume ij: "i \<in> {..<?N}" "j \<in> {..<?N}" and "?f i = ?f j"
    then have "set (map unat (?sel i)) = set (map unat (?sel j))" by simp
    then have "map unat (?sel i) = map unat (?sel j)"
      using sel [of i] sel [of j] ij strict_sorted_equal by blast
    then have "?sel i = ?sel j" by (rule map_injective) (simp add: inj_def word_unat_eq_iff)
    then have "(\<Sum>t<k. unat (?sel i ! t) choose Suc t) = (\<Sum>t<k. unat (?sel j ! t) choose Suc t)" by (rule arg_cong)
    moreover have "(\<Sum>t<k. unat (?sel i ! t) choose Suc t) = i" "(\<Sum>t<k. unat (?sel j ! t) choose Suc t) = j"
      using sel [of i] sel [of j] ij unfolding lessThan_iff by blast+
    ultimately show "i = j" by linarith
  qed
  then have "card (?f ` {..<?N}) = ?N" by (simp add: card_image)
  moreover have "card ?S = ?N" using n_subsets [of "{..<unat n}" k] by simp
  moreover have "?f ` {..<?N} \<subseteq> ?S" using fi by blast
  moreover have "finite ?S" by (rule finite_subset [of _ "Pow {..<unat n}"]) auto
  ultimately have "?f ` {..<?N} = ?S" by (intro card_subset_eq) simp_all
  moreover have "B \<in> ?S" using assms(2,3) by simp
  ultimately have "B \<in> ?f ` {..<?N}" by (simp only:)
  then obtain i where i: "i < ?N" "B = ?f i" unfolding image_iff lessThan_iff by blast
  have "ithCombination (of_nat i) n k = Inr (?sel i)" using sel [OF i(1)] by (rule conjunct1)
  moreover have "unat (of_nat i :: u64) < ?N" using i(1) u [OF i(1)] by simp
  ultimately show ?thesis using i(2) by blast
qed

text \<open>The indices below the binomial coefficient enumerate every subset of k of the n numbers.\<close>

lemma ithCombination_complete:
  assumes "comb_ok (unat n) k" and "B \<subseteq> {..<unat n}" and "card B = k"
  shows "\<exists>index sel. unat index < (unat n choose k) \<and> ithCombination index n k = Inr sel \<and> unat ` set sel = B"
  using assms by (rule ithCombination_complete_aux)

end
