(* ===== verification/WeightData.thy ===== *)
theory WeightData
  imports Prelude
begin

section \<open>The column-weight buckets\<close>

text \<open>
  \<open>WeightData\<close> of \<open>src/volePSI/PxUtil.h\<close>: for every weight a doubly linked list of the
  columns of that weight, threaded through an array of nodes. Node pointers are indices into
  \<open>mNodes\<close>; \<open>nullptr\<close> is \<open>None\<close>. Links are the integers of the code, with
  \<open>NullNode = ~IdxType(0)\<close> for an index type of \<open>ib\<close> bits.

  Every operation is shown to refine the corresponding update of the abstract buckets, a
  function from weights to lists of columns, and to stay free of failed assertions and of
  undefined behaviour.
\<close>

record weight_node =
  nWeight :: nat
  mPrevWeightNode :: nat
  mNextWeightNode :: nat

record weight_data =
  mWeightSets :: "nat option list"
  mNodes :: "weight_node list"

definition NullNode :: "nat \<Rightarrow> nat" where "NullNode ib = 2 ^ ib - 1"

definition modNode :: "nat \<Rightarrow> (weight_node \<Rightarrow> weight_node) \<Rightarrow> weight_data \<Rightarrow> weight_data" where
  "modNode i f d = d\<lparr>mNodes := (mNodes d)[i := f (mNodes d ! i)]\<rparr>"

subsection \<open>The operations\<close>

definition pushNode :: "nat \<Rightarrow> nat \<Rightarrow> weight_data \<Rightarrow> weight_data res" where
  "pushNode ib i d =
     rbind (at (mNodes d) i) (\<lambda>node.
     rbind (guardr (mNextWeightNode node = NullNode ib \<and> mPrevWeightNode node = NullNode ib) AssertFail) (\<lambda>_.
     let w = nWeight node;
         sets = mWeightSets d @ replicate (w + 1 - length (mWeightSets d)) None
     in case sets ! w of
          None \<Rightarrow> Inr (d\<lparr>mWeightSets := sets[w := Some i]\<rparr>)
        | Some h \<Rightarrow>
            rbind (at (mNodes d) h) (\<lambda>hd_node.
            rbind (guardr (mPrevWeightNode hd_node = NullNode ib) AssertFail) (\<lambda>_.
            let d = modNode h (mPrevWeightNode_update (\<lambda>_. i)) d;
                d = modNode i (mNextWeightNode_update (\<lambda>_. h)) d
            in Inr (d\<lparr>mWeightSets := sets[w := Some i]\<rparr>)))))"

text \<open>\<open>while (mWeightSets.back() == nullptr) mWeightSets.pop_back();\<close>\<close>

function popNulls :: "nat option list \<Rightarrow> nat option list res" where
  "popNulls ws =
     (if ws = [] then Inl UB else if last ws = None then popNulls (butlast ws) else Inr ws)"
  by pat_completeness auto
termination by (relation "measure length") auto

declare popNulls.simps [simp del]

definition popNode :: "nat \<Rightarrow> nat \<Rightarrow> weight_data \<Rightarrow> weight_data res" where
  "popNode ib i d =
     rbind (at (mNodes d) i) (\<lambda>node.
     let w = nWeight node; p = mPrevWeightNode node; n = mNextWeightNode node in
     rbind
       (if p = NullNode ib then
          rbind (at (mWeightSets d) w) (\<lambda>ws.
          rbind (guardr (ws = Some i) AssertFail) (\<lambda>_.
          if n = NullNode ib then
            rbind (popNulls ((mWeightSets d)[w := None])) (\<lambda>sets.
            Inr (d\<lparr>mWeightSets := sets\<rparr>))
          else
            rbind (at (mNodes d) n) (\<lambda>_.
            Inr (modNode n (mPrevWeightNode_update (\<lambda>_. NullNode ib))
                   (d\<lparr>mWeightSets := (mWeightSets d)[w := Some n]\<rparr>)))))
        else
          rbind (at (mNodes d) p) (\<lambda>_.
          if n = NullNode ib then
            Inr (modNode p (mNextWeightNode_update (\<lambda>_. NullNode ib)) d)
          else
            rbind (at (mNodes d) n) (\<lambda>_.
            Inr (modNode n (mPrevWeightNode_update (\<lambda>_. p))
                   (modNode p (mNextWeightNode_update (\<lambda>_. n)) d)))))
       (\<lambda>d. Inr (modNode i (\<lambda>nd. nd\<lparr>mPrevWeightNode := NullNode ib, mNextWeightNode := NullNode ib\<rparr>) d)))"

definition decementWeight :: "nat \<Rightarrow> nat \<Rightarrow> weight_data \<Rightarrow> weight_data res" where
  "decementWeight ib i d =
     rbind (at (mNodes d) i) (\<lambda>node.
     rbind (guardr (nWeight node \<noteq> 0) AssertFail) (\<lambda>_.
     rbind (popNode ib i d) (\<lambda>d.
     pushNode ib i (modNode i (nWeight_update (\<lambda>w. w - 1)) d))))"

text \<open>\<open>getMinWeightNode\<close>: the loop over \<open>i = 1, 2, ...\<close>.\<close>

definition getMinWeightNode :: "weight_data \<Rightarrow> nat res" where
  "getMinWeightNode d =
     (case List.find (\<lambda>i. mWeightSets d ! i \<noteq> None) [1..<length (mWeightSets d)] of
        None \<Rightarrow> Inl RTE_LOC
      | Some i \<Rightarrow> Inr (the (mWeightSets d ! i)))"

text \<open>The walk along a list, which \<open>setSize\<close> and \<open>validate\<close> share. The fuel bounds the
  number of nodes visited; a list without a cycle never uses it up.\<close>

fun walk :: "nat \<Rightarrow> nat \<Rightarrow> weight_node list \<Rightarrow> nat option \<Rightarrow> nat list res" where
  "walk ib fuel ns None = Inr []"
| "walk ib 0 ns (Some i) = Inl Diverges"
| "walk ib (Suc fuel) ns (Some i) =
     rbind (at ns i) (\<lambda>node.
     rbind (walk ib fuel ns (if mNextWeightNode node \<noteq> NullNode ib then Some (mNextWeightNode node) else None))
       (\<lambda>is. Inr (i # is)))"

definition setSize :: "nat \<Rightarrow> nat \<Rightarrow> weight_data \<Rightarrow> nat res" where
  "setSize ib w d =
     rbind (at (mWeightSets d) w) (\<lambda>cur.
     rbind (walk ib (length (mNodes d)) (mNodes d) cur) (\<lambda>is. Inr (length is)))"

definition validate_node :: "nat \<Rightarrow> weight_node list \<Rightarrow> nat \<Rightarrow> nat \<Rightarrow> bool" where
  "validate_node ib ns w i \<longleftrightarrow>
     nWeight (ns ! i) = w \<and>
     (mNextWeightNode (ns ! i) \<noteq> NullNode ib \<longrightarrow>
        mNextWeightNode (ns ! i) < length ns \<and>
        mPrevWeightNode (ns ! mNextWeightNode (ns ! i)) = i)"

definition validate_set :: "nat \<Rightarrow> weight_data \<Rightarrow> nat \<Rightarrow> nat list \<Rightarrow> nat list res" where
  "validate_set ib d w seen =
     rbind (walk ib (length (mNodes d)) (mNodes d) (mWeightSets d ! w)) (\<lambda>is.
     rbind (guardr (list_all (validate_node ib (mNodes d) w) is \<and> distinct (is @ seen)) AssertFail) (\<lambda>_.
     Inr (is @ seen)))"

definition validate :: "nat \<Rightarrow> weight_data \<Rightarrow> unit res" where
  "validate ib d =
     rbind (foldr_res (validate_set ib d) [0..<length (mWeightSets d)] []) (\<lambda>seen.
     guardr (length seen = length (mNodes d)) AssertFail)"

definition initNode :: "nat \<Rightarrow> nat list \<Rightarrow> nat \<Rightarrow> weight_data \<Rightarrow> weight_data res" where
  "initNode ib weights i d =
     (let w = weights ! i;
          d = modNode i (\<lambda>_. \<lparr>nWeight = w, mPrevWeightNode = NullNode ib, mNextWeightNode = NullNode ib\<rparr>) d
      in if w < length (mWeightSets d)
         then (case mWeightSets d ! w of
                 None \<Rightarrow> Inr (d\<lparr>mWeightSets := (mWeightSets d)[w := Some i]\<rparr>)
               | Some h \<Rightarrow>
                   rbind (at (mNodes d) h) (\<lambda>hd_node.
                   rbind (guardr (mPrevWeightNode hd_node = NullNode ib) AssertFail) (\<lambda>_.
                   let d = modNode h (mPrevWeightNode_update (\<lambda>_. i)) d;
                       d = modNode i (mNextWeightNode_update (\<lambda>_. h)) d
                   in Inr (d\<lparr>mWeightSets := (mWeightSets d)[w := Some i]\<rparr>))))
         else Inl AssertFail)"

text \<open>The loop that shrinks \<open>mWeightSets\<close> to its last non-empty entry.\<close>

fun trimSets :: "nat \<Rightarrow> nat option list \<Rightarrow> nat option list" where
  "trimSets 0 ws = ws"
| "trimSets (Suc i) ws = (if ws ! i \<noteq> None then take (Suc i) ws else trimSets i ws)"

definition weight_init :: "nat \<Rightarrow> nat list \<Rightarrow> weight_data \<Rightarrow> weight_data res" where
  "weight_init ib weights d =
     (let n = length weights;
          nodes = (if length (mNodes d) < n
                   then replicate n \<lparr>nWeight = 0, mPrevWeightNode = NullNode ib, mNextWeightNode = NullNode ib\<rparr>
                   else mNodes d);
          d = d\<lparr>mNodes := nodes, mWeightSets := replicate 200 None\<rparr>
      in rbind (foldr_res (initNode ib weights) [0..<n] d) (\<lambda>d.
         let d = d\<lparr>mWeightSets := trimSets (length (mWeightSets d)) (mWeightSets d)\<rparr>
         in rbind (validate ib d) (\<lambda>_. Inr d)))"

subsection \<open>The abstract buckets\<close>

text \<open>The links of a list of nodes whose predecessor is \<open>p\<close>.\<close>

fun dll :: "nat \<Rightarrow> weight_node list \<Rightarrow> nat \<Rightarrow> nat list \<Rightarrow> bool" where
  "dll nil ns p [] \<longleftrightarrow> True"
| "dll nil ns p (x # xs) \<longleftrightarrow>
     mPrevWeightNode (ns ! x) = p \<and>
     mNextWeightNode (ns ! x) = (case xs of [] \<Rightarrow> nil | y # _ \<Rightarrow> y) \<and> dll nil ns x xs"

definition hd_opt :: "'a list \<Rightarrow> 'a option" where
  "hd_opt xs = (case xs of [] \<Rightarrow> None | x # _ \<Rightarrow> Some x)"

lemma hd_opt_simps [simp]: "hd_opt [] = None" "hd_opt (x # xs) = Some x"
  by (simp_all add: hd_opt_def)

lemma hd_opt_None [simp]: "hd_opt xs = None \<longleftrightarrow> xs = []"
  by (cases xs) simp_all

lemma hd_opt_Some: "hd_opt xs = Some x \<longleftrightarrow> (\<exists>ys. xs = x # ys)"
  by (cases xs) simp_all

definition loose :: "(nat \<Rightarrow> nat list) \<Rightarrow> nat \<Rightarrow> bool" where
  "loose L i \<longleftrightarrow> (\<forall>w. i \<notin> set (L w))"

lemma looseD: "loose L i \<Longrightarrow> i \<notin> set (L w)"
  by (simp add: loose_def)

lemma loose_push [simp]: "loose (L(w := x # L w)) j \<longleftrightarrow> j \<noteq> x \<and> loose L j"
  by (auto simp: loose_def)

definition wd_inv :: "nat \<Rightarrow> nat \<Rightarrow> (nat \<Rightarrow> nat list) \<Rightarrow> weight_data \<Rightarrow> bool" where
  "wd_inv ib n L d \<longleftrightarrow>
     n \<le> length (mNodes d) \<and> n \<le> NullNode ib \<and>
     (\<forall>w. distinct (L w) \<and> dll (NullNode ib) (mNodes d) (NullNode ib) (L w) \<and>
          (\<forall>i\<in>set (L w). i < n \<and> nWeight (mNodes d ! i) = w)) \<and>
     (\<forall>w<length (mWeightSets d). mWeightSets d ! w = hd_opt (L w)) \<and>
     (\<forall>w\<ge>length (mWeightSets d). L w = []) \<and>
     (\<forall>i<n. loose L i \<longrightarrow>
        mPrevWeightNode (mNodes d ! i) = NullNode ib \<and> mNextWeightNode (mNodes d ! i) = NullNode ib)"

lemma wd_invD:
  assumes "wd_inv ib n L d"
  shows "n \<le> length (mNodes d)" "n \<le> NullNode ib" "distinct (L w)"
    "dll (NullNode ib) (mNodes d) (NullNode ib) (L w)"
    "i \<in> set (L w) \<Longrightarrow> i < n" "i \<in> set (L w) \<Longrightarrow> nWeight (mNodes d ! i) = w"
    "w < length (mWeightSets d) \<Longrightarrow> mWeightSets d ! w = hd_opt (L w)"
    "length (mWeightSets d) \<le> w \<Longrightarrow> L w = []"
    "i < n \<Longrightarrow> loose L i \<Longrightarrow> mPrevWeightNode (mNodes d ! i) = NullNode ib"
    "i < n \<Longrightarrow> loose L i \<Longrightarrow> mNextWeightNode (mNodes d ! i) = NullNode ib"
  using assms by (auto simp: wd_inv_def)

lemma wd_inv_bounds:
  assumes "wd_inv ib n L d" "i \<in> set (L w)"
  shows "i < length (mNodes d)" "i \<noteq> NullNode ib"
  using wd_invD(1,2) [OF assms(1)] wd_invD(5) [OF assms] by auto

text \<open>A node is in the bucket of its weight, if it is in any.\<close>

lemma wd_inv_weight:
  "wd_inv ib n L d \<Longrightarrow> i \<in> set (L w) \<Longrightarrow> i \<in> set (L v) \<Longrightarrow> v = w"
  using wd_invD(6) by blast

subsection \<open>Links under updates\<close>

lemma dll_cong:
  "(\<And>i. i \<in> set xs \<Longrightarrow> mPrevWeightNode (ns' ! i) = mPrevWeightNode (ns ! i) \<and>
      mNextWeightNode (ns' ! i) = mNextWeightNode (ns ! i)) \<Longrightarrow> dll nil ns' p xs = dll nil ns p xs"
  by (induction xs arbitrary: p) (auto split: list.splits)

lemma dll_update_other [simp]: "x \<notin> set xs \<Longrightarrow> dll nil (ns[x := n]) p xs = dll nil ns p xs"
  by (rule dll_cong) (metis nth_list_update_neq)

lemma nWeight_update_other [simp]:
  "nWeight nd = nWeight (ns ! i) \<Longrightarrow> nWeight (ns[i := nd] ! j) = nWeight (ns ! j)"
  by (cases "i < length ns"; cases "i = j") (simp_all add: nth_list_update list_update_beyond)

lemma dll_append:
  "dll nil ns p (xs @ y # ys) \<longleftrightarrow>
     dll y ns p xs \<and> dll nil ns (if xs = [] then p else last xs) (y # ys)"
  by (induction xs arbitrary: p) (auto split: list.splits)

lemma dll_nil_change:
  "dll nil ns p (xs @ [x]) \<Longrightarrow> x \<notin> set xs \<Longrightarrow> x < length ns \<Longrightarrow>
     dll nil' (ns[x := mNextWeightNode_update (\<lambda>_. nil') (ns ! x)]) p (xs @ [x])"
proof -
  assume a: "dll nil ns p (xs @ [x])" "x \<notin> set xs" "x < length ns"
  then have "dll x (ns[x := mNextWeightNode_update (\<lambda>_. nil') (ns ! x)]) p xs"
    by (subst dll_cong [of _ _ ns]) (auto simp: dll_append nth_list_update)
  with a show ?thesis by (simp add: dll_append)
qed

lemma dll_prev_change:
  "dll nil ns p (x # xs) \<Longrightarrow> x \<notin> set xs \<Longrightarrow> x < length ns \<Longrightarrow>
     dll nil (ns[x := mPrevWeightNode_update (\<lambda>_. p') (ns ! x)]) p' (x # xs)"
proof -
  assume a: "dll nil ns p (x # xs)" "x \<notin> set xs" "x < length ns"
  then have "dll nil (ns[x := mPrevWeightNode_update (\<lambda>_. p') (ns ! x)]) x xs"
    by (subst dll_cong [of _ _ ns]) (auto simp: nth_list_update)
  with a show ?thesis by (simp split: list.splits)
qed

text \<open>The neighbours of a node in the middle of a list.\<close>

lemma dll_middle:
  assumes "dll nil ns p (xs @ i # ys)"
  shows "mPrevWeightNode (ns ! i) = (if xs = [] then p else last xs)"
    and "mNextWeightNode (ns ! i) = (case ys of [] \<Rightarrow> nil | y # _ \<Rightarrow> y)"
  using assms by (auto simp: dll_append)

lemma mNodes_modNode [simp]: "mNodes (modNode i f d) = (mNodes d)[i := f (mNodes d ! i)]"
  by (simp add: modNode_def)

lemma mWeightSets_modNode [simp]: "mWeightSets (modNode i f d) = mWeightSets d"
  by (simp add: modNode_def)

subsection \<open>Pushing\<close>

lemma pushNode_refines:
  assumes inv: "wd_inv ib n L d" and i: "i < n" and l: "loose L i" and w: "w = nWeight (mNodes d ! i)"
  shows "\<exists>d'. pushNode ib i d = Inr d' \<and> wd_inv ib n (L(w := i # L w)) d' \<and>
    map nWeight (mNodes d') = map nWeight (mNodes d)"
proof -
  let ?N = "NullNode ib"
  note D = wd_invD [OF inv]
  have len: "i < length (mNodes d)" using D(1) i by simp
  have null: "mPrevWeightNode (mNodes d ! i) = ?N" "mNextWeightNode (mNodes d ! i) = ?N"
    using D(9,10) i l by simp_all
  define sets where "sets = mWeightSets d @ replicate (w + 1 - length (mWeightSets d)) None"
  have ws: "w < length sets" by (simp add: sets_def)
  have sets: "sets ! v = hd_opt (L v)" if "v < length sets" for v
    using that D(7,8) by (auto simp: sets_def nth_append)
  have sets': "L v = []" if "length sets \<le> v" for v
    using that D(8) by (auto simp: sets_def)
  have other: "i \<notin> set (L v)" for v using l by (simp add: loose_def)
  show ?thesis
  proof (cases "L w")
    case Nil
    let ?d' = "d\<lparr>mWeightSets := sets[w := Some i]\<rparr>"
    have "pushNode ib i d = Inr ?d'"
      using len null ws sets [of w] Nil by (simp add: pushNode_def sets_def flip: w)
    moreover have "loose (L(w := [i])) j \<longleftrightarrow> j \<noteq> i \<and> loose L j" for j
      using loose_push [of L w i j] Nil by simp
    then have "wd_inv ib n (L(w := i # L w)) ?d'"
      using D i l null ws sets sets' Nil other w
      by (auto simp: wd_inv_def nth_list_update)
    ultimately show ?thesis by auto
  next
    case (Cons h hs)
    let ?d' = "modNode i (mNextWeightNode_update (\<lambda>_. h)) (modNode h (mPrevWeightNode_update (\<lambda>_. i)) d)
      \<lparr>mWeightSets := sets[w := Some i]\<rparr>"
    have h: "h \<in> set (L w)" "h < length (mNodes d)" "h \<noteq> i" "h < n"
      using Cons D(1) D(5) [of h w] other [of w] by auto
    have hp: "mPrevWeightNode (mNodes d ! h) = ?N" using D(4) [of w] Cons by simp
    have "pushNode ib i d = Inr ?d'"
      using len null ws sets [of w] Cons h hp by (simp add: pushNode_def sets_def flip: w)
    moreover have dllw: "dll ?N (mNodes ?d') ?N (i # L w)"
    proof -
      have "dll ?N (mNodes d) ?N (h # hs)" "h \<notin> set hs" using D(3,4) [of w] Cons by auto
      then have "dll ?N ((mNodes d)[h := mPrevWeightNode_update (\<lambda>_. i) (mNodes d ! h)]) i (h # hs)"
        using h(2) by (rule dll_prev_change)
      then have "dll ?N (mNodes ?d') i (h # hs)"
        using other [of w] Cons by simp
      then show ?thesis using Cons len null h by (simp add: nth_list_update)
    qed
    moreover have dllv: "dll ?N (mNodes ?d') ?N (L v)" if "v \<noteq> w" for v
    proof -
      have "h \<notin> set (L v)" using wd_inv_weight [OF inv h(1)] that by blast
      then show ?thesis using D(4) [of v] other [of v] by simp
    qed
    moreover have wt: "nWeight (mNodes ?d' ! j) = nWeight (mNodes d ! j)" for j
      by simp
    moreover have "mPrevWeightNode (mNodes ?d' ! j) = ?N \<and> mNextWeightNode (mNodes ?d' ! j) = ?N"
      if "j < n" "loose (L(w := i # L w)) j" for j
    proof -
      have "j \<noteq> i" "j \<noteq> h" "loose L j" using that(2) h(1) by (auto dest: looseD)
      then show ?thesis using D(9,10) that(1) by (simp add: nth_list_update)
    qed
    ultimately have "wd_inv ib n (L(w := i # L w)) ?d'"
      unfolding wd_inv_def
      using D i ws sets sets' other w by (auto simp: nth_list_update)
    then show ?thesis using \<open>pushNode ib i d = Inr ?d'\<close> wt
      by (auto intro!: exI [of _ ?d'] nth_equalityI)
  qed
qed

subsection \<open>Popping\<close>

lemma wd_inv_remove:
  assumes inv: "wd_inv ib n L d" and split: "L w = xs @ i # ys"
    and len: "length (mNodes d') = length (mNodes d)"
    and wt: "\<And>j. j < length (mNodes d) \<Longrightarrow> nWeight (mNodes d' ! j) = nWeight (mNodes d ! j)"
    and dl: "dll (NullNode ib) (mNodes d') (NullNode ib) (xs @ ys)"
    and same: "\<And>j. j \<notin> set (L w) \<Longrightarrow> mPrevWeightNode (mNodes d' ! j) = mPrevWeightNode (mNodes d ! j) \<and>
        mNextWeightNode (mNodes d' ! j) = mNextWeightNode (mNodes d ! j)"
    and null: "mPrevWeightNode (mNodes d' ! i) = NullNode ib" "mNextWeightNode (mNodes d' ! i) = NullNode ib"
    and sets: "\<And>v. v < length (mWeightSets d') \<Longrightarrow> mWeightSets d' ! v = hd_opt ((L(w := xs @ ys)) v)"
      "\<And>v. length (mWeightSets d') \<le> v \<Longrightarrow> (L(w := xs @ ys)) v = []"
  shows "wd_inv ib n (L(w := xs @ ys)) d'"
proof -
  note D = wd_invD [OF inv]
  have dv: "dll (NullNode ib) (mNodes d') (NullNode ib) (L v)" if "v \<noteq> w" for v
  proof -
    have "j \<notin> set (L w)" if "j \<in> set (L v)" for j
      using wd_inv_weight [OF inv that] \<open>v \<noteq> w\<close> by blast
    with same have "dll (NullNode ib) (mNodes d') (NullNode ib) (L v) =
        dll (NullNode ib) (mNodes d) (NullNode ib) (L v)" by (intro dll_cong) blast
    with D(4) show ?thesis by blast
  qed
  have loose: "mPrevWeightNode (mNodes d' ! j) = NullNode ib \<and> mNextWeightNode (mNodes d' ! j) = NullNode ib"
    if "j < n" "loose (L(w := xs @ ys)) j" for j
  proof (cases "j = i")
    case False
    have "j \<notin> set (xs @ ys)" using looseD [OF that(2), of w] by simp
    then have nw: "j \<notin> set (L w)" using False split by simp
    have "loose L j"
      unfolding loose_def
    proof
      fix v show "j \<notin> set (L v)"
        using nw looseD [OF that(2), of v] by (cases "v = w") simp_all
    qed
    with same [OF nw] D(9,10) that(1) show ?thesis by simp
  qed (use null in simp)
  have sub: "set (xs @ ys) \<subseteq> set (L w)" and "distinct (xs @ ys)" using split D(3) [of w] by auto
  moreover have "j < n \<and> nWeight (mNodes d' ! j) = v" if "j \<in> set ((L(w := xs @ ys)) v)" for j v
  proof -
    have "j \<in> set (L v)" using that sub by (auto split: if_splits)
    then have "j < n" "nWeight (mNodes d ! j) = v" using D(5,6) by blast+
    with D(1) wt [of j] show ?thesis by simp
  qed
  ultimately show ?thesis
    using D(1-3) len dl dv sets loose unfolding wd_inv_def by simp
qed

definition trimmed :: "weight_data \<Rightarrow> bool" where
  "trimmed d \<longleftrightarrow> mWeightSets d \<noteq> [] \<and> last (mWeightSets d) \<noteq> None"

lemma popNulls_ok:
  assumes "\<exists>x\<in>set ws. x \<noteq> None"
  shows "\<exists>ws' m. popNulls ws = Inr ws' \<and> ws = ws' @ replicate m None \<and> ws' \<noteq> [] \<and> last ws' \<noteq> None"
  using assms
proof (induction ws rule: popNulls.induct)
  case (1 ws)
  show ?case
  proof (cases "last ws = None")
    case False
    have "ws = ws @ replicate 0 None" by simp
    with 1 False show ?thesis by (subst popNulls.simps) fastforce
  next
    case True
    have ne: "ws \<noteq> []" using 1 by auto
    then have ws: "ws = butlast ws @ [None]" using True append_butlast_last_id [of ws] by simp
    then have "\<exists>x\<in>set (butlast ws). x \<noteq> None" using 1(2) by (metis Un_iff empty_iff empty_set list.simps(15) set_append singletonD)
    then obtain ws' m where "popNulls (butlast ws) = Inr ws'" "butlast ws = ws' @ replicate m None"
      "ws' \<noteq> []" "last ws' \<noteq> None"
      using 1(1) ne True by blast
    moreover have "ws = ws' @ replicate (Suc m) None"
      using ws calculation(2) by (simp add: replicate_append_same [symmetric])
    moreover have "popNulls ws = popNulls (butlast ws)"
      using ne True by (subst popNulls.simps) simp
    ultimately show ?thesis by metis
  qed
qed

lemma popNode_refines_split:
  assumes inv: "wd_inv ib n L d" and split: "L w = xs @ i # ys"
    and other: "j \<in> set (L v)" "j \<noteq> i"
  shows "\<exists>d'. popNode ib i d = Inr d' \<and> wd_inv ib n (L(w := xs @ ys)) d' \<and>
    map nWeight (mNodes d') = map nWeight (mNodes d) \<and> (trimmed d \<longrightarrow> trimmed d')"
proof -
  let ?N = "NullNode ib"
  note D = wd_invD [OF inv]
  let ?clear = "\<lambda>nd. nd\<lparr>mPrevWeightNode := ?N, mNextWeightNode := ?N\<rparr>"
  have iw: "i \<in> set (L w)" using split by simp
  have i: "i < length (mNodes d)" "i \<noteq> ?N" using wd_inv_bounds [OF inv iw] by auto
  have w: "nWeight (mNodes d ! i) = w" using D(6) iw by blast
  have wl: "w < length (mWeightSets d)" using D(8) [of w] split by (cases "w < length (mWeightSets d)") simp_all
  have dl: "dll ?N (mNodes d) ?N (xs @ i # ys)" and dist: "distinct (xs @ i # ys)"
    using D(3,4) [of w] split by auto
  note mid = dll_middle [OF dl]
  have bnd: "k < length (mNodes d) \<and> k \<noteq> ?N" if "k \<in> set (xs @ ys)" for k
    using wd_inv_bounds [OF inv, of k w] that split by auto
  have wrap: ?thesis
    if "popNode ib i d = Inr d'" and "length (mNodes d') = length (mNodes d)"
      and "\<And>j. j < length (mNodes d) \<Longrightarrow> nWeight (mNodes d' ! j) = nWeight (mNodes d ! j)"
      and "dll ?N (mNodes d') ?N (xs @ ys)"
      and "\<And>j. j \<notin> set (L w) \<Longrightarrow> mPrevWeightNode (mNodes d' ! j) = mPrevWeightNode (mNodes d ! j) \<and>
        mNextWeightNode (mNodes d' ! j) = mNextWeightNode (mNodes d ! j)"
      and "mPrevWeightNode (mNodes d' ! i) = ?N" "mNextWeightNode (mNodes d' ! i) = ?N"
      and "\<And>v. v < length (mWeightSets d') \<Longrightarrow> mWeightSets d' ! v = hd_opt ((L(w := xs @ ys)) v)"
      and "\<And>v. length (mWeightSets d') \<le> v \<Longrightarrow> (L(w := xs @ ys)) v = []"
      and "trimmed d \<Longrightarrow> trimmed d'" for d'
    using that wd_inv_remove [OF inv split that(2-9)] by (auto intro!: nth_equalityI)
  show ?thesis
  proof (cases xs rule: rev_cases)
    case xs: Nil
    then have p: "mPrevWeightNode (mNodes d ! i) = ?N" and head: "mWeightSets d ! w = Some i"
      using mid(1) D(7) [OF wl] split by simp_all
    show ?thesis
    proof (cases ys)
      case Nil
      then have nx: "mNextWeightNode (mNodes d ! i) = ?N" using mid(2) by simp
      have "v \<noteq> w" using other split xs Nil by auto
      moreover have "v < length (mWeightSets d)" using D(8) [of v] other(1) by (metis empty_iff empty_set leI)
      moreover have "L v \<noteq> []" using other(1) by auto
      ultimately have "(mWeightSets d)[w := None] ! v \<noteq> None"
        using D(7) [of v] by simp
      then have "\<exists>x\<in>set ((mWeightSets d)[w := None]). x \<noteq> None"
        using \<open>v < length (mWeightSets d)\<close> by (metis length_list_update nth_mem)
      then obtain ws' m where pop: "popNulls ((mWeightSets d)[w := None]) = Inr ws'"
        and ws': "(mWeightSets d)[w := None] = ws' @ replicate m None" "ws' \<noteq> []" "last ws' \<noteq> None"
        using popNulls_ok by blast
      let ?d' = "modNode i ?clear (d\<lparr>mWeightSets := ws'\<rparr>)"
      have lenws: "length (mWeightSets d) = length ws' + m"
        using arg_cong [OF ws'(1), of length] by simp
      have nth: "(ws' @ replicate m None) ! u = hd_opt ((L(w := [])) u)" if "u < length ws' + m" for u
        using D(7) [of u] that lenws wl unfolding ws'(1) [symmetric] by (simp add: nth_list_update)
      show ?thesis
      proof (rule wrap [of ?d'])
        show "popNode ib i d = Inr ?d'"
          using i p wl head nx pop by (simp add: popNode_def w Let_def)
        show "mWeightSets ?d' ! u = hd_opt ((L(w := xs @ ys)) u)" if "u < length (mWeightSets ?d')" for u
          using nth [of u] that xs Nil by (simp add: nth_append)
        show "(L(w := xs @ ys)) u = []" if "length (mWeightSets ?d') \<le> u" for u
        proof (cases "u < length ws' + m")
          case True
          then have "hd_opt ((L(w := [])) u) = None" using nth [of u] that by (simp add: nth_append)
          then show ?thesis using xs Nil by (simp del: fun_upd_apply)
        next
          case False
          then show ?thesis using D(8) [of u] lenws xs Nil by simp
        qed
      qed (use i xs Nil iw ws' in \<open>auto simp: trimmed_def nth_list_update\<close>)
    next
      case (Cons y ys')
      then have nx: "mNextWeightNode (mNodes d ! i) = y" using mid(2) by simp
      have y: "y < length (mNodes d)" "y \<noteq> ?N" "y \<noteq> i" "y \<in> set (L w)"
        using bnd [of y] Cons dist split by auto
      let ?d' = "modNode i ?clear (modNode y (mPrevWeightNode_update (\<lambda>_. ?N))
          (d\<lparr>mWeightSets := (mWeightSets d)[w := Some y]\<rparr>))"
      have "dll ?N ((mNodes d)[y := mPrevWeightNode_update (\<lambda>_. ?N) (mNodes d ! y)]) ?N (y # ys')"
        using dl xs Cons dist y by (intro dll_prev_change [of _ _ i]) auto
      then have dl': "dll ?N (mNodes ?d') ?N (xs @ ys)"
        using xs Cons dist y by (simp add: nth_list_update)
      show ?thesis
      proof (rule wrap [of ?d'])
        show "popNode ib i d = Inr ?d'"
          using i p wl head nx y by (simp add: popNode_def w Let_def)
        show "trimmed d \<Longrightarrow> trimmed ?d'" using wl by (auto simp: trimmed_def last_list_update)
      qed (use i xs Cons iw y dl' D(7,8) wl in \<open>auto simp: nth_list_update\<close>)
    qed
  next
    case (snoc xs' q)
    then have p: "mPrevWeightNode (mNodes d ! i) = q" using mid(1) by simp
    have q: "q < length (mNodes d)" "q \<noteq> ?N" "q \<noteq> i" "q \<in> set (L w)"
      using bnd [of q] snoc dist split by auto
    have hd: "hd_opt (xs @ zs) = hd_opt (L w)" for zs
      using snoc split by (cases xs') simp_all
    show ?thesis
    proof (cases ys)
      case Nil
      then have nx: "mNextWeightNode (mNodes d ! i) = ?N" using mid(2) by simp
      let ?d' = "modNode i ?clear (modNode q (mNextWeightNode_update (\<lambda>_. ?N)) d)"
      have "dll i (mNodes d) ?N (xs' @ [q])" using dl snoc by (simp add: dll_append)
      then have "dll ?N ((mNodes d)[q := mNextWeightNode_update (\<lambda>_. ?N) (mNodes d ! q)]) ?N (xs' @ [q])"
        using dist snoc q by (intro dll_nil_change [of i]) auto
      then have dl': "dll ?N (mNodes ?d') ?N (xs @ ys)"
        using snoc Nil dist q by simp
      have sets: "mWeightSets ?d' ! v = hd_opt ((L(w := xs @ ys)) v)" if "v < length (mWeightSets ?d')" for v
        using D(7) [of v] hd [of ys] that by simp
      have beyond: "(L(w := xs @ ys)) v = []" if "length (mWeightSets ?d') \<le> v" for v
        using D(8) [of v] that wl by auto
      show ?thesis
      proof (rule wrap [of ?d'])
        show "popNode ib i d = Inr ?d'"
          using i p q nx by (simp add: popNode_def w Let_def)
        show "mPrevWeightNode (mNodes ?d' ! j) = mPrevWeightNode (mNodes d ! j) \<and>
          mNextWeightNode (mNodes ?d' ! j) = mNextWeightNode (mNodes d ! j)" if "j \<notin> set (L w)" for j
        proof -
          have "j \<noteq> i" "j \<noteq> q" using that iw q by blast+
          then show ?thesis by simp
        qed
      qed (use i dl' sets beyond in \<open>simp_all add: trimmed_def\<close>)
    next
      case (Cons y ys')
      then have nx: "mNextWeightNode (mNodes d ! i) = y" using mid(2) by simp
      have y: "y < length (mNodes d)" "y \<noteq> ?N" "y \<noteq> i" "y \<in> set (L w)" "y \<noteq> q"
        using bnd [of y] Cons dist split snoc by auto
      let ?d' = "modNode i ?clear (modNode y (mPrevWeightNode_update (\<lambda>_. q))
          (modNode q (mNextWeightNode_update (\<lambda>_. y)) d))"
      have "dll i (mNodes d) ?N (xs' @ [q])" using dl snoc by (simp add: dll_append)
      then have "dll y ((mNodes d)[q := mNextWeightNode_update (\<lambda>_. y) (mNodes d ! q)]) ?N (xs' @ [q])"
        using dist snoc q by (intro dll_nil_change [of i]) auto
      then have 1: "dll y (mNodes ?d') ?N xs"
        unfolding snoc using snoc Cons dist q y by simp
      have "dll ?N (mNodes d) i (y # ys')" using dl snoc Cons by (simp add: dll_append)
      then have "dll ?N ((mNodes d)[y := mPrevWeightNode_update (\<lambda>_. q) (mNodes d ! y)]) q (y # ys')"
        using dist Cons y by (intro dll_prev_change [of _ _ i]) auto
      then have 2: "dll ?N (mNodes ?d') q (y # ys')"
        using snoc Cons dist q y by simp
      from 1 2 have dl': "dll ?N (mNodes ?d') ?N (xs @ ys)" using snoc Cons by (simp add: dll_append)
      have sets: "mWeightSets ?d' ! v = hd_opt ((L(w := xs @ ys)) v)" if "v < length (mWeightSets ?d')" for v
        using D(7) [of v] hd [of ys] that by simp
      have beyond: "(L(w := xs @ ys)) v = []" if "length (mWeightSets ?d') \<le> v" for v
        using D(8) [of v] that wl by auto
      show ?thesis
      proof (rule wrap [of ?d'])
        show "popNode ib i d = Inr ?d'"
          using i p q nx y by (simp add: popNode_def w Let_def)
        show "mPrevWeightNode (mNodes ?d' ! j) = mPrevWeightNode (mNodes d ! j) \<and>
          mNextWeightNode (mNodes ?d' ! j) = mNextWeightNode (mNodes d ! j)" if "j \<notin> set (L w)" for j
        proof -
          have "j \<noteq> i" "j \<noteq> q" "j \<noteq> y" using that iw q y by blast+
          then show ?thesis by simp
        qed
      qed (use i y dl' sets beyond in \<open>simp_all add: trimmed_def\<close>)
    qed
  qed
qed

lemma remove1_split:
  "i \<in> set xs \<Longrightarrow> distinct xs \<Longrightarrow> \<exists>ys zs. xs = ys @ i # zs \<and> remove1 i xs = ys @ zs"
proof -
  assume "i \<in> set xs" "distinct xs"
  then obtain ys zs where "xs = ys @ i # zs" "i \<notin> set ys" by (auto dest: split_list_first)
  then show ?thesis by (auto simp: remove1_append)
qed

lemma popNode_refines:
  assumes "wd_inv ib n L d" "i \<in> set (L w)" "j \<in> set (L v)" "j \<noteq> i"
  shows "\<exists>d'. popNode ib i d = Inr d' \<and> wd_inv ib n (L(w := remove1 i (L w))) d' \<and>
    map nWeight (mNodes d') = map nWeight (mNodes d) \<and> (trimmed d \<longrightarrow> trimmed d')"
proof -
  obtain xs ys where "L w = xs @ i # ys" "remove1 i (L w) = xs @ ys"
    using remove1_split [OF assms(2)] wd_invD(3) [OF assms(1)] by blast
  with popNode_refines_split [OF assms(1) _ assms(3,4)] show ?thesis by metis
qed

lemma pushNode_trimmed:
  assumes "pushNode ib i d = Inr d'" "trimmed d"
  shows "trimmed d'"
proof -
  let ?w = "nWeight (mNodes d ! i)"
  let ?sets = "mWeightSets d @ replicate (?w + 1 - length (mWeightSets d)) None"
  have "mWeightSets d' = ?sets[?w := Some i]"
    using assms(1) by (auto simp: pushNode_def rbind_Inr_iff at_Inr_iff guardr_Inr_iff Let_def
        split: option.splits)
  moreover have "?sets[?w := Some i] \<noteq> []" by simp
  moreover have "last (?sets[?w := Some i]) \<noteq> None"
  proof (cases "?w < length (mWeightSets d)")
    case True
    with assms(2) show ?thesis by (auto simp: trimmed_def last_list_update)
  next
    case False
    then have "length ?sets = Suc ?w" by simp
    then show ?thesis by (simp add: last_conv_nth del: length_append length_replicate)
  qed
  ultimately show ?thesis by (simp add: trimmed_def)
qed

lemma wd_inv_setWeight:
  assumes inv: "wd_inv ib n L d" and l: "loose L i"
  shows "wd_inv ib n L (modNode i (nWeight_update f) d)"
proof -
  note D = wd_invD [OF inv]
  have same: "mPrevWeightNode (mNodes (modNode i (nWeight_update f) d) ! j) = mPrevWeightNode (mNodes d ! j)"
    "mNextWeightNode (mNodes (modNode i (nWeight_update f) d) ! j) = mNextWeightNode (mNodes d ! j)" for j
    by (cases "i < length (mNodes d)"; cases "i = j"; simp add: nth_list_update list_update_beyond)+
  have "nWeight (mNodes (modNode i (nWeight_update f) d) ! j) = w" if "j \<in> set (L w)" for j w
    using D(6) [OF that] looseD [OF l, of w] that by (cases "i = j") simp_all
  with D same looseD [OF l] show ?thesis
    unfolding wd_inv_def by (simp del: fun_upd_apply)
qed

text \<open>The minimum: the head of the first non-empty bucket of positive weight.\<close>

lemma getMinWeightNode_refines:
  assumes inv: "wd_inv ib n L d" and ex: "L w \<noteq> []" "0 < w"
  shows "\<exists>m i. getMinWeightNode d = Inr i \<and> 0 < m \<and> hd_opt (L m) = Some i \<and>
    (\<forall>v. 0 < v \<and> v < m \<longrightarrow> L v = [])"
proof -
  note D = wd_invD [OF inv]
  have w: "w < length (mWeightSets d)" using D(8) [of w] ex(1) by (meson leI)
  have "List.find (\<lambda>i. mWeightSets d ! i \<noteq> None) [1..<length (mWeightSets d)] \<noteq> None"
  proof -
    have "w \<in> set [1..<length (mWeightSets d)]" "mWeightSets d ! w \<noteq> None"
      using D(7) [OF w] ex w by simp_all
    then show ?thesis by (simp only: find_None_iff) blast
  qed
  then obtain m where m: "List.find (\<lambda>i. mWeightSets d ! i \<noteq> None) [1..<length (mWeightSets d)] = Some m"
    by blast
  then obtain k where k: "k < length [1..<length (mWeightSets d)]" "[1..<length (mWeightSets d)] ! k = m"
    "mWeightSets d ! m \<noteq> None" "\<forall>j<k. mWeightSets d ! ([1..<length (mWeightSets d)] ! j) = None"
    by (auto simp: find_Some_iff simp del: nth_upt)
  then have mk: "m = Suc k" "m < length (mWeightSets d)" by auto
  have "L v = []" if "0 < v" "v < m" for v
    using k(4) [rule_format, of "v - 1"] that mk D(7) [of v] by simp
  then show ?thesis
    using m k(3) mk D(7) [of m] by (auto simp: getMinWeightNode_def)
qed

text \<open>With only the bucket of weight zero left there is no minimum.\<close>

lemma trimmed_size:
  assumes inv: "wd_inv ib n L d" and "trimmed d"
  shows "1 < length (mWeightSets d) \<longleftrightarrow> (\<exists>w. 0 < w \<and> L w \<noteq> [])"
proof -
  note D = wd_invD [OF inv]
  let ?l = "length (mWeightSets d)"
  have "mWeightSets d \<noteq> []" using assms(2) by (simp add: trimmed_def)
  then have "L (?l - 1) \<noteq> []"
    using assms(2) D(7) [of "?l - 1"] by (auto simp: trimmed_def last_conv_nth)
  moreover have "w < ?l" if "L w \<noteq> []" for w using D(8) [of w] that by (meson leI)
  ultimately show ?thesis
    by (metis One_nat_def Suc_lessI diff_is_0_eq less_Suc0 less_one linorder_not_less zero_less_diff)
qed

subsection \<open>The contract of the buckets\<close>

text \<open>What the triangulation relies on. \<open>rel n L d\<close> says that \<open>d\<close> holds the buckets \<open>L\<close>
  of columns below \<open>n\<close>.\<close>

locale bucket_queue =
  fixes rel :: "nat \<Rightarrow> (nat \<Rightarrow> nat list) \<Rightarrow> 'd \<Rightarrow> bool"
    and weights :: "'d \<Rightarrow> nat list"
    and push :: "nat \<Rightarrow> 'd \<Rightarrow> 'd res"
    and pop :: "nat \<Rightarrow> 'd \<Rightarrow> 'd res"
    and setw :: "nat \<Rightarrow> nat \<Rightarrow> 'd \<Rightarrow> 'd"
    and getMin :: "'d \<Rightarrow> nat res"
  assumes mem: "rel n L d \<Longrightarrow> i \<in> set (L w) \<Longrightarrow> i < n \<and> i < length (weights d) \<and> weights d ! i = w"
    and dist: "rel n L d \<Longrightarrow> distinct (L w)"
    and push: "rel n L d \<Longrightarrow> i < n \<Longrightarrow> loose L i \<Longrightarrow> w = weights d ! i \<Longrightarrow>
      \<exists>d'. push i d = Inr d' \<and> rel n (L(w := i # L w)) d' \<and> weights d' = weights d"
    and pop: "rel n L d \<Longrightarrow> i \<in> set (L w) \<Longrightarrow> j \<in> set (L v) \<Longrightarrow> j \<noteq> i \<Longrightarrow>
      \<exists>d'. pop i d = Inr d' \<and> rel n (L(w := remove1 i (L w))) d' \<and> weights d' = weights d"
    and setw: "rel n L d \<Longrightarrow> loose L i \<Longrightarrow> rel n L (setw i w d)"
    and weights_setw: "weights (setw i w d) = (weights d)[i := w]"
    and getMin: "rel n L d \<Longrightarrow> L w \<noteq> [] \<Longrightarrow> 0 < w \<Longrightarrow>
      \<exists>m i. getMin d = Inr i \<and> 0 < m \<and> i \<in> set (L m) \<and> (\<forall>v. 0 < v \<and> v < m \<longrightarrow> L v = [])"
begin

lemma loose_pop:
  assumes "rel n L d" "i \<in> set (L w)"
  shows "loose (L(w := remove1 i (L w))) j \<longleftrightarrow> j = i \<or> loose L j"
proof -
  have "i \<notin> set (L v)" if "v \<noteq> w" for v using mem [OF assms] mem [OF assms(1), of i v] that by auto
  then show ?thesis using dist [OF assms(1), of w] assms(2)
    by (auto simp: loose_def set_remove1_eq split: if_splits)
qed

text \<open>Taking a column out, with its weight set to zero.\<close>

lemma take_out:
  assumes "rel n L d" "i \<in> set (L w)" "j \<in> set (L v)" "j \<noteq> i"
  shows "\<exists>d'. pop i d = Inr d' \<and> rel n (L(w := remove1 i (L w))) (setw i 0 d') \<and>
    weights (setw i 0 d') = (weights d)[i := 0]"
proof -
  obtain d' where "pop i d = Inr d'" "rel n (L(w := remove1 i (L w))) d'" "weights d' = weights d"
    using pop [OF assms] by blast
  moreover from this setw [of n _ d' i] loose_pop [OF assms(1,2)]
  have "rel n (L(w := remove1 i (L w))) (setw i 0 d')" by simp
  ultimately show ?thesis by (auto simp: weights_setw)
qed

text \<open>Moving a column to the bucket below.\<close>

lemma decrement:
  assumes "rel n L d" "i \<in> set (L (Suc w))" "j \<in> set (L v)" "j \<noteq> i"
  shows "\<exists>d' d''. pop i d = Inr d' \<and> push i (setw i w d') = Inr d'' \<and>
    rel n (L(Suc w := remove1 i (L (Suc w)), w := i # L w)) d'' \<and> weights d' = weights d \<and>
    weights d'' = (weights d)[i := w]"
proof -
  let ?L = "L(Suc w := remove1 i (L (Suc w)))"
  obtain d' where d': "pop i d = Inr d'" "rel n ?L d'" "weights d' = weights d"
    using pop [OF assms] by blast
  have l: "loose ?L i" using loose_pop [OF assms(1,2)] by simp
  have r: "rel n ?L (setw i w d')" using d'(2) l by (rule setw)
  have i: "i < n" "i < length (weights d)" using mem [OF assms(1,2)] by auto
  obtain d'' where "push i (setw i w d') = Inr d''" "rel n (?L(w := i # ?L w)) d''"
    "weights d'' = weights (setw i w d')"
    using push [OF r i(1) l, of w] i(2) d'(3) by (auto simp: weights_setw)
  with d' show ?thesis by (auto simp: weights_setw)
qed

end

definition nodeWeights :: "weight_data \<Rightarrow> nat list" where
  "nodeWeights d = map nWeight (mNodes d)"

definition setNodeWeight :: "nat \<Rightarrow> nat \<Rightarrow> weight_data \<Rightarrow> weight_data" where
  "setNodeWeight i w d = modNode i (nWeight_update (\<lambda>_. w)) d"

definition wd_rel :: "nat \<Rightarrow> nat \<Rightarrow> (nat \<Rightarrow> nat list) \<Rightarrow> weight_data \<Rightarrow> bool" where
  "wd_rel ib n L d \<longleftrightarrow> wd_inv ib n L d \<and> trimmed d"

interpretation wd: bucket_queue "wd_rel ib" nodeWeights "pushNode ib" "popNode ib"
    setNodeWeight getMinWeightNode for ib
proof
  fix n L d i w
  assume r: "wd_rel ib n L d"
  then have inv: "wd_inv ib n L d" and tr: "trimmed d" by (auto simp: wd_rel_def)
  note D = wd_invD [OF inv]
  show "distinct (L w)" by (rule D)
  {
    assume "i \<in> set (L w)"
    with D wd_inv_bounds [OF inv] show "i < n \<and> i < length (nodeWeights d) \<and> nodeWeights d ! i = w"
      by (simp add: nodeWeights_def)
  }
  {
    assume a: "i < n" "loose L i" "w = nodeWeights d ! i"
    then have "w = nWeight (mNodes d ! i)" using D(1) by (simp add: nodeWeights_def)
    with pushNode_refines [OF inv a(1,2)] pushNode_trimmed [OF _ tr]
    show "\<exists>d'. pushNode ib i d = Inr d' \<and> wd_rel ib n (L(w := i # L w)) d' \<and> nodeWeights d' = nodeWeights d"
      unfolding wd_rel_def nodeWeights_def by metis
  }
  {
    fix j v
    assume "i \<in> set (L w)" "j \<in> set (L v)" "j \<noteq> i"
    with popNode_refines [OF inv] tr
    show "\<exists>d'. popNode ib i d = Inr d' \<and> wd_rel ib n (L(w := remove1 i (L w))) d' \<and> nodeWeights d' = nodeWeights d"
      unfolding wd_rel_def nodeWeights_def by metis
  }
  {
    assume "loose L i"
    with wd_inv_setWeight [OF inv] tr show "wd_rel ib n L (setNodeWeight i w d)"
      by (simp add: wd_rel_def setNodeWeight_def trimmed_def)
  }
  {
    assume "L w \<noteq> []" "0 < w"
    with getMinWeightNode_refines [OF inv]
    show "\<exists>m i. getMinWeightNode d = Inr i \<and> 0 < m \<and> i \<in> set (L m) \<and> (\<forall>v. 0 < v \<and> v < m \<longrightarrow> L v = [])"
      by (metis hd_opt_Some list.set_intros(1))
  }
next
  show "nodeWeights (setNodeWeight i w d) = (nodeWeights d)[i := w]" for i w d
    by (cases "i < length (mNodes d)") (simp_all add: nodeWeights_def setNodeWeight_def map_update list_update_beyond)
qed

subsection \<open>Walking the lists\<close>

lemma walk_dll:
  "dll (NullNode ib) ns p xs \<Longrightarrow> (\<And>x. x \<in> set xs \<Longrightarrow> x < length ns \<and> x \<noteq> NullNode ib) \<Longrightarrow>
     length xs \<le> fuel \<Longrightarrow> walk ib fuel ns (hd_opt xs) = Inr xs"
proof (induction xs arbitrary: p fuel)
  case (Cons x xs)
  obtain fuel' where f: "fuel = Suc fuel'" "length xs \<le> fuel'"
    using Cons.prems(3) by (cases fuel) auto
  have "(if mNextWeightNode (ns ! x) \<noteq> NullNode ib then Some (mNextWeightNode (ns ! x)) else None) = hd_opt xs"
    using Cons.prems(1) Cons.prems(2) by (cases xs) auto
  moreover have "walk ib fuel' ns (hd_opt xs) = Inr xs"
    using Cons f by (intro Cons.IH [of x]) auto
  ultimately show ?case using Cons.prems(2) f by simp
qed simp

lemma walk_bucket:
  assumes inv: "wd_inv ib n L d"
  shows "walk ib (length (mNodes d)) (mNodes d) (hd_opt (L w)) = Inr (L w)"
proof (rule walk_dll [OF wd_invD(4) [OF inv]])
  show "x < length (mNodes d) \<and> x \<noteq> NullNode ib" if "x \<in> set (L w)" for x
    using wd_inv_bounds [OF inv that] by blast
  have "set (L w) \<subseteq> {..<length (mNodes d)}" using wd_inv_bounds(1) [OF inv] by blast
  with wd_invD(3) [OF inv] show "length (L w) \<le> length (mNodes d)"
    using card_mono [of "{..<length (mNodes d)}" "set (L w)"] by (simp add: distinct_card)
qed

lemma setSize_refines:
  "wd_inv ib n L d \<Longrightarrow> w < length (mWeightSets d) \<Longrightarrow> setSize ib w d = Inr (length (L w))"
  using wd_invD(7) [of ib n L d w] walk_bucket [of ib n L d w] by (simp add: setSize_def)

lemma buckets_distinct:
  assumes inv: "wd_inv ib n L d"
  shows "distinct (concat (rev (map L [0..<k])))"
proof (induction k)
  case (Suc k)
  have "set (L k) \<inter> set (concat (rev (map L [0..<k]))) = {}"
  proof (rule ccontr)
    assume "set (L k) \<inter> set (concat (rev (map L [0..<k]))) \<noteq> {}"
    then obtain i v where "i \<in> set (L k)" "i \<in> set (L v)" "v < k" by auto
    with wd_inv_weight [OF inv] show False by blast
  qed
  with Suc wd_invD(3) [OF inv, of k] show ?case by simp
qed simp

lemma validate_loop:
  assumes inv: "wd_inv ib n L d" and "k \<le> length (mWeightSets d)"
  shows "foldr_res (validate_set ib d) [0..<k] [] = Inr (concat (rev (map L [0..<k])))"
  using assms(2)
proof (induction k)
  case (Suc k)
  note D = wd_invD [OF inv]
  let ?seen = "concat (rev (map L [0..<k]))"
  have k: "mWeightSets d ! k = hd_opt (L k)" using Suc.prems D(7) [of k] by simp
  have "validate_node ib (mNodes d) k i" if i: "i \<in> set (L k)" for i
  proof -
    obtain xs ys where s: "L k = xs @ i # ys" using split_list [OF i] by blast
    have dl: "dll (NullNode ib) (mNodes d) (NullNode ib) (xs @ i # ys)" using D(4) [of k] s by simp
    show ?thesis
    proof (cases ys)
      case Nil
      then show ?thesis using dll_middle(2) [OF dl] D(6) [OF i] by (simp add: validate_node_def)
    next
      case (Cons y ys')
      then have "y \<in> set (L k)" using s by simp
      then have "y < length (mNodes d)" using wd_inv_bounds [OF inv] by blast
      moreover have "mPrevWeightNode (mNodes d ! y) = i"
        using dl Cons by (simp add: dll_append)
      ultimately show ?thesis
        using Cons dll_middle(2) [OF dl] D(6) [OF i] by (simp add: validate_node_def)
    qed
  qed
  moreover have "distinct (L k @ ?seen)"
    using buckets_distinct [OF inv, of "Suc k"] by simp
  ultimately have "validate_set ib d k ?seen = Inr (L k @ ?seen)"
    using walk_bucket [OF inv, of k] k by (simp add: validate_set_def list_all_iff)
  with Suc show ?case by (simp add: foldr_res_append)
qed simp

text \<open>\<open>validate\<close> passes exactly when every node is in a bucket.\<close>

lemma validate_refines:
  assumes inv: "wd_inv ib n L d" and all: "\<And>i. i < n \<Longrightarrow> \<not> loose L i"
  shows "validate ib d = (if length (mNodes d) = n then Inr () else Inl AssertFail)"
proof -
  let ?s = "concat (rev (map L [0..<length (mWeightSets d)]))"
  note D = wd_invD [OF inv]
  have loop: "foldr_res (validate_set ib d) [0..<length (mWeightSets d)] [] = Inr ?s"
    using inv by (rule validate_loop) simp
  have "set ?s = {..<n}"
  proof
    show "set ?s \<subseteq> {..<n}" using D(5) by auto
    show "{..<n} \<subseteq> set ?s"
    proof
      fix i assume "i \<in> {..<n}"
      then obtain w where w: "i \<in> set (L w)" using all by (auto simp: loose_def)
      then have "w < length (mWeightSets d)" using D(8) [of w] by (metis empty_iff empty_set leI)
      with w show "i \<in> set ?s" by auto
    qed
  qed
  moreover have "distinct ?s" using inv by (rule buckets_distinct)
  ultimately have "length ?s = n" using distinct_card [of ?s] by simp
  with loop show ?thesis by (simp add: validate_def)
qed

subsection \<open>Initialisation\<close>

lemma initNode_push:
  assumes "i < length (mNodes d)"
  shows "initNode ib weights i d =
    (if weights ! i < length (mWeightSets d)
     then pushNode ib i (modNode i (\<lambda>_. \<lparr>nWeight = weights ! i, mPrevWeightNode = NullNode ib,
       mNextWeightNode = NullNode ib\<rparr>) d)
     else Inl AssertFail)"
  using assms by (cases "mWeightSets d ! (weights ! i)") (simp_all add: initNode_def pushNode_def Let_def)

definition buckets :: "nat list \<Rightarrow> nat \<Rightarrow> nat \<Rightarrow> nat list" where
  "buckets weights k w = rev (filter (\<lambda>i. weights ! i = w) [0..<k])"

lemma set_buckets: "set (buckets weights k w) = {i. i < k \<and> weights ! i = w}"
  by (auto simp: buckets_def)

lemma buckets_Suc:
  "buckets weights (Suc k) = (buckets weights k)(weights ! k := k # buckets weights k (weights ! k))"
  by (auto simp: buckets_def)

lemma pushNode_sets_length:
  "pushNode ib i d = Inr d' \<Longrightarrow> nWeight (mNodes d ! i) < length (mWeightSets d) \<Longrightarrow>
     length (mWeightSets d') = length (mWeightSets d) \<and> length (mNodes d') = length (mNodes d)"
  by (auto simp: pushNode_def rbind_Inr_iff at_Inr_iff guardr_Inr_iff Let_def split: option.splits)

lemma init_loop:
  assumes "\<And>i. i < n \<Longrightarrow> weights ! i < s" "n \<le> NullNode ib" "k \<le> n"
    and d: "n \<le> length (mNodes d)" "mWeightSets d = replicate s None"
  shows "\<exists>d'. foldr_res (initNode ib weights) [0..<k] d = Inr d' \<and>
    wd_inv ib k (buckets weights k) d' \<and> length (mNodes d') = length (mNodes d) \<and>
    length (mWeightSets d') = s \<and> (\<forall>i<k. nWeight (mNodes d' ! i) = weights ! i)"
  using assms(3)
proof (induction k)
  case 0
  have "wd_inv ib 0 (buckets weights 0) d"
    using d by (auto simp: wd_inv_def buckets_def)
  with d show ?case by simp
next
  case (Suc k)
  then obtain d1 where loop: "foldr_res (initNode ib weights) [0..<k] d = Inr d1"
    and inv: "wd_inv ib k (buckets weights k) d1" and len: "length (mNodes d1) = length (mNodes d)"
    "length (mWeightSets d1) = s" and wt: "\<forall>i<k. nWeight (mNodes d1 ! i) = weights ! i" by auto
  note D = wd_invD [OF inv]
  have k: "k < n" "k < length (mNodes d1)" using Suc.prems d len by auto
  let ?node = "\<lparr>nWeight = weights ! k, mPrevWeightNode = NullNode ib, mNextWeightNode = NullNode ib\<rparr>"
  let ?d = "modNode k (\<lambda>_. ?node) d1"
  have notin: "k \<notin> set (buckets weights k w)" for w by (simp add: set_buckets)
  have inv': "wd_inv ib (Suc k) (buckets weights k) ?d"
    unfolding wd_inv_def
  proof (intro conjI allI impI ballI)
    show "dll (NullNode ib) (mNodes ?d) (NullNode ib) (buckets weights k w)" for w
      using D(4) [of w] notin [of w] by simp
    show "nWeight (mNodes ?d ! i) = w" if "i \<in> set (buckets weights k w)" for i w
      using D(6) [OF that] that notin by (cases "i = k") auto
    show "mPrevWeightNode (mNodes ?d ! i) = NullNode ib" "mNextWeightNode (mNodes ?d ! i) = NullNode ib"
      if "i < Suc k" "loose (buckets weights k) i" for i
      using D(9,10) [of i] that k by (cases "i = k"; simp)+
    show "Suc k \<le> NullNode ib" using k(1) assms(2) by simp
    show "i < Suc k" if "i \<in> set (buckets weights k w)" for i w
      using D(5) [OF that] by simp
  qed (use D k in simp_all)
  have node: "nWeight (mNodes ?d ! k) = weights ! k" using k by simp
  have "loose (buckets weights k) k" using notin by (simp add: loose_def)
  from pushNode_refines [OF inv' _ this node [symmetric]]
  obtain d2 where d2: "pushNode ib k ?d = Inr d2" "wd_inv ib (Suc k) (buckets weights (Suc k)) d2"
    "map nWeight (mNodes d2) = map nWeight (mNodes ?d)"
    by (auto simp: buckets_Suc)
  have s: "weights ! k < s" using assms(1) k by simp
  have len2: "length (mWeightSets d2) = s" "length (mNodes d2) = length (mNodes d)"
    using pushNode_sets_length [OF d2(1)] node s len by simp_all
  have "nWeight (mNodes d2 ! i) = weights ! i" if "i < Suc k" for i
  proof -
    have "nWeight (mNodes d2 ! i) = nWeight (mNodes ?d ! i)"
      using arg_cong [OF d2(3), of "\<lambda>xs. xs ! i"] that k len len2 by simp
    with wt node that show ?thesis by (cases "i = k") simp_all
  qed
  moreover have "foldr_res (initNode ib weights) [0..<Suc k] d = Inr d2"
    using loop initNode_push [OF k(2), of ib weights] s len d2(1) by (simp add: foldr_res_append)
  ultimately show ?case using d2(2) len2 by auto
qed

lemma trimSets_ok:
  assumes "\<exists>x\<in>set (take k ws). x \<noteq> None" "k \<le> length ws" "\<forall>i. k \<le> i \<longrightarrow> i < length ws \<longrightarrow> ws ! i = None"
  shows "\<exists>m. m \<le> length ws \<and> trimSets k ws = take m ws \<and> take m ws \<noteq> [] \<and> last (take m ws) \<noteq> None \<and>
    (\<forall>i. m \<le> i \<longrightarrow> i < length ws \<longrightarrow> ws ! i = None)"
  using assms
proof (induction k)
  case (Suc k)
  show ?case
  proof (cases "ws ! k = None")
    case False
    then have "last (take (Suc k) ws) \<noteq> None" using Suc.prems(2) by (simp add: take_Suc_conv_app_nth)
    moreover have "take (Suc k) ws \<noteq> []" using Suc.prems(2) by auto
    ultimately show ?thesis using False Suc.prems(2,3) by auto
  next
    case True
    have "\<exists>x\<in>set (take k ws). x \<noteq> None" using Suc.prems(1,2) True by (auto simp: take_Suc_conv_app_nth)
    moreover have "\<forall>i. k \<le> i \<longrightarrow> i < length ws \<longrightarrow> ws ! i = None"
      using Suc.prems(3) True by (metis le_antisym not_less_eq_eq)
    ultimately show ?thesis using Suc.IH Suc.prems(2) True by simp
  qed
qed simp

lemma weight_init_refines:
  assumes wts: "\<And>i. i < n \<Longrightarrow> weights ! i < 200" and n: "length weights = n" "0 < n" "n \<le> NullNode ib"
  shows "if length (mNodes d) \<le> n
    then \<exists>d'. weight_init ib weights d = Inr d' \<and> wd_rel ib n (buckets weights n) d' \<and> nodeWeights d' = weights
    else weight_init ib weights d = Inl AssertFail"
proof -
  define nodes where "nodes = (if length (mNodes d) < n
      then replicate n \<lparr>nWeight = 0, mPrevWeightNode = NullNode ib, mNextWeightNode = NullNode ib\<rparr>
      else mNodes d)"
  define d0 where "d0 = d\<lparr>mNodes := nodes, mWeightSets := replicate 200 None\<rparr>"
  have d0: "n \<le> length (mNodes d0)" "mWeightSets d0 = replicate 200 None"
    by (auto simp: d0_def nodes_def)
  obtain d1 where loop: "foldr_res (initNode ib weights) [0..<n] d0 = Inr d1"
    and inv: "wd_inv ib n (buckets weights n) d1" and len: "length (mNodes d1) = length (mNodes d0)"
    and wt: "\<forall>i<n. nWeight (mNodes d1 ! i) = weights ! i"
    using init_loop [OF wts n(3) order_refl d0] by blast
  note D = wd_invD [OF inv]
  have b0: "0 \<in> set (buckets weights n (weights ! 0))" using n by (simp add: set_buckets)
  then have l0: "weights ! 0 < length (mWeightSets d1)"
    using D(8) [of "weights ! 0"] by (metis empty_iff empty_set leI)
  moreover have "mWeightSets d1 ! (weights ! 0) \<noteq> None" using b0 D(7) [OF l0] by auto
  ultimately have "\<exists>x\<in>set (take (length (mWeightSets d1)) (mWeightSets d1)). x \<noteq> None"
    by (metis nth_mem take_all_iff order_refl)
  from trimSets_ok [OF this] obtain m where m: "m \<le> length (mWeightSets d1)"
    "trimSets (length (mWeightSets d1)) (mWeightSets d1) = take m (mWeightSets d1)"
    "take m (mWeightSets d1) \<noteq> []" "last (take m (mWeightSets d1)) \<noteq> None"
    "\<forall>i. m \<le> i \<longrightarrow> i < length (mWeightSets d1) \<longrightarrow> mWeightSets d1 ! i = None" by auto
  let ?d2 = "d1\<lparr>mWeightSets := take m (mWeightSets d1)\<rparr>"
  have "buckets weights n w = []" if "m \<le> w" for w
    using m(5) D(7,8) [of w] that by (metis hd_opt_None leI)
  with inv m(1) have inv2: "wd_inv ib n (buckets weights n) ?d2"
    by (auto simp: wd_inv_def)
  have "\<not> loose (buckets weights n) i" if "i < n" for i
    using that set_buckets [of weights n "weights ! i"] by (auto simp: loose_def)
  from validate_refines [OF inv2 this]
  have val: "validate ib ?d2 = (if length (mNodes d1) = n then Inr () else Inl AssertFail)" by simp
  have init: "weight_init ib weights d = rbind (validate ib ?d2) (\<lambda>_. Inr ?d2)"
    using loop m(2) n(1) by (simp add: weight_init_def Let_def flip: nodes_def d0_def)
  show ?thesis
  proof (cases "length (mNodes d) \<le> n")
    case True
    then have l: "length (mNodes d1) = n" using len by (auto simp: d0_def nodes_def)
    have "nodeWeights ?d2 = weights"
      using wt l n by (intro nth_equalityI) (simp_all add: nodeWeights_def)
    with inv2 m(3,4) init val l True show ?thesis by (simp add: wd_rel_def trimmed_def)
  next
    case False
    then show ?thesis using len init val by (auto simp: d0_def nodes_def)
  qed
qed

subsection \<open>The properties\<close>

lemma setNodeWeight_pred:
  "nWeight (mNodes d ! i) = Suc w \<Longrightarrow> i < length (mNodes d) \<Longrightarrow>
     modNode i (nWeight_update (\<lambda>w. w - 1)) d = setNodeWeight i w d"
  by (cases "mNodes d ! i") (simp add: setNodeWeight_def modNode_def)

text \<open>C27: init, given one weight below 200 for every column and a structure that has never held
  more columns, builds the buckets: every column is, once, in the list of its weight, later
  columns first, the links of the lists are consistent, and validate accepts the result.\<close>

theorem weight_init_correct:
  assumes "\<forall>w\<in>set weights. w < 200" and "0 < length weights" and "length weights < 2 ^ ib"
    and "length (mNodes d) \<le> length weights"
  shows "\<exists>d'. weight_init ib weights d = Inr d' \<and> nodeWeights d' = weights \<and> validate ib d' = Inr () \<and>
    wd_rel ib (length weights) (\<lambda>w. rev (filter (\<lambda>i. weights ! i = w) [0..<length weights])) d'"
proof -
  have b: "(\<lambda>w. rev (filter (\<lambda>i. weights ! i = w) [0..<length weights])) = buckets weights (length weights)"
    by (simp add: buckets_def fun_eq_iff)
  obtain d' where d': "weight_init ib weights d = Inr d'"
    "wd_rel ib (length weights) (buckets weights (length weights)) d'" "nodeWeights d' = weights"
  proof -
    have "length weights \<le> NullNode ib" using assms(3) by (simp add: NullNode_def)
    with weight_init_refines [of "length weights" weights ib d] assms that show ?thesis by auto
  qed
  moreover have "validate ib d' = Inr ()"
  proof -
    have "length (mNodes d') = length weights" using d'(3) by (auto simp: nodeWeights_def)
    moreover have "\<not> loose (buckets weights (length weights)) i" if "i < length weights" for i
      using that set_buckets [of weights "length weights" "weights ! i"] by (auto simp: loose_def)
    ultimately show ?thesis
      using validate_refines [of ib "length weights" "buckets weights (length weights)" d'] d'(2)
      by (simp add: wd_rel_def)
  qed
  ultimately show ?thesis unfolding b by blast
qed

definition emptyWeightData :: weight_data where
  "emptyWeightData = \<lparr>mWeightSets = [], mNodes = []\<rparr>"

lemma sample_init:
  "\<exists>d. weight_init 8 [2, 1, 2] emptyWeightData = Inr d \<and> nodeWeights d = [2, 1, 2] \<and>
     wd_rel 8 3 (buckets [2, 1, 2] 3) d"
proof -
  have "[2, 1, 2] ! i < (200 :: nat)" if "i < 3" for i
    using that by (auto simp: less_Suc_eq numeral_3_eq_3)
  from weight_init_refines [of 3 "[2, 1, 2]" 8 emptyWeightData, OF this] show ?thesis
    by (auto simp: emptyWeightData_def NullNode_def)
qed

theorem weight_init_correct_witness:
  "\<exists>d'. weight_init 8 [2, 1, 2] emptyWeightData = Inr d' \<and> nodeWeights d' = [2, 1, 2] \<and> validate 8 d' = Inr ()"
  using weight_init_correct [of "[2, 1, 2]" 8 emptyWeightData] by (auto simp: emptyWeightData_def)

text \<open>C28: decementWeight, called on a column of non-zero weight while another column is still
  stored, meets no assertion and no undefined behaviour: it moves the column from its bucket to the
  front of the bucket below, and changes no other weight.\<close>

theorem decementWeight_correct:
  assumes "wd_rel ib n L d" and "i \<in> set (L (Suc w))" and "j \<in> set (L v)" and "j \<noteq> i"
  shows "\<exists>d'. decementWeight ib i d = Inr d' \<and>
    wd_rel ib n (L(Suc w := remove1 i (L (Suc w)), w := i # L w)) d' \<and>
    nodeWeights d' = (nodeWeights d)[i := w]"
proof -
  from wd.decrement [OF assms] obtain d' d'' where d: "popNode ib i d = Inr d'"
    "pushNode ib i (setNodeWeight i w d') = Inr d''" "nodeWeights d' = nodeWeights d"
    "wd_rel ib n (L(Suc w := remove1 i (L (Suc w)), w := i # L w)) d''"
    "nodeWeights d'' = (nodeWeights d)[i := w]" by blast
  from wd.mem [OF assms(1,2)] have i: "i < length (mNodes d)" "nWeight (mNodes d ! i) = Suc w"
    by (auto simp: nodeWeights_def)
  have len: "length (mNodes d') = length (mNodes d)"
    using arg_cong [OF d(3), of length] by (simp add: nodeWeights_def)
  have "nodeWeights d' ! i = Suc w" using i d(3) by (simp add: nodeWeights_def)
  with i len have "nWeight (mNodes d' ! i) = Suc w" by (simp add: nodeWeights_def)
  then have "modNode i (nWeight_update (\<lambda>w. w - 1)) d' = setNodeWeight i w d'"
    using i len by (simp add: setNodeWeight_pred del: One_nat_def)
  with d i show ?thesis by (simp add: decementWeight_def del: One_nat_def)
qed

theorem decementWeight_correct_witness:
  "\<exists>d d'. weight_init 8 [2, 1, 2] emptyWeightData = Inr d \<and> decementWeight 8 2 d = Inr d' \<and>
    nodeWeights d' = [2, 1, 1]"
proof -
  obtain d where d: "weight_init 8 [2, 1, 2] emptyWeightData = Inr d" "nodeWeights d = [2, 1, 2]"
    "wd_rel 8 3 (buckets [2, 1, 2] 3) d"
    using sample_init by blast
  have "2 \<in> set (buckets [2, 1, 2 :: nat] 3 (Suc 1))" "1 \<in> set (buckets [2, 1, 2 :: nat] 3 1)"
    by (simp_all add: set_buckets)
  from decementWeight_correct [OF d(3) this] d(1,2) show ?thesis by auto
qed

text \<open>GetMinWeightNode, called while a column of positive weight is stored, returns a column
  whose weight is the least positive weight of all stored columns.\<close>

lemma getMinWeightNode_correct:
  assumes "wd_rel ib n L d" and "j \<in> set (L w)" and "0 < w"
  shows "\<exists>i m. getMinWeightNode d = Inr i \<and> i < n \<and> i \<in> set (L m) \<and> nodeWeights d ! i = m \<and> 0 < m \<and>
    (\<forall>k v. k \<in> set (L v) \<longrightarrow> 0 < v \<longrightarrow> m \<le> nodeWeights d ! k)"
proof -
  have "L w \<noteq> []" using assms(2) by auto
  from wd.getMin [OF assms(1) this assms(3)] obtain m i where m: "getMinWeightNode d = Inr i" "0 < m"
    "i \<in> set (L m)" "\<forall>v. 0 < v \<and> v < m \<longrightarrow> L v = []" by blast
  have "m \<le> nodeWeights d ! k" if "k \<in> set (L v)" "0 < v" for k v
    using wd.mem [OF assms(1) that(1)] m(4) that by (metis empty_iff empty_set leI)
  with m wd.mem [OF assms(1) m(3)] show ?thesis by blast
qed

text \<open>Removing the only stored column is undefined behaviour: after clearing its bucket,
  popNode's loop calls pop_back until mWeightSets is empty and then reads back() of an empty vector.\<close>

lemma popNode_last_UB:
  assumes "wd_rel ib n L d" and "L w = [i]" and "\<forall>v. v \<noteq> w \<longrightarrow> L v = []"
  shows "popNode ib i d = Inl UB"
proof -
  from assms(1) have inv: "wd_inv ib n L d" by (simp add: wd_rel_def)
  note D = wd_invD [OF inv]
  have i: "i < length (mNodes d)" "nWeight (mNodes d ! i) = w" using D(1) D(5,6) [of i w] assms(2) by auto
  have w: "w < length (mWeightSets d)" using D(8) [of w] assms(2) by (metis leI list.distinct(1))
  have all: "popNulls ws = Inl UB" if "\<forall>x\<in>set ws. x = None" for ws
    using that
  proof (induction ws rule: rev_induct)
    case (snoc x ws)
    then show ?case by (subst popNulls.simps) simp
  qed (simp add: popNulls.simps)
  have "x = None" if "x \<in> set ((mWeightSets d)[w := None])" for x
  proof -
    from that obtain v where v: "v < length (mWeightSets d)" "x = (mWeightSets d)[w := None] ! v"
      by (auto simp: in_set_conv_nth)
    then show ?thesis using D(7) [OF v(1)] assms(3) by (cases "v = w") auto
  qed
  with all have "popNulls ((mWeightSets d)[w := None]) = Inl UB" by blast
  moreover have "mWeightSets d ! w = Some i" using D(7) [OF w] assms(2) by simp
  moreover have "mPrevWeightNode (mNodes d ! i) = NullNode ib" "mNextWeightNode (mNodes d ! i) = NullNode ib"
    using D(4) [of w] assms(2) by simp_all
  ultimately show ?thesis using i w by (simp add: popNode_def Let_def)
qed

text \<open>C29: init on a structure that has already held more columns than it is now given keeps the
  larger span of nodes, so the closing validate, which expects every node in a bucket, fails its
  assertion.\<close>

theorem weight_init_smaller_asserts:
  assumes "\<forall>w\<in>set weights. w < 200" and "0 < length weights" and "length weights < 2 ^ ib"
    and "length weights < length (mNodes d)"
  shows "weight_init ib weights d = Inl AssertFail"
  using weight_init_refines [of "length weights" weights ib d] assms by (auto simp: NullNode_def)

theorem weight_init_smaller_asserts_witness:
  "\<exists>d. weight_init 8 [2, 1, 2] emptyWeightData = Inr d \<and> weight_init 8 [1, 1] d = Inl AssertFail"
proof -
  obtain d where d: "weight_init 8 [2, 1, 2] emptyWeightData = Inr d" "nodeWeights d = [2, 1, 2]"
    using sample_init by blast
  have "length (mNodes d) = 3" using arg_cong [OF d(2), of length] by (simp add: nodeWeights_def)
  with weight_init_smaller_asserts [of "[1, 1]" 8 d] d(1) show ?thesis by auto
qed

end
