(* ===== verification/Gf128.thy ===== *)
theory Gf128
  imports Prelude
begin

section \<open>The field GF(2^128)\<close>

text \<open>
  The block arithmetic of \<open>cryptoTools/Common/block.h\<close> and \<open>block.cpp\<close> that Paxos uses:
  the portable multiplication \<open>cc_gf128Mul\<close>, the carry-less-multiply version
  \<open>mm_gf128Mul\<close> with its reduction, and the inversion \<open>gf128Inv\<close> of
  \<open>volePSI/PaxosImpl.h\<close>.  A type \<open>gf128\<close> with the algebraic structure the code relies on
  (commutative ring, then field) is the specification they refine.
\<close>

subsection \<open>Blocks and their 64-bit halves\<close>

definition lo64 :: "block \<Rightarrow> u64" where "lo64 b = ucast b"
definition hi64 :: "block \<Rightarrow> u64" where "hi64 b = ucast (drop_bit 64 b)"

definition toBlock :: "u64 \<Rightarrow> u64 \<Rightarrow> block" where
  "toBlock x1 x0 = push_bit 64 (ucast x1) OR ucast x0"

lemma bit_lo64 [simp]: "bit (lo64 b) n \<longleftrightarrow> n < 64 \<and> bit b n"
  by (auto simp: lo64_def bit_simps)

lemma bit_hi64 [simp]: "bit (hi64 b) n \<longleftrightarrow> n < 64 \<and> bit b (64 + n)"
  by (auto simp: hi64_def bit_simps ac_simps)

lemma bit_toBlock [simp]:
  "bit (toBlock x1 x0) n \<longleftrightarrow> n < 128 \<and> (if n < 64 then bit x0 n else bit x1 (n - 64))"
  using bit_imp_le_length [of x0 n]
  by (auto simp: toBlock_def bit_simps)

lemma toBlock_halves [simp]: "toBlock (hi64 b) (lo64 b) = b"
  by (rule bit_word_eqI) auto

lemma halves_toBlock [simp]: "lo64 (toBlock x1 x0) = x0" "hi64 (toBlock x1 x0) = x1"
  by (auto intro!: bit_word_eqI)

lemma toBlock_xor: "toBlock a b XOR toBlock c d = toBlock (a XOR c) (b XOR d)"
  by (rule bit_word_eqI) (auto simp: bit_simps)

subsection \<open>The portable multiplication\<close>

record cc_state =
  shifted0 :: u64
  shifted1 :: u64
  result0_0 :: u64
  result0_1 :: u64

definition cc_mul_step :: "u64 \<Rightarrow> nat \<Rightarrow> cc_state \<Rightarrow> cc_state" where
  "cc_mul_step ya j s =
     (let s1 = (if ya AND push_bit j 1 \<noteq> 0
                then s\<lparr>result0_0 := result0_0 s XOR shifted0 s,
                       result0_1 := result0_1 s XOR shifted1 s\<rparr>
                else s)
      in if shifted1 s1 AND push_bit 63 1 \<noteq> 0
         then s1\<lparr>shifted1 := push_bit 1 (shifted1 s1) OR drop_bit 63 (shifted0 s1),
                 shifted0 := push_bit 1 (shifted0 s1) XOR 0x87\<rparr>
         else s1\<lparr>shifted1 := push_bit 1 (shifted1 s1) OR drop_bit 63 (shifted0 s1),
                 shifted0 := push_bit 1 (shifted0 s1)\<rparr>)"

definition cc_gf128Mul :: "block \<Rightarrow> block \<Rightarrow> block \<times> block" where
  "cc_gf128Mul x y =
     (let s0 = \<lparr>shifted0 = lo64 x, shifted1 = hi64 x, result0_0 = 0, result0_1 = 0\<rparr>;
          s1 = fold (cc_mul_step (lo64 y)) [0..<64] s0;
          s2 = fold (cc_mul_step (hi64 y)) [0..<64] s1
      in (toBlock (result0_1 s2) (result0_0 s2), toBlock 0 0))"

text \<open>\<open>shiftMod\<close>: the modulus shifted by \<open>s\<close>, as a 256-bit pair (low, high).\<close>

definition setBit256 :: "nat \<Rightarrow> block \<times> block \<Rightarrow> block \<times> block" where
  "setBit256 n p = (if n < 128 then (set_bit n (fst p), snd p)
                    else (fst p, set_bit (n - 128) (snd p)))"

definition shiftMod :: "nat \<Rightarrow> (block \<times> block) res" where
  "shiftMod s = (if s > 127 then Inl RTE_LOC
                 else Inr (fold (\<lambda>b. setBit256 (b + s)) [0, 1, 2, 7, 128] (0, 0)))"

definition cc_reduce_step :: "nat \<Rightarrow> block \<times> block \<Rightarrow> (block \<times> block) res" where
  "cc_reduce_step i x =
     (if bit (snd x) i
      then rbind (shiftMod i) (\<lambda>m. Inr (fst x XOR fst m, snd x XOR snd m))
      else Inr x)"

definition cc_gf128Reduce :: "block \<Rightarrow> block \<Rightarrow> block res" where
  "cc_gf128Reduce x0 x1 =
     rbind (foldr_res cc_reduce_step (rev [0..<128]) (x0, x1)) (\<lambda>x. Inr (fst x))"

subsection \<open>The algebra: a commutative ring of characteristic two\<close>

typedef gf128 = "UNIV :: block set"
  morphisms gf_rep GF ..

setup_lifting type_definition_gf128

lemma GF_inject_iff [simp]: "GF a = GF b \<longleftrightarrow> a = b"
  by (simp add: GF_inject)

lemma gf_rep_GF [simp]: "gf_rep (GF a) = a"
  by (simp add: GF_inverse)

instantiation gf128 :: ab_group_add
begin

lift_definition zero_gf128 :: gf128 is "0 :: block" .
lift_definition plus_gf128 :: "gf128 \<Rightarrow> gf128 \<Rightarrow> gf128" is "\<lambda>a b :: block. a XOR b" .
lift_definition uminus_gf128 :: "gf128 \<Rightarrow> gf128" is "\<lambda>a :: block. a" .
lift_definition minus_gf128 :: "gf128 \<Rightarrow> gf128 \<Rightarrow> gf128" is "\<lambda>a b :: block. a XOR b" .

instance
  by standard (transfer; simp add: ac_simps xor.assoc)+

end

lemma GF_add: "GF a + GF b = GF (a XOR b)"
  by (simp add: plus_gf128.abs_eq)

lemma GF_zero: "GF 0 = 0"
  by (simp add: zero_gf128.abs_eq)

lemma gf_add_self [simp]: "(a :: gf128) + a = 0"
  by transfer simp

lemma gf_minus_eq_plus: "(a :: gf128) - b = a + b"
  by transfer simp

lemma gf_uminus [simp]: "- (a :: gf128) = a"
  by transfer simp

lemma gf_add_self2 [simp]: "(a :: gf128) + (a + b) = b"
  by (simp flip: add.assoc)

lemma gf_add_eq_0_iff: "(a :: gf128) + b = 0 \<longleftrightarrow> a = b"
  by (metis add.right_neutral gf_add_self gf_add_self2)

text \<open>Multiplication by \<open>x\<close> modulo \<open>x^128 + x^7 + x^2 + x + 1\<close>.\<close>

definition xtimes :: "block \<Rightarrow> block" where
  "xtimes b = push_bit 1 b XOR (if bit b 127 then 0x87 else 0)"

lift_definition gfT :: "gf128 \<Rightarrow> gf128" is xtimes .

lift_definition gf_bit :: "gf128 \<Rightarrow> nat \<Rightarrow> bool" is "bit :: block \<Rightarrow> nat \<Rightarrow> bool" .

lemma gf_bit_add: "gf_bit (a + b) n \<longleftrightarrow> gf_bit a n \<noteq> gf_bit b n"
  by transfer (simp add: bit_simps)

lemma gf_bit_0 [simp]: "\<not> gf_bit 0 n"
  by transfer simp

lemma gf_bit_GF [simp]: "gf_bit (GF a) n = bit a n"
  by (simp add: gf_bit.abs_eq)

lemma gf_eqI: "(\<And>n. n < 128 \<Longrightarrow> gf_bit a n = gf_bit b n) \<Longrightarrow> a = b"
  by transfer (auto intro!: bit_word_eqI)

lemma bit_xtimes:
  "bit (xtimes b) n \<longleftrightarrow>
     (0 < n \<and> n < 128 \<and> bit b (n - 1)) \<noteq> (bit b 127 \<and> bit (0x87 :: block) n)"
proof -
  have "bit (xtimes b) n \<longleftrightarrow> bit (push_bit 1 b) n \<noteq> (bit b 127 \<and> bit (0x87 :: block) n)"
    by (auto simp only: xtimes_def bit_xor_iff bit_0_eq if_True if_False bot_apply bot_bool_def split: if_splits)
  moreover have "bit (push_bit 1 b) n \<longleftrightarrow> 0 < n \<and> n < 128 \<and> bit b (n - 1)"
    unfolding bit_push_bit_iff by (auto dest: bit_imp_le_length)
  ultimately show ?thesis by blast
qed

lemma gfT_add: "gfT (a + b) = gfT a + gfT b"
  by transfer (rule bit_word_eqI, auto simp only: bit_xtimes bit_xor_iff)

lemma gfT_0 [simp]: "gfT 0 = 0"
  by transfer (simp add: xtimes_def)

definition gfTn :: "nat \<Rightarrow> gf128 \<Rightarrow> gf128" where
  "gfTn n = (gfT ^^ n)"

lemma gfTn_0 [simp]: "gfTn n 0 = 0"
  by (induction n) (simp_all add: gfTn_def)

lemma gfTn_add: "gfTn n (a + b) = gfTn n a + gfTn n b"
  by (induction n) (simp_all add: gfTn_def gfT_add)

lemma gfTn_comp: "gfTn m (gfTn n a) = gfTn (m + n) a"
  by (simp add: gfTn_def funpow_add)

lemma gfTn_sum: "gfTn n (sum f A) = (\<Sum>i\<in>A. gfTn n (f i))"
  by (induction A rule: infinite_finite_induct) (simp_all add: gfTn_add)

text \<open>The powers of \<open>x\<close> below \<open>x^128\<close> are the single bits.\<close>

lemma xtimes_bit: "n < 127 \<Longrightarrow> xtimes (push_bit n 1) = push_bit (Suc n) 1"
  by (auto simp: xtimes_def bit_simps)

lemma gfTn_one: "n < 128 \<Longrightarrow> gfTn n (GF 1) = GF (push_bit n 1)"
proof (induction n)
  case (Suc n)
  then have "gfTn (Suc n) (GF 1) = GF (xtimes (push_bit n 1))"
    by (simp add: gfTn_def gfT.abs_eq)
  with Suc.prems show ?case by (simp only: xtimes_bit)
qed (simp add: gfTn_def)

definition gfmul :: "gf128 \<Rightarrow> gf128 \<Rightarrow> gf128" where
  "gfmul a b = (\<Sum>i<128. if gf_bit b i then gfTn i a else 0)"

lemma gfmul_add_left: "gfmul (a + a') b = gfmul a b + gfmul a' b"
  unfolding gfmul_def sum.distrib [symmetric]
  by (rule sum.cong) (auto simp: gfTn_add)

lemma gfmul_add_right: "gfmul a (b + b') = gfmul a b + gfmul a b'"
  unfolding gfmul_def sum.distrib [symmetric]
  by (rule sum.cong) (auto simp: gf_bit_add)

lemma gfTn_gfmul: "gfTn n (gfmul a b) = gfmul (gfTn n a) b"
  unfolding gfmul_def gfTn_sum
  by (rule sum.cong) (auto simp: gfTn_comp add.commute)

lemma gfmul_0_left [simp]: "gfmul 0 b = 0"
  unfolding gfmul_def by (rule sum.neutral) simp

lemma gf_bit_sum_powers:
  "n < 128 \<Longrightarrow> k \<le> 128 \<Longrightarrow>
     gf_bit (\<Sum>i<k. if P i then GF (push_bit i 1) else 0) n \<longleftrightarrow> n < k \<and> P n"
  by (induction k) (auto simp: gf_bit_add bit_simps less_Suc_eq)

lemma gfmul_1_left: "gfmul (GF 1) b = b"
proof (rule gf_eqI)
  fix n :: nat assume n: "n < 128"
  have "gfmul (GF 1) b = (\<Sum>i<128. if gf_bit b i then GF (push_bit i 1) else 0)"
    unfolding gfmul_def by (rule sum.cong) (auto simp: gfTn_one)
  with n show "gf_bit (gfmul (GF 1) b) n = gf_bit b n"
    by (simp add: gf_bit_sum_powers)
qed

lemma gfmul_sum_left: "gfmul (sum f A) b = (\<Sum>i\<in>A. gfmul (f i) b)"
  by (induction A rule: infinite_finite_induct) (simp_all add: gfmul_add_left)

lemma gfTn_as_mul: "gfTn i a = gfmul (gfTn i (GF 1)) a"
  by (simp add: gfmul_1_left flip: gfTn_gfmul)

lemma gfmul_commute: "gfmul a b = gfmul b a"
proof -
  have "gfmul a b = (\<Sum>i<128. gfmul (if gf_bit b i then gfTn i (GF 1) else 0) a)"
    unfolding gfmul_def [of a b] by (rule sum.cong) (auto simp: gfTn_as_mul [of _ a])
  also have "\<dots> = gfmul (gfmul (GF 1) b) a"
    by (simp add: gfmul_sum_left gfmul_def [of "GF 1"])
  finally show ?thesis by (simp add: gfmul_1_left)
qed

lemma gfmul_right_commute: "gfmul (gfmul a b) c = gfmul (gfmul a c) b"
proof -
  have "gfmul (gfmul a b) c = (\<Sum>i<128. gfmul (if gf_bit c i then gfTn i a else 0) b)"
    unfolding gfmul_def [of _ c] by (rule sum.cong) (auto simp: gfTn_gfmul)
  then show ?thesis by (simp add: gfmul_sum_left gfmul_def [of a c])
qed

lemma gfmul_assoc: "gfmul (gfmul a b) c = gfmul a (gfmul b c)"
  by (metis gfmul_commute gfmul_right_commute)

instantiation gf128 :: comm_ring_1
begin

lift_definition one_gf128 :: gf128 is "1 :: block" .
definition times_gf128 :: "gf128 \<Rightarrow> gf128 \<Rightarrow> gf128" where "a * b = gfmul a b"

instance
proof
  fix a b c :: gf128
  have one: "1 = GF 1" by (simp add: one_gf128.abs_eq)
  show "a * b * c = a * (b * c)" by (simp add: times_gf128_def gfmul_assoc)
  show "a * b = b * a" by (simp add: times_gf128_def gfmul_commute)
  show "1 * a = a" by (simp add: times_gf128_def one gfmul_1_left)
  show "(a + b) * c = a * c + b * c" by (simp add: times_gf128_def gfmul_add_left)
  show "0 \<noteq> (1 :: gf128)" by transfer simp
qed

end

lemma GF_one: "GF 1 = 1"
  by (simp add: one_gf128.abs_eq)

definition gfX :: gf128 where "gfX = GF 2"

lemma gfT_eq: "gfT a = gfX * a"
proof -
  have "gfTn 1 a = gfmul (gfTn 1 (GF 1)) a" by (rule gfTn_as_mul)
  moreover have "gfTn 1 (GF 1) = gfX" using gfTn_one [of 1] by (simp add: gfX_def)
  ultimately show ?thesis by (simp add: gfTn_def times_gf128_def)
qed

lemma gfTn_eq: "gfTn n a = gfX ^ n * a"
  by (induction n) (simp_all add: gfTn_def gfT_eq ac_simps)

lemma gf_pow_bit: "n < 128 \<Longrightarrow> gfX ^ n = GF (push_bit n 1)"
  using gfTn_one [of n] gfTn_eq [of n "GF 1"] by (simp add: GF_one)

lemma gf_mult_expand: "a * b = (\<Sum>i<128. if gf_bit b i then gfX ^ i * a else 0)"
  unfolding times_gf128_def [of a b] gfmul_def gfTn_eq by (rule refl)

lemma gf_expand: "a = (\<Sum>i<128. if gf_bit a i then gfX ^ i else 0)"
proof -
  have "1 * a = (\<Sum>i<128. if gf_bit a i then gfX ^ i * 1 else 0)"
    by (rule gf_mult_expand)
  then show ?thesis by (simp only: mult_1_left mult_1_right)
qed

subsection \<open>The portable multiplication is the ring product\<close>

definition cc_shifted :: "cc_state \<Rightarrow> block" where
  "cc_shifted s = toBlock (shifted1 s) (shifted0 s)"

definition cc_result :: "cc_state \<Rightarrow> block" where
  "cc_result s = toBlock (result0_1 s) (result0_0 s)"

lemma and_push_bit_1_iff: "w AND push_bit j 1 \<noteq> 0 \<longleftrightarrow> bit w j" for w :: "'a :: len word"
  by (metis and_exp_eq_0_iff_not_bit push_bit_of_1)

lemma bit_shl1: "bit (push_bit 1 w) n \<longleftrightarrow> 0 < n \<and> n < LENGTH('a) \<and> bit w (n - 1)"
  for w :: "'a :: len word"
  unfolding bit_push_bit_iff by (auto dest: bit_imp_le_length)

lemma cc_shift_eq:
  "toBlock (push_bit 1 hi OR drop_bit 63 lo)
     (push_bit 1 lo XOR (if bit hi 63 then 0x87 else 0)) = xtimes (toBlock hi lo)"
proof (rule bit_word_eqI)
  fix n :: nat assume "n < LENGTH(128)"
  then have n: "n < 128" by simp
  have big: "\<not> bit (0x87 :: block) n" if "\<not> n < 64"
  proof -
    have "(0x87 :: block) = ucast (0x87 :: u8)" by simp
    then show ?thesis using that by (simp only: bit_ucast_iff) (auto dest: bit_imp_le_length)
  qed
  have small: "bit (0x87 :: u64) n = bit (0x87 :: block) n" if "n < 64"
  proof -
    have "(0x87 :: u64) = ucast (0x87 :: block)" by simp
    then show ?thesis using that by (simp only: bit_ucast_iff) simp
  qed
  show "bit (toBlock (push_bit 1 hi OR drop_bit 63 lo)
     (push_bit 1 lo XOR (if bit hi 63 then 0x87 else 0))) n = bit (xtimes (toBlock hi lo)) n"
    unfolding bit_xtimes bit_toBlock bit_or_iff bit_xor_iff bit_shl1 bit_drop_bit_eq comp_def
    using n big by (cases "n < 64"; cases "bit hi 63"; cases "n = 64")
      (auto simp: big small bit_xor_iff bit_shl1 simp del: push_bit_Suc dest: bit_imp_le_length)
qed

lemma cc_mul_step_shifted: "cc_shifted (cc_mul_step y j s) = xtimes (cc_shifted s)"
  by (simp add: cc_mul_step_def cc_shifted_def and_push_bit_1_iff Let_def
      cc_shift_eq [of "shifted1 s" "shifted0 s", symmetric] del: push_bit_of_1)

lemma cc_mul_step_result:
  "cc_result (cc_mul_step y j s) =
     (if bit y j then cc_result s XOR cc_shifted s else cc_result s)"
  by (simp add: cc_mul_step_def cc_result_def cc_shifted_def and_push_bit_1_iff Let_def
      toBlock_xor del: push_bit_of_1)

lemma cc_mul_loop:
  "GF (cc_shifted (fold (cc_mul_step y) [0..<n] s)) = gfX ^ n * GF (cc_shifted s) \<and>
   GF (cc_result (fold (cc_mul_step y) [0..<n] s)) =
     GF (cc_result s) + (\<Sum>j<n. if bit y j then gfX ^ j * GF (cc_shifted s) else 0)"
proof (induction n)
  case (Suc n)
  have X: "GF (xtimes b) = gfX * GF b" for b
    by (simp add: gfT.abs_eq flip: gfT_eq)
  from Suc show ?case
    by (auto simp: cc_mul_step_shifted cc_mul_step_result X ac_simps simp flip: GF_add)
qed simp

lemma cc_gf128Mul_eq:
  "cc_gf128Mul x y = (gf_rep (GF x * GF y), 0)"
proof -
  define s0 where "s0 = \<lparr>shifted0 = lo64 x, shifted1 = hi64 x, result0_0 = 0, result0_1 = 0\<rparr>"
  define s1 where "s1 = fold (cc_mul_step (lo64 y)) [0..<64] s0"
  define s2 where "s2 = fold (cc_mul_step (hi64 y)) [0..<64] s1"
  have t0: "toBlock 0 0 = 0" by (rule bit_word_eqI) simp
  have s0: "cc_shifted s0 = x" "cc_result s0 = 0"
    by (simp_all add: s0_def cc_shifted_def cc_result_def t0)
  have "GF (cc_result s2) = (\<Sum>j<64. if bit (lo64 y) j then gfX ^ j * GF x else 0) +
      (\<Sum>j<64. if bit (hi64 y) j then gfX ^ j * (gfX ^ 64 * GF x) else 0)"
    using cc_mul_loop [of "lo64 y" 64 s0] cc_mul_loop [of "hi64 y" 64 s1]
    by (simp only: s0 GF_zero s1_def [symmetric] s2_def [symmetric] add_0_left)
  also have "(\<Sum>j<64. if bit (lo64 y) j then gfX ^ j * GF x else 0) =
      (\<Sum>j<64. if bit y j then gfX ^ j * GF x else 0)"
    by (rule sum.cong) auto
  also have "(\<Sum>j<64. if bit (hi64 y) j then gfX ^ j * (gfX ^ 64 * GF x) else 0) =
      (\<Sum>j=64..<128. if bit y j then gfX ^ j * GF x else 0)"
    by (rule sum.reindex_bij_witness [of _ "\<lambda>j. j - 64" "\<lambda>j. j + 64"])
      (auto simp: power_add ac_simps)
  also have "(\<Sum>j<64. if bit y j then gfX ^ j * GF x else 0) +
      (\<Sum>j=64..<128. if bit y j then gfX ^ j * GF x else 0) = GF x * GF y"
    unfolding gf_mult_expand [of "GF x" "GF y"] gf_bit_GF
    by (simp add: sum.atLeastLessThan_concat flip: atLeast0LessThan)
  finally have "cc_result s2 = gf_rep (GF x * GF y)"
    by (metis gf_rep_GF)
  then show ?thesis
    by (simp add: cc_gf128Mul_def t0 cc_result_def flip: s0_def s1_def s2_def)
qed

subsection \<open>The carry-less multiply version\<close>

text \<open>
  \<open>_mm_clmulepi64_si128\<close> is modelled by its portable form \<open>cc_clmulepi64_si128\<close>
  of the same header; \<open>_mm_slli_si128(v, 8)\<close> and \<open>_mm_srli_si128(v, 8)\<close> shift by
  eight bytes.
\<close>

definition clmul_step :: "u64 \<Rightarrow> u64 \<Rightarrow> nat \<Rightarrow> u64 \<times> u64 \<Rightarrow> u64 \<times> u64" where
  "clmul_step x y j r =
     (let b = drop_bit j y AND 1 in
      (fst r XOR push_bit j x * b, snd r XOR drop_bit (64 - j) x * b))"

definition clmulepi64_si128 :: "bool \<Rightarrow> bool \<Rightarrow> block \<Rightarrow> block \<Rightarrow> block" where
  "clmulepi64_si128 ysel xsel a b =
     (let x = (if xsel then hi64 a else lo64 a);
          y = (if ysel then hi64 b else lo64 b);
          r = fold (clmul_step x y) [1..<64] (x * (y AND 1), 0)
      in toBlock (snd r) (fst r))"

definition mm_gf128Mul :: "block \<Rightarrow> block \<Rightarrow> block \<times> block" where
  "mm_gf128Mul x y =
     (let t1 = clmulepi64_si128 False False x y;
          t2 = clmulepi64_si128 True False x y;
          t3 = clmulepi64_si128 False True x y;
          t4 = clmulepi64_si128 True True x y;
          t2 = t2 XOR t3;
          t3 = push_bit 64 t2;
          t2 = drop_bit 64 t2;
          t1 = t1 XOR t3;
          t4 = t4 XOR t2
      in (t1, t4))"

definition mm_gf128Reduce :: "block \<Rightarrow> block \<Rightarrow> block" where
  "mm_gf128Reduce x0 x1 =
     (let modulus = toBlock 0 0x87;
          tmp = clmulepi64_si128 False True x1 modulus;
          mul256_low = x0 XOR push_bit 64 tmp;
          mul256_high = x1 XOR drop_bit 64 tmp;
          tmp = clmulepi64_si128 False False mul256_high modulus;
          mul256_low = mul256_low XOR tmp
      in mul256_low)"

text \<open>\<open>block::gf128Mul\<close>, in the build that has the carry-less multiply.\<close>

definition gf128Mul :: "block \<Rightarrow> block \<Rightarrow> block" where
  "gf128Mul x y = (let (xy1, xy2) = mm_gf128Mul x y in mm_gf128Reduce xy1 xy2)"

text \<open>A 64-bit word as a field element; shifting it by less than 64 is a power of \<open>x\<close>.\<close>

definition GF64 :: "u64 \<Rightarrow> gf128" where "GF64 w = GF (ucast w)"

lemma GF64_xor: "GF64 (a XOR b) = GF64 a + GF64 b"
proof -
  have "(ucast (a XOR b) :: block) = ucast a XOR ucast b"
    by (rule bit_word_eqI) (auto simp: bit_ucast_iff bit_xor_iff)
  then show ?thesis by (simp add: GF64_def GF_add)
qed

lemma GF_push_bit:
  "(\<And>k. 128 - n \<le> k \<Longrightarrow> \<not> bit b k) \<Longrightarrow> n \<le> 128 \<Longrightarrow> GF (push_bit n b) = gfX ^ n * GF b"
proof (induction n)
  case (Suc n)
  have nb: "\<not> bit (push_bit n b) 127"
    using Suc.prems by (auto simp: bit_push_bit_iff)
  have "push_bit (Suc n) b = push_bit 1 (push_bit n b)"
    by (simp add: ac_simps)
  also have "\<dots> = xtimes (push_bit n b)"
    using nb by (simp add: xtimes_def del: push_bit_push_bit)
  finally have "GF (push_bit (Suc n) b) = gfX * GF (push_bit n b)"
    by (simp add: gfT.abs_eq flip: gfT_eq)
  with Suc show ?case by simp
qed simp

lemma GF64_shift:
  assumes "n < 64"
  shows "GF (toBlock (drop_bit (64 - n) w) (push_bit n w)) = gfX ^ n * GF64 w"
proof -
  have "toBlock (drop_bit (64 - n) w) (push_bit n w) = push_bit n (ucast w)"
    using assms
    by (intro bit_word_eqI) (auto simp: bit_push_bit_iff bit_drop_bit_eq bit_ucast_iff
        dest: bit_imp_le_length)
  moreover have "GF (push_bit n (ucast w :: block)) = gfX ^ n * GF (ucast w)"
    using assms by (intro GF_push_bit) (auto simp: bit_ucast_iff dest: bit_imp_le_length)
  ultimately show ?thesis by (simp add: GF64_def)
qed

lemma and_1_bit: "drop_bit j y AND 1 = (if bit y j then 1 else 0)" for y :: u64
  by (simp add: and_one_eq bit_iff_odd_drop_bit odd_iff_mod_2_eq_one mod2_eq_if)

lemma clmul_step_val:
  "0 < j \<Longrightarrow> j < 64 \<Longrightarrow>
   GF (toBlock (snd (clmul_step x y j r)) (fst (clmul_step x y j r))) =
     GF (toBlock (snd r) (fst r)) + (if bit y j then gfX ^ j * GF64 x else 0)"
  by (simp add: clmul_step_def and_1_bit Let_def GF64_shift [symmetric] GF_add toBlock_xor)

lemma clmul_loop:
  "1 \<le> n \<Longrightarrow> n \<le> 64 \<Longrightarrow>
   (let r' = fold (clmul_step x y) [1..<n] r in GF (toBlock (snd r') (fst r'))) =
     GF (toBlock (snd r) (fst r)) + (\<Sum>j=1..<n. if bit y j then gfX ^ j * GF64 x else 0)"
proof (induction n)
  case (Suc n)
  show ?case
  proof (cases "n = 0")
    case False
    with Suc have "1 \<le> n" "n < 64" by auto
    with Suc show ?thesis by (simp add: Let_def clmul_step_val ac_simps)
  qed simp
qed simp

lemma GF64_expand: "GF64 y = (\<Sum>j<64. if bit y j then gfX ^ j else 0)"
proof -
  have "GF64 y = (\<Sum>j<128. if bit (ucast y :: block) j then gfX ^ j else 0)"
    unfolding GF64_def by (subst gf_expand) simp
  also have "\<dots> = (\<Sum>j<64. if bit y j then gfX ^ j else 0)"
    by (rule sum.mono_neutral_cong_right)
      (auto simp: bit_ucast_iff dest: bit_imp_le_length)
  finally show ?thesis .
qed

lemma clmulepi64_val:
  "GF (clmulepi64_si128 ysel xsel a b) =
     GF64 (if xsel then hi64 a else lo64 a) * GF64 (if ysel then hi64 b else lo64 b)"
proof -
  define x where "x = (if xsel then hi64 a else lo64 a)"
  define y where "y = (if ysel then hi64 b else lo64 b)"
  have t0: "toBlock 0 w = ucast w" for w
    by (rule bit_word_eqI) (auto simp: bit_ucast_iff dest: bit_imp_le_length)
  have y0: "GF (toBlock 0 (x * (y AND 1))) = (if bit y 0 then GF64 x else 0)"
    using and_1_bit [of 0 y] by (simp add: t0 GF64_def GF_zero bit_0)
  have "GF (clmulepi64_si128 ysel xsel a b) =
      (if bit y 0 then GF64 x else 0) + (\<Sum>j=1..<64. if bit y j then gfX ^ j * GF64 x else 0)"
    using clmul_loop [of 64 x y "(x * (y AND 1), 0)"]
    by (simp add: clmulepi64_si128_def y0 Let_def flip: x_def y_def)
  also have "\<dots> = (\<Sum>j<64. if bit y j then gfX ^ j * GF64 x else 0)"
    by (simp add: lessThan_atLeast0 sum.atLeast_Suc_lessThan [of 0 64])
  also have "\<dots> = (\<Sum>j<64. (if bit y j then gfX ^ j else 0) * GF64 x)"
    by (rule sum.cong) auto
  also have "\<dots> = GF64 x * GF64 y"
    by (simp add: GF64_expand [of y] sum_distrib_left mult.commute)
  finally show ?thesis by (simp only: x_def y_def)
qed

lemma GF_halves: "GF b = GF64 (lo64 b) + gfX ^ 64 * GF64 (hi64 b)"
proof -
  have "b = ucast (lo64 b) XOR push_bit 64 (ucast (hi64 b))"
    by (rule bit_word_eqI)
      (auto simp: bit_xor_iff bit_ucast_iff bit_push_bit_iff dest: bit_imp_le_length)
  moreover have "GF (push_bit 64 (ucast (hi64 b))) = gfX ^ 64 * GF (ucast (hi64 b))"
    by (rule GF_push_bit) (auto simp: bit_ucast_iff dest: bit_imp_le_length)
  ultimately show ?thesis
    by (metis GF64_def GF_add)
qed

lemma GF_shift64: "GF (push_bit 64 b) = gfX ^ 64 * GF64 (lo64 b)"
  and GF_drop64: "GF (drop_bit 64 b) = GF64 (hi64 b)"
proof -
  have "push_bit 64 b = push_bit 64 (ucast (lo64 b))"
    by (rule bit_word_eqI)
      (auto simp: bit_ucast_iff bit_push_bit_iff dest: bit_imp_le_length)
  moreover have "GF (push_bit 64 (ucast (lo64 b))) = gfX ^ 64 * GF (ucast (lo64 b))"
    by (rule GF_push_bit) (auto simp: bit_ucast_iff dest: bit_imp_le_length)
  ultimately show "GF (push_bit 64 b) = gfX ^ 64 * GF64 (lo64 b)"
    by (simp add: GF64_def)
  have "drop_bit 64 b = ucast (hi64 b)"
    by (rule bit_word_eqI)
      (auto simp: bit_ucast_iff bit_drop_bit_eq ac_simps dest: bit_imp_le_length)
  then show "GF (drop_bit 64 b) = GF64 (hi64 b)" by (simp add: GF64_def)
qed

lemma mm_gf128Mul_val:
  "GF (fst (mm_gf128Mul x y)) + gfX ^ 128 * GF (snd (mm_gf128Mul x y)) = GF x * GF y"
proof -
  define t2 where "t2 = clmulepi64_si128 True False x y XOR clmulepi64_si128 False True x y"
  have "gfX ^ 64 * GF t2 = GF (push_bit 64 t2) + gfX ^ 128 * GF (drop_bit 64 t2)"
    unfolding GF_halves [of t2] GF_shift64 GF_drop64
    by (simp add: algebra_simps flip: power_add)
  moreover have "GF (fst (mm_gf128Mul x y)) + gfX ^ 128 * GF (snd (mm_gf128Mul x y)) =
      GF64 (lo64 x) * GF64 (lo64 y) + gfX ^ 128 * (GF64 (hi64 x) * GF64 (hi64 y)) +
      (GF (push_bit 64 t2) + gfX ^ 128 * GF (drop_bit 64 t2))"
    by (simp add: mm_gf128Mul_def Let_def t2_def clmulepi64_val algebra_simps
        flip: GF_add)
  moreover have "GF t2 = GF64 (lo64 x) * GF64 (hi64 y) + GF64 (hi64 x) * GF64 (lo64 y)"
    by (simp add: t2_def clmulepi64_val flip: GF_add)
  moreover have "GF x * GF y = GF64 (lo64 x) * GF64 (lo64 y) +
      gfX ^ 128 * (GF64 (hi64 x) * GF64 (hi64 y)) +
      gfX ^ 64 * (GF64 (lo64 x) * GF64 (hi64 y) + GF64 (hi64 x) * GF64 (lo64 y))"
    unfolding GF_halves [of x] GF_halves [of y]
    by (simp add: algebra_simps flip: power_add)
  ultimately show ?thesis by simp
qed

lemma gfX_128: "gfX ^ 128 = GF 0x87"
proof -
  have "gfX ^ 128 = gfX * gfX ^ 127"
    by (simp flip: power_Suc)
  also have "gfX ^ 127 = GF (push_bit 127 1)" by (rule gf_pow_bit) simp
  also have "gfX * GF (push_bit 127 1) = GF (xtimes (push_bit 127 1))"
    by (simp add: gfT.abs_eq flip: gfT_eq)
  also have "xtimes (push_bit 127 1) = 0x87"
    by (simp add: xtimes_def)
  finally show ?thesis .
qed

lemma mm_gf128Reduce_val: "GF (mm_gf128Reduce x0 x1) = GF x0 + gfX ^ 128 * GF x1"
proof -
  define m where "m = toBlock 0 (0x87 :: u64)"
  have m: "GF64 (lo64 m) = gfX ^ 128"
    by (simp add: m_def GF64_def gfX_128)
  define t where "t = clmulepi64_si128 False True x1 m"
  have t: "GF t = gfX ^ 128 * GF64 (hi64 x1)"
    by (simp add: t_def clmulepi64_val m mult.commute)
  have "GF (mm_gf128Reduce x0 x1) =
      GF x0 + GF (push_bit 64 t) + gfX ^ 128 * GF64 (lo64 (x1 XOR drop_bit 64 t))"
    by (simp add: mm_gf128Reduce_def Let_def clmulepi64_val m mult.commute
        flip: GF_add t_def m_def)
  also have "GF64 (lo64 (x1 XOR drop_bit 64 t)) = GF64 (lo64 x1) + GF64 (hi64 t)"
  proof -
    have "lo64 (x1 XOR drop_bit 64 t) = lo64 x1 XOR hi64 t"
      by (rule bit_word_eqI) (auto simp: bit_xor_iff bit_drop_bit_eq ac_simps)
    then show ?thesis by (simp add: GF64_xor)
  qed
  also have "GF x0 + GF (push_bit 64 t) + gfX ^ 128 * (GF64 (lo64 x1) + GF64 (hi64 t)) =
      GF x0 + gfX ^ 128 * GF64 (lo64 x1) +
      gfX ^ 64 * (GF64 (lo64 t) + gfX ^ 64 * GF64 (hi64 t))"
    by (simp add: GF_shift64 algebra_simps flip: power_add)
  also have "GF64 (lo64 t) + gfX ^ 64 * GF64 (hi64 t) = gfX ^ 128 * GF64 (hi64 x1)"
    by (simp add: t flip: GF_halves)
  also have "GF x0 + gfX ^ 128 * GF64 (lo64 x1) + gfX ^ 64 * (gfX ^ 128 * GF64 (hi64 x1)) =
      GF x0 + gfX ^ 128 * (GF64 (lo64 x1) + gfX ^ 64 * GF64 (hi64 x1))"
    by (simp add: algebra_simps)
  finally show ?thesis by (simp flip: GF_halves)
qed

lemma GF_gf128Mul [simp]: "GF (gf128Mul x y) = GF x * GF y"
  using mm_gf128Mul_val [of x y]
  by (simp add: gf128Mul_def mm_gf128Reduce_val split_beta)

subsection \<open>The bit-serial reduction\<close>

definition val256 :: "block \<times> block \<Rightarrow> gf128" where
  "val256 p = GF (fst p) + gfX ^ 128 * GF (snd p)"

definition bit256 :: "block \<times> block \<Rightarrow> nat \<Rightarrow> bool" where
  "bit256 p n = (if n < 128 then bit (fst p) n else bit (snd p) (n - 128))"

lemma set_bit_fresh: "\<not> bit b n \<Longrightarrow> set_bit n b = b XOR push_bit n 1" for b :: block
proof (rule bit_word_eqI)
  fix k :: nat assume "\<not> bit b n" and "k < LENGTH(128)"
  moreover have "bit (push_bit n 1 :: block) k \<longleftrightarrow> k = n \<and> k < 128"
    unfolding bit_push_bit_iff bit_1_iff by auto
  ultimately show "bit (set_bit n b) k = bit (b XOR push_bit n 1) k"
    unfolding bit_xor_iff bit_set_bit_iff by auto
qed

lemma val256_setBit:
  assumes "\<not> bit256 p n" and "n < 256"
  shows "val256 (setBit256 n p) = val256 p + gfX ^ n"
proof (cases "n < 128")
  case True
  with assms show ?thesis
    by (simp add: val256_def setBit256_def bit256_def set_bit_fresh gf_pow_bit ac_simps
        del: push_bit_of_1 flip: GF_add)
next
  case False
  then have "gfX ^ n = gfX ^ 128 * gfX ^ (n - 128)" by (simp flip: power_add)
  also have "gfX ^ (n - 128) = GF (push_bit (n - 128) 1)"
    using assms(2) by (intro gf_pow_bit) simp
  finally have "gfX ^ n = gfX ^ 128 * GF (push_bit (n - 128) 1)" .
  with False assms show ?thesis
    by (simp add: val256_def setBit256_def bit256_def set_bit_fresh algebra_simps
        del: push_bit_of_1 flip: GF_add)
qed

lemma bit256_setBit:
  "n < 256 \<Longrightarrow> m < 256 \<Longrightarrow> bit256 (setBit256 n p) m \<longleftrightarrow> m = n \<or> bit256 p m"
  by (auto simp: setBit256_def bit256_def bit_set_bit_iff)

lemma gfX_modulus: "gfX ^ 128 = gfX ^ 7 + gfX ^ 2 + gfX + 1"
  unfolding gfX_128 using gf_pow_bit [of 7] gf_pow_bit [of 2]
  by (simp add: GF_add gfX_def flip: GF_one)

lemma shiftMod_val:
  assumes "i < 128"
  shows "\<exists>m. shiftMod i = Inr m \<and> val256 m = 0 \<and>
    (\<forall>k < 256. bit256 m k \<longleftrightarrow> k \<in> {i, i + 1, i + 2, i + 7, i + 128})"
proof -
  define m where "m = fold (\<lambda>b. setBit256 (b + i)) [0, 1, 2, 7, 128] (0, 0)"
  have 0: "\<not> bit256 (0, 0) k" "val256 (0, 0) = 0" for k
    by (simp_all add: bit256_def val256_def GF_zero)
  have "val256 m = gfX ^ i * (1 + gfX + gfX ^ 2 + gfX ^ 7 + gfX ^ 128)"
    using assms by (simp add: m_def val256_setBit bit256_setBit 0 algebra_simps
        flip: power_add power_Suc)
  also have "\<dots> = 0" by (simp add: gfX_modulus ac_simps)
  finally have "val256 m = 0" .
  moreover have "bit256 m k \<longleftrightarrow> k \<in> {i, i + 1, i + 2, i + 7, i + 128}" if "k < 256" for k
    using assms that by (auto simp: m_def bit256_setBit 0)
  moreover have "shiftMod i = Inr m" using assms by (simp add: shiftMod_def m_def)
  ultimately show ?thesis by blast
qed

lemma cc_reduce_step_val:
  assumes "i < 128" and top: "\<And>k. i < k \<Longrightarrow> \<not> bit (snd x) k"
  shows "\<exists>x'. cc_reduce_step i x = Inr x' \<and> val256 x' = val256 x \<and>
    (\<forall>k. i \<le> k \<longrightarrow> \<not> bit (snd x') k)"
proof (cases "bit (snd x) i")
  case False
  with top show ?thesis
    by (auto simp: cc_reduce_step_def le_less)
next
  case True
  obtain m where m: "shiftMod i = Inr m" "val256 m = 0"
    and bits: "\<And>k. k < 256 \<Longrightarrow> bit256 m k \<longleftrightarrow> k \<in> {i, i + 1, i + 2, i + 7, i + 128}"
    using shiftMod_val [OF assms(1)] by blast
  have hi: "bit (snd m) k \<longleftrightarrow> k + 128 \<in> {i, i + 1, i + 2, i + 7, i + 128}" if "k < 128" for k
    using bits [of "k + 128"] that by (simp add: bit256_def)
  have "val256 (fst x XOR fst m, snd x XOR snd m) = val256 x + val256 m"
    by (simp add: val256_def algebra_simps flip: GF_add)
  moreover have "\<not> bit (snd x XOR snd m) k" if "i \<le> k" for k
    using that True top [of k] hi [of k] assms(1)
    by (cases "k < 128") (auto simp: bit_xor_iff le_less dest: bit_imp_le_length)
  ultimately show ?thesis
    using True m by (simp add: cc_reduce_step_def)
qed

lemma cc_reduce_loop:
  assumes "n \<le> 128" and "\<And>k. n \<le> k \<Longrightarrow> \<not> bit (snd x) k"
  shows "\<exists>x'. foldr_res cc_reduce_step (rev [0..<n]) x = Inr x' \<and> val256 x' = val256 x \<and> snd x' = 0"
  using assms
proof (induction n arbitrary: x)
  case 0
  then show ?case by (auto intro!: bit_word_eqI)
next
  case (Suc n)
  obtain x' where "cc_reduce_step n x = Inr x'" and "val256 x' = val256 x"
    and "\<And>k. n \<le> k \<Longrightarrow> \<not> bit (snd x') k"
    using Suc.prems cc_reduce_step_val [of n x] by (auto simp: Suc_le_eq)
  with Suc.IH [of x'] Suc.prems show ?case by auto
qed

lemma cc_gf128Reduce_val:
  "\<exists>r. cc_gf128Reduce x0 x1 = Inr r \<and> GF r = GF x0 + gfX ^ 128 * GF x1"
proof -
  have "\<not> bit (snd (x0, x1)) k" if "128 \<le> k" for k
    using that by (auto dest: bit_imp_le_length)
  then obtain x' where "foldr_res cc_reduce_step (rev [0..<128]) (x0, x1) = Inr x'"
    and "val256 x' = val256 (x0, x1)" and "snd x' = 0"
    using cc_reduce_loop [of 128 "(x0, x1)"] by blast
  then show ?thesis
    by (auto simp: cc_gf128Reduce_def val256_def GF_zero)
qed

text \<open>The two builds of \<open>block::gf128Mul\<close> compute the same product.\<close>

text \<open>C22: the portable build of block::gf128Mul (bit-serial multiply, then bit-serial
  reduction) never throws and returns exactly what the carry-less-multiply build returns.\<close>

theorem gf128Mul_builds_agree:
  "(case cc_gf128Mul x y of (xy1, xy2) \<Rightarrow> cc_gf128Reduce xy1 xy2) = Inr (gf128Mul x y)"
proof -
  obtain r where r: "cc_gf128Reduce (gf_rep (GF x * GF y)) 0 = Inr r"
    and "GF r = GF (gf_rep (GF x * GF y)) + gfX ^ 128 * GF 0"
    using cc_gf128Reduce_val by blast
  then have "GF r = GF (gf128Mul x y)"
    by (simp add: GF_zero gf_rep_inverse)
  then have "r = gf128Mul x y" by (simp only: GF_inject_iff)
  with r show ?thesis by (simp add: cc_gf128Mul_eq)
qed

end
