(* ===== verification/Libdivide.thy ===== *)
theory Libdivide
  imports Prelude
begin

section \<open>Division by an invariant integer\<close>

text \<open>
  The 64-bit unsigned divider of \<open>libdivide.h\<close>, which PaXoS reduces its hashes with: the
  high half of a product, the portable 128-by-64 division (two digits in base \<open>2^32\<close>), the
  generation of the magic number and the division by it. All arithmetic is on 64-bit words
  with their wrap-around.

  The main result is that the divider generated for \<open>d\<close> divides every 64-bit number by \<open>d\<close>.
\<close>

subsection \<open>The code\<close>

definition mask32 :: u64 where "mask32 = 0xFFFFFFFF"

definition libdivide_mullhi_u32 :: "u32 \<Rightarrow> u32 \<Rightarrow> u32" where
  "libdivide_mullhi_u32 x y = (let xl = ucast x :: u64; yl = ucast y in ucast (drop_bit 32 (xl * yl)))"

definition libdivide_mullhi_u64 :: "u64 \<Rightarrow> u64 \<Rightarrow> u64" where
  "libdivide_mullhi_u64 x y =
     (let x0 = (ucast (x AND mask32) :: u32);
          x1 = (ucast (drop_bit 32 x) :: u32);
          y0 = (ucast (y AND mask32) :: u32);
          y1 = (ucast (drop_bit 32 y) :: u32);
          x0y0_hi = libdivide_mullhi_u32 x0 y0;
          x0y1 = (ucast x0 * ucast y1 :: u64);
          x1y0 = (ucast x1 * ucast y0 :: u64);
          x1y1 = (ucast x1 * ucast y1 :: u64);
          temp = x1y0 + ucast x0y0_hi;
          temp_lo = temp AND mask32;
          temp_hi = drop_bit 32 temp
      in x1y1 + temp_hi + drop_bit 32 (temp_lo + x0y1))"

text \<open>\<open>__builtin_clzll\<close>, for a non-zero argument.\<close>

definition libdivide_count_leading_zeros64 :: "u64 \<Rightarrow> nat" where
  "libdivide_count_leading_zeros64 x = length (takeWhile (\<lambda>i. \<not> bit x i) (rev [0..<64]))"

text \<open>One quotient digit: the estimate from the leading digit and its correction.\<close>

definition div_digit :: "u64 \<Rightarrow> u64 \<Rightarrow> u64 \<Rightarrow> u32" where
  "div_digit numhi num den =
     (let den1 = drop_bit 32 den;
          den0 = den AND mask32;
          qhat = numhi div den1;
          rhat = numhi mod den1;
          c1 = qhat * den0;
          c2 = rhat * 0x100000000 + num;
          qhat = (if c1 > c2 then qhat - (if c1 - c2 > den then 2 else 1) else qhat)
      in ucast qhat)"

definition libdivide_128_div_64_to_64 :: "u64 \<Rightarrow> u64 \<Rightarrow> u64 \<Rightarrow> u64 \<times> u64" where
  "libdivide_128_div_64_to_64 numhi numlo den =
     (if numhi \<ge> den then (- 1, - 1)
      else
        let shift = libdivide_count_leading_zeros64 den;
            den = push_bit shift den;
            numhi = push_bit shift numhi OR
              (if shift = 0 then 0 else drop_bit (64 - shift) numlo);
            numlo = push_bit shift numlo;
            num1 = drop_bit 32 numlo;
            num0 = numlo AND mask32;
            q1 = div_digit numhi num1 den;
            rem = numhi * 0x100000000 + num1 - ucast q1 * den;
            q0 = div_digit rem num0 den
        in (push_bit 32 (ucast q1) OR ucast q0,
            drop_bit shift (rem * 0x100000000 + num0 - ucast q0 * den)))"

record libdivide_u64_t =
  ld_magic :: u64
  ld_more :: u8

definition LIBDIVIDE_ADD_MARKER :: u8 where "LIBDIVIDE_ADD_MARKER = 0x40"
definition LIBDIVIDE_64_SHIFT_MASK :: u8 where "LIBDIVIDE_64_SHIFT_MASK = 0x3F"

definition libdivide_u64_gen :: "u64 \<Rightarrow> libdivide_u64_t res" where
  "libdivide_u64_gen d =
     (if d = 0 then Inl (RuntimeError ''divider must be != 0'')
      else
        let floor_log_2_d = 63 - libdivide_count_leading_zeros64 d in
        if d AND (d - 1) = 0
        then Inr \<lparr>ld_magic = 0, ld_more = of_nat floor_log_2_d\<rparr>
        else
          let (proposed_m, rem) = libdivide_128_div_64_to_64 (push_bit floor_log_2_d 1) 0 d;
              e = d - rem
          in if e < push_bit floor_log_2_d 1
             then Inr \<lparr>ld_magic = 1 + proposed_m, ld_more = of_nat floor_log_2_d\<rparr>
             else
               let proposed_m = proposed_m + proposed_m;
                   twice_rem = rem + rem;
                   proposed_m = (if twice_rem \<ge> d \<or> twice_rem < rem then proposed_m + 1 else proposed_m)
               in Inr \<lparr>ld_magic = 1 + proposed_m, ld_more = of_nat floor_log_2_d OR LIBDIVIDE_ADD_MARKER\<rparr>)"

definition libdivide_u64_do :: "u64 \<Rightarrow> libdivide_u64_t \<Rightarrow> u64" where
  "libdivide_u64_do numer denom =
     (if ld_magic denom = 0 then drop_bit (unat (ld_more denom)) numer
      else
        let q = libdivide_mullhi_u64 (ld_magic denom) numer in
        if ld_more denom AND LIBDIVIDE_ADD_MARKER \<noteq> 0
        then drop_bit (unat (ld_more denom AND LIBDIVIDE_64_SHIFT_MASK)) (drop_bit 1 (numer - q) + q)
        else drop_bit (unat (ld_more denom)) q)"

subsection \<open>The high half of a product\<close>

lemma mask32_eq: "mask32 = mask 32"
  by (simp add: mask32_def mask_eq_exp_minus_1)

lemma unat_and_mask32: "unat (w AND mask32) = unat w mod 2 ^ 32" for w :: u64
proof -
  have "unat (w AND mask32) = take_bit 32 (unat w)"
    by (simp only: mask32_eq flip: take_bit_eq_mask) (simp only: unsigned_take_bit_eq)
  then show ?thesis by (simp only: take_bit_eq_mod)
qed

lemma unat_drop_bit: "unat (drop_bit n w) = unat w div 2 ^ n" for w :: "'a::len word"
  by (subst unat_drop_bit_eq) (rule drop_bit_eq_div)

lemma unat_ucast32: "unat w < 2 ^ 32 \<Longrightarrow> unat (ucast w :: u32) = unat w" for w :: u64
  by (simp add: unsigned_ucast_eq take_bit_eq_mod)

lemma unat_ucast64 [simp]: "unat (ucast w :: u64) = unat w" for w :: u32
proof -
  have "unat w < 2 ^ 32" using unsigned_less [of w] by simp
  then show ?thesis by (simp add: unsigned_ucast_eq take_bit_eq_mod)
qed

lemma unat_lt: "unat (w :: u64) < 2 ^ 64" "unat (v :: u32) < 2 ^ 32"
  using unsigned_less [of w] unsigned_less [of v] by simp_all

lemma unat_plus: "unat a + unat b < 2 ^ 64 \<Longrightarrow> unat (a + b) = unat a + unat b" for a b :: u64
  by (simp add: unat_word_ariths)

lemma unat_times: "unat a * unat b < 2 ^ 64 \<Longrightarrow> unat (a * b) = unat a * unat b" for a b :: u64
  by (simp add: unat_word_ariths)

lemma unat_times32: "unat (ucast p * ucast q :: u64) = unat p * unat q" for p q :: u32
proof -
  have "unat p * unat q \<le> (2 ^ 32 - 1) * (2 ^ 32 - 1)"
    using unat_lt(2) [of p] unat_lt(2) [of q] by (intro mult_le_mono) simp_all
  then show ?thesis by (simp add: unat_times)
qed

lemma mullhi_u32: "unat (libdivide_mullhi_u32 x y) = unat x * unat y div 2 ^ 32"
proof -
  have "unat x * unat y \<le> (2 ^ 32 - 1) * (2 ^ 32 - 1)"
    using unat_lt(2) [of x] unat_lt(2) [of y] by (intro mult_le_mono) simp_all
  then have b: "unat x * unat y < 2 ^ 64" by simp
  then have "unat (drop_bit 32 (ucast x * ucast y :: u64)) = unat x * unat y div 2 ^ 32"
    by (simp add: unat_drop_bit unat_times)
  moreover have "unat x * unat y div 2 ^ 32 < 2 ^ 32" using b by (simp add: less_mult_imp_div_less)
  ultimately show ?thesis by (simp add: libdivide_mullhi_u32_def unat_ucast32)
qed

lemma mullhi_arith:
  fixes x0 x1 y0 y1 b :: nat
  assumes "0 < b"
  shows "(x0 + b * x1) * (y0 + b * y1) div (b * b) =
    x1 * y1 + (x1 * y0 + x0 * y0 div b) div b + ((x1 * y0 + x0 * y0 div b) mod b + x0 * y1) div b"
proof -
  let ?t = "x1 * y0 + x0 * y0 div b"
  have "(x0 + b * x1) * (y0 + b * y1) = x0 * y0 + b * (x1 * y0 + x0 * y1 + b * (x1 * y1))"
    by (simp add: algebra_simps)
  then have "(x0 + b * x1) * (y0 + b * y1) div b = x0 * y0 div b + (x1 * y0 + x0 * y1 + b * (x1 * y1))"
    using assms by simp
  also have "\<dots> = (?t mod b + x0 * y1) + b * (?t div b + x1 * y1)"
    by (simp add: algebra_simps)
  finally have "(x0 + b * x1) * (y0 + b * y1) div b div b = (?t mod b + x0 * y1) div b + (?t div b + x1 * y1)"
    using assms by simp
  then show ?thesis by (simp add: div_mult2_eq)
qed

lemma libdivide_mullhi_u64_eq: "unat (libdivide_mullhi_u64 x y) = unat x * unat y div 2 ^ 64"
proof -
  define b :: nat where "b = 2 ^ 32"
  define x0 x1 y0 y1 where "x0 = unat x mod b" and "x1 = unat x div b"
    and "y0 = unat y mod b" and "y1 = unat y div b"
  have lt: "x0 < b" "x1 < b" "y0 < b" "y1 < b"
    using unat_lt(1) [of x] unat_lt(1) [of y]
    by (simp_all add: x0_def x1_def y0_def y1_def b_def less_mult_imp_div_less)
  have bb: "b * b = 2 ^ 64" by (simp add: b_def)
  have prod: "p * q \<le> (b - 1) * (b - 1)" if "p < b" "q < b" for p q
    using that by (intro mult_le_mono) simp_all
  have sq: "(b - 1) * (b - 1) + (b - 1) < 2 ^ 64" by (simp add: b_def)
  have u: "unat (ucast (x AND mask32) :: u32) = x0" "unat (ucast (drop_bit 32 x) :: u32) = x1"
    "unat (ucast (y AND mask32) :: u32) = y0" "unat (ucast (drop_bit 32 y) :: u32) = y1"
    using lt by (simp_all add: unat_ucast32 unat_and_mask32 unat_drop_bit x0_def x1_def y0_def y1_def b_def)
  have hi: "x0 * y0 div b \<le> b - 1"
    using lt prod [of x0 y0] sq by (simp add: b_def less_mult_imp_div_less flip: less_Suc_eq_le)
  define t where "t = x1 * y0 + x0 * y0 div b"
  have t: "t < 2 ^ 64" using prod [of x1 y0] lt hi sq by (simp add: t_def)
  have s: "t mod b + x0 * y1 < 2 ^ 64"
  proof -
    have "t mod b < b" by (simp add: b_def)
    with prod [of x0 y1] lt sq show ?thesis by linarith
  qed
  have "unat x * unat y = (x0 + b * x1) * (y0 + b * y1)"
    by (simp add: x0_def x1_def y0_def y1_def)
  then have res: "unat x * unat y div 2 ^ 64 = x1 * y1 + t div b + (t mod b + x0 * y1) div b"
    using mullhi_arith [of b x0 x1 y0 y1] by (simp add: bb t_def b_def)
  have "unat x * unat y < 2 ^ 64 * 2 ^ 64"
    using unat_lt(1) [of x] unat_lt(1) [of y] by (intro mult_strict_mono) simp_all
  then have fin: "x1 * y1 + t div b + (t mod b + x0 * y1) div b < 2 ^ 64"
    unfolding res [symmetric] by (simp add: less_mult_imp_div_less)
  let ?x0 = "ucast (ucast (x AND mask32) :: u32) :: u64"
  let ?x1 = "ucast (ucast (drop_bit 32 x) :: u32) :: u64"
  let ?y0 = "ucast (ucast (y AND mask32) :: u32) :: u64"
  let ?y1 = "ucast (ucast (drop_bit 32 y) :: u32) :: u64"
  let ?h = "ucast (libdivide_mullhi_u32 (ucast (x AND mask32)) (ucast (y AND mask32))) :: u64"
  have h: "unat ?h = x0 * y0 div b" by (simp only: unat_ucast64 mullhi_u32 u) (simp add: b_def)
  have m: "unat (?x0 * ?y1) = x0 * y1" "unat (?x1 * ?y0) = x1 * y0" "unat (?x1 * ?y1) = x1 * y1"
    by (simp_all only: unat_times32 u)
  have tw: "unat (?x1 * ?y0 + ?h) = t"
    using t by (subst unat_plus) (simp_all only: h m t_def)
  have sw: "unat (((?x1 * ?y0 + ?h) AND mask32) + ?x0 * ?y1) = t mod b + x0 * y1"
    using s by (subst unat_plus) (simp_all only: unat_and_mask32 tw m b_def)
  have dw: "unat (drop_bit 32 (?x1 * ?y0 + ?h)) = t div b"
    by (simp only: unat_drop_bit tw b_def)
  have ds: "unat (drop_bit 32 (((?x1 * ?y0 + ?h) AND mask32) + ?x0 * ?y1)) = (t mod b + x0 * y1) div b"
    by (simp only: unat_drop_bit sw b_def)
  have "unat (?x1 * ?y1) + unat (drop_bit 32 (?x1 * ?y0 + ?h)) < 2 ^ 64"
    unfolding m dw using fin by linarith
  from unat_plus [OF this] have "unat (?x1 * ?y1 + drop_bit 32 (?x1 * ?y0 + ?h)) = x1 * y1 + t div b"
    by (simp only: m dw)
  then show ?thesis
    unfolding libdivide_mullhi_u64_def Let_def res
    using fin by (subst unat_plus) (simp_all only: ds)
qed

subsection \<open>The 128-by-64 division\<close>

text \<open>The correction of the estimated digit, over the naturals: \<open>b\<close> is the base, the divisor
  \<open>d1 * b + d0\<close> is normalised.\<close>

lemma digit_arith:
  fixes b d1 d0 N n :: nat
  defines "D \<equiv> d1 * b + d0"
  assumes b: "b \<le> 2 * d1" "d1 < b" "d0 < b" "n < b" and N: "N < D"
  defines "q \<equiv> N div d1" and "r \<equiv> N mod d1"
  shows "(N * b + n) div D =
    (if q * d0 > r * b + n then q - (if q * d0 - (r * b + n) > D then 2 else 1) else q)"
    and "q \<le> b + 1" "q * d0 < b * b" "r * b + n < b * b"
    and "q * d0 > r * b + n \<Longrightarrow> q * d0 - (r * b + n) > D \<Longrightarrow> 2 \<le> q"
    and "q * d0 > r * b + n \<Longrightarrow> 1 \<le> q"
proof -
  have d1: "0 < d1" using b by simp
  have Nqr: "N = q * d1 + r" and r: "r < d1" using d1 by (simp_all add: q_def r_def)
  have eq: "N * b + n + q * d0 = q * D + (r * b + n)"
    by (simp add: Nqr D_def algebra_simps)
  have c2: "r * b + n < D"
  proof -
    have "(r + 1) * b \<le> d1 * b" using r by (intro mult_le_mono1) simp
    then show ?thesis using b(4) by (simp add: D_def)
  qed
  show qb: "q \<le> b + 1"
  proof -
    have "q * d1 \<le> N" by (simp add: Nqr)
    also have "\<dots> < d1 * b + 2 * d1" using N b(1,3) by (simp add: D_def)
    also have "\<dots> = (b + 2) * d1" by simp
    finally have "q * d1 < (b + 2) * d1" .
    then have "q < b + 2" by (simp only: mult_less_cancel2)
    then show ?thesis by simp
  qed
  have "q * d0 \<le> (b + 1) * (b - 1)" using qb b(3) by (intro mult_le_mono) simp_all
  also have "\<dots> < b * b" using b(3) by (cases b) simp_all
  finally show qd: "q * d0 < b * b" .
  have "b * b \<le> 2 * (d1 * b)" using mult_le_mono1 [OF b(1), of b] by (simp only: mult.assoc)
  then have DD: "b * b \<le> 2 * D" by (simp add: D_def distrib_left trans_le_add1)
  have "D \<le> b * b"
  proof -
    have "d1 * b \<le> (b - 1) * b" using b(2) by (intro mult_le_mono1) simp
    moreover have "(b - 1) * b + b = b * b" using b(3) by (cases b) simp_all
    ultimately show ?thesis using b(3) unfolding D_def by linarith
  qed
  with c2 show "r * b + n < b * b" by simp
  have D: "0 < D" using N by simp
  have big: "q * d0 - (r * b + n) \<le> 2 * D" using qd DD by simp
  have ge: "q * d0 \<le> q * D + (r * b + n)" using eq by simp
  show two: "2 \<le> q" if "q * d0 > r * b + n" "q * d0 - (r * b + n) > D"
  proof (rule ccontr)
    assume "\<not> 2 \<le> q"
    then have "q * D \<le> D" by (cases q) simp_all
    with ge that show False by linarith
  qed
  show one: "1 \<le> q" if "q * d0 > r * b + n" using that by (cases q) simp_all
  show "(N * b + n) div D =
    (if q * d0 > r * b + n then q - (if q * d0 - (r * b + n) > D then 2 else 1) else q)"
  proof (cases "q * d0 > r * b + n")
    case False
    then obtain x where x: "r * b + n = q * d0 + x" by (metis le_iff_add not_less)
    then have "N * b + n = q * D + x" "x < D" using eq c2 by linarith+
    then show ?thesis using False by simp
  next
    case True
    define e where "e = q * d0 - (r * b + n)"
    have e: "0 < e" "e \<le> 2 * D" "N * b + n + e = q * D" using True big eq by (simp_all add: e_def)
    show ?thesis
    proof (cases "e > D")
      case False
      have "N * b + n = (q - 1) * D + (D - e)"
        using e(3) False one [OF True] by (simp add: diff_mult_distrib)
      moreover have "D - e < D" using e D by simp
      ultimately have "(N * b + n) div D = q - 1" by (intro div_nat_eqI) simp_all
      with True False show ?thesis by (simp add: e_def)
    next
      case c: True
      then have q2: "2 \<le> q" using two [OF True] by (simp add: e_def)
      then have "2 * D \<le> q * D" by simp
      then have "N * b + n = (q - 2) * D + (2 * D - e)"
        using e by (simp add: diff_mult_distrib)
      moreover have "2 * D - e < D" using c e by simp
      ultimately have "(N * b + n) div D = q - 2" by (intro div_nat_eqI) simp_all
      with True c show ?thesis by (simp add: e_def)
    qed
  qed
qed

lemma unat_minus: "unat b \<le> unat a \<Longrightarrow> unat (a - b) = unat a - unat b" for a b :: u64
  by (simp add: unat_sub word_le_nat_alt)

text \<open>On words: a normalised divisor and a numerator below it.\<close>

lemma div_digit_eq:
  assumes norm: "2 ^ 63 \<le> unat den" and lt: "unat numhi < unat den" and num: "unat num < 2 ^ 32"
  shows "unat (div_digit numhi num den) = (unat numhi * 2 ^ 32 + unat num) div unat den"
proof -
  define b :: nat where "b = 2 ^ 32"
  define d1 d0 where "d1 = unat den div b" and "d0 = unat den mod b"
  have D: "unat den = d1 * b + d0" by (simp add: d1_def d0_def)
  have bb: "b * b = 2 ^ 64" by (simp add: b_def)
  have b: "b \<le> 2 * d1" "d1 < b" "d0 < b" "unat num < b"
    using norm num unat_lt(1) [of den] by (simp_all add: d1_def d0_def b_def less_mult_imp_div_less)
  define q r where "q = unat numhi div d1" and "r = unat numhi mod d1"
  note A = digit_arith [OF b, of "unat numhi", folded q_def r_def D, OF lt, unfolded bb]
  let ?den1 = "drop_bit 32 den" and ?den0 = "den AND mask32"
  have w: "unat ?den1 = d1" "unat ?den0 = d0"
    by (simp_all only: unat_drop_bit unat_and_mask32 d1_def d0_def b_def)
  have q: "unat (numhi div ?den1) = q" "unat (numhi mod ?den1) = r"
    by (simp_all only: unat_div unat_mod w q_def r_def)
  have c1: "unat (numhi div ?den1 * ?den0) = q * d0"
    using A(3) by (subst unat_times) (simp_all only: q w)
  have rb: "r * 2 ^ 32 + unat num < 2 ^ 64" using A(4) by (simp add: b_def)
  have rb': "unat (numhi mod ?den1 * 0x100000000) = r * 2 ^ 32"
  proof -
    have u: "unat (0x100000000 :: u64) = 2 ^ 32" by simp
    have "unat (numhi mod ?den1) * unat (0x100000000 :: u64) < 2 ^ 64"
      unfolding q u using rb by linarith
    from unat_times [OF this] show ?thesis by (simp only: q u)
  qed
  have c2: "unat (numhi mod ?den1 * 0x100000000 + num) = r * b + unat num"
    using rb by (subst unat_plus) (simp_all only: rb' b_def)
  define qq where "qq = (if q * d0 > r * b + unat num
     then q - (if q * d0 - (r * b + unat num) > unat den then 2 else 1) else q)"
  have quo: "(unat numhi * 2 ^ 32 + unat num) div unat den = qq"
    using A(1) by (simp add: b_def qq_def)
  have "qq < 2 ^ 32"
  proof -
    have "unat numhi * b + unat num < unat den * b"
    proof -
      have "(unat numhi + 1) * b \<le> unat den * b" using lt by (intro mult_le_mono1) simp
      then show ?thesis using b(4) by simp
    qed
    then show ?thesis unfolding quo [symmetric] b_def [symmetric]
      by (simp add: less_mult_imp_div_less mult.commute)
  qed
  moreover have "unat (if numhi div ?den1 * ?den0 > numhi mod ?den1 * 0x100000000 + num
      then numhi div ?den1 - (if numhi div ?den1 * ?den0 - (numhi mod ?den1 * 0x100000000 + num) > den
        then 2 else 1) else numhi div ?den1) = qq"
  proof (cases "q * d0 > r * b + unat num")
    case False
    then show ?thesis by (simp add: qq_def word_less_nat_alt c1 c2 q)
  next
    case True
    have d: "unat (numhi div ?den1 * ?den0 - (numhi mod ?den1 * 0x100000000 + num)) = q * d0 - (r * b + unat num)"
      using True by (subst unat_minus) (simp_all only: c1 c2 less_imp_le)
    show ?thesis
    proof (cases "q * d0 - (r * b + unat num) > unat den")
      case c: True
      then have "unat (numhi div ?den1 - 2) = q - 2"
        using A(5) [OF True c] by (subst unat_minus) (simp_all only: q, simp_all)
      with True c show ?thesis by (simp add: qq_def word_less_nat_alt c1 c2 d)
    next
      case c: False
      then have "unat (numhi div ?den1 - 1) = q - 1"
        using A(6) [OF True] by (subst unat_minus) (simp_all only: q, simp_all)
      with True c show ?thesis by (simp add: qq_def word_less_nat_alt c1 c2 d)
    qed
  qed
  ultimately show ?thesis
    unfolding div_digit_def Let_def quo by (subst unat_ucast32) simp_all
qed

text \<open>Counting leading zeros.\<close>

lemma takeWhile_rev_upt:
  assumes "P k" "k < n" "\<And>i. k < i \<Longrightarrow> i < n \<Longrightarrow> \<not> P i"
  shows "length (takeWhile (\<lambda>i. \<not> P i) (rev [0..<n])) = n - 1 - k"
proof -
  have "[0..<n] = [0..<k] @ k # [Suc k..<n]"
    using assms(2) by (metis le_add1 less_imp_add_positive upt_add_eq_append upt_conv_Cons zero_le add_0)
  moreover have "takeWhile (\<lambda>i. \<not> P i) (rev [Suc k..<n] @ k # rev [0..<k]) = rev [Suc k..<n]"
    using assms by (subst takeWhile_append2) auto
  ultimately show ?thesis by simp
qed

lemma top_bit:
  assumes "w \<noteq> (0 :: u64)"
  obtains k where "k < 64" "bit w k" "\<And>i. k < i \<Longrightarrow> \<not> bit w i" "2 ^ k \<le> unat w" "unat w < 2 ^ (k + 1)"
proof -
  let ?S = "{i. bit w i}"
  have fin: "finite ?S" by (rule finite_subset [of _ "{..<64}"]) (auto dest: bit_imp_le_length)
  have ne: "?S \<noteq> {}" using assms by (metis Collect_empty_eq bit_word_eqI bit_0_eq bot_apply bot_bool_def)
  define k where "k = Max ?S"
  have k: "bit w k" using Max_in [OF fin ne] by (simp add: k_def)
  have top: "\<not> bit w i" if "k < i" for i using that by (metis Max_ge fin k_def mem_Collect_eq not_le)
  have k64: "k < 64" using k by (auto dest: bit_imp_le_length)
  have "take_bit (k + 1) w = w"
    by (rule bit_word_eqI) (auto simp: bit_take_bit_iff top less_Suc_eq_le intro: leI)
  then have "take_bit (k + 1) (unat w) = unat w" by (metis unsigned_take_bit_eq)
  then have "unat w < 2 ^ (k + 1)" by (metis take_bit_nat_less_exp)
  moreover have "2 ^ k \<le> unat w"
  proof (rule ccontr)
    assume "\<not> 2 ^ k \<le> unat w"
    then have "unat w div 2 ^ k = 0" by simp
    moreover have "bit (unat w) k" using k k64 by (simp add: bit_unsigned_iff)
    ultimately show False by (simp add: bit_iff_odd)
  qed
  ultimately show ?thesis using that k k64 top by blast
qed

lemma clz_eq:
  assumes "2 ^ k \<le> unat w" "unat w < 2 ^ (k + 1)" "k < 64"
  shows "libdivide_count_leading_zeros64 w = 63 - k"
proof -
  have "w \<noteq> 0" using assms(1) by auto
  then obtain k' where k': "k' < 64" "bit w k'" "\<And>i. k' < i \<Longrightarrow> \<not> bit w i" "2 ^ k' \<le> unat w"
    "unat w < 2 ^ (k' + 1)" using top_bit by blast
  have "k' = k"
  proof (rule ccontr)
    assume "k' \<noteq> k"
    then consider "k + 1 \<le> k'" | "k' + 1 \<le> k" by linarith
    then show False
    proof cases
      case 1
      then have "(2 :: nat) ^ (k + 1) \<le> 2 ^ k'" by (rule power_increasing) simp
      with k' assms show False by linarith
    next
      case 2
      then have "(2 :: nat) ^ (k' + 1) \<le> 2 ^ k" by (rule power_increasing) simp
      with k' assms show False by linarith
    qed
  qed
  with k' show ?thesis
    unfolding libdivide_count_leading_zeros64_def by (subst takeWhile_rev_upt [of _ k]) auto
qed

lemma unat_push_bit: "unat w * 2 ^ n < 2 ^ 64 \<Longrightarrow> unat (push_bit n w) = unat w * 2 ^ n" for w :: u64
proof -
  assume a: "unat w * 2 ^ n < 2 ^ 64"
  have "unat (push_bit n w) = take_bit 64 (push_bit n (unat w))"
    by (simp add: unsigned_push_bit_eq)
  with a show ?thesis by (simp add: push_bit_eq_mult take_bit_eq_mod)
qed

lemma or_disjoint_nat: "b < 2 ^ n \<Longrightarrow> (a * 2 ^ n) OR b = a * 2 ^ n + b" for a b :: nat
proof -
  assume b: "b < 2 ^ n"
  have "\<not> bit (a * 2 ^ n) m \<or> \<not> bit b m" for m
  proof (cases "n \<le> m")
    case True
    then have "\<not> bit b m" using b by (metis bit_take_bit_iff not_le take_bit_nat_eq_self)
    then show ?thesis by simp
  next
    case False
    then show ?thesis by (simp add: bit_push_bit_iff flip: push_bit_eq_mult)
  qed
  then show ?thesis by (metis disjunctive_add)
qed

lemma unat_or: "unat (a OR b) = unat a OR unat b" for a b :: u64
  by (simp add: unsigned_or_eq)

text \<open>The partial remainder of a digit step.\<close>

lemma digit_rem:
  assumes "2 ^ 63 \<le> unat den" "unat numhi < unat den" "unat num < 2 ^ 32"
  defines "X \<equiv> unat numhi * 2 ^ 32 + unat num"
  shows "unat (numhi * 0x100000000 + num - ucast (div_digit numhi num den) * den) = X mod unat den"
proof -
  let ?q = "div_digit numhi num den"
  have q: "unat ?q = X div unat den" unfolding X_def using assms(1-3) by (rule div_digit_eq)
  have "numhi * 0x100000000 + num - ucast ?q * den = of_nat X - of_nat (X div unat den * unat den)"
  proof -
    have "numhi * 0x100000000 + num = of_nat X" by (simp add: X_def)
    moreover have "(ucast ?q :: u64) = of_nat (X div unat den)"
    proof -
      have "(ucast ?q :: u64) = of_nat (unat (ucast ?q :: u64))" by simp
      then show ?thesis by (simp only: unat_ucast64 q)
    qed
    ultimately show ?thesis by simp
  qed
  also have "\<dots> = of_nat (X - X div unat den * unat den)"
    by (simp add: of_nat_diff)
  also have "X - X div unat den * unat den = X mod unat den" by (simp add: minus_div_mult_eq_mod)
  finally have "unat (numhi * 0x100000000 + num - ucast ?q * den) = X mod unat den mod 2 ^ 64"
    by (simp add: unat_of_nat)
  moreover have "X mod unat den < 2 ^ 64"
    using assms(2) unat_lt(1) [of den] by (metis bot_nat_0.not_eq_extremum mod_less_divisor not_less_zero order_less_trans)
  ultimately show ?thesis by simp
qed

lemma libdivide_128_div_64_to_64_eq:
  fixes numhi numlo den :: u64
  assumes lt: "unat numhi < unat den"
  defines "X \<equiv> unat numhi * 2 ^ 64 + unat numlo"
  shows "unat (fst (libdivide_128_div_64_to_64 numhi numlo den)) = X div unat den"
    and "unat (snd (libdivide_128_div_64_to_64 numhi numlo den)) = X mod unat den"
proof -
  have "den \<noteq> 0" using lt by auto
  then obtain k where k: "k < 64" "2 ^ k \<le> unat den" "unat den < 2 ^ (k + 1)" using top_bit by blast
  define s where "s = 63 - k"
  have clz: "libdivide_count_leading_zeros64 den = s" unfolding s_def using k(2,3,1) by (rule clz_eq)
  have sk: "s < 64" "s + k = 63" using k(1) by (auto simp: s_def)
  have p: "(2 :: nat) ^ (k + 1) * 2 ^ s = 2 ^ 64" "(2 :: nat) ^ k * 2 ^ s = 2 ^ 63"
  proof -
    have "k + 1 + s = 64" "k + s = 63" using sk by simp_all
    then show "(2 :: nat) ^ (k + 1) * 2 ^ s = 2 ^ 64" "(2 :: nat) ^ k * 2 ^ s = 2 ^ 63"
      by (simp_all only: power_add [symmetric])
  qed
  define D where "D = push_bit s den"
  define H where "H = push_bit s numhi OR (if s = 0 then 0 else drop_bit (64 - s) numlo)"
  define l where "l = push_bit s numlo"
  have ds: "unat den * 2 ^ s < 2 ^ 64" unfolding p(1) [symmetric] using k(3) by simp
  then have D: "unat D = unat den * 2 ^ s" by (simp add: D_def unat_push_bit)
  have D63: "2 ^ 63 \<le> unat D" unfolding D p(2) [symmetric] using k(2) by simp
  have hs: "unat numhi * 2 ^ s < 2 ^ 64" using lt ds by (meson less_imp_le mult_le_mono1 order_le_less_trans)
  have lo: "unat numlo * 2 ^ s = (unat numlo div 2 ^ (64 - s)) * 2 ^ 64 + unat l"
  proof -
    have "unat l = take_bit 64 (push_bit s (unat numlo))" by (simp add: l_def unsigned_push_bit_eq)
    then have "unat l = unat numlo * 2 ^ s mod 2 ^ 64" by (simp add: push_bit_eq_mult take_bit_eq_mod)
    moreover have "(2 :: nat) ^ 64 = 2 ^ (64 - s) * 2 ^ s" using sk by (simp flip: power_add)
    then have "unat numlo * 2 ^ s div 2 ^ 64 = unat numlo div 2 ^ (64 - s)"
      by (simp only: div_mult_mult2 power_not_zero zero_neq_numeral [symmetric] not_False_eq_True)
    ultimately show ?thesis by (metis div_mult_mod_eq)
  qed
  have top: "unat numlo div 2 ^ (64 - s) < 2 ^ s"
  proof -
    have "(2 :: nat) ^ 64 = 2 ^ s * 2 ^ (64 - s)" using sk by (simp flip: power_add)
    with unat_lt(1) [of numlo] show ?thesis by (simp add: less_mult_imp_div_less)
  qed
  have H: "unat H = unat numhi * 2 ^ s + unat numlo div 2 ^ (64 - s)"
  proof (cases "s = 0")
    case True
    then show ?thesis using unat_lt(1) [of numlo] by (simp add: H_def)
  next
    case False
    have "unat H = unat numhi * 2 ^ s OR unat numlo div 2 ^ (64 - s)"
      using False hs by (simp only: H_def if_False unat_or unat_push_bit unat_drop_bit)
    with or_disjoint_nat [OF top] show ?thesis by simp
  qed
  have HX: "unat H * 2 ^ 64 + unat l = X * 2 ^ s"
    using lo by (simp add: H X_def algebra_simps)
  have HD: "unat H < unat D"
  proof -
    have "unat H < unat numhi * 2 ^ s + 2 ^ s" using H top by simp
    also have "\<dots> = (unat numhi + 1) * 2 ^ s" by simp
    also have "\<dots> \<le> unat den * 2 ^ s" using lt by (intro mult_le_mono1) simp
    finally show ?thesis by (simp only: D)
  qed
  define n1 n0 where "n1 = drop_bit 32 l" and "n0 = l AND mask32"
  have n1: "unat n1 = unat l div 2 ^ 32" and n0: "unat n0 = unat l mod 2 ^ 32"
    by (simp_all only: n1_def n0_def unat_drop_bit unat_and_mask32)
  have n: "unat n1 < 2 ^ 32" "unat n0 < 2 ^ 32"
    using unat_lt(1) [of l] by (simp_all add: n1 n0 less_mult_imp_div_less)
  have lsplit: "unat l = unat n1 * 2 ^ 32 + unat n0" by (simp add: n1 n0)
  define Q1 where "Q1 = div_digit H n1 D"
  define R where "R = H * 0x100000000 + n1 - ucast Q1 * D"
  define Y where "Y = unat H * 2 ^ 32 + unat n1"
  have q1: "unat Q1 = Y div unat D" unfolding Q1_def Y_def using D63 HD n(1) by (rule div_digit_eq)
  have r1: "unat R = Y mod unat D" unfolding R_def Q1_def Y_def using D63 HD n(1) by (rule digit_rem)
  have RD: "unat R < unat D" unfolding r1 using D63 by (intro mod_less_divisor) simp
  define Q0 where "Q0 = div_digit R n0 D"
  have q0: "unat Q0 = (unat R * 2 ^ 32 + unat n0) div unat D"
    unfolding Q0_def using D63 RD n(2) by (rule div_digit_eq)
  have r0: "unat (R * 0x100000000 + n0 - ucast Q0 * D) = (unat R * 2 ^ 32 + unat n0) mod unat D"
    unfolding Q0_def using D63 RD n(2) by (rule digit_rem)
  have XY: "X * 2 ^ s = Y * 2 ^ 32 + unat n0"
    unfolding HX [symmetric] lsplit Y_def by (simp add: algebra_simps)
  have split: "X * 2 ^ s = (unat Q1 * 2 ^ 32) * unat D + (unat R * 2 ^ 32 + unat n0)"
  proof -
    have "Y = unat Q1 * unat D + unat R" by (simp add: q1 r1)
    then show ?thesis unfolding XY by (simp add: algebra_simps)
  qed
  have Dpos: "unat D \<noteq> 0" using D63 by (intro notI) simp
  have quot: "X div unat den = unat Q1 * 2 ^ 32 + unat Q0"
  proof -
    have "X div unat den = X * 2 ^ s div unat D" by (simp add: D)
    also have "\<dots> = unat Q1 * 2 ^ 32 + unat Q0"
      unfolding split q0 using Dpos by (simp add: add.commute)
    finally show ?thesis .
  qed
  have remn: "X mod unat den * 2 ^ s = (unat R * 2 ^ 32 + unat n0) mod unat D"
  proof -
    have "X mod unat den * 2 ^ s = X * 2 ^ s mod unat D" by (simp add: D mult_mod_left)
    also have "\<dots> = (unat R * 2 ^ 32 + unat n0) mod unat D"
      unfolding split by simp
    finally show ?thesis .
  qed
  have res: "libdivide_128_div_64_to_64 numhi numlo den = (push_bit 32 (ucast Q1) OR ucast Q0,
      drop_bit s (R * 0x100000000 + n0 - ucast Q0 * D))"
    using lt unfolding libdivide_128_div_64_to_64_def Let_def clz
    by (simp add: word_le_nat_alt flip: D_def H_def l_def n1_def n0_def Q1_def R_def Q0_def)
  have "unat (push_bit 32 (ucast Q1 :: u64)) = unat Q1 * 2 ^ 32"
    using unat_lt(2) [of Q1] by (subst unat_push_bit) (simp_all only: unat_ucast64, simp)
  then have "unat (push_bit 32 (ucast Q1) OR ucast Q0 :: u64) = unat Q1 * 2 ^ 32 + unat Q0"
    using or_disjoint_nat [OF unat_lt(2) [of Q0]] by (simp only: unat_or unat_ucast64)
  then show "unat (fst (libdivide_128_div_64_to_64 numhi numlo den)) = X div unat den"
    by (simp only: res fst_conv quot)
  show "unat (snd (libdivide_128_div_64_to_64 numhi numlo den)) = X mod unat den"
    by (simp only: res snd_conv unat_drop_bit r0 flip: remn) simp
qed

subsection \<open>The magic number\<close>

text \<open>A multiplier that exceeds \<open>2^(N+l) / d\<close> by at most \<open>2^l / d\<close> divides exactly.\<close>

lemma magic_arith:
  fixes n M d e P :: nat
  assumes M: "M * d = P + e" and e: "0 < e" "n * e < P" and d: "0 < d"
  shows "n * M div P = n div d"
proof -
  define q r where "q = n div d" and "r = n mod d"
  have n: "n = q * d + r" and r: "r < d" using d by (simp_all add: q_def r_def)
  have P: "0 < P" using e(2) by simp
  have nM: "n * M * d = n * P + n * e" by (simp only: mult.assoc M distrib_left)
  have "q * P * d \<le> n * M * d" unfolding nM by (simp add: n algebra_simps)
  then have lo: "q * P \<le> n * M" using d by simp
  have "n * M * d < (q + 1) * P * d"
  proof -
    have "n * P + n * e < n * P + P" using e(2) by simp
    also have "\<dots> = (n + 1) * P" by simp
    also have "\<dots> \<le> ((q + 1) * d) * P" using r by (intro mult_le_mono1) (simp add: n algebra_simps)
    finally show ?thesis unfolding nM by (simp only: ac_simps)
  qed
  then have hi: "n * M < (q + 1) * P" using d by (simp only: mult_less_cancel2)
  from lo hi show ?thesis unfolding q_def [symmetric] by (intro div_nat_eqI) (simp_all add: mult.commute)
qed

lemma pow2_word: "k < 64 \<Longrightarrow> unat (push_bit k (1 :: u64)) = 2 ^ k"
proof -
  assume "k < 64"
  then have "(2 :: nat) ^ k < 2 ^ 64" by (intro power_strict_increasing) simp_all
  then show ?thesis by (subst unat_push_bit) simp_all
qed

lemma pow2_word': "k < 64 \<Longrightarrow> unat (2 ^ k :: u64) = 2 ^ k"
  using pow2_word [of k] by simp

text \<open>\<open>d & (d - 1)\<close> is zero exactly for the powers of two.\<close>

lemma and_pred_power:
  fixes d :: u64
  assumes "2 ^ k \<le> unat d" "unat d < 2 ^ (k + 1)" "k < 64" "d AND (d - 1) = 0"
  shows "unat d = 2 ^ k"
proof (rule ccontr)
  assume "unat d \<noteq> 2 ^ k"
  then have c: "2 ^ k \<le> unat d - 1" "unat d - 1 < 2 ^ (k + 1)" "1 \<le> unat d" using assms(1,2) by auto
  have bit: "bit n k" if "2 ^ k \<le> n" "n < 2 ^ (k + 1)" for n :: nat
  proof -
    have "n div 2 ^ k = 1" using that by (intro div_nat_eqI) simp_all
    then show ?thesis by (simp add: bit_iff_odd)
  qed
  have "unat (d - 1) = unat d - 1" using c(3) by (subst unat_minus) simp_all
  then have "bit (unat (d AND (d - 1))) k"
    using bit [OF assms(1,2)] bit [OF c(1,2)] by (simp add: unsigned_and_eq bit_and_iff)
  then show False using assms(4) by simp
qed

lemma power_and_pred:
  fixes d :: u64
  assumes "unat d = 2 ^ k" "k < 64"
  shows "d AND (d - 1) = (0 :: u64)"
proof -
  have "unat (d - 1) = 2 ^ k - 1" using assms by (subst unat_minus) simp_all
  then have "unat (d AND (d - 1)) = 2 ^ k AND mask k"
    by (simp add: unsigned_and_eq assms(1) mask_eq_exp_minus_1)
  also have "\<dots> = take_bit k (2 ^ k)" by (simp only: take_bit_eq_mask)
  also have "\<dots> = 0" by (simp add: take_bit_eq_mod)
  finally show ?thesis by (simp add: unat_eq_0)
qed

lemma more_shift:
  assumes "k < 64"
  shows "unat (of_nat k :: u8) = k" "(of_nat k :: u8) AND LIBDIVIDE_ADD_MARKER = 0"
    "(of_nat k OR LIBDIVIDE_ADD_MARKER) AND LIBDIVIDE_ADD_MARKER \<noteq> 0"
    "unat ((of_nat k OR LIBDIVIDE_ADD_MARKER) AND LIBDIVIDE_64_SHIFT_MASK) = k"
proof -
  have k: "bit (of_nat k :: u8) i \<longleftrightarrow> i < 6 \<and> bit k i" for i
  proof -
    have "take_bit 6 k = k" using assms by (intro take_bit_nat_eq_self) simp
    then have "bit k i \<longleftrightarrow> i < 6 \<and> bit k i" by (metis bit_take_bit_iff)
    moreover have "bit (of_nat k :: u8) i \<longleftrightarrow> bit (unat (of_nat k :: u8)) i"
      by (auto simp: bit_unsigned_iff dest: bit_imp_le_length)
    ultimately show ?thesis using assms by (simp add: unat_of_nat)
  qed
  have m: "bit LIBDIVIDE_ADD_MARKER i \<longleftrightarrow> i = 6" for i
  proof -
    have eq: "LIBDIVIDE_ADD_MARKER = push_bit 6 1" by (simp add: LIBDIVIDE_ADD_MARKER_def)
    show ?thesis unfolding eq bit_push_bit_iff bit_1_iff by auto
  qed
  have s: "bit LIBDIVIDE_64_SHIFT_MASK i \<longleftrightarrow> i < 6" for i
  proof -
    have eq: "LIBDIVIDE_64_SHIFT_MASK = mask 6" by (simp add: LIBDIVIDE_64_SHIFT_MASK_def mask_eq_exp_minus_1)
    show ?thesis unfolding eq bit_mask_iff by auto
  qed
  show u: "unat (of_nat k :: u8) = k" using assms by (simp add: unat_of_nat)
  show "(of_nat k :: u8) AND LIBDIVIDE_ADD_MARKER = 0"
    by (rule bit_word_eqI) (auto simp: bit_and_iff k m)
  have "bit ((of_nat k OR LIBDIVIDE_ADD_MARKER) AND LIBDIVIDE_ADD_MARKER) 6"
    by (simp add: bit_and_iff bit_or_iff m)
  then show "(of_nat k OR LIBDIVIDE_ADD_MARKER) AND LIBDIVIDE_ADD_MARKER \<noteq> 0" by auto
  have "(of_nat k OR LIBDIVIDE_ADD_MARKER) AND LIBDIVIDE_64_SHIFT_MASK = of_nat k"
    by (rule bit_word_eqI) (auto simp: bit_and_iff bit_or_iff k m s)
  with u show "unat ((of_nat k OR LIBDIVIDE_ADD_MARKER) AND LIBDIVIDE_64_SHIFT_MASK) = k" by simp
qed

lemma pow2_dvd: "(d :: nat) dvd 2 ^ n \<Longrightarrow> \<exists>j. d = 2 ^ j"
proof (induction n)
  case (Suc n)
  then obtain c where c: "2 ^ Suc n = d * c" by blast
  show ?case
  proof (cases "even c")
    case True
    then obtain c' where "c = 2 * c'" by blast
    with c have "2 ^ n = d * c'" by simp
    then show ?thesis using Suc.IH by (metis dvd_triv_left)
  next
    case False
    then have "coprime c (2 ^ Suc n)" by simp
    moreover have "c dvd 2 ^ Suc n" using c by simp
    ultimately have "c = 1" by (metis coprime_absorb_left nat_dvd_1_iff_1)
    with c show ?thesis by (metis mult.right_neutral)
  qed
qed (auto intro: exI [of _ 0])

text \<open>What the generated divider is, over the naturals: a shift, a 64-bit multiplier or a 65-bit
  multiplier.\<close>

lemma libdivide_u64_gen_cases:
  assumes "d \<noteq> 0"
  obtains (pow) k where "k < 64" "unat d = 2 ^ k" "libdivide_u64_gen d = Inr \<lparr>ld_magic = 0, ld_more = of_nat k\<rparr>"
  | (small) k M e where "k < 64" "unat M * unat d = 2 ^ (64 + k) + e" "0 < e" "e \<le> 2 ^ k" "M \<noteq> 0"
      "libdivide_u64_gen d = Inr \<lparr>ld_magic = M, ld_more = of_nat k\<rparr>"
  | (big) k M e where "k < 64" "(2 ^ 64 + unat M) * unat d = 2 ^ (65 + k) + e" "0 < e" "e \<le> 2 ^ (k + 1)" "M \<noteq> 0"
      "libdivide_u64_gen d = Inr \<lparr>ld_magic = M, ld_more = of_nat k OR LIBDIVIDE_ADD_MARKER\<rparr>"
proof -
  obtain k where k: "k < 64" "2 ^ k \<le> unat d" "unat d < 2 ^ (k + 1)" using top_bit [OF assms] by blast
  have clz: "63 - libdivide_count_leading_zeros64 d = k"
    using clz_eq [OF k(2,3,1)] k(1) by simp
  show ?thesis
  proof (cases "d AND (d - 1) = 0")
    case True
    have "libdivide_u64_gen d = Inr \<lparr>ld_magic = 0, ld_more = of_nat k\<rparr>"
      using assms True clz by (simp add: libdivide_u64_gen_def)
    with pow k(1) and_pred_power [OF k(2,3,1) True] show ?thesis by blast
  next
    case False
    have ne: "unat d \<noteq> 2 ^ k" using power_and_pred [OF _ k(1)] False by blast
    let ?X = "2 ^ (64 + k) :: nat"
    obtain m r where mr: "libdivide_128_div_64_to_64 (push_bit k 1) 0 d = (m, r)" by fastforce
    have "unat (push_bit k 1 :: u64) < unat d" unfolding pow2_word [OF k(1)] using k(2) ne by simp
    from libdivide_128_div_64_to_64_eq [OF this, of 0]
    have m: "unat m = ?X div unat d" and r: "unat r = ?X mod unat d"
      by (simp_all only: mr fst_conv snd_conv pow2_word [OF k(1)] unsigned_0 add_0_right
          power_add mult.commute)
    define D e where "D = unat d" and "e = D - unat r"
    have X: "?X = unat m * D + unat r" by (simp add: m r D_def)
    have rD: "unat r < D"
    proof -
      have "0 < unat d" using assms by (simp add: unat_gt_0)
      then show ?thesis by (simp add: r D_def)
    qed
    have dk: "2 ^ k < D" "D < 2 ^ (k + 1)" using k ne by (simp_all add: D_def)
    have r0: "unat r \<noteq> 0"
    proof
      assume "unat r = 0"
      then have "D dvd 2 ^ (64 + k)" using X by simp
      then obtain j where j: "D = 2 ^ j" by (metis D_def pow2_dvd)
      have "(2 :: nat) ^ k < 2 ^ j" "(2 :: nat) ^ j < 2 ^ (k + 1)" using dk j by simp_all
      then have "k < j" "j < k + 1" by (simp_all only: power_strict_increasing_iff one_less_numeral_iff semiring_norm)
      then show False by simp
    qed
    have e: "0 < e" "e < D" "unat (d - r) = e"
      using rD r0 by (auto simp: e_def D_def unat_minus)
    have m1: "(unat m + 1) * D = ?X + e" using X rD by (simp add: e_def)
    show ?thesis
    proof (cases "e < 2 ^ k")
      case True
      have "unat m + 1 < 2 ^ 64"
      proof (rule ccontr)
        assume "\<not> unat m + 1 < 2 ^ 64"
        then have "2 ^ 64 * (2 ^ k + 1) \<le> (unat m + 1) * D" using dk by (intro mult_le_mono) simp_all
        moreover have "(2 :: nat) ^ k < 2 ^ 64" using k(1) by (intro power_strict_increasing) simp_all
        ultimately show False using m1 True by (simp add: power_add)
      qed
      then have M: "unat (1 + m) = unat m + 1" by (subst unat_plus) simp_all
      then have "1 + m \<noteq> 0" by (metis add_is_0 unat_0 zero_neq_one)
      moreover have "libdivide_u64_gen d = Inr \<lparr>ld_magic = 1 + m, ld_more = of_nat k\<rparr>"
        using assms False clz mr True
        by (simp add: libdivide_u64_gen_def word_less_nat_alt e(3) pow2_word' [OF k(1)])
      moreover have "unat (1 + m) * unat d = 2 ^ (64 + k) + e" using m1 by (simp add: M D_def)
      ultimately show ?thesis using small [of k "1 + m" e] k(1) e(1) True by simp
    next
      case big_e: False
      define M where "M = 1 + (if r + r \<ge> d \<or> r + r < r then m + m + 1 else m + m)"
      define c where "c = (if 2 * unat r \<ge> D then 1 else 0 :: nat)"
      have cond: "(r + r \<ge> d \<or> r + r < r) \<longleftrightarrow> 2 * unat r \<ge> D"
      proof (cases "2 * unat r < 2 ^ 64")
        case True
        then have "unat (r + r) = 2 * unat r" by (subst unat_plus) simp_all
        then show ?thesis by (auto simp: word_le_nat_alt word_less_nat_alt D_def)
      next
        case ov: False
        then have "unat (r + r) = 2 * unat r - 2 ^ 64"
          using unat_lt(1) [of r] by (simp add: unat_word_ariths mod_if)
        then have "unat (r + r) < unat r" using unat_lt(1) [of r] ov by simp
        moreover have "D < 2 ^ 64" by (simp only: D_def unat_lt)
        ultimately show ?thesis using ov by (simp add: word_less_nat_alt)
      qed
      define Q where "Q = 2 * unat m + c"
      define e' where "e' = (if 2 * unat r \<ge> D then 2 * D - 2 * unat r else D - 2 * unat r)"
      have e': "0 < e'" "e' \<le> D" using rD by (auto simp: e'_def)
      have Q: "(Q + 1) * D = 2 ^ (65 + k) + e'"
      proof -
        have "(Q + 1) * D = 2 * (unat m * D) + c * D + D" by (simp add: Q_def algebra_simps)
        moreover have "2 ^ (65 + k) = 2 * (unat m * D) + 2 * unat r"
        proof -
          have "2 ^ (65 + k) = 2 * ?X" by (simp add: power_add)
          then show ?thesis by (simp only: X distrib_left)
        qed
        ultimately show ?thesis using rD by (auto simp: e'_def c_def)
      qed
      have QM: "Q + 1 = 2 ^ 64 + unat M"
      proof -
        have lo: "2 ^ 64 < Q + 1"
        proof (rule ccontr)
          assume "\<not> 2 ^ 64 < Q + 1"
          then have "(Q + 1) * D \<le> 2 ^ 64 * D" by (intro mult_le_mono1) simp
          also have "\<dots> < 2 ^ 64 * 2 ^ (k + 1)" using dk(2) by simp
          also have "(2 :: nat) ^ 64 * 2 ^ (k + 1) = 2 ^ (65 + k)" by (simp add: power_add)
          finally show False using Q by simp
        qed
        have hi: "Q + 1 < 2 ^ 65"
        proof (rule ccontr)
          assume "\<not> Q + 1 < 2 ^ 65"
          then have "2 ^ 65 * (2 ^ k + 1) \<le> (Q + 1) * D" using dk by (intro mult_le_mono) simp_all
          moreover have "(2 :: nat) ^ (k + 1) \<le> 2 ^ 64" using k(1) by (intro power_increasing) simp_all
          ultimately show False using Q e'(2) dk(2) by (simp add: power_add)
        qed
        have "M = 1 + (if 2 * unat r \<ge> D then m + m + 1 else m + m)" by (simp only: M_def cond)
        then have "M = of_nat (Q + 1)" by (simp add: Q_def c_def)
        then have "unat M = (Q + 1) mod 2 ^ 64" by (simp only: unat_of_nat) simp
        then show ?thesis using lo hi by (simp add: mod_if)
      qed
      have "M \<noteq> 0"
      proof
        assume "M = 0"
        then have "(2 ^ 64) * D = 2 ^ (65 + k) + e'" using Q QM by simp
        moreover have "2 ^ 64 * D < 2 ^ 64 * 2 ^ (k + 1)" using dk(2) by simp
        moreover have "(2 :: nat) ^ 64 * 2 ^ (k + 1) = 2 ^ (65 + k)" by (simp add: power_add)
        ultimately show False by simp
      qed
      moreover have "libdivide_u64_gen d = Inr \<lparr>ld_magic = M, ld_more = of_nat k OR LIBDIVIDE_ADD_MARKER\<rparr>"
        using assms False clz mr big_e
        by (simp add: libdivide_u64_gen_def word_less_nat_alt e(3) pow2_word' [OF k(1)] M_def Let_def)
      moreover have "(2 ^ 64 + unat M) * unat d = 2 ^ (65 + k) + e'"
        using Q by (simp only: QM D_def)
      moreover have "e' \<le> 2 ^ (k + 1)" using e'(2) dk(2) by simp
      ultimately show ?thesis using big [of k M e'] k(1) e'(1) by simp
    qed
  qed
qed

subsection \<open>Division by the magic number\<close>

lemma div_div_pow: "x div 2 ^ m div 2 ^ n = x div (2 :: nat) ^ (m + n)"
  by (simp add: div_mult2_eq power_add)

lemma libdivide_u64_do_eq:
  assumes "d \<noteq> 0" "libdivide_u64_gen d = Inr D"
  shows "unat (libdivide_u64_do n D) = unat n div unat d"
  using assms(1)
proof (cases d rule: libdivide_u64_gen_cases)
  case (pow k)
  then show ?thesis using assms(2) more_shift(1) [OF pow(1)]
    by (simp add: libdivide_u64_do_def unat_drop_bit del: unsigned_of_nat)
next
  case (small k M e)
  have "unat n * e < 2 ^ (64 + k)"
  proof -
    have "unat n * e \<le> unat n * 2 ^ k" using small(4) by simp
    also have "\<dots> < 2 ^ 64 * 2 ^ k" using unat_lt(1) [of n] by simp
    finally show ?thesis by (simp only: power_add)
  qed
  with small have "unat n * unat M div 2 ^ (64 + k) = unat n div unat d"
    using assms(1) by (intro magic_arith) (simp_all add: unat_gt_0)
  moreover have D: "D = \<lparr>ld_magic = M, ld_more = of_nat k\<rparr>" using assms(2) small(6) by simp
  have "unat (libdivide_u64_do n D) = unat (libdivide_mullhi_u64 M n) div 2 ^ k"
    using small(5) more_shift [OF small(1)]
    by (simp add: libdivide_u64_do_def D unat_drop_bit del: unsigned_of_nat)
  ultimately show ?thesis
    by (simp only: libdivide_mullhi_u64_eq div_div_pow mult.commute)
next
  case (big k M e)
  have "unat n * e < 2 ^ (65 + k)"
  proof -
    have "unat n * e \<le> unat n * 2 ^ (k + 1)" using big(4) by simp
    also have "\<dots> < 2 ^ 64 * 2 ^ (k + 1)" using unat_lt(1) [of n] by simp
    also have "(2 :: nat) ^ 64 * 2 ^ (k + 1) = 2 ^ (65 + k)" by (simp only: power_add [symmetric]) simp
    finally show ?thesis .
  qed
  with big have quot: "unat n * (2 ^ 64 + unat M) div 2 ^ (65 + k) = unat n div unat d"
    using assms(1) by (intro magic_arith) (simp_all add: unat_gt_0)
  define q where "q = libdivide_mullhi_u64 M n"
  have q: "unat q = unat n * unat M div 2 ^ 64"
    by (simp only: q_def libdivide_mullhi_u64_eq mult.commute)
  have qn: "unat q \<le> unat n"
  proof -
    have "unat n * unat M \<le> unat n * 2 ^ 64" using unat_lt(1) [of M] by simp
    then show ?thesis unfolding q by (metis div_le_mono div_mult_self_is_m zero_less_numeral zero_less_power)
  qed
  have half: "unat (drop_bit 1 (n - q)) = (unat n - unat q) div 2"
    by (simp only: unat_drop_bit unat_minus [OF qn] power_one_right)
  have t: "unat (drop_bit 1 (n - q) + q) = (unat n + unat q) div 2"
  proof -
    have e: "(unat n - unat q) div 2 + unat q = (unat n + unat q) div 2" using qn by simp
    have "unat (drop_bit 1 (n - q)) + unat q < 2 ^ 64"
      unfolding half e using qn unat_lt(1) [of n] by simp
    from unat_plus [OF this] show ?thesis by (simp only: half e)
  qed
  have D: "D = \<lparr>ld_magic = M, ld_more = of_nat k OR LIBDIVIDE_ADD_MARKER\<rparr>" using assms(2) big(6) by simp
  have "libdivide_u64_do n D = drop_bit k (drop_bit 1 (n - q) + q)"
    using big(5) more_shift(3,4) [OF big(1)] by (simp add: libdivide_u64_do_def D q_def Let_def)
  then have "unat (libdivide_u64_do n D) = (unat n + unat q) div 2 div 2 ^ k"
    by (simp only: unat_drop_bit t)
  also have "\<dots> = (unat n + unat n * unat M div 2 ^ 64) div 2 ^ (1 + k)"
    by (simp only: div_div_pow [of _ 1, simplified power_one_right] q)
  also have "unat n + unat n * unat M div 2 ^ 64 = unat n * (2 ^ 64 + unat M) div 2 ^ 64"
    by (simp add: distrib_left)
  also have "\<dots> div 2 ^ (1 + k) = unat n * (2 ^ 64 + unat M) div 2 ^ (64 + (1 + k))"
    by (rule div_div_pow)
  also have "64 + (1 + k) = 65 + k" by simp
  finally show ?thesis by (simp only: quot)
qed

lemma libdivide_u64_gen_ok: "d \<noteq> 0 \<Longrightarrow> \<exists>D. libdivide_u64_gen d = Inr D"
  by (cases d rule: libdivide_u64_gen_cases) auto

text \<open>C30: the divider that libdivide_u64_gen computes for a non-zero d, by the portable
  128-by-64 division, makes libdivide_u64_do return the exact quotient for every 64-bit
  numerator, in each of its three shapes (shift, 64-bit magic number, 65-bit magic number).\<close>

theorem libdivide_u64_correct:
  assumes "d \<noteq> 0"
  shows "\<exists>D. libdivide_u64_gen d = Inr D \<and> (\<forall>n. libdivide_u64_do n D = n div d)"
proof -
  obtain D where D: "libdivide_u64_gen d = Inr D" using libdivide_u64_gen_ok [OF assms] by blast
  then have "unat (libdivide_u64_do n D) = unat (n div d)" for n
    by (simp only: libdivide_u64_do_eq [OF assms D] unat_div)
  with D show ?thesis by (metis word_unat_eq_iff)
qed

theorem libdivide_u64_correct_witness:
  "\<exists>D. libdivide_u64_gen 7 = Inr D \<and> libdivide_u64_do 100 D = 14"
  using libdivide_u64_correct [of 7] by auto

text \<open>The portable 128-by-64 division of libdivide, two digits in base 2^32, returns the
  exact quotient and remainder whenever the quotient fits in 64 bits, and all ones otherwise.\<close>

lemma libdivide_128_div_64_to_64_correct:
  "libdivide_128_div_64_to_64 numhi numlo den =
    (if unat numhi < unat den
     then (of_nat ((unat numhi * 2 ^ 64 + unat numlo) div unat den),
           of_nat ((unat numhi * 2 ^ 64 + unat numlo) mod unat den))
     else (- 1, - 1))"
proof (cases "unat numhi < unat den")
  case True
  obtain q r where e: "libdivide_128_div_64_to_64 numhi numlo den = (q, r)" by fastforce
  have "unat q = (unat numhi * 2 ^ 64 + unat numlo) div unat den"
    "unat r = (unat numhi * 2 ^ 64 + unat numlo) mod unat den"
    using libdivide_128_div_64_to_64_eq [OF True, of numlo] unfolding e fst_conv snd_conv by blast+
  then have "q = of_nat ((unat numhi * 2 ^ 64 + unat numlo) div unat den)"
    "r = of_nat ((unat numhi * 2 ^ 64 + unat numlo) mod unat den)"
    by (metis of_nat_unat ucast_id)+
  with e True show ?thesis by simp
next
  case False
  then show ?thesis by (simp add: libdivide_128_div_64_to_64_def word_le_nat_alt)
qed

end
