(* ===== verification/PaxosHash.thy ===== *)
theory PaxosHash
  imports Gf128 Libdivide
begin

section \<open>From keys to rows\<close>

text \<open>
  \<open>PaxosHash\<close> of \<open>src/volePSI/PxUtil.h\<close> and \<open>src/volePSI/PaxosImpl.h\<close>: the hash of an
  item is turned into \<open>mWeight\<close> distinct column indices, one item at a time (\<open>buildRow\<close>)
  or 32 at a time with two-lane vector operations (\<open>buildRow32\<close>). The AES-based hash is the
  parameter \<open>aesHash\<close> (key, input), of which nothing is assumed.

  The lemmas show that a row has \<open>mWeight\<close> distinct entries below \<open>mSparseSize\<close> and that
  the vectorised version computes the same rows.
\<close>

record paxos_hash =
  phWeight :: nat
  phSparseSize :: nat
  phIdxSize :: nat
  phSeed :: block
  phMods :: "libdivide_u64_t list"
  phModVals :: "u64 list"

fun bit_width :: "nat \<Rightarrow> nat" where
  "bit_width n = (if n = 0 then 0 else 1 + bit_width (n div 2))"

declare bit_width.simps [simp del]

definition divCeil :: "nat \<Rightarrow> nat \<Rightarrow> nat" where "divCeil val d = (val + d - 1) div d"
definition roundUpTo :: "nat \<Rightarrow> nat \<Rightarrow> nat" where "roundUpTo val step = divCeil val step * step"
definition log2ceil :: "nat \<Rightarrow> nat" where "log2ceil x = bit_width (x - 1)"

definition PaxosHash_init :: "nat \<Rightarrow> block \<Rightarrow> nat \<Rightarrow> nat \<Rightarrow> paxos_hash res" where
  "PaxosHash_init ib seed weight paxosSize =
     rbind (foldr_res (\<lambda>i (mods, vals).
              let v = of_nat paxosSize - of_nat i
              in rbind (libdivide_u64_gen v) (\<lambda>D. Inr (mods @ [D], vals @ [v])))
              [0..<weight] ([], []))
       (\<lambda>(mods, vals). Inr \<lparr>phWeight = weight, phSparseSize = paxosSize,
          phIdxSize = (roundUpTo (log2ceil paxosSize) 8 div 8) mod 2 ^ ib,
          phSeed = seed, phMods = mods, phModVals = vals\<rparr>)"

subsection \<open>One row\<close>

text \<open>The 64 bits at byte offset \<open>4 * i\<close>, and the conversion to the index type.\<close>

definition hashWord :: "block \<Rightarrow> nat \<Rightarrow> u64" where
  "hashWord h i = ucast (drop_bit (32 * i) h)"

definition castIdx :: "nat \<Rightarrow> u64 \<Rightarrow> nat" where
  "castIdx ib w = unat w mod 2 ^ ib"

definition buildRow3 :: "nat \<Rightarrow> u64 \<Rightarrow> block \<Rightarrow> nat list" where
  "buildRow3 ib sparse hash =
     (let row0 = castIdx ib (hashWord hash 0 mod sparse);
          row1 = castIdx ib (hashWord hash 1 mod (sparse - 1));
          row2 = castIdx ib (hashWord hash 2 mod (sparse - 2));
          mn = min row0 row1;
          mx = row0 + row1 - mn;
          (row1, mx) = (if mx = row1 then ((row1 + 1) mod 2 ^ ib, mx + 1) else (row1, mx));
          row2 = (if row2 \<ge> mn then (row2 + 1) mod 2 ^ ib else row2);
          row2 = (if row2 \<ge> mx then (row2 + 1) mod 2 ^ ib else row2)
      in [row0, row1, row2])"

text \<open>The loop that looks for the place of \<open>colIdx\<close> among the sorted entries, moving it up
  past each of them.\<close>

fun rowScan :: "nat list \<Rightarrow> nat \<Rightarrow> nat \<times> nat" where
  "rowScan [] colIdx = (0, colIdx)"
| "rowScan (x # xs) colIdx =
     (if x \<le> colIdx then (let (p, c) = rowScan xs (colIdx + 1) in (Suc p, c)) else (0, colIdx))"

text \<open>The insertion at \<open>iter\<close>, the later entries shifted up by one.\<close>

definition rowInsert :: "nat \<Rightarrow> nat list \<Rightarrow> nat \<Rightarrow> nat list" where
  "rowInsert ib row colIdx =
     (let (p, c) = rowScan row colIdx in take p row @ [c mod 2 ^ ib] @ drop p row)"

definition buildRowStep :: "nat \<Rightarrow> u64 \<Rightarrow> nat \<Rightarrow> block \<times> nat list \<Rightarrow> block \<times> nat list" where
  "buildRowStep ib sparse j s =
     (let (hh, row) = s;
          modulus = sparse - of_nat j;
          hh = gf128Mul hh hh;
          colIdx = unat (lo64 hh mod modulus)
      in (hh, rowInsert ib row colIdx))"

definition buildRow :: "nat \<Rightarrow> paxos_hash \<Rightarrow> block \<Rightarrow> nat list" where
  "buildRow ib h hash =
     (let sparse = of_nat (phSparseSize h) in
      if phWeight h = 3 then buildRow3 ib sparse hash
      else snd (fold (buildRowStep ib sparse) [0..<phWeight h] (hash, [])))"

subsection \<open>Thirty-two rows\<close>

definition my_libdivide_u64_do_vec256 :: "u64 list \<Rightarrow> libdivide_u64_t \<Rightarrow> u64 list" where
  "my_libdivide_u64_do_vec256 x D = map (\<lambda>v. libdivide_u64_do v D) x"

definition doMod32 :: "u64 list \<Rightarrow> libdivide_u64_t \<Rightarrow> u64 \<Rightarrow> u64 list" where
  "doMod32 vals D modVal =
     (let temp = map (\<lambda>k. my_libdivide_u64_do_vec256 (take 4 (drop (4 * k) vals)) D) [0..<8]
      in map2 (\<lambda>v t. v - t * modVal) vals (concat temp))"

definition mod32 :: "paxos_hash \<Rightarrow> u64 list \<Rightarrow> nat \<Rightarrow> u64 list" where
  "mod32 h vals modIdx = doMod32 vals (phMods h ! modIdx) (phModVals h ! modIdx)"

definition mm_cmpgt_epi64 :: "block \<Rightarrow> block \<Rightarrow> block" where
  "mm_cmpgt_epi64 a b =
     toBlock (if hi64 a > hi64 b then - 1 else 0) (if lo64 a > lo64 b then - 1 else 0)"

definition mm_cmpeq_epi64 :: "block \<Rightarrow> block \<Rightarrow> block" where
  "mm_cmpeq_epi64 a b =
     toBlock (if hi64 a = hi64 b then - 1 else 0) (if lo64 a = lo64 b then - 1 else 0)"

definition mm_sub_epi64 :: "block \<Rightarrow> block \<Rightarrow> block" where
  "mm_sub_epi64 a b = toBlock (hi64 a - hi64 b) (lo64 a - lo64 b)"

definition AllOneBlock :: block where "AllOneBlock = - 1"

text \<open>Lines 416 to 545 for one of the eight vectors of a half.\<close>

definition row3Vec :: "block \<Rightarrow> block \<Rightarrow> block \<Rightarrow> block \<times> block \<times> block" where
  "row3Vec a b c =
     (let mask = mm_cmpgt_epi64 a b;
          mn = a XOR b;
          mx = mn AND mask;
          mx = mx XOR b;
          mn = mn XOR mx;
          mask = mm_cmpeq_epi64 mx b;
          b = mm_sub_epi64 b mask;
          mx = mm_sub_epi64 mx mask;
          mask = mm_cmpgt_epi64 mn c;
          mask = mask XOR AllOneBlock;
          c = mm_sub_epi64 c mask;
          mask = mm_cmpgt_epi64 mx c;
          mask = mask XOR AllOneBlock;
          c = mm_sub_epi64 c mask
      in (a, b, c))"

text \<open>The arrays \<open>row128_[i]\<close>: sixteen blocks of two words each.\<close>

definition packWords :: "u64 list \<Rightarrow> block list" where
  "packWords ll = map (\<lambda>k. toBlock (ll ! (2 * k + 1)) (ll ! (2 * k))) [0..<16]"

definition unpackWords :: "block list \<Rightarrow> u64 list" where
  "unpackWords bs = concat (map (\<lambda>b. [lo64 b, hi64 b]) bs)"

definition buildRow32 :: "nat \<Rightarrow> paxos_hash \<Rightarrow> block list \<Rightarrow> nat list list" where
  "buildRow32 ib h hash =
     (if phWeight h = 3 then
        let row128 = map (\<lambda>i. packWords (mod32 h (map (\<lambda>j. hashWord (hash ! j) i) [0..<32]) i)) [0..<3];
            vecs = map (\<lambda>k. row3Vec (row128 ! 0 ! k) (row128 ! 1 ! k) (row128 ! 2 ! k)) [0..<16];
            r0 = unpackWords (map fst vecs);
            r1 = unpackWords (map (fst \<circ> snd) vecs);
            r2 = unpackWords (map (snd \<circ> snd) vecs)
        in map (\<lambda>k. [castIdx ib (r0 ! k), castIdx ib (r1 ! k), castIdx ib (r2 ! k)]) [0..<32]
      else map (\<lambda>k. buildRow ib h (hash ! k)) [0..<32])"

definition hashBuildRow32 ::
    "nat \<Rightarrow> (block \<Rightarrow> block \<Rightarrow> block) \<Rightarrow> paxos_hash \<Rightarrow> block list \<Rightarrow> nat list list \<times> block list" where
  "hashBuildRow32 ib aesHash h inputs =
     (let hash = map (aesHash (phSeed h)) (take 32 inputs) in (buildRow32 ib h hash, hash))"

definition hashBuildRow1 ::
    "nat \<Rightarrow> (block \<Rightarrow> block \<Rightarrow> block) \<Rightarrow> paxos_hash \<Rightarrow> block \<Rightarrow> nat list \<times> block" where
  "hashBuildRow1 ib aesHash h input =
     (let hash = aesHash (phSeed h) input in (buildRow ib h hash, hash))"

subsection \<open>The rows are distinct and in range\<close>

definition hash_ok :: "nat \<Rightarrow> paxos_hash \<Rightarrow> bool" where
  "hash_ok ib h \<longleftrightarrow> 2 \<le> phWeight h \<and> phWeight h \<le> phSparseSize h \<and> phSparseSize h < 2 ^ ib \<and>
     phSparseSize h < 2 ^ 64 \<and> length (phMods h) = phWeight h \<and> length (phModVals h) = phWeight h \<and>
     (\<forall>i<phWeight h. phModVals h ! i = of_nat (phSparseSize h) - of_nat i \<and>
        libdivide_u64_gen (phModVals h ! i) = Inr (phMods h ! i))"

definition valid_row :: "nat \<Rightarrow> nat \<Rightarrow> nat list \<Rightarrow> bool" where
  "valid_row sparse w row \<longleftrightarrow> length row = w \<and> distinct row \<and> (\<forall>c\<in>set row. c < sparse)"

lemma rowScan_sorted:
  assumes "sorted_wrt (<) row" "\<And>x. x \<in> set row \<Longrightarrow> x < n" "c + length row < n"
  shows "case rowScan row c of (p, c') \<Rightarrow> p \<le> length row \<and> c \<le> c' \<and> c' < n \<and>
    (\<forall>x\<in>set (take p row). x < c') \<and> (\<forall>x\<in>set (drop p row). c' < x)"
  using assms
proof (induction row arbitrary: c)
  case (Cons x xs)
  show ?case
  proof (cases "x \<le> c")
    case True
    obtain p c' where r: "rowScan xs (c + 1) = (p, c')" by fastforce
    with Cons.IH [of "c + 1"] Cons.prems have "p \<le> length xs \<and> c + 1 \<le> c' \<and> c' < n \<and>
      (\<forall>x\<in>set (take p xs). x < c') \<and> (\<forall>x\<in>set (drop p xs). c' < x)" by auto
    with True r show ?thesis by auto
  next
    case False
    with Cons.prems show ?thesis by auto
  qed
qed simp

lemma rowInsert_ok:
  assumes "sorted_wrt (<) row" "\<And>x. x \<in> set row \<Longrightarrow> x < n" "c + length row < n" "n \<le> 2 ^ ib"
  shows "sorted_wrt (<) (rowInsert ib row c) \<and> length (rowInsert ib row c) = Suc (length row) \<and>
    (\<forall>x\<in>set (rowInsert ib row c). x < n)"
proof -
  obtain p c' where r: "rowScan row c = (p, c')" by fastforce
  with rowScan_sorted [OF assms(1-3)] have p: "p \<le> length row" "c' < n"
    "\<forall>x\<in>set (take p row). x < c'" "\<forall>x\<in>set (drop p row). c' < x" by auto
  have "c' mod 2 ^ ib = c'" using p(2) assms(4) by simp
  moreover have "sorted_wrt (<) (take p row @ [c'] @ drop p row)"
  proof -
    have "sorted_wrt (<) (take p row)" "sorted_wrt (<) (drop p row)"
      using assms(1) by (metis append_take_drop_id sorted_wrt_append)+
    with p show ?thesis by (auto simp: sorted_wrt_append dest: order.strict_trans)
  qed
  ultimately show ?thesis
    using r p assms(2) by (auto simp: rowInsert_def dest: in_set_takeD in_set_dropD)
qed

lemma unat_sub_of_nat:
  "j \<le> n \<Longrightarrow> n < 2 ^ 64 \<Longrightarrow> unat (of_nat n - of_nat j :: u64) = n - j"
proof -
  assume a: "j \<le> n" "n < 2 ^ 64"
  then have "unat (of_nat n :: u64) = n" "unat (of_nat j :: u64) = j" by (simp_all add: unat_of_nat)
  with a show ?thesis by (subst unat_minus) simp_all
qed

lemma unat_mod_less: "0 < unat m \<Longrightarrow> unat (x mod m) < unat m" for x m :: u64
  by (simp add: unat_mod)

lemma buildRow_loop:
  assumes "k \<le> w" "w \<le> n" "n < 2 ^ ib" "n < 2 ^ 64"
  shows "sorted_wrt (<) (snd (fold (buildRowStep ib (of_nat n)) [0..<k] (hash, []))) \<and>
    length (snd (fold (buildRowStep ib (of_nat n)) [0..<k] (hash, []))) = k \<and>
    (\<forall>x\<in>set (snd (fold (buildRowStep ib (of_nat n)) [0..<k] (hash, []))). x < n)"
  using assms(1)
proof (induction k)
  case (Suc k)
  obtain hh row where f: "fold (buildRowStep ib (of_nat n)) [0..<k] (hash, []) = (hh, row)" by fastforce
  let ?c = "unat (lo64 (gf128Mul hh hh) mod (of_nat n - of_nat k))"
  have m: "unat (of_nat n - of_nat k :: u64) = n - k" using Suc.prems assms by (intro unat_sub_of_nat) auto
  have "?c < n - k" using unat_mod_less [of "of_nat n - of_nat k"] m Suc.prems assms(2) by simp
  moreover have "sorted_wrt (<) row" "length row = k" "\<forall>x\<in>set row. x < n" using Suc f by auto
  ultimately have "sorted_wrt (<) (rowInsert ib row ?c) \<and> length (rowInsert ib row ?c) = Suc (length row) \<and>
      (\<forall>x\<in>set (rowInsert ib row ?c). x < n)"
    using assms(3) by (intro rowInsert_ok) auto
  moreover have "snd (fold (buildRowStep ib (of_nat n)) [0..<Suc k] (hash, [])) = rowInsert ib row ?c"
    using f by (simp add: buildRowStep_def [of ib _ k] Let_def)
  ultimately show ?case using \<open>length row = k\<close> by metis
qed simp

lemma buildRow3_ok:
  assumes n: "3 \<le> n" "n < 2 ^ ib" "n < 2 ^ 64"
  shows "valid_row n 3 (buildRow3 ib (of_nat n) hash)"
proof -
  define a where "a = unat (hashWord hash 0 mod of_nat n)"
  define b where "b = unat (hashWord hash 1 mod (of_nat n - 1))"
  define c where "c = unat (hashWord hash 2 mod (of_nat n - 2))"
  have "unat (of_nat n :: u64) = n" "unat (of_nat n - 1 :: u64) = n - 1" "unat (of_nat n - 2 :: u64) = n - 2"
    using n unat_sub_of_nat [of 0 n] unat_sub_of_nat [of 1 n] unat_sub_of_nat [of 2 n] by simp_all
  then have lt: "a < n" "b < n - 1" "c < n - 2"
    using n unat_mod_less [of "of_nat n" "hashWord hash 0"] unat_mod_less [of "of_nat n - 1" "hashWord hash 1"]
      unat_mod_less [of "of_nat n - 2" "hashWord hash 2"]
    by (simp_all add: a_def b_def c_def)
  have small: "x mod 2 ^ ib = x" if "x < n" for x using that n by simp
  have cast: "castIdx ib (hashWord hash 0 mod of_nat n) = a" "castIdx ib (hashWord hash 1 mod (of_nat n - 1)) = b"
    "castIdx ib (hashWord hash 2 mod (of_nat n - 2)) = c"
    using lt unfolding castIdx_def a_def [symmetric] b_def [symmetric] c_def [symmetric]
    by (simp_all add: small)
  have inc: "(b + 1) mod 2 ^ ib = b + 1" "(c + 1) mod 2 ^ ib = c + 1" "(c + 1 + 1) mod 2 ^ ib = c + 1 + 1"
    using lt by (simp_all add: small)
  show ?thesis
    unfolding buildRow3_def cast Let_def
    using lt by (auto simp: valid_row_def inc simp del: Suc_eq_plus1 add_Suc_right One_nat_def split: if_splits)
qed

lemma buildRow_ok:
  assumes "hash_ok ib h"
  shows "valid_row (phSparseSize h) (phWeight h) (buildRow ib h hash)"
proof (cases "phWeight h = 3")
  case True
  with assms show ?thesis by (simp add: buildRow_def hash_ok_def buildRow3_ok)
next
  case False
  have "sorted_wrt (<) (buildRow ib h hash) \<and> length (buildRow ib h hash) = phWeight h \<and>
    (\<forall>x\<in>set (buildRow ib h hash). x < phSparseSize h)"
    using False assms buildRow_loop [of "phWeight h" "phWeight h" "phSparseSize h" ib hash]
    by (simp add: buildRow_def hash_ok_def)
  then show ?thesis by (auto simp: valid_row_def strict_sorted_iff)
qed

subsection \<open>The vectorised rows are the same\<close>

lemma concat_chunks:
  "concat (map (\<lambda>k. f (take 4 (drop (4 * k) xs))) [0..<n]) = f' (take (4 * n) xs)"
  if "\<And>ys zs. f' (ys @ zs) = f' ys @ f' zs" "f' [] = []" "f = f'" for f f' :: "'a list \<Rightarrow> 'b list"
proof (induction n)
  case (Suc n)
  have "take (4 * Suc n) xs = take (4 * n) xs @ take 4 (drop (4 * n) xs)"
    by (simp add: take_add [symmetric] add.commute)
  with Suc that show ?case by simp
qed (simp add: that)

lemma doMod32_eq:
  assumes "length vals = 32" "m \<noteq> 0" "libdivide_u64_gen m = Inr D"
  shows "doMod32 vals D m = map (\<lambda>v. v mod m) vals"
proof -
  have "concat (map (\<lambda>k. my_libdivide_u64_do_vec256 (take 4 (drop (4 * k) vals)) D) [0..<8])
      = map (\<lambda>v. libdivide_u64_do v D) (take (4 * 8) vals)"
    by (rule concat_chunks [where f = "\<lambda>x. my_libdivide_u64_do_vec256 x D"])
      (simp_all add: my_libdivide_u64_do_vec256_def fun_eq_iff)
  moreover have "libdivide_u64_do v D = v div m" for v
    using libdivide_u64_do_eq [OF assms(2,3), of v] by (simp add: word_unat_eq_iff unat_div)
  ultimately show ?thesis
    using assms(1) by (simp add: doMod32_def zip_map2 zip_same_conv_map minus_div_mult_eq_mod comp_def)
qed

text \<open>One lane of the vector code.\<close>

definition row3Word :: "u64 \<Rightarrow> u64 \<Rightarrow> u64 \<Rightarrow> u64 \<times> u64 \<times> u64" where
  "row3Word a b c =
     (let mn = min a b;
          mx = max a b;
          (b, mx) = (if mx = b then (b + 1, mx + 1) else (b, mx));
          c = (if c \<ge> mn then c + 1 else c);
          c = (if c \<ge> mx then c + 1 else c)
      in (a, b, c))"

lemma half_ops [simp]:
  "lo64 (a XOR b) = lo64 a XOR lo64 b" "hi64 (a XOR b) = hi64 a XOR hi64 b"
  "lo64 (a AND b) = lo64 a AND lo64 b" "hi64 (a AND b) = hi64 a AND hi64 b"
  "lo64 AllOneBlock = - 1" "hi64 AllOneBlock = - 1"
  by (rule bit_word_eqI; simp add: bit_simps AllOneBlock_def)+

lemma half_mm_ops [simp]:
  "lo64 (mm_cmpgt_epi64 a b) = (if lo64 a > lo64 b then - 1 else 0)"
  "hi64 (mm_cmpgt_epi64 a b) = (if hi64 a > hi64 b then - 1 else 0)"
  "lo64 (mm_cmpeq_epi64 a b) = (if lo64 a = lo64 b then - 1 else 0)"
  "hi64 (mm_cmpeq_epi64 a b) = (if hi64 a = hi64 b then - 1 else 0)"
  "lo64 (mm_sub_epi64 a b) = lo64 a - lo64 b" "hi64 (mm_sub_epi64 a b) = hi64 a - hi64 b"
  by (simp_all add: mm_cmpgt_epi64_def mm_cmpeq_epi64_def mm_sub_epi64_def)

lemma xor_select:
  "((a XOR b) AND (if P then - 1 else 0)) XOR b = (if P then a else b)" for a b :: u64
  by (rule bit_word_eqI) (auto simp: bit_simps)

lemma xor_other: "(a XOR b) XOR (if P then a else b) = (if P then b else a)" for a b :: u64
  by (rule bit_word_eqI) (auto simp: bit_simps)

lemma not_mask [simp]: "(if P then - 1 else 0) XOR (- 1) = (if P then 0 else (- 1 :: u64))"
  by simp

definition lanes :: "(block \<Rightarrow> u64) \<Rightarrow> block \<times> block \<times> block \<Rightarrow> u64 \<times> u64 \<times> u64" where
  "lanes f t = (f (fst t), f (fst (snd t)), f (snd (snd t)))"

lemma row3Vec_lane:
  assumes f: "\<And>a b. f (a XOR b) = f a XOR f b" "\<And>a b. f (a AND b) = f a AND f b" "f AllOneBlock = - 1"
    "\<And>a b. f (mm_cmpgt_epi64 a b) = (if f a > f b then - 1 else 0)"
    "\<And>a b. f (mm_cmpeq_epi64 a b) = (if f a = f b then - 1 else 0)"
    "\<And>a b. f (mm_sub_epi64 a b) = f a - f b"
  shows "lanes f (row3Vec a b c) = row3Word (f a) (f b) (f c)"
proof -
  define mx where "mx = ((a XOR b) AND mm_cmpgt_epi64 a b) XOR b"
  define mn where "mn = (a XOR b) XOR mx"
  define b1 where "b1 = mm_sub_epi64 b (mm_cmpeq_epi64 mx b)"
  define mx1 where "mx1 = mm_sub_epi64 mx (mm_cmpeq_epi64 mx b)"
  define c1 where "c1 = mm_sub_epi64 c (mm_cmpgt_epi64 mn c XOR AllOneBlock)"
  define c2 where "c2 = mm_sub_epi64 c1 (mm_cmpgt_epi64 mx1 c1 XOR AllOneBlock)"
  have row: "row3Vec a b c = (a, b1, c2)"
    by (simp only: row3Vec_def Let_def flip: mx_def mn_def b1_def mx1_def c1_def c2_def)
  have mx: "f mx = max (f a) (f b)"
    by (simp only: mx_def f xor_select) (auto simp: max_def)
  have "f mn = (if f a > f b then f b else f a)"
    unfolding mn_def mx_def f xor_select by (rule xor_other)
  then have mn: "f mn = min (f a) (f b)" by (auto simp: min_def)
  have b1: "f b1 = (if f mx = f b then f b + 1 else f b)" and mx1: "f mx1 = (if f mx = f b then f mx + 1 else f mx)"
    by (simp_all add: b1_def mx1_def f)
  have c1: "f c1 = (if f c \<ge> f mn then f c + 1 else f c)"
    by (cases "f mn > f c") (auto simp: c1_def f)
  have c2: "f c2 = (if f c1 \<ge> f mx1 then f c1 + 1 else f c1)"
    by (cases "f mx1 > f c1") (auto simp: c2_def f)
  show ?thesis
    unfolding row lanes_def fst_conv snd_conv row3Word_def Let_def c2 c1 b1 mx1 mn mx
    by (cases "max (f a) (f b) = f b") (simp_all only: if_True if_False prod.case simp_thms)
qed

lemma row3Vec_lanes:
  "lanes lo64 (row3Vec a b c) = row3Word (lo64 a) (lo64 b) (lo64 c)"
  "lanes hi64 (row3Vec a b c) = row3Word (hi64 a) (hi64 b) (hi64 c)"
  by (rule row3Vec_lane; simp)+

text \<open>A lane computes a row.\<close>

lemma row3Word_eq:
  assumes n: "3 \<le> n" "n < 2 ^ ib" "n < 2 ^ 64"
    and r: "row3Word (hashWord hash 0 mod of_nat n) (hashWord hash 1 mod (of_nat n - 1))
      (hashWord hash 2 mod (of_nat n - 2)) = (a', b', c')"
  shows "[castIdx ib a', castIdx ib b', castIdx ib c'] = buildRow3 ib (of_nat n) hash"
proof -
  define a b c where "a = hashWord hash 0 mod of_nat n" and "b = hashWord hash 1 mod (of_nat n - 1)"
    and "c = hashWord hash 2 mod (of_nat n - 2)"
  have "unat (of_nat n :: u64) = n" "unat (of_nat n - 1 :: u64) = n - 1" "unat (of_nat n - 2 :: u64) = n - 2"
    using n unat_sub_of_nat [of 0 n] unat_sub_of_nat [of 1 n] unat_sub_of_nat [of 2 n] by simp_all
  then have lt: "unat a < n" "unat b < n - 1" "unat c < n - 2"
    using n unat_mod_less [of "of_nat n" "hashWord hash 0"] unat_mod_less [of "of_nat n - 1" "hashWord hash 1"]
      unat_mod_less [of "of_nat n - 2" "hashWord hash 2"]
    by (simp_all add: a_def b_def c_def)
  have small: "x mod 2 ^ ib = x" if "x < n" for x using that n by simp
  have inc: "unat (x + 1) = unat x + 1" if "unat x < n - 1" for x :: u64
    using that n by (subst unat_plus) simp_all
  have cast: "castIdx ib x = unat x" if "unat x < n" for x using that by (simp add: castIdx_def small)
  have b1: "unat (b + 1) = unat b + 1" and c1: "unat (c + 1) = unat c + 1"
    and c2: "unat (c + 1 + 1) = unat c + 1 + 1" and a1: "a \<le> b \<Longrightarrow> unat (max a b + 1) = unat b + 1"
    using lt inc [of b] inc [of c] inc [of "c + 1"] by (simp_all add: max_def)
  have incm: "(unat b + 1) mod 2 ^ ib = unat b + 1" "(unat c + 1) mod 2 ^ ib = unat c + 1"
    "(unat c + 1 + 1) mod 2 ^ ib = unat c + 1 + 1" using lt by (simp_all add: small)
  have castr: "castIdx ib a = unat a" "castIdx ib b = unat b" "castIdx ib c = unat c"
    "castIdx ib (b + 1) = unat b + 1" "castIdx ib (c + 1) = unat c + 1" "castIdx ib (c + 1 + 1) = unat c + 1 + 1"
    using lt cast [of a] cast [of b] cast [of c] cast [of "b + 1"] cast [of "c + 1"] cast [of "c + 1 + 1"]
    by (simp_all only: b1 c1 c2)
  show ?thesis
  proof (cases "a \<le> b")
    case True
    have mx: "max a b = b" "min a b = a" using True by (simp_all add: max_def min_def)
    have mm: "min (unat a) (unat b) = unat a" "unat a + unat b - unat a = unat b"
      using True by (simp_all add: word_le_nat_alt)
    have "buildRow3 ib (of_nat n) hash = [unat a, unat b + 1,
      (let row2 = if unat c \<ge> unat a then unat c + 1 else unat c
       in if row2 \<ge> unat b + 1 then (row2 + 1) mod 2 ^ ib else row2)]"
      unfolding buildRow3_def Let_def a_def [symmetric] b_def [symmetric] c_def [symmetric] castr(1-3) mm
      by (simp only: if_True prod.case incm refl simp_thms)
    moreover have "(a', b', c') = (a, b + 1,
      (let c = if c \<ge> a then c + 1 else c in if c \<ge> b + 1 then c + 1 else c))"
      using r unfolding row3Word_def Let_def a_def [symmetric] b_def [symmetric] c_def [symmetric] mx
      by (simp only: if_True prod.case refl simp_thms)
    ultimately show ?thesis
      by (cases "unat a \<le> unat c"; cases "unat b + 1 \<le> unat c + 1"; cases "unat b + 1 \<le> unat c")
        (simp_all only: prod.inject Let_def word_le_nat_alt b1 c1 if_True if_False castr incm)
  next
    case False
    have mx: "max a b = a" "min a b = b" "a \<noteq> b" "unat a \<noteq> unat b"
      using False by (auto simp: max_def min_def word_le_nat_alt)
    have mm: "min (unat a) (unat b) = unat b" "unat a + unat b - unat b = unat a"
      using False by (simp_all add: word_le_nat_alt)
    have "buildRow3 ib (of_nat n) hash = [unat a, unat b,
      (let row2 = if unat c \<ge> unat b then unat c + 1 else unat c
       in if row2 \<ge> unat a then (row2 + 1) mod 2 ^ ib else row2)]"
      unfolding buildRow3_def Let_def a_def [symmetric] b_def [symmetric] c_def [symmetric] castr(1-3) mm
      by (simp only: mx(4) if_False prod.case incm)
    moreover have "(a', b', c') = (a, b,
      (let c = if c \<ge> b then c + 1 else c in if c \<ge> a then c + 1 else c))"
      using r unfolding row3Word_def Let_def a_def [symmetric] b_def [symmetric] c_def [symmetric] mx(1,2)
      by (simp only: mx(3) if_False prod.case)
    ultimately show ?thesis
      by (cases "unat b \<le> unat c"; cases "unat a \<le> unat c + 1"; cases "unat a \<le> unat c")
        (simp_all only: prod.inject Let_def word_le_nat_alt b1 c1 if_True if_False castr incm)
  qed
qed

lemma unpackWords_nth:
  "2 * k + 1 < 2 * length bs \<Longrightarrow> unpackWords bs ! (2 * k) = lo64 (bs ! k) \<and> unpackWords bs ! (2 * k + 1) = hi64 (bs ! k)"
proof (induction bs arbitrary: k)
  case (Cons b bs)
  show ?case
  proof (cases k)
    case (Suc j)
    with Cons.IH [of j] Cons.prems show ?thesis by (simp add: unpackWords_def)
  qed (simp add: unpackWords_def)
qed simp

lemma buildRow32_3:
  assumes ok: "hash_ok ib h" and w: "phWeight h = 3" and len: "length hash = 32"
  shows "buildRow32 ib h hash = map (buildRow ib h) hash"
proof -
  let ?n = "phSparseSize h"
  have n: "3 \<le> ?n" "?n < 2 ^ ib" "?n < 2 ^ 64" using ok w by (simp_all add: hash_ok_def)
  define ll where "ll i = map (\<lambda>j. hashWord (hash ! j) i) [0..<32]" for i
  have mods: "mod32 h (ll i) i = map (\<lambda>v. v mod (of_nat ?n - of_nat i)) (ll i)" if "i < 3" for i
  proof -
    have v: "phModVals h ! i = of_nat ?n - of_nat i" "libdivide_u64_gen (phModVals h ! i) = Inr (phMods h ! i)"
      using ok w that unfolding hash_ok_def by auto
    have "unat (of_nat ?n - of_nat i :: u64) = ?n - i" using that n by (intro unat_sub_of_nat) auto
    then have "of_nat ?n - of_nat i \<noteq> (0 :: u64)" using that n(1) by (intro notI) simp
    with v show ?thesis unfolding mod32_def by (subst doMod32_eq) (simp_all add: ll_def)
  qed
  define m where "m i k = hashWord (hash ! k) i mod (of_nat ?n - of_nat i)" for i k
  define row128 where "row128 = map (\<lambda>i. packWords (mod32 h (ll i) i)) [0..<3]"
  have pack: "row128 ! i ! k = toBlock (m i (2 * k + 1)) (m i (2 * k))" if "i < 3" "k < 16" for i k
  proof -
    have "mod32 h (ll i) i ! q = m i q" if "q < 32" for q
      using \<open>i < 3\<close> that by (simp add: mods) (simp add: ll_def m_def)
    with that show ?thesis by (simp add: row128_def packWords_def del: upt_Suc)
  qed
  define vecs where "vecs = map (\<lambda>k. row3Vec (row128 ! 0 ! k) (row128 ! 1 ! k) (row128 ! 2 ! k)) [0..<16]"
  define r0 where "r0 = unpackWords (map fst vecs)"
  define r1 where "r1 = unpackWords (map (fst \<circ> snd) vecs)"
  define r2 where "r2 = unpackWords (map (snd \<circ> snd) vecs)"
  have row: "(r0 ! k, r1 ! k, r2 ! k) = row3Word (m 0 k) (m 1 k) (m 2 k)" if "k < 32" for k
  proof -
    have j: "k div 2 < 16" and k: "k = 2 * (k div 2) \<or> k = 2 * (k div 2) + 1" using that by auto
    have v: "vecs ! (k div 2) = row3Vec (toBlock (m 0 (2 * (k div 2) + 1)) (m 0 (2 * (k div 2))))
        (toBlock (m 1 (2 * (k div 2) + 1)) (m 1 (2 * (k div 2))))
        (toBlock (m 2 (2 * (k div 2) + 1)) (m 2 (2 * (k div 2))))"
      using j pack [of 0 "k div 2"] pack [of 1 "k div 2"] pack [of 2 "k div 2"]
      by (simp add: vecs_def del: upt_Suc)
    have len16: "length vecs = 16" by (simp add: vecs_def)
    have u: "(r0 ! (2 * (k div 2)), r1 ! (2 * (k div 2)), r2 ! (2 * (k div 2))) = lanes lo64 (vecs ! (k div 2))"
      "(r0 ! (2 * (k div 2) + 1), r1 ! (2 * (k div 2) + 1), r2 ! (2 * (k div 2) + 1)) = lanes hi64 (vecs ! (k div 2))"
      using j len16 unpackWords_nth [of "k div 2" "map fst vecs"]
        unpackWords_nth [of "k div 2" "map (fst \<circ> snd) vecs"] unpackWords_nth [of "k div 2" "map (snd \<circ> snd) vecs"]
      by (simp_all add: r0_def r1_def r2_def lanes_def)
    from k show ?thesis
    proof
      assume e: "k = 2 * (k div 2)"
      show ?thesis using u(1) unfolding v row3Vec_lanes halves_toBlock e [symmetric] .
    next
      assume e: "k = 2 * (k div 2) + 1"
      show ?thesis using u(2) unfolding v row3Vec_lanes halves_toBlock e [symmetric] .
    qed
  qed
  have "[castIdx ib (r0 ! k), castIdx ib (r1 ! k), castIdx ib (r2 ! k)] = buildRow ib h (hash ! k)" if "k < 32" for k
  proof -
    have "row3Word (hashWord (hash ! k) 0 mod of_nat ?n) (hashWord (hash ! k) 1 mod (of_nat ?n - 1))
        (hashWord (hash ! k) 2 mod (of_nat ?n - 2)) = (r0 ! k, r1 ! k, r2 ! k)"
      using row [OF that] by (simp add: m_def)
    from row3Word_eq [OF n this] w show ?thesis by (simp add: buildRow_def)
  qed
  moreover have "buildRow32 ib h hash = map (\<lambda>k. [castIdx ib (r0 ! k), castIdx ib (r1 ! k), castIdx ib (r2 ! k)]) [0..<32]"
    unfolding buildRow32_def Let_def
    by (simp only: w if_True refl simp_thms ll_def [symmetric] row128_def [symmetric] vecs_def [symmetric]
        r0_def [symmetric] r1_def [symmetric] r2_def [symmetric])
  ultimately show ?thesis using len by (intro nth_equalityI) simp_all
qed

lemma buildRow32_eq:
  assumes "hash_ok ib h" "length hash = 32"
  shows "buildRow32 ib h hash = map (buildRow ib h) hash"
proof (cases "phWeight h = 3")
  case True
  with assms show ?thesis by (intro buildRow32_3)
next
  case False
  with assms(2) show ?thesis by (intro nth_equalityI) (simp_all add: buildRow32_def)
qed

subsection \<open>Initialisation\<close>

lemma PaxosHash_init_loop:
  assumes "k \<le> n" "n < 2 ^ 64"
  shows "\<exists>mods vals. foldr_res (\<lambda>i (mods, vals).
              let v = of_nat n - of_nat i
              in rbind (libdivide_u64_gen v) (\<lambda>D. Inr (mods @ [D], vals @ [v])))
              [0..<k] ([], []) = Inr (mods, vals) \<and> length mods = k \<and> length vals = k \<and>
    (\<forall>i<k. vals ! i = of_nat n - of_nat i \<and> libdivide_u64_gen (vals ! i) = Inr (mods ! i))"
  using assms(1)
proof (induction k)
  case (Suc k)
  then obtain mods vals where IH: "foldr_res (\<lambda>i (mods, vals).
              let v = of_nat n - of_nat i
              in rbind (libdivide_u64_gen v) (\<lambda>D. Inr (mods @ [D], vals @ [v])))
              [0..<k] ([], []) = Inr (mods, vals)" "length mods = k" "length vals = k"
    "\<forall>i<k. vals ! i = of_nat n - of_nat i \<and> libdivide_u64_gen (vals ! i) = Inr (mods ! i)" by auto
  have u: "unat (of_nat n - of_nat k :: u64) = n - k" using Suc.prems assms(2) by (intro unat_sub_of_nat) auto
  have "of_nat n - of_nat k \<noteq> (0 :: u64)"
  proof
    assume "of_nat n - of_nat k = (0 :: u64)"
    with u Suc.prems show False by simp
  qed
  then obtain D where "libdivide_u64_gen (of_nat n - of_nat k) = Inr D" using libdivide_u64_gen_ok by blast
  with IH show ?case
    by (intro exI [of _ "mods @ [D]"] exI [of _ "vals @ [of_nat n - of_nat k]"])
      (auto simp: foldr_res_append nth_append less_Suc_eq)
qed simp

lemma PaxosHash_init_ok:
  assumes "2 \<le> weight" "weight \<le> n" "n < 2 ^ ib" "n < 2 ^ 64"
  shows "\<exists>h. PaxosHash_init ib seed weight n = Inr h \<and> hash_ok ib h \<and> phSparseSize h = n \<and>
    phWeight h = weight \<and> phSeed h = seed"
  using PaxosHash_init_loop [OF assms(2,4)] assms
  by (fastforce simp: PaxosHash_init_def hash_ok_def Let_def case_prod_beta)

text \<open>C31: with a hasher initialised for a weight of at least 2 and a sparse size that fits the
  index type, every row that buildRow computes has exactly mWeight entries, all distinct and all
  below mSparseSize, for every hash and on both branches (weight three and the general loop).\<close>

theorem buildRow_valid:
  assumes "2 \<le> weight" and "weight \<le> n" and "n < 2 ^ ib" and "n < 2 ^ 64"
  shows "\<exists>h. PaxosHash_init ib seed weight n = Inr h \<and> (\<forall>hash. valid_row n weight (buildRow ib h hash))"
  using PaxosHash_init_ok [OF assms] buildRow_ok by metis

theorem buildRow_valid_witness:
  "\<exists>h. PaxosHash_init 16 5 3 10 = Inr h \<and> (\<forall>hash. valid_row 10 3 (buildRow 16 h hash))"
  using buildRow_valid [of 3 10 16 5] by simp

text \<open>C32: the vectorised hashBuildRow32, with its multiply-and-shift reductions, branch-free
  minimum and maximum and masked increments, computes for its 32 inputs exactly the rows and the
  hashes that hashBuildRow1 computes one by one.\<close>

theorem hashBuildRow32_eq:
  assumes "2 \<le> weight" and "weight \<le> n" and "n < 2 ^ ib" and "n < 2 ^ 64" and "length inputs = 32"
  shows "\<exists>h. PaxosHash_init ib seed weight n = Inr h \<and>
    hashBuildRow32 ib aesHash h inputs =
      (map (\<lambda>x. fst (hashBuildRow1 ib aesHash h x)) inputs, map (\<lambda>x. snd (hashBuildRow1 ib aesHash h x)) inputs)"
proof -
  obtain h where "PaxosHash_init ib seed weight n = Inr h" "hash_ok ib h"
    using PaxosHash_init_ok [OF assms(1-4)] by blast
  with assms(5) show ?thesis
    by (simp add: hashBuildRow32_def hashBuildRow1_def Let_def buildRow32_eq comp_def)
qed

theorem hashBuildRow32_eq_witness:
  "\<exists>h. PaxosHash_init 16 5 3 10 = Inr h \<and>
    fst (hashBuildRow32 16 (\<lambda>k x. x XOR 6) h (replicate 32 1)) ! 7 = buildRow 16 h 7"
  using hashBuildRow32_eq [of 3 10 16 "replicate 32 1" 5 "\<lambda>k x. x XOR 6"]
  by (auto simp: hashBuildRow1_def Let_def)

end
