(* ===== verification/Paxos.thy ===== *)
theory Paxos
  imports WeightData PaxosHash
begin

section \<open>The state of PaXoS\<close>

text \<open>
  \<open>PaxosParam\<close> and the state of \<open>Paxos<IdxType>\<close> (\<open>src/volePSI/Paxos.h\<close>), with the
  operations that fill it: \<open>init\<close>, \<open>allocate\<close>, \<open>setInput\<close> and \<open>rebuildColumns\<close>
  (\<open>src/volePSI/PaxosImpl.h\<close>). The template parameter \<open>IdxType\<close> is its width
  \<open>mIdxBits\<close>. A column of \<open>mCols\<close> is a span into \<open>mColBacking\<close>: its offset and its size.

  The main lemma is that after \<open>setInput\<close> column \<open>c\<close> lists exactly the rows that contain
  \<open>c\<close>, in increasing order, and that the buckets hold every column under its weight.
\<close>

datatype DenseType = Binary | GF128

record paxos_param =
  mSparseSize :: nat
  mDenseSize :: nat
  mWeight :: nat
  mG :: nat
  mSsp :: nat
  mDt :: DenseType

record paxos = paxos_param +
  mIdxBits :: nat
  mNumItems :: nat
  mSeed :: block
  mAddToDecode :: bool
  mHasher :: paxos_hash
  mDense :: "block list"
  mRows :: "nat list list"
  mCols :: "(nat \<times> nat) list"
  mColBacking :: "nat list"
  mWeightData :: weight_data

definition paxos_size :: "'a paxos_param_scheme \<Rightarrow> nat" where
  "paxos_size p = mSparseSize p + mDenseSize p"

definition maxIdx :: "nat \<Rightarrow> nat" where "maxIdx ib = 2 ^ ib - 1"

definition Paxos_init :: "nat \<Rightarrow> paxos_param \<Rightarrow> block \<Rightarrow> paxos \<Rightarrow> paxos res" where
  "Paxos_init numItems p seed P =
     (if mSparseSize p \<ge> maxIdx (mIdxBits P) then Inl RTE_LOC
      else if mSparseSize p + mDenseSize p < numItems then Inl RTE_LOC
      else
        let P = P\<lparr>mSparseSize := mSparseSize p, mDenseSize := mDenseSize p, mWeight := mWeight p,
                  mG := mG p, mSsp := mSsp p, mDt := mDt p,
                  mNumItems := numItems mod 2 ^ mIdxBits P, mSeed := seed\<rparr>
        in rbind (PaxosHash_init (mIdxBits P) seed (mWeight P) (mSparseSize P)) (\<lambda>h.
           Inr (P\<lparr>mHasher := h\<rparr>)))"

subsection \<open>Memory\<close>

definition sizeofBlock :: nat where "sizeofBlock = 16"
definition sizeofSpan :: nat where "sizeofSpan = 16"

definition initSpan :: "nat \<Rightarrow> nat \<Rightarrow> 'a \<Rightarrow> nat \<Rightarrow> 'a list \<times> nat" where
  "initSpan sz n x iter = (replicate n x, iter + sz * n)"

definition initMV :: "nat \<Rightarrow> nat \<Rightarrow> nat \<Rightarrow> 'a \<Rightarrow> nat \<Rightarrow> 'a list list \<times> nat" where
  "initMV sz rows cols x iter = (replicate rows (replicate cols x), iter + sz * rows * cols)"

text \<open>The spans are laid out one after the other; the memory starts as zeros here, and every
  entry that is read later has been written by then.\<close>

definition allocate :: "paxos \<Rightarrow> paxos res" where
  "allocate P =
     (let idx = mIdxBits P div 8;
          total = idx * (mNumItems P * mWeight P) + sizeofSpan * mSparseSize P +
                 idx * (mNumItems P * mWeight P) + sizeofBlock * mNumItems P;
          (dense, iter) = initSpan sizeofBlock (mNumItems P) 0 0;
          (rows, iter) = initMV idx (mNumItems P) (mWeight P) 0 iter;
          (backing, iter) = initSpan idx (mNumItems P * mWeight P) 0 iter;
          (cols, iter) = initSpan sizeofSpan (mSparseSize P) (0, 0) iter
      in rbind (guardr (iter = total) AssertFail) (\<lambda>_.
         Inr (P\<lparr>mDense := dense, mRows := rows, mColBacking := backing, mCols := cols\<rparr>)))"

lemma allocate_eq:
  "allocate P = Inr (P\<lparr>mDense := replicate (mNumItems P) 0,
     mRows := replicate (mNumItems P) (replicate (mWeight P) 0),
     mColBacking := replicate (mNumItems P * mWeight P) 0,
     mCols := replicate (mSparseSize P) (0, 0)\<rparr>)"
  by (simp add: allocate_def initSpan_def initMV_def algebra_simps)

subsection \<open>The columns\<close>

text \<open>The first loop of \<open>rebuildColumns\<close>: an empty span for every column.\<close>

definition initCols :: "nat \<Rightarrow> nat list \<Rightarrow> (nat \<times> nat) list \<Rightarrow> ((nat \<times> nat) list \<times> nat) res" where
  "initCols sparse colWeights cols =
     foldr_res (\<lambda>i (cols, colIter).
        rbind (at cols i) (\<lambda>_. rbind (at colWeights i) (\<lambda>w.
        Inr (cols[i := (colIter, 0)], colIter + w))))
       [0..<sparse] (cols, 0)"

definition storeBacking :: "nat \<Rightarrow> nat \<Rightarrow> nat list \<Rightarrow> nat list res" where
  "storeBacking k i backing = (if k < length backing then Inr (backing[k := i]) else Inl UB)"

text \<open>Appending row \<open>i\<close> to column \<open>c\<close>.\<close>

definition pushCol :: "nat \<Rightarrow> nat \<Rightarrow> (nat \<times> nat) list \<times> nat list \<Rightarrow> ((nat \<times> nat) list \<times> nat list) res" where
  "pushCol i c s =
     (let (cols, backing) = s in
      rbind (at cols c) (\<lambda>(d, n).
      rbind (storeBacking (d + n) i backing) (\<lambda>backing.
      Inr (cols[c := (d, n + 1)], backing))))"

text \<open>The unrolled body for weight three reads the three spans before it extends any.\<close>

definition pushRow3 :: "nat \<Rightarrow> nat list \<Rightarrow> (nat \<times> nat) list \<times> nat list \<Rightarrow> ((nat \<times> nat) list \<times> nat list) res" where
  "pushRow3 i row s =
     (let (cols, backing) = s in
      rbind (at row 0) (\<lambda>c0. rbind (at row 1) (\<lambda>c1. rbind (at row 2) (\<lambda>c2.
      rbind (at cols c0) (\<lambda>(d0, s0). rbind (at cols c1) (\<lambda>(d1, s1). rbind (at cols c2) (\<lambda>(d2, s2).
      let cols = cols[c0 := (d0, s0 + 1), c1 := (d1, s1 + 1), c2 := (d2, s2 + 1)] in
      rbind (storeBacking (fst (cols ! c0) + s0) i backing) (\<lambda>backing.
      rbind (storeBacking (fst (cols ! c1) + s1) i backing) (\<lambda>backing.
      rbind (storeBacking (fst (cols ! c2) + s2) i backing) (\<lambda>backing.
      Inr (cols, backing)))))))))))"

definition rebuildColumns :: "nat list \<Rightarrow> nat \<Rightarrow> paxos \<Rightarrow> paxos res" where
  "rebuildColumns colWeights totalWeight P =
     (if length (mColBacking P) \<noteq> totalWeight then Inl RTE_LOC
      else
        rbind (initCols (mSparseSize P) colWeights (mCols P)) (\<lambda>(cols, colIter).
        if colIter \<noteq> length (mColBacking P) then Inl RTE_LOC
        else
          rbind (foldr_res
                   (\<lambda>i s. rbind (at (mRows P) i) (\<lambda>row.
                      if mWeight P = 3 then pushRow3 i row s else foldr_res (pushCol i) row s))
                   [0..<mNumItems P] (cols, mColBacking P))
            (\<lambda>(cols, backing). Inr (P\<lparr>mCols := cols, mColBacking := backing\<rparr>))))"

subsection \<open>setInput\<close>

definition countRow :: "nat \<Rightarrow> nat list \<Rightarrow> nat list \<Rightarrow> nat list res" where
  "countRow sparse row colWeights =
     foldr_res (\<lambda>v ws. rbind (guardr (v < sparse) AssertFail) (\<lambda>_.
        rbind (at ws v) (\<lambda>w. Inr (ws[v := w + 1])))) row colWeights"

text \<open>The tail every \<open>setInput\<close> shares.\<close>

definition setInput_finish :: "nat list \<Rightarrow> paxos \<Rightarrow> paxos res" where
  "setInput_finish colWeights P =
     rbind (rebuildColumns colWeights (mWeight P * mNumItems P) P) (\<lambda>P.
     rbind (weight_init (mIdxBits P) colWeights (mWeightData P)) (\<lambda>wd.
     Inr (P\<lparr>mWeightData := wd\<rparr>)))"

definition setInput_rows :: "nat list list \<Rightarrow> block list \<Rightarrow> paxos \<Rightarrow> paxos res" where
  "setInput_rows rows dense P =
     (if length rows \<noteq> mNumItems P \<or> length dense \<noteq> mNumItems P then Inl RTE_LOC
      else if \<not> list_all (\<lambda>r. length r = mWeight P) rows then Inl RTE_LOC
      else
        rbind (allocate P) (\<lambda>P.
        rbind (foldr_res (countRow (mSparseSize P)) rows (replicate (mSparseSize P) 0)) (\<lambda>colWeights.
        setInput_finish colWeights (P\<lparr>mDense := dense, mRows := rows\<rparr>))))"

text \<open>The version whose memory, and whose column weights, the caller provides.\<close>

definition setInput_cols ::
    "nat list list \<Rightarrow> block list \<Rightarrow> (nat \<times> nat) list \<Rightarrow> nat list \<Rightarrow> nat list \<Rightarrow> paxos \<Rightarrow> paxos res" where
  "setInput_cols rows dense cols colBacking colWeights P =
     (if length rows \<noteq> mNumItems P \<or> length dense \<noteq> mNumItems P then Inl RTE_LOC
      else if \<not> list_all (\<lambda>r. length r = mWeight P) rows then Inl RTE_LOC
      else if length cols \<noteq> mSparseSize P then Inl RTE_LOC
      else if length colBacking \<noteq> mNumItems P * mWeight P then Inl RTE_LOC
      else if length colWeights \<noteq> mSparseSize P then Inl RTE_LOC
      else setInput_finish colWeights
             (P\<lparr>mRows := rows, mDense := dense, mCols := cols, mColBacking := colBacking\<rparr>))"

definition gPaxosBuildRowSize :: nat where "gPaxosBuildRowSize = 32"

text \<open>The blocks of 32 inputs of the main loop, and the inputs of the remainder loop.\<close>

definition hashRows :: "nat \<Rightarrow> (block \<Rightarrow> block \<Rightarrow> block) \<Rightarrow> paxos_hash \<Rightarrow> block list \<Rightarrow> (nat list \<times> block) list" where
  "hashRows ib aesHash h inputs =
     (let main = length inputs div gPaxosBuildRowSize
      in concat (map (\<lambda>k. let (rows, dense) = hashBuildRow32 ib aesHash h (drop (gPaxosBuildRowSize * k) inputs)
                          in zip rows dense) [0..<main]) @
         map (hashBuildRow1 ib aesHash h) (drop (gPaxosBuildRowSize * main) inputs))"

definition setInput :: "(block \<Rightarrow> block \<Rightarrow> block) \<Rightarrow> block list \<Rightarrow> paxos \<Rightarrow> paxos res" where
  "setInput aesHash inputs P =
     (if length inputs \<noteq> mNumItems P then Inl RTE_LOC
      else
        rbind (allocate P) (\<lambda>P.
        rbind (guardr (distinct inputs) AssertFail) (\<lambda>_.
        let rd = hashRows (mIdxBits P) aesHash (mHasher P) inputs;
            rows = map fst rd; dense = map snd rd in
        rbind (foldr_res (\<lambda>row ws. foldr_res (\<lambda>v ws. rbind (at ws v) (\<lambda>w. Inr (ws[v := w + 1]))) row ws)
                 rows (replicate (mSparseSize P) 0)) (\<lambda>colWeights.
        setInput_finish colWeights (P\<lparr>mDense := dense, mRows := rows\<rparr>)))))"

subsection \<open>The columns list the rows\<close>

definition colSpan :: "(nat \<times> nat) list \<Rightarrow> nat list \<Rightarrow> nat \<Rightarrow> nat list" where
  "colSpan cols backing c = take (snd (cols ! c)) (drop (fst (cols ! c)) backing)"

abbreviation colOf :: "'a paxos_scheme \<Rightarrow> nat \<Rightarrow> nat list" where
  "colOf P \<equiv> colSpan (mCols P) (mColBacking P)"

text \<open>A log of the (row, column) pairs appended so far, and the start of each column.\<close>

definition colLog :: "(nat \<times> nat) list \<Rightarrow> nat \<Rightarrow> nat list" where
  "colLog log c = map fst (filter (\<lambda>p. snd p = c) log)"

definition colOff :: "nat list \<Rightarrow> nat \<Rightarrow> nat" where
  "colOff ws c = (\<Sum>d<c. ws ! d)"

definition cols_inv :: "nat list \<Rightarrow> (nat \<times> nat) list \<Rightarrow> (nat \<times> nat) list \<times> nat list \<Rightarrow> bool" where
  "cols_inv ws log s \<longleftrightarrow>
     length (fst s) = length ws \<and> length (snd s) = colOff ws (length ws) \<and>
     (\<forall>c<length ws. fst s ! c = (colOff ws c, length (colLog log c)) \<and>
        length (colLog log c) \<le> ws ! c \<and> colSpan (fst s) (snd s) c = colLog log c)"

lemma colLog_append: "colLog (xs @ ys) c = colLog xs c @ colLog ys c"
  by (simp add: colLog_def)

lemma colLog_Cons: "colLog (p # xs) c = (if snd p = c then fst p # colLog xs c else colLog xs c)"
  by (simp add: colLog_def)

lemma colLog_Nil [simp]: "colLog [] c = []"
  by (simp add: colLog_def)

lemma colOff_mono: "c < d \<Longrightarrow> colOff ws c + ws ! c \<le> colOff ws d"
proof (induction d)
  case (Suc d)
  then show ?case by (cases "c = d") (auto simp: colOff_def)
qed simp

lemma take_drop_update_other:
  "k < d \<or> d + n \<le> k \<Longrightarrow> take n (drop d (xs[k := x])) = take n (drop d xs)"
  by (rule nth_equalityI) auto

lemma pushCol_inv:
  assumes inv: "cols_inv ws log s" and c: "c < length ws" and room: "length (colLog log c) < ws ! c"
  shows "\<exists>s'. pushCol i c s = Inr s' \<and> cols_inv ws (log @ [(i, c)]) s'"
proof -
  obtain cols backing where s: "s = (cols, backing)" by fastforce
  let ?n = "length (colLog log c)" and ?d = "colOff ws c"
  have len: "length cols = length ws" "length backing = colOff ws (length ws)"
    and span: "\<And>c. c < length ws \<Longrightarrow> cols ! c = (colOff ws c, length (colLog log c))"
    and cont: "\<And>c. c < length ws \<Longrightarrow> colSpan cols backing c = colLog log c"
    using inv s by (auto simp: cols_inv_def)
  have k: "?d + ?n < length backing" using colOff_mono [OF c, of ws] room len(2) by linarith
  let ?s' = "(cols[c := (?d, ?n + 1)], backing[?d + ?n := i])"
  have "pushCol i c s = Inr ?s'"
    using span [OF c] c k len by (simp add: pushCol_def s storeBacking_def)
  moreover have "colSpan (cols[c := (?d, ?n + 1)]) (backing[?d + ?n := i]) e = colLog (log @ [(i, c)]) e"
    if e: "e < length ws" for e
  proof (cases "e = c")
    case True
    have old: "take ?n (drop ?d backing) = colLog log c"
      using cont [OF c] span [OF c] by (simp add: colSpan_def)
    have "take (Suc ?n) (drop ?d (backing[?d + ?n := i])) = take ?n (drop ?d (backing[?d + ?n := i])) @ [i]"
      using k by (subst take_Suc_conv_app_nth) auto
    also have "take ?n (drop ?d (backing[?d + ?n := i])) = colLog log c"
      using old by (subst take_drop_update_other) auto
    finally show ?thesis using True c len by (simp add: colSpan_def colLog_append colLog_Cons)
  next
    case False
    let ?m = "length (colLog log e)"
    have old: "take ?m (drop (colOff ws e) backing) = colLog log e"
      using cont [OF e] span [OF e] by (simp add: colSpan_def)
    have "?m \<le> ws ! e" using inv e by (simp add: cols_inv_def)
    have "?d + ?n < colOff ws e \<or> colOff ws e + ?m \<le> ?d + ?n"
      using False colOff_mono [of c e ws] colOff_mono [of e c ws] room \<open>?m \<le> ws ! e\<close> by (cases "c < e") auto
    with old show ?thesis using False e span [OF e]
      by (simp add: colSpan_def take_drop_update_other colLog_append colLog_Cons)
  qed
  ultimately show ?thesis
    using inv s len span c room by (auto simp: cols_inv_def nth_list_update colLog_append colLog_Cons)
qed

lemma pushCol_loop:
  assumes "cols_inv ws log s" "\<And>i c. (i, c) \<in> set ps \<Longrightarrow> c < length ws"
    and "\<And>c. c < length ws \<Longrightarrow> length (colLog (log @ ps) c) \<le> ws ! c"
  shows "\<exists>s'. foldr_res (\<lambda>(i, c). pushCol i c) ps s = Inr s' \<and> cols_inv ws (log @ ps) s'"
  using assms
proof (induction ps arbitrary: log s)
  case (Cons p ps)
  obtain i c where p: "p = (i, c)" by fastforce
  have c: "c < length ws" using Cons.prems(2) [of i c] p by simp
  have "length (colLog log c) < ws ! c"
    using Cons.prems(3) [OF c] p by (simp add: colLog_append colLog_Cons)
  then obtain s1 where s1: "pushCol i c s = Inr s1" "cols_inv ws (log @ [(i, c)]) s1"
    using pushCol_inv [OF Cons.prems(1) c] by blast
  from Cons.IH [OF s1(2)] Cons.prems p
  obtain s2 where "foldr_res (\<lambda>(i, c). pushCol i c) ps s1 = Inr s2" "cols_inv ws (log @ [(i, c)] @ ps) s2"
    by auto
  with s1 p show ?case by auto
qed auto

text \<open>The unrolled body appends the row to its three columns one after the other.\<close>

lemma storeBacking_length: "storeBacking k i b = Inr b' \<Longrightarrow> length b' = length b"
  by (auto simp: storeBacking_def split: if_splits)

lemma pushRow3_eq:
  assumes "length row = 3" "distinct row"
  shows "pushRow3 i row s = foldr_res (pushCol i) row s"
proof -
  obtain c0 c1 c2 where row: "row = [c0, c1, c2]"
    using assms(1) by (auto simp: numeral_3_eq_3 length_Suc_conv)
  then have d: "c0 \<noteq> c1" "c0 \<noteq> c2" "c1 \<noteq> c2" using assms(2) by auto
  obtain cols b where s: "s = (cols, b)" by fastforce
  show ?thesis
  proof (cases "c0 < length cols \<and> c1 < length cols \<and> c2 < length cols")
    case False
    have "pushRow3 i row s = Inl UB"
      using False by (auto simp: pushRow3_def row s at_def split: prod.splits)
    moreover have "foldr_res (pushCol i) row s = Inl UB"
      using False by (auto simp: pushCol_def row s at_def storeBacking_def split: prod.splits)
    ultimately show ?thesis by simp
  next
    case True
    then show ?thesis using d
      by (auto simp: pushRow3_def pushCol_def row s storeBacking_def nth_list_update split: prod.splits)
  qed
qed

lemma initCols_eq:
  assumes "length cols = sparse" "length ws = sparse"
  shows "initCols sparse ws cols = Inr (map (\<lambda>c. (colOff ws c, 0)) [0..<sparse], colOff ws sparse)"
proof -
  have "k \<le> sparse \<Longrightarrow> foldr_res (\<lambda>i (cols, colIter).
        rbind (at cols i) (\<lambda>_. rbind (at ws i) (\<lambda>w. Inr (cols[i := (colIter, 0)], colIter + w))))
       [0..<k] (cols, 0) = Inr (map (\<lambda>c. (colOff ws c, 0)) [0..<k] @ drop k cols, colOff ws k)" for k
  proof (induction k)
    case (Suc k)
    have "(map (\<lambda>c. (colOff ws c, 0)) [0..<k] @ drop k cols)[k := (colOff ws k, 0)] =
        map (\<lambda>c. (colOff ws c, 0)) [0..<Suc k] @ drop (Suc k) cols"
      using Suc.prems assms by (simp add: list_update_append Cons_nth_drop_Suc [symmetric])
    with Suc assms show ?case by (simp add: foldr_res_append colOff_def)
  qed (simp add: colOff_def)
  from this [of sparse] assms show ?thesis by (simp add: initCols_def)
qed

text \<open>Counting.\<close>

definition rowLog :: "nat list list \<Rightarrow> (nat \<times> nat) list" where
  "rowLog rows = concat (map (\<lambda>i. map (Pair i) (rows ! i)) [0..<length rows])"

definition colRows :: "nat list list \<Rightarrow> nat \<Rightarrow> nat list" where
  "colRows rows c = filter (\<lambda>i. c \<in> set (rows ! i)) [0..<length rows]"

lemma colLog_rowLog:
  assumes "\<And>r. r \<in> set rows \<Longrightarrow> distinct r"
  shows "colLog (rowLog rows) c = colRows rows c"
proof -
  have one: "colLog (map (Pair i) r) c = (if c \<in> set r then [i] else [])" if "distinct r" for i r
    using that by (induction r) (auto simp: colLog_Cons)
  have "colLog (concat (map (\<lambda>i. map (Pair i) (rows ! i)) [0..<k])) c = filter (\<lambda>i. c \<in> set (rows ! i)) [0..<k]"
    if "k \<le> length rows" for k
    using that
  proof (induction k)
    case (Suc k)
    with one [of "rows ! k" k] assms show ?case by (simp add: colLog_append)
  qed simp
  then show ?thesis by (simp add: rowLog_def colRows_def)
qed

lemma length_colLog: "length (colLog log c) = count_list (map snd log) c"
  by (induction log) (auto simp: colLog_Cons)

lemma snd_rowLog: "map snd (rowLog rows) = concat rows"
proof -
  have "map snd (rowLog rows) = concat (map (\<lambda>i. rows ! i) [0..<length rows])"
    by (simp add: rowLog_def map_concat comp_def)
  then show ?thesis by (simp only: map_nth)
qed

lemma count_loop:
  assumes "\<And>v. v \<in> set vs \<Longrightarrow> v < length ws"
  shows "foldr_res (\<lambda>v ws. rbind (at ws v) (\<lambda>w. Inr (ws[v := w + 1]))) vs ws =
    Inr (map (\<lambda>c. ws ! c + count_list vs c) [0..<length ws])"
  using assms
proof (induction vs arbitrary: ws)
  case Nil
  then show ?case by (simp add: map_nth)
next
  case (Cons v vs)
  have "map (\<lambda>c. ws[v := ws ! v + 1] ! c + count_list vs c) [0..<length ws]
      = map (\<lambda>c. ws ! c + count_list (v # vs) c) [0..<length ws]"
    using Cons.prems by (auto simp: nth_list_update)
  with Cons show ?case by simp
qed

text \<open>The two counting loops of the \<open>setInput\<close> versions, over all rows.\<close>

lemma foldr_res_rows:
  "foldr_res (\<lambda>row ws. foldr_res f row ws) rows ws = foldr_res f (concat rows) ws"
proof (induction rows arbitrary: ws)
  case (Cons r rows)
  then show ?case by (auto simp: foldr_res_append rbind_def split: sum.splits)
qed simp

definition rowWeights :: "nat \<Rightarrow> nat list list \<Rightarrow> nat list" where
  "rowWeights sparse rows = map (count_list (concat rows)) [0..<sparse]"

lemma count_rows:
  assumes "\<And>r v. r \<in> set rows \<Longrightarrow> v \<in> set r \<Longrightarrow> v < sparse"
  shows "foldr_res (\<lambda>row ws. foldr_res (\<lambda>v ws. rbind (at ws v) (\<lambda>w. Inr (ws[v := w + 1]))) row ws)
      rows (replicate sparse 0) = Inr (rowWeights sparse rows)"
    and "foldr_res (countRow sparse) rows (replicate sparse 0) = Inr (rowWeights sparse rows)"
proof -
  have b: "v < length (replicate sparse (0 :: nat))" if "v \<in> set (concat rows)" for v
    using that assms by auto
  show one: "foldr_res (\<lambda>row ws. foldr_res (\<lambda>v ws. rbind (at ws v) (\<lambda>w. Inr (ws[v := w + 1]))) row ws)
      rows (replicate sparse 0) = Inr (rowWeights sparse rows)"
    unfolding foldr_res_rows by (subst count_loop [OF b]) (simp_all add: rowWeights_def)
  have "foldr_res (countRow sparse) rows ws =
      foldr_res (\<lambda>row ws. foldr_res (\<lambda>v ws. rbind (at ws v) (\<lambda>w. Inr (ws[v := w + 1]))) row ws) rows ws" for ws
    unfolding countRow_def
    by (intro foldr_res_cong refl) (use assms in simp)
  with one show "foldr_res (countRow sparse) rows (replicate sparse 0) = Inr (rowWeights sparse rows)" by simp
qed

lemma rowWeights_nth:
  assumes "c < sparse" "\<And>r. r \<in> set rows \<Longrightarrow> distinct r"
  shows "rowWeights sparse rows ! c = length (colRows rows c)"
  using assms colLog_rowLog [of rows c] length_colLog [of "rowLog rows" c] by (simp add: rowWeights_def snd_rowLog)

lemma colOff_total:
  assumes "\<And>r. r \<in> set rows \<Longrightarrow> valid_row sparse w r"
  shows "colOff (rowWeights sparse rows) sparse = length rows * w"
proof -
  have "colOff (rowWeights sparse rows) sparse = sum (count_list (concat rows)) {..<sparse}"
    by (simp add: colOff_def rowWeights_def)
  also have "\<dots> = length (concat rows)"
    using assms by (intro sum_count_list) (auto simp: valid_row_def)
  also have "\<dots> = length rows * w"
    using assms by (induction rows) (auto simp: valid_row_def)
  finally show ?thesis .
qed

subsection \<open>The state that setInput leaves\<close>

definition rows_ok :: "'a paxos_scheme \<Rightarrow> bool" where
  "rows_ok P \<longleftrightarrow> length (mRows P) = mNumItems P \<and> length (mDense P) = mNumItems P \<and>
     (\<forall>r\<in>set (mRows P). valid_row (mSparseSize P) (mWeight P) r)"

definition cols_ok :: "'a paxos_scheme \<Rightarrow> bool" where
  "cols_ok P \<longleftrightarrow> length (mCols P) = mSparseSize P \<and>
     (\<forall>c<mSparseSize P. colOf P c = colRows (mRows P) c \<and> snd (mCols P ! c) = length (colRows (mRows P) c) \<and>
        fst (mCols P ! c) + snd (mCols P ! c) \<le> length (mColBacking P))"

definition weights_ok :: "'a paxos_scheme \<Rightarrow> bool" where
  "weights_ok P \<longleftrightarrow>
     (let ws = rowWeights (mSparseSize P) (mRows P) in
      wd_rel (mIdxBits P) (mSparseSize P) (buckets ws (mSparseSize P)) (mWeightData P) \<and>
      nodeWeights (mWeightData P) = ws)"

definition size_ok :: "'a paxos_scheme \<Rightarrow> bool" where
  "size_ok P \<longleftrightarrow> 0 < mSparseSize P \<and> mSparseSize P \<le> NullNode (mIdxBits P)"

lemma rows_okD:
  assumes "rows_ok P"
  shows "length (mRows P) = mNumItems P" "length (mDense P) = mNumItems P"
    "i < mNumItems P \<Longrightarrow> valid_row (mSparseSize P) (mWeight P) (mRows P ! i)"
    "i < mNumItems P \<Longrightarrow> length (mRows P ! i) = mWeight P"
    "i < mNumItems P \<Longrightarrow> distinct (mRows P ! i)"
    "i < mNumItems P \<Longrightarrow> c \<in> set (mRows P ! i) \<Longrightarrow> c < mSparseSize P"
  using assms by (auto simp: rows_ok_def valid_row_def)

lemma rebuild_loop:
  assumes rows: "rows_ok P" and inv: "cols_inv ws [] s" and ws: "ws = rowWeights (mSparseSize P) (mRows P)"
  shows "\<exists>s'. foldr_res (\<lambda>i s. rbind (at (mRows P) i) (\<lambda>row.
                      if mWeight P = 3 then pushRow3 i row s else foldr_res (pushCol i) row s))
           [0..<mNumItems P] s = Inr s' \<and> cols_inv ws (rowLog (mRows P)) s'"
proof -
  note R = rows_okD [OF rows]
  have "foldr_res (\<lambda>i s. rbind (at (mRows P) i) (\<lambda>row.
                      if mWeight P = 3 then pushRow3 i row s else foldr_res (pushCol i) row s))
           [0..<mNumItems P] s = foldr_res (\<lambda>i s. foldr_res (pushCol i) (mRows P ! i) s) [0..<mNumItems P] s"
  proof (intro foldr_res_cong refl)
    fix i s assume "i \<in> set [0..<mNumItems P]"
    then have "i < mNumItems P" by simp
    then show "rbind (at (mRows P) i) (\<lambda>row. if mWeight P = 3 then pushRow3 i row s else foldr_res (pushCol i) row s)
      = foldr_res (pushCol i) (mRows P ! i) s"
      using R(1) R(4,5) [of i] pushRow3_eq [of "mRows P ! i" i s] by simp
  qed
  also have "\<dots> = foldr_res (\<lambda>(i, c). pushCol i c) (rowLog (mRows P)) s"
    by (simp add: foldr_res_concat rowLog_def R(1))
  finally have eq: "foldr_res (\<lambda>i s. rbind (at (mRows P) i) (\<lambda>row.
                      if mWeight P = 3 then pushRow3 i row s else foldr_res (pushCol i) row s))
           [0..<mNumItems P] s = foldr_res (\<lambda>(i, c). pushCol i c) (rowLog (mRows P)) s" .
  have "\<exists>s'. foldr_res (\<lambda>(i, c). pushCol i c) (rowLog (mRows P)) s = Inr s' \<and> cols_inv ws ([] @ rowLog (mRows P)) s'"
  proof (rule pushCol_loop [OF inv])
    fix i c assume "(i, c) \<in> set (rowLog (mRows P))"
    then show "c < length ws" using R(1) R(6) [of i c] by (auto simp: rowLog_def ws rowWeights_def)
  next
    fix c assume "c < length ws"
    then show "length (colLog ([] @ rowLog (mRows P)) c) \<le> ws ! c"
      by (simp add: ws rowWeights_def length_colLog snd_rowLog)
  qed
  with eq show ?thesis by simp
qed

lemma setInput_finish_ok:
  assumes rows: "rows_ok P" and sz: "size_ok P"
    and len: "length (mCols P) = mSparseSize P" "length (mColBacking P) = mNumItems P * mWeight P"
    and nodes: "length (mNodes (mWeightData P)) \<le> mSparseSize P"
    and light: "\<And>c. c < mSparseSize P \<Longrightarrow> length (colRows (mRows P) c) < 200"
  shows "\<exists>cols backing wd.
    setInput_finish (rowWeights (mSparseSize P) (mRows P)) P = Inr (P\<lparr>mCols := cols, mColBacking := backing, mWeightData := wd\<rparr>) \<and>
    cols_ok (P\<lparr>mCols := cols, mColBacking := backing, mWeightData := wd\<rparr>) \<and>
    weights_ok (P\<lparr>mCols := cols, mColBacking := backing, mWeightData := wd\<rparr>)"
proof -
  note R = rows_okD [OF rows]
  define ws where "ws = rowWeights (mSparseSize P) (mRows P)"
  have lws: "length ws = mSparseSize P" by (simp add: ws_def rowWeights_def)
  have dist: "\<And>r. r \<in> set (mRows P) \<Longrightarrow> distinct r" using rows by (auto simp: rows_ok_def valid_row_def)
  have total: "colOff ws (mSparseSize P) = mNumItems P * mWeight P"
    using colOff_total [of "mRows P" "mSparseSize P" "mWeight P"] rows by (simp add: ws_def rows_ok_def)
  have init: "initCols (mSparseSize P) ws (mCols P) =
      Inr (map (\<lambda>c. (colOff ws c, 0)) [0..<mSparseSize P], colOff ws (mSparseSize P))"
    using len(1) lws by (rule initCols_eq)
  have "cols_inv ws [] (map (\<lambda>c. (colOff ws c, 0)) [0..<mSparseSize P], mColBacking P)"
    using lws total len by (simp add: cols_inv_def colSpan_def)
  from rebuild_loop [OF rows this ws_def] obtain cols backing where
    loop: "foldr_res (\<lambda>i s. rbind (at (mRows P) i) (\<lambda>row.
                      if mWeight P = 3 then pushRow3 i row s else foldr_res (pushCol i) row s))
           [0..<mNumItems P] (map (\<lambda>c. (colOff ws c, 0)) [0..<mSparseSize P], mColBacking P) = Inr (cols, backing)"
    and inv: "cols_inv ws (rowLog (mRows P)) (cols, backing)" by auto
  have rebuild: "rebuildColumns ws (mWeight P * mNumItems P) P = Inr (P\<lparr>mCols := cols, mColBacking := backing\<rparr>)"
    using len total init loop by (simp add: rebuildColumns_def mult.commute)
  have w200: "ws ! c < 200" if "c < mSparseSize P" for c
    using light [OF that] rowWeights_nth [of c _ "mRows P"] dist that by (simp add: ws_def)
  have "\<exists>wd. weight_init (mIdxBits P) ws (mWeightData P) = Inr wd \<and>
      wd_rel (mIdxBits P) (mSparseSize P) (buckets ws (mSparseSize P)) wd \<and> nodeWeights wd = ws"
    using weight_init_refines [of "mSparseSize P" ws "mIdxBits P" "mWeightData P"] w200 lws sz nodes
    by (simp add: size_ok_def)
  then obtain wd where wd: "weight_init (mIdxBits P) ws (mWeightData P) = Inr wd"
    "wd_rel (mIdxBits P) (mSparseSize P) (buckets ws (mSparseSize P)) wd" "nodeWeights wd = ws" by blast
  have log: "colLog (rowLog (mRows P)) c = colRows (mRows P) c" for c
    by (rule colLog_rowLog) (rule dist)
  have "colSpan cols backing c = colRows (mRows P) c \<and>
      snd (cols ! c) = length (colRows (mRows P) c) \<and> fst (cols ! c) + length (colRows (mRows P) c) \<le> length backing"
    if "c < mSparseSize P" for c
    using inv that lws colOff_mono [of c "length ws" ws] by (auto simp: cols_inv_def log)
  moreover have "length cols = mSparseSize P" using inv lws by (simp add: cols_inv_def)
  ultimately show ?thesis
    using rebuild wd unfolding ws_def [symmetric]
    by (intro exI [of _ cols] exI [of _ backing] exI [of _ wd])
      (simp add: setInput_finish_def cols_ok_def weights_ok_def flip: ws_def)
qed

lemma setInput_rows_ok:
  assumes "length rows = mNumItems P" and "length dense = mNumItems P"
    and "\<forall>r\<in>set rows. valid_row (mSparseSize P) (mWeight P) r"
    and "0 < mSparseSize P" and "mSparseSize P < 2 ^ mIdxBits P"
    and "length (mNodes (mWeightData P)) \<le> mSparseSize P"
    and "\<forall>c<mSparseSize P. length (colRows rows c) < 200"
  shows "\<exists>cols backing wd. let P' = P\<lparr>mDense := dense, mRows := rows, mCols := cols, mColBacking := backing, mWeightData := wd\<rparr> in
    setInput_rows rows dense P = Inr P' \<and> rows_ok P' \<and> cols_ok P' \<and> weights_ok P' \<and> size_ok P'"
proof -
  let ?P = "P\<lparr>mColBacking := replicate (mNumItems P * mWeight P) 0,
     mCols := replicate (mSparseSize P) (0, 0), mDense := dense, mRows := rows\<rparr>"
  have "rows_ok ?P" "size_ok ?P" using assms by (auto simp: rows_ok_def size_ok_def NullNode_def)
  from setInput_finish_ok [OF this] assms
  obtain cols backing wd where fin: "setInput_finish (rowWeights (mSparseSize P) rows) ?P =
      Inr (?P\<lparr>mCols := cols, mColBacking := backing, mWeightData := wd\<rparr>)"
    and ok: "cols_ok (?P\<lparr>mCols := cols, mColBacking := backing, mWeightData := wd\<rparr>)"
      "weights_ok (?P\<lparr>mCols := cols, mColBacking := backing, mWeightData := wd\<rparr>)" by auto
  have "list_all (\<lambda>r. length r = mWeight P) rows" using assms(3) by (simp add: list_all_iff valid_row_def)
  moreover have "foldr_res (countRow (mSparseSize P)) rows (replicate (mSparseSize P) 0) =
      Inr (rowWeights (mSparseSize P) rows)"
    using assms(3) by (intro count_rows) (auto simp: valid_row_def)
  ultimately have "setInput_rows rows dense P = Inr (?P\<lparr>mCols := cols, mColBacking := backing, mWeightData := wd\<rparr>)"
    using assms(1,2) fin by (simp add: setInput_rows_def allocate_eq)
  with ok \<open>rows_ok ?P\<close> \<open>size_ok ?P\<close> show ?thesis
    by (intro exI [of _ cols] exI [of _ backing] exI [of _ wd]) (simp add: rows_ok_def size_ok_def)
qed

text \<open>The 32-wide path of \<open>setInput\<close> against the rows built one by one.\<close>

lemma hashRows_eq:
  assumes "hash_ok ib h"
  shows "hashRows ib aesHash h inputs = map (hashBuildRow1 ib aesHash h) inputs"
proof -
  let ?f = "hashBuildRow1 ib aesHash h" and ?n = "length inputs div 32"
  have one: "(let (rows, dense) = hashBuildRow32 ib aesHash h (drop (32 * k) inputs) in zip rows dense)
      = map ?f (take 32 (drop (32 * k) inputs))" if "k < ?n" for k
  proof -
    let ?t = "take 32 (drop (32 * k) inputs)"
    have "32 * k + 32 \<le> length inputs" using that by (simp add: less_eq_div_iff_mult_less_eq)
    then have "length (map (aesHash (phSeed h)) ?t) = 32" by simp
    note b = buildRow32_eq [OF assms this]
    have "zip (map (buildRow ib h) (map (aesHash (phSeed h)) ?t)) (map (aesHash (phSeed h)) ?t) = map ?f ?t"
      by (rule nth_equalityI) (simp_all add: hashBuildRow1_def Let_def)
    then show ?thesis by (simp only: hashBuildRow32_def Let_def b prod.case)
  qed
  have "concat (map (\<lambda>k. let (rows, dense) = hashBuildRow32 ib aesHash h (drop (32 * k) inputs) in zip rows dense) [0..<?n])
      = concat (map (\<lambda>k. map ?f (take 32 (drop (32 * k) inputs))) [0..<?n])"
    using one by (intro arg_cong [of _ _ concat] map_cong refl) auto
  also have "\<dots> = map ?f (take (32 * ?n) inputs)"
    using arg_cong [OF concat_take_drop [of 32 inputs ?n], of "map ?f"] by (simp only: map_concat map_map comp_def)
  finally have "hashRows ib aesHash h inputs = map ?f (take (32 * ?n) inputs) @ map ?f (drop (32 * ?n) inputs)"
    by (simp only: hashRows_def gPaxosBuildRowSize_def Let_def)
  also have "\<dots> = map ?f (take (32 * ?n) inputs @ drop (32 * ?n) inputs)" by (rule map_append [symmetric])
  finally show ?thesis by (simp only: append_take_drop_id)
qed

definition hasher_ok :: "'a paxos_scheme \<Rightarrow> bool" where
  "hasher_ok P \<longleftrightarrow> hash_ok (mIdxBits P) (mHasher P) \<and> phWeight (mHasher P) = mWeight P \<and>
     phSparseSize (mHasher P) = mSparseSize P \<and> phSeed (mHasher P) = mSeed P"

text \<open>The row and the dense part of one key.\<close>

definition keyRow :: "(block \<Rightarrow> block \<Rightarrow> block) \<Rightarrow> 'a paxos_scheme \<Rightarrow> block \<Rightarrow> nat list \<times> block" where
  "keyRow aesHash P = hashBuildRow1 (mIdxBits P) aesHash (mHasher P)"

lemma keyRow_valid: "hasher_ok P \<Longrightarrow> valid_row (mSparseSize P) (mWeight P) (fst (keyRow aesHash P x))"
  using buildRow_ok [of "mIdxBits P" "mHasher P"] by (simp add: hasher_ok_def keyRow_def hashBuildRow1_def Let_def)

lemma setInput_eq:
  assumes "hasher_ok P" "length inputs = mNumItems P" "distinct inputs"
  shows "setInput aesHash inputs P =
    setInput_rows (map (\<lambda>x. fst (keyRow aesHash P x)) inputs) (map (\<lambda>x. snd (keyRow aesHash P x)) inputs) P"
proof -
  let ?rows = "map (\<lambda>x. fst (keyRow aesHash P x)) inputs"
  have valid: "\<And>r. r \<in> set ?rows \<Longrightarrow> valid_row (mSparseSize P) (mWeight P) r" using keyRow_valid [OF assms(1)] by auto
  have "\<And>r v. r \<in> set ?rows \<Longrightarrow> v \<in> set r \<Longrightarrow> v < mSparseSize P" using valid by (simp add: valid_row_def)
  note c = count_rows [of ?rows "mSparseSize P", OF this]
  have "foldr_res (\<lambda>row ws. foldr_res (\<lambda>v ws. rbind (at ws v) (\<lambda>w. Inr (ws[v := w + 1]))) row ws)
      ?rows (replicate (mSparseSize P) 0) = foldr_res (countRow (mSparseSize P)) ?rows (replicate (mSparseSize P) 0)"
    by (simp only: c)
  moreover have "list_all (\<lambda>r. length r = mWeight P) ?rows" using valid by (simp add: list_all_iff valid_row_def)
  ultimately show ?thesis
    using assms by (simp add: setInput_def setInput_rows_def allocate_eq hashRows_eq hasher_ok_def keyRow_def comp_def Let_def)
qed

lemma Paxos_init_ok:
  assumes "Paxos_init numItems p seed P0 = Inr P" "2 \<le> mWeight p" "mWeight p \<le> mSparseSize p"
    and "mIdxBits P0 \<le> 64" "numItems < 2 ^ mIdxBits P0"
  shows "hasher_ok P" "size_ok P" "mNumItems P = numItems" "paxos_param.truncate P = p"
    "mWeightData P = mWeightData P0" "mIdxBits P = mIdxBits P0" "numItems \<le> mSparseSize P + mDenseSize P" "mSeed P = seed"
proof -
  let ?n = "mSparseSize p"
  have lt: "?n < 2 ^ mIdxBits P0 - 1"
    using assms(1) by (auto simp: Paxos_init_def maxIdx_def split: if_splits)
  then have small: "?n < 2 ^ mIdxBits P0" by simp
  moreover have "(2 :: nat) ^ mIdxBits P0 \<le> 2 ^ 64" using assms(4) by (intro power_increasing) auto
  ultimately have "?n < 2 ^ 64" by linarith
  from PaxosHash_init_ok [OF assms(2,3) small this] obtain h where h: "PaxosHash_init (mIdxBits P0) seed (mWeight p) ?n = Inr h"
    "hash_ok (mIdxBits P0) h" "phSparseSize h = ?n" "phWeight h = mWeight p" "phSeed h = seed" by blast
  have P: "P = P0\<lparr>mSparseSize := ?n, mDenseSize := mDenseSize p, mWeight := mWeight p,
      mG := mG p, mSsp := mSsp p, mDt := mDt p, mNumItems := numItems, mSeed := seed, mHasher := h\<rparr>"
    and le: "numItems \<le> ?n + mDenseSize p"
    using assms(1) h assms(5) by (auto simp: Paxos_init_def Let_def split: if_splits)
  show "hasher_ok P" "mNumItems P = numItems" "mWeightData P = mWeightData P0" "mIdxBits P = mIdxBits P0"
    "numItems \<le> mSparseSize P + mDenseSize P" "mSeed P = seed"
    using h le by (simp_all add: P hasher_ok_def)
  show "size_ok P" using lt assms(2,3) by (simp add: P size_ok_def NullNode_def)
  show "paxos_param.truncate P = p" by (simp add: P paxos_param.truncate_def)
qed

lemma size_ok_less: "size_ok P \<Longrightarrow> mSparseSize P < 2 ^ mIdxBits P"
proof -
  assume "size_ok P"
  then have "mSparseSize P \<le> 2 ^ mIdxBits P - 1" by (simp add: size_ok_def NullNode_def)
  also have "\<dots> < 2 ^ mIdxBits P" by simp
  finally show ?thesis .
qed

text \<open>The states \<open>encode\<close> starts from.\<close>

definition input_ok :: "'a paxos_scheme \<Rightarrow> bool" where
  "input_ok P \<longleftrightarrow> rows_ok P \<and> cols_ok P \<and> weights_ok P \<and> size_ok P"

lemma colRows_keys:
  "length (colRows (map (\<lambda>x. fst (keyRow aesHash P x)) inputs) c) = length (filter (\<lambda>x. c \<in> set (fst (keyRow aesHash P x))) inputs)"
proof -
  let ?rows = "map (\<lambda>x. fst (keyRow aesHash P x)) inputs"
  have "filter (\<lambda>i. c \<in> set (?rows ! i)) [0..<length inputs] = filter (\<lambda>i. c \<in> set (fst (keyRow aesHash P (inputs ! i)))) [0..<length inputs]"
    by (rule filter_cong) auto
  then show ?thesis
    using length_map [of "(!) inputs" "filter (\<lambda>i. c \<in> set (fst (keyRow aesHash P (inputs ! i)))) [0..<length inputs]"]
      filter_map [of "\<lambda>x. c \<in> set (fst (keyRow aesHash P x))" "(!) inputs" "[0..<length inputs]"]
    by (simp add: colRows_def map_nth comp_def)
qed

lemma setInput_ok:
  assumes "hasher_ok P" "size_ok P" "length inputs = mNumItems P" "distinct inputs"
    and "length (mNodes (mWeightData P)) \<le> mSparseSize P"
    and light: "\<forall>c<mSparseSize P. length (filter (\<lambda>x. c \<in> set (fst (keyRow aesHash P x))) inputs) < 200"
  shows "\<exists>P'. setInput aesHash inputs P = Inr P' \<and> input_ok P' \<and>
    mRows P' = map (\<lambda>x. fst (keyRow aesHash P x)) inputs \<and> mDense P' = map (\<lambda>x. snd (keyRow aesHash P x)) inputs \<and>
    paxos_param.truncate P' = paxos_param.truncate P \<and> mNumItems P' = mNumItems P \<and> mIdxBits P' = mIdxBits P \<and>
    mHasher P' = mHasher P \<and> mSeed P' = mSeed P \<and> mAddToDecode P' = mAddToDecode P"
proof -
  let ?rows = "map (\<lambda>x. fst (keyRow aesHash P x)) inputs"
  note col = colRows_keys [of aesHash P inputs]
  have "mSparseSize P < 2 ^ mIdxBits P" using assms(2) by (rule size_ok_less)
  with setInput_rows_ok [of ?rows P "map (\<lambda>x. snd (keyRow aesHash P x)) inputs"] assms keyRow_valid [OF assms(1)]
  obtain cols backing wd where P': "let P' = P\<lparr>mDense := map (\<lambda>x. snd (keyRow aesHash P x)) inputs, mRows := ?rows,
      mCols := cols, mColBacking := backing, mWeightData := wd\<rparr> in
    setInput_rows ?rows (map (\<lambda>x. snd (keyRow aesHash P x)) inputs) P = Inr P' \<and> rows_ok P' \<and> cols_ok P' \<and> weights_ok P' \<and> size_ok P'"
    by (auto simp: col size_ok_def)
  then show ?thesis
    unfolding setInput_eq [OF assms(1,3,4)] Let_def by (auto simp: input_ok_def paxos_param.truncate_def)
qed


text \<open>An object before \<open>init\<close>, for the examples.\<close>

definition freshPaxos :: "nat \<Rightarrow> paxos" where
  "freshPaxos ib = \<lparr>mSparseSize = 0, mDenseSize = 0, mWeight = 0, mG = 0, mSsp = 40, mDt = GF128,
     mIdxBits = ib, mNumItems = 0, mSeed = 0, mAddToDecode = False,
     mHasher = \<lparr>phWeight = 0, phSparseSize = 0, phIdxSize = 0, phSeed = 0, phMods = [], phModVals = []\<rparr>,
     mDense = [], mRows = [], mCols = [], mColBacking = [], mWeightData = \<lparr>mWeightSets = [], mNodes = []\<rparr>\<rparr>"


text \<open>C34: setInput on distinct keys, after init with a weight of at least two, succeeds when no
  column gets 200 or more rows, and stores for key x the row and the dense block that buildRow
  derives from the AES hash of x, although it builds them in vectorised groups of 32 with a
  remainder loop.\<close>

theorem setInput_correct:
  assumes "Paxos_init numItems p seed (freshPaxos ib) = Inr P" and "2 \<le> mWeight p" and "mWeight p \<le> mSparseSize p"
    and "ib \<le> 64" and "numItems < 2 ^ ib" and "length inputs = numItems" and "distinct inputs"
    and "\<forall>c<mSparseSize p. length (filter (\<lambda>x. c \<in> set (buildRow ib (mHasher P) (aesHash seed x))) inputs) < 200"
  shows "\<exists>P'. setInput aesHash inputs P = Inr P' \<and> input_ok P' \<and>
    mRows P' = map (\<lambda>x. buildRow ib (mHasher P) (aesHash seed x)) inputs \<and> mDense P' = map (aesHash seed) inputs"
proof -
  have ib: "mIdxBits (freshPaxos ib) = ib" and wd: "mNodes (mWeightData (freshPaxos ib)) = []" by (simp_all add: freshPaxos_def)
  note I = Paxos_init_ok [OF assms(1-3), unfolded ib, OF assms(4,5)]
  have key: "keyRow aesHash P x = (buildRow ib (mHasher P) (aesHash seed x), aesHash seed x)" for x
    using I(1,6,8) by (simp add: keyRow_def hashBuildRow1_def Let_def hasher_ok_def)
  have "mSparseSize P = mSparseSize p" using arg_cong [OF I(4), of mSparseSize] by (simp add: paxos_param.truncate_def)
  with setInput_ok [of P inputs aesHash] I assms(6-8) wd show ?thesis
    unfolding key fst_conv snd_conv by simp blast
qed

lemma Paxos_init_succeeds:
  assumes "2 \<le> mWeight p" "mWeight p \<le> mSparseSize p" "mIdxBits P0 \<le> 64"
    and "mSparseSize p < 2 ^ mIdxBits P0 - 1" "numItems \<le> mSparseSize p + mDenseSize p"
  shows "\<exists>P. Paxos_init numItems p seed P0 = Inr P"
proof -
  have small: "mSparseSize p < 2 ^ mIdxBits P0" using assms(4) by simp
  moreover have "(2 :: nat) ^ mIdxBits P0 \<le> 2 ^ 64" using assms(3) by (intro power_increasing) auto
  ultimately have "mSparseSize p < 2 ^ 64" by linarith
  then obtain h where "PaxosHash_init (mIdxBits P0) seed (mWeight p) (mSparseSize p) = Inr h"
    using PaxosHash_init_ok [OF assms(1,2) small] by blast
  with assms(4,5) show ?thesis by (auto simp: Paxos_init_def maxIdx_def Let_def not_le)
qed

definition sampleParam :: paxos_param where
  "sampleParam = \<lparr>mSparseSize = 6, mDenseSize = 2, mWeight = 3, mG = 2, mSsp = 40, mDt = GF128\<rparr>"

theorem setInput_correct_witness:
  "\<exists>P P'. Paxos_init 2 sampleParam 9 (freshPaxos 8) = Inr P \<and> setInput (\<lambda>k x. k XOR x) [1, 2] P = Inr P' \<and>
    mDense P' = [8, 11]"
proof -
  have "\<exists>P. Paxos_init 2 sampleParam 9 (freshPaxos 8) = Inr P"
    by (rule Paxos_init_succeeds) (simp_all add: sampleParam_def freshPaxos_def)
  then obtain P where P: "Paxos_init 2 sampleParam 9 (freshPaxos 8) = Inr P" ..
  have "length (filter Q [1 :: block, 2]) < 200" for Q
    using length_filter_le [of Q "[1, 2]"] by simp
  then have "\<exists>P'. setInput (\<lambda>k x. k XOR x) [1, 2] P = Inr P' \<and> input_ok P' \<and>
    mRows P' = map (\<lambda>x. buildRow 8 (mHasher P) (9 XOR x)) [1, 2] \<and> mDense P' = map ((XOR) 9) [1, 2]"
    by (intro setInput_correct [OF P]) (simp_all add: sampleParam_def)
  with P show ?thesis by auto
qed

text \<open>C35: init, for a weight between two and the sparse size and an index type of at most 64 bits,
  either throws or succeeds, and it succeeds only when the sparse size is below the largest index and
  the items fit in the structure; no other error and no undefined behaviour is possible.\<close>

theorem Paxos_init_total:
  assumes "2 \<le> mWeight p" and "mWeight p \<le> mSparseSize p" and "mIdxBits P0 \<le> 64"
  shows "Paxos_init numItems p seed P0 = Inl RTE_LOC \<or>
    (\<exists>P. Paxos_init numItems p seed P0 = Inr P) \<and> mSparseSize p < 2 ^ mIdxBits P0 - 1 \<and> numItems \<le> paxos_size p"
  using Paxos_init_succeeds [OF assms, of numItems seed] by (auto simp: Paxos_init_def maxIdx_def paxos_size_def not_le)

theorem Paxos_init_total_witness:
  "Paxos_init 9 sampleParam 0 (freshPaxos 8) = Inl RTE_LOC"
  using Paxos_init_total [of sampleParam "freshPaxos 8" 9 0]
  by (simp add: sampleParam_def freshPaxos_def paxos_size_def)

end
