(* ===== verification/Triangulate.thy ===== *)
theory Triangulate
  imports Paxos
begin

section \<open>Triangulation\<close>

text \<open>
  \<open>Paxos::triangulate\<close> of \<open>src/volePSI/PaxosImpl.h\<close>: columns are taken in order of weight;
  the first unset row of a column goes on the diagonal, its other unset rows go into the gap, and
  the weights of the columns of every row that is set are decremented.

  The state of the loop is the weight data, the rows already set, and the three results. The
  invariant says that the weight of a column is the number of its unset rows, that the set rows
  are the diagonal and the gap rows, and that the diagonal is triangular.
\<close>

record tri_state =
  tWD :: weight_data
  tRowSet :: "bool list"
  tMainRows :: "nat list"
  tMainCols :: "nat list"
  tGapRows :: "(nat \<times> nat) list"

definition readCol :: "'a paxos_scheme \<Rightarrow> nat \<Rightarrow> nat list res" where
  "readCol P c = rbind (at (mCols P) c) (\<lambda>(d, n).
     if d + n \<le> length (mColBacking P) then Inr (take n (drop d (mColBacking P))) else Inl UB)"

definition tri_dec :: "nat \<Rightarrow> nat \<Rightarrow> weight_data \<Rightarrow> weight_data res" where
  "tri_dec ib c d =
     rbind (at (mNodes d) c) (\<lambda>node.
     if nWeight node \<noteq> 0 then
       rbind (popNode ib c d) (\<lambda>d. pushNode ib c (modNode c (nWeight_update (\<lambda>w. w - 1)) d))
     else Inr d)"

definition tri_row :: "'a paxos_scheme \<Rightarrow> nat \<Rightarrow> nat \<Rightarrow> bool \<times> tri_state \<Rightarrow> (bool \<times> tri_state) res" where
  "tri_row P colIdx rowIdx fs =
     (let (first, s) = fs in
      rbind (at (tRowSet s) rowIdx) (\<lambda>isSet.
      if isSet then Inr (first, s)
      else
        let s = s\<lparr>tRowSet := (tRowSet s)[rowIdx := True]\<rparr> in
        rbind (at (mRows P) rowIdx) (\<lambda>row.
        rbind (foldr_res (tri_dec (mIdxBits P)) row (tWD s)) (\<lambda>wd.
        let s = s\<lparr>tWD := wd\<rparr> in
        if first then
          Inr (False, s\<lparr>tMainCols := tMainCols s @ [colIdx], tMainRows := tMainRows s @ [rowIdx]\<rparr>)
        else
          rbind (guardr (tMainRows s \<noteq> []) UB) (\<lambda>_.
          rbind (at (mDense P) (last (tMainRows s))) (\<lambda>a. rbind (at (mDense P) rowIdx) (\<lambda>b.
          if a = b then Inl RTE_LOC
          else Inr (first, s\<lparr>tGapRows := tGapRows s @ [(rowIdx, last (tMainRows s))]\<rparr>))))))))"

definition tri_step :: "'a paxos_scheme \<Rightarrow> tri_state \<Rightarrow> tri_state res" where
  "tri_step P s =
     rbind (getMinWeightNode (tWD s)) (\<lambda>colIdx.
     rbind (popNode (mIdxBits P) colIdx (tWD s)) (\<lambda>wd.
     let s = s\<lparr>tWD := modNode colIdx (nWeight_update (\<lambda>_. 0)) wd\<rparr> in
     rbind (readCol P colIdx) (\<lambda>col.
     rbind (foldr_res (tri_row P colIdx) col (True, s)) (\<lambda>(first, s).
     if first then Inl RTE_LOC else Inr s))))"

fun tri_loop :: "nat \<Rightarrow> 'a paxos_scheme \<Rightarrow> tri_state \<Rightarrow> tri_state res" where
  "tri_loop 0 P s = (if 1 < length (mWeightSets (tWD s)) then Inl Diverges else Inr s)"
| "tri_loop (Suc fuel) P s =
     (if 1 < length (mWeightSets (tWD s)) then rbind (tri_step P s) (tri_loop fuel P) else Inr s)"

text \<open>The weights recomputed from the columns when the buckets have been used up.\<close>

definition tri_reinit :: "'a paxos_scheme \<Rightarrow> weight_data res" where
  "tri_reinit P =
     (if length (mWeightSets (mWeightData P)) \<le> 1 then
        rbind (foldr_res (\<lambda>i ws. rbind (at ws i) (\<lambda>_. Inr (ws[i := snd (mCols P ! i) mod 2 ^ mIdxBits P])))
                 [0..<length (mCols P)] (replicate (mSparseSize P) 0)) (\<lambda>colWeights.
        weight_init (mIdxBits P) colWeights (mWeightData P))
      else Inr (mWeightData P))"

definition triangulate :: "'a paxos_scheme \<Rightarrow> tri_state res" where
  "triangulate P =
     rbind (tri_reinit P) (\<lambda>wd.
     tri_loop (Suc (mNumItems P)) P
       \<lparr>tWD = wd, tRowSet = replicate (mNumItems P) False, tMainRows = [], tMainCols = [], tGapRows = []\<rparr>)"

subsection \<open>The weights\<close>

text \<open>The buckets hold the columns outside \<open>pop\<close>, each under the weight \<open>W\<close> expects.\<close>

definition wts :: "nat \<Rightarrow> nat \<Rightarrow> (nat \<Rightarrow> nat list) \<Rightarrow> (nat \<Rightarrow> nat) \<Rightarrow> nat set \<Rightarrow> weight_data \<Rightarrow> bool" where
  "wts ib n L W pop d \<longleftrightarrow> wd_rel ib n L d \<and> length (nodeWeights d) = n \<and>
     (\<forall>c<n. if c \<in> pop then nodeWeights d ! c = 0 \<and> loose L c else nodeWeights d ! c = W c \<and> c \<in> set (L (W c)))"

lemma wts_len: "wts ib n L W pop d \<Longrightarrow> n \<le> length (nodeWeights d)"
  by (simp add: wts_def)

lemma wts_cong: "wts ib n L W pop d \<Longrightarrow> (\<And>c. c < n \<Longrightarrow> c \<notin> pop \<Longrightarrow> W c = W' c) \<Longrightarrow> wts ib n L W' pop d"
  by (auto simp: wts_def)

lemma wts_mem: "wts ib n L W pop d \<Longrightarrow> i \<in> set (L w) \<Longrightarrow> i < n \<and> i \<notin> pop \<and> w = W i"
  using wd.mem [of ib n L d i w] by (auto simp: wts_def loose_def split: if_splits)

lemma wts_pop:
  assumes wts: "wts ib n L W pop d" and c: "c < n" "c \<notin> pop" and j: "j < n" "j \<notin> pop" "j \<noteq> c"
  shows "\<exists>d'. popNode ib c d = Inr d' \<and>
    wts ib n (L(W c := remove1 c (L (W c)))) W (insert c pop) (modNode c (nWeight_update (\<lambda>_. 0)) d')"
proof -
  have r: "wd_rel ib n L d" and cm: "c \<in> set (L (W c))" and jm: "j \<in> set (L (W j))"
    using wts c j by (auto simp: wts_def)
  let ?L = "L(W c := remove1 c (L (W c)))"
  from wd.take_out [OF r cm jm j(3)] obtain d' where d': "popNode ib c d = Inr d'"
    "wd_rel ib n ?L (setNodeWeight c 0 d')" "nodeWeights (setNodeWeight c 0 d') = (nodeWeights d)[c := 0]" by blast
  have "wts ib n ?L W (insert c pop) (setNodeWeight c 0 d')"
    unfolding wts_def
  proof (intro conjI allI impI)
    fix e assume e: "e < n"
    show "if e \<in> insert c pop then nodeWeights (setNodeWeight c 0 d') ! e = 0 \<and> loose ?L e
      else nodeWeights (setNodeWeight c 0 d') ! e = W e \<and> e \<in> set (?L (W e))"
    proof (cases "e = c")
      case True
      then show ?thesis using c wts_len [OF wts] wd.loose_pop [OF r cm, of c] d'(3) by simp
    next
      case False
      with e wts have "if e \<in> pop then nodeWeights d ! e = 0 \<and> loose L e else nodeWeights d ! e = W e \<and> e \<in> set (L (W e))"
        by (simp add: wts_def)
      then show ?thesis using False d'(3) wd.loose_pop [OF r cm, of e] wd.dist [OF r] by (auto simp: loose_def)
    qed
  qed (use d' wts in \<open>simp_all add: wts_def\<close>)
  with d'(1) show ?thesis by (auto simp: setNodeWeight_def)
qed

lemma tri_dec_ok:
  assumes wts: "wts ib n L W pop d" and c: "c < n" "c \<notin> pop \<Longrightarrow> 0 < W c" and j: "j < n" "j \<notin> pop" "j \<noteq> c"
  shows "\<exists>L' d'. tri_dec ib c d = Inr d' \<and> wts ib n L' (W(c := W c - 1)) pop d'"
proof (cases "c \<in> pop")
  case True
  then have "nWeight (mNodes d ! c) = 0" using wts c(1) wts_len [OF wts] by (auto simp: wts_def nodeWeights_def)
  moreover have "wts ib n L (W(c := W c - 1)) pop d" using wts by (rule wts_cong) (use True in auto)
  ultimately show ?thesis using c(1) wts_len [OF wts] by (auto simp: tri_dec_def nodeWeights_def)
next
  case False
  then obtain w where w: "W c = Suc w" using c(2) by (cases "W c") auto
  have r: "wd_rel ib n L d" and cm: "c \<in> set (L (Suc w))" and jm: "j \<in> set (L (W j))"
    using wts c(1) j False w by (auto simp: wts_def)
  let ?L = "L(Suc w := remove1 c (L (Suc w)), w := c # L w)"
  from wd.decrement [OF r cm jm j(3)] obtain d' d'' where d: "popNode ib c d = Inr d'"
    "pushNode ib c (setNodeWeight c w d') = Inr d''" "wd_rel ib n ?L d''" "nodeWeights d' = nodeWeights d"
    "nodeWeights d'' = (nodeWeights d)[c := w]" by blast
  have l: "c < length (mNodes d)" "nWeight (mNodes d ! c) = Suc w"
    using wts_len [OF wts] c(1) wts False w by (auto simp: wts_def nodeWeights_def)
  have l': "c < length (mNodes d')" "nWeight (mNodes d' ! c) = Suc w"
  proof -
    have "length (mNodes d') = length (mNodes d)" using arg_cong [OF d(4), of length] by (simp add: nodeWeights_def)
    then show lt: "c < length (mNodes d')" using l(1) by simp
    have "nodeWeights d' ! c = Suc w" using d(4) l by (simp add: nodeWeights_def)
    with lt show "nWeight (mNodes d' ! c) = Suc w" by (simp add: nodeWeights_def)
  qed
  have "tri_dec ib c d = Inr d''"
    using d l setNodeWeight_pred [OF l'(2,1)] by (simp add: tri_dec_def)
  moreover have "wts ib n ?L (W(c := W c - 1)) pop d''"
    unfolding wts_def
  proof (intro conjI allI impI)
    fix e assume e: "e < n"
    with wts have old: "if e \<in> pop then nodeWeights d ! e = 0 \<and> loose L e else nodeWeights d ! e = W e \<and> e \<in> set (L (W e))"
      by (simp add: wts_def)
    show "if e \<in> pop then nodeWeights d'' ! e = 0 \<and> loose ?L e
      else nodeWeights d'' ! e = (W(c := W c - 1)) e \<and> e \<in> set (?L ((W(c := W c - 1)) e))"
    proof (cases "e = c")
      case True
      then show ?thesis using False w d(5) c(1) wts_len [OF wts] by simp
    next
      case ne: False
      have "loose L e \<Longrightarrow> loose ?L e"
        using ne by (auto simp: loose_def dest: in_set_remove1 notin_set_remove1)
      then show ?thesis using ne old d(5) wd.dist [OF r] by auto
    qed
  qed (use d wts in \<open>simp_all add: wts_def\<close>)
  ultimately show ?thesis by blast
qed

lemma tri_decs_ok:
  assumes "wts ib n L W pop d" "distinct row" "\<forall>c\<in>set row. c < n \<and> (c \<notin> pop \<longrightarrow> 0 < W c)"
    and j: "j < n" "j \<notin> pop" "k < n" "k \<notin> pop" "j \<noteq> k"
  shows "\<exists>L' d'. foldr_res (tri_dec ib) row d = Inr d' \<and>
    wts ib n L' (\<lambda>c. if c \<in> set row then W c - 1 else W c) pop d'"
  using assms(1-3)
proof (induction row arbitrary: L W d)
  case (Cons c row)
  have "\<exists>i. i < n \<and> i \<notin> pop \<and> i \<noteq> c" using j by metis
  then obtain i where i: "i < n" "i \<notin> pop" "i \<noteq> c" by blast
  from tri_dec_ok [OF Cons.prems(1) _ _ i] Cons.prems(3) obtain L1 d1 where
    1: "tri_dec ib c d = Inr d1" "wts ib n L1 (W(c := W c - 1)) pop d1" by auto
  have "\<forall>e\<in>set row. e < n \<and> (e \<notin> pop \<longrightarrow> 0 < (W(c := W c - 1)) e)" using Cons.prems(2,3) by auto
  from Cons.IH [OF 1(2) _ this] Cons.prems(2) obtain L2 d2 where
    2: "foldr_res (tri_dec ib) row d1 = Inr d2"
    "wts ib n L2 (\<lambda>e. if e \<in> set row then (W(c := W c - 1)) e - 1 else (W(c := W c - 1)) e) pop d2" by auto
  have "wts ib n L2 (\<lambda>e. if e \<in> set (c # row) then W e - 1 else W e) pop d2"
    using Cons.prems(2) by (intro wts_cong [OF 2(2)]) auto
  with 1 2 show ?case by auto
qed auto

lemma wts_min:
  assumes wts: "wts ib n L W pop d" and c: "c < n" "c \<notin> pop" "0 < W c"
  shows "\<exists>e. getMinWeightNode d = Inr e \<and> e < n \<and> e \<notin> pop \<and> 0 < W e"
proof -
  have "wd_rel ib n L d" "L (W c) \<noteq> []" using wts c by (force simp: wts_def)+
  from wd.getMin [OF this c(3)] obtain m e where "getMinWeightNode d = Inr e" "0 < m" "e \<in> set (L m)" by blast
  with wts_mem [OF wts] show ?thesis by blast
qed

lemma wts_size:
  assumes "wts ib n L W pop d"
  shows "1 < length (mWeightSets d) \<longleftrightarrow> (\<exists>c<n. c \<notin> pop \<and> 0 < W c)"
proof -
  have "wd_inv ib n L d" "trimmed d" using assms by (auto simp: wts_def wd_rel_def)
  then have "1 < length (mWeightSets d) \<longleftrightarrow> (\<exists>w. 0 < w \<and> L w \<noteq> [])" by (rule trimmed_size)
  also have "\<dots> \<longleftrightarrow> (\<exists>c<n. c \<notin> pop \<and> 0 < W c)"
  proof
    assume "\<exists>w. 0 < w \<and> L w \<noteq> []"
    then obtain w i where "0 < w" "i \<in> set (L w)" by (meson list.set_sel(1))
    with wts_mem [OF assms] show "\<exists>c<n. c \<notin> pop \<and> 0 < W c" by blast
  next
    assume "\<exists>c<n. c \<notin> pop \<and> 0 < W c"
    with assms show "\<exists>w. 0 < w \<and> L w \<noteq> []" by (force simp: wts_def)
  qed
  finally show ?thesis .
qed

subsection \<open>The shape of the result\<close>

text \<open>How many unset rows a column has.\<close>

definition openCount :: "'a paxos_scheme \<Rightarrow> bool list \<Rightarrow> nat \<Rightarrow> nat" where
  "openCount P rs c = length (filter (\<lambda>i. \<not> rs ! i \<and> c \<in> set (mRows P ! i)) [0..<mNumItems P])"

text \<open>Every row that contains a column of \<open>C\<close> is set.\<close>

definition closedCols :: "'a paxos_scheme \<Rightarrow> nat set \<Rightarrow> bool list \<Rightarrow> bool" where
  "closedCols P C rs \<longleftrightarrow> (\<forall>c\<in>C. \<forall>i<mNumItems P. c \<in> set (mRows P ! i) \<longrightarrow> rs ! i)"

definition triangular :: "nat list list \<Rightarrow> nat list \<Rightarrow> nat list \<Rightarrow> bool" where
  "triangular rows mainRows mainCols \<longleftrightarrow> length mainRows = length mainCols \<and>
     (\<forall>k<length mainCols. mainCols ! k \<in> set (rows ! (mainRows ! k)) \<and>
        (\<forall>j<k. mainCols ! j \<notin> set (rows ! (mainRows ! k))))"

definition tri_shape :: "'a paxos_scheme \<Rightarrow> tri_state \<Rightarrow> bool" where
  "tri_shape P s \<longleftrightarrow> length (tRowSet s) = mNumItems P \<and>
     triangular (mRows P) (tMainRows s) (tMainCols s) \<and>
     distinct (tMainCols s) \<and> set (tMainCols s) \<subseteq> {..<mSparseSize P} \<and>
     distinct (tMainRows s @ map fst (tGapRows s)) \<and>
     set (tMainRows s @ map fst (tGapRows s)) = {i. i < mNumItems P \<and> tRowSet s ! i} \<and>
     (\<forall>(r, q)\<in>set (tGapRows s). q \<in> set (tMainRows s) \<and> mDense P ! r \<noteq> mDense P ! q)"

definition tri_inv :: "'a paxos_scheme \<Rightarrow> tri_state \<Rightarrow> bool" where
  "tri_inv P s \<longleftrightarrow> tri_shape P s \<and> closedCols P (set (tMainCols s)) (tRowSet s) \<and>
     (\<exists>L. wts (mIdxBits P) (mSparseSize P) L (openCount P (tRowSet s)) (set (tMainCols s)) (tWD s))"

text \<open>Inside a step, for the column \<open>c\<close>.\<close>

definition tri_mid :: "'a paxos_scheme \<Rightarrow> nat \<Rightarrow> bool \<times> tri_state \<Rightarrow> bool" where
  "tri_mid P c fs \<longleftrightarrow> (case fs of (first, s) \<Rightarrow>
     tri_shape P s \<and>
     (if first then c \<notin> set (tMainCols s) \<and> closedCols P (set (tMainCols s)) (tRowSet s)
      else tMainCols s \<noteq> [] \<and> last (tMainCols s) = c \<and> closedCols P (set (butlast (tMainCols s))) (tRowSet s)) \<and>
     (\<exists>L. wts (mIdxBits P) (mSparseSize P) L (openCount P (tRowSet s)) (insert c (set (tMainCols s))) (tWD s)))"

lemma openCount_set:
  assumes "i < mNumItems P" "length rs = mNumItems P" "\<not> rs ! i"
  shows "openCount P (rs[i := True]) c = (if c \<in> set (mRows P ! i) then openCount P rs c - 1 else openCount P rs c)"
    and "c \<in> set (mRows P ! i) \<Longrightarrow> 0 < openCount P rs c"
proof -
  let ?n = "mNumItems P" and ?Q = "\<lambda>rs k. \<not> rs ! k \<and> c \<in> set (mRows P ! k)"
  have card: "openCount P rs c = card {k. k < ?n \<and> ?Q rs k}" for rs
  proof -
    have "set (filter (?Q rs) [0..<?n]) = {k. k < ?n \<and> ?Q rs k}" by auto
    then show ?thesis using distinct_card [of "filter (?Q rs) [0..<?n]"] by (simp add: openCount_def)
  qed
  have eq: "{k. k < ?n \<and> ?Q (rs[i := True]) k} = {k. k < ?n \<and> ?Q rs k} - {i}"
    using assms by (auto simp: nth_list_update)
  show "openCount P (rs[i := True]) c = (if c \<in> set (mRows P ! i) then openCount P rs c - 1 else openCount P rs c)"
    unfolding card eq using assms by (auto simp: card_Diff_singleton_if)
  assume c: "c \<in> set (mRows P ! i)"
  have "finite {k. k < ?n \<and> ?Q rs k}" by simp
  moreover have "i \<in> {k. k < ?n \<and> ?Q rs k}" using assms c by auto
  ultimately show "0 < openCount P rs c" unfolding card by (auto simp: card_gt_0_iff)
qed

lemma triangular_snoc:
  assumes "triangular rows mr mc" "c \<in> set (rows ! r)" "\<forall>e\<in>set mc. e \<notin> set (rows ! r)"
  shows "triangular rows (mr @ [r]) (mc @ [c])"
  using assms by (auto simp: triangular_def nth_append less_Suc_eq)

text \<open>Enough columns are left at every moment.\<close>

lemma spare_columns:
  assumes "finite X" "card X + 2 \<le> n"
  obtains j k where "j < n" "j \<notin> X" "k < n" "k \<notin> X" "j \<noteq> (k :: nat)"
proof -
  have "card ({..<n} - X) \<ge> n - card X" using assms(1) diff_card_le_card_Diff [of X "{..<n}"] by simp
  then have "2 \<le> card ({..<n} - X)" using assms(2) by simp
  then obtain Y where "Y \<subseteq> {..<n} - X" "card Y = 2" by (meson obtain_subset_with_card_n)
  then show thesis using that by (auto simp: card_2_iff)
qed

lemma shape_bound: "tri_shape P s \<Longrightarrow> length (tMainCols s) + length (tGapRows s) \<le> mNumItems P"
proof -
  assume s: "tri_shape P s"
  have "card (set (tMainRows s @ map fst (tGapRows s))) \<le> card {..<mNumItems P}"
    using s by (intro card_mono) (auto simp: tri_shape_def)
  moreover have "distinct (tMainRows s @ map fst (tGapRows s))" using s unfolding tri_shape_def by blast
  ultimately have "length (tMainRows s @ map fst (tGapRows s)) \<le> mNumItems P"
    using distinct_card by fastforce
  then show ?thesis using s by (simp add: tri_shape_def triangular_def)
qed

text \<open>While a row is unset there is room for one more diagonal entry.\<close>

lemma shape_room:
  assumes "tri_shape P s" "i < mNumItems P" "\<not> tRowSet s ! i"
  shows "length (tMainCols s) < mNumItems P"
proof -
  have "set (tMainRows s) \<subseteq> {..<mNumItems P} - {i}" using assms by (auto simp: tri_shape_def)
  then have "card (set (tMainRows s)) \<le> card ({..<mNumItems P} - {i})" by (intro card_mono) auto
  moreover have "distinct (tMainRows s)" using assms(1) by (simp add: tri_shape_def)
  ultimately show ?thesis using assms by (simp add: distinct_card tri_shape_def triangular_def)
qed

text \<open>What handling the rows \<open>js\<close> of column \<open>c\<close> does.\<close>

definition row_post :: "'a paxos_scheme \<Rightarrow> nat \<Rightarrow> nat list \<Rightarrow> bool \<Rightarrow> tri_state \<Rightarrow> bool \<Rightarrow> tri_state \<Rightarrow> bool" where
  "row_post P c js first s first' s' \<longleftrightarrow> tri_mid P c (first', s') \<and> (\<forall>i\<in>set js. tRowSet s' ! i) \<and>
     (\<forall>k<mNumItems P. tRowSet s ! k \<longrightarrow> tRowSet s' ! k) \<and> (first' \<longrightarrow> first \<and> s' = s) \<and>
     tMainCols s' = (if first \<and> \<not> first' then tMainCols s @ [c] else tMainCols s)"

lemma row_post_Cons:
  assumes "row_post P c [i] f s f1 s1" "row_post P c js f1 s1 f2 s2" "i < mNumItems P"
  shows "row_post P c (i # js) f s f2 s2"
proof -
  have "\<forall>k\<in>set (i # js). tRowSet s2 ! k" "\<forall>k<mNumItems P. tRowSet s ! k \<longrightarrow> tRowSet s2 ! k"
    "f2 \<longrightarrow> f \<and> s2 = s" "tri_mid P c (f2, s2)"
    using assms unfolding row_post_def by simp_all
  moreover have "tMainCols s2 = (if f \<and> \<not> f2 then tMainCols s @ [c] else tMainCols s)"
    using assms(1,2) unfolding row_post_def by (cases f; cases f1; cases f2) simp_all
  ultimately show ?thesis by (simp add: row_post_def)
qed

lemma tri_row_ok:
  assumes rows: "rows_ok P" and room: "mNumItems P + 2 \<le> mSparseSize P" and mid: "tri_mid P c (first, s)"
    and i: "i < mNumItems P" "c \<in> set (mRows P ! i)"
  shows "(\<exists>first' s'. tri_row P c i (first, s) = Inr (first', s') \<and> row_post P c [i] first s first' s') \<or>
    tri_row P c i (first, s) = Inl RTE_LOC \<and> \<not> distinct (mDense P)"
proof -
  note R = rows_okD [OF rows]
  have sh: "tri_shape P s" using mid by (simp add: tri_mid_def)
  have ls: "length (tRowSet s) = mNumItems P" using sh by (simp add: tri_shape_def)
  show ?thesis
  proof (cases "tRowSet s ! i")
    case True
    then show ?thesis using mid i ls by (simp add: tri_row_def row_post_def)
  next
    case False
    let ?row = "mRows P ! i" and ?pop = "insert c (set (tMainCols s))"
    let ?rs = "(tRowSet s)[i := True]"
    obtain L where w: "wts (mIdxBits P) (mSparseSize P) L (openCount P (tRowSet s)) ?pop (tWD s)"
      using mid by (auto simp: tri_mid_def)
    have "card ?pop \<le> length (tMainCols s) + 1"
      using card_insert_le_m1 card_length [of "tMainCols s"] by (simp add: card_insert_if)
    then have "card ?pop + 2 \<le> mSparseSize P \<or> \<not> first"
      using shape_room [OF sh i(1) False] room by linarith
    moreover have "card ?pop + 2 \<le> mSparseSize P" if "\<not> first"
    proof -
      have "c \<in> set (tMainCols s)" using that mid last_in_set by (auto simp: tri_mid_def)
      then have "card ?pop \<le> length (tMainCols s)" using card_length [of "tMainCols s"] by (simp add: insert_absorb)
      then show ?thesis using shape_bound [OF sh] room by linarith
    qed
    ultimately have "card ?pop + 2 \<le> mSparseSize P" by blast
    then obtain j k where jk: "j < mSparseSize P" "j \<notin> ?pop" "k < mSparseSize P" "k \<notin> ?pop" "j \<noteq> k"
      using spare_columns [of ?pop "mSparseSize P"] by auto
    have "\<forall>e\<in>set ?row. e < mSparseSize P \<and> (e \<notin> ?pop \<longrightarrow> 0 < openCount P (tRowSet s) e)"
      using R(6) [OF i(1)] openCount_set(2) [OF i(1) ls False] by blast
    from tri_decs_ok [OF w R(5) [OF i(1)] this jk] obtain L' wd where
      dec: "foldr_res (tri_dec (mIdxBits P)) ?row (tWD s) = Inr wd"
      and w2: "wts (mIdxBits P) (mSparseSize P) L' (\<lambda>e. if e \<in> set ?row then openCount P (tRowSet s) e - 1 else openCount P (tRowSet s) e) ?pop wd"
      by blast
    have "(\<lambda>e. if e \<in> set ?row then openCount P (tRowSet s) e - 1 else openCount P (tRowSet s) e) = openCount P ?rs"
      using openCount_set(1) [OF i(1) ls False] by auto
    with w2 have w3: "wts (mIdxBits P) (mSparseSize P) L' (openCount P ?rs) ?pop wd" by simp
    have fresh: "i \<notin> set (tMainRows s @ map fst (tGapRows s))" using sh False by (auto simp: tri_shape_def)
    have mono: "\<forall>k<mNumItems P. tRowSet s ! k \<longrightarrow> ?rs ! k" using ls i(1) by (auto simp: nth_list_update)
    have cl: "closedCols P C (tRowSet s) \<Longrightarrow> closedCols P C ?rs" for C using mono by (auto simp: closedCols_def)
    have set_rs: "{k. k < mNumItems P \<and> ?rs ! k} = insert i {k. k < mNumItems P \<and> tRowSet s ! k}"
      using i(1) ls by (auto simp: nth_list_update)
    show ?thesis
    proof (cases first)
      case True
      let ?s = "s\<lparr>tRowSet := ?rs, tWD := wd, tMainCols := tMainCols s @ [c], tMainRows := tMainRows s @ [i]\<rparr>"
      have cc: "c \<notin> set (tMainCols s)" "closedCols P (set (tMainCols s)) (tRowSet s)" using mid True by (auto simp: tri_mid_def)
      have "\<forall>e\<in>set (tMainCols s). e \<notin> set ?row" using cc(2) i(1) False by (auto simp: closedCols_def)
      then have "triangular (mRows P) (tMainRows s @ [i]) (tMainCols s @ [c])"
        using sh i(2) by (intro triangular_snoc) (auto simp: tri_shape_def)
      then have "tri_shape P ?s"
        using sh fresh cc(1) R(6) [OF i] set_rs ls by (auto simp: tri_shape_def)
      then have "tri_mid P c (False, ?s)" using cl [OF cc(2)] w3 by (auto simp: tri_mid_def)
      moreover have "tri_row P c i (first, s) = Inr (False, ?s)"
        using i(1) ls False dec True R(1) by (simp add: tri_row_def)
      moreover have "row_post P c [i] first s False ?s"
        using True mono i(1) ls \<open>tri_mid P c (False, ?s)\<close> by (simp add: row_post_def)
      ultimately show ?thesis by blast
    next
      case False2: False
      let ?q = "last (tMainRows s)"
      have ne: "tMainCols s \<noteq> []" "closedCols P (set (butlast (tMainCols s))) (tRowSet s)" "last (tMainCols s) = c"
        using mid False2 by (auto simp: tri_mid_def)
      then have mr: "tMainRows s \<noteq> []" using sh by (auto simp: tri_shape_def triangular_def)
      then have q: "?q \<in> set (tMainRows s)" "?q < mNumItems P" using sh by (auto simp: tri_shape_def)
      have cin: "c \<in> set (tMainCols s)" using ne last_in_set by metis
      show ?thesis
      proof (cases "mDense P ! ?q = mDense P ! i")
        case True
        have "?q \<noteq> i" using q fresh by auto
        with True q(2) i(1) R(2) have "\<not> distinct (mDense P)" by (auto simp: distinct_conv_nth)
        moreover have "tri_row P c i (first, s) = Inl RTE_LOC"
          using i(1) ls False dec False2 R(1,2) mr q(2) True by (simp add: tri_row_def)
        ultimately show ?thesis by blast
      next
        case ndup: False
        let ?s = "s\<lparr>tRowSet := ?rs, tWD := wd, tGapRows := tGapRows s @ [(i, ?q)]\<rparr>"
        have "tri_shape P ?s"
          using sh fresh set_rs ls q(1) ndup by (auto simp: tri_shape_def)
        then have "tri_mid P c (False, ?s)" using cl [OF ne(2)] w3 ne by (auto simp: tri_mid_def)
        moreover have "tri_row P c i (first, s) = Inr (False, ?s)"
          using i(1) ls False dec False2 R(1,2) mr q(2) ndup by (simp add: tri_row_def)
        moreover have "row_post P c [i] first s False ?s"
          using False2 mono i(1) ls \<open>tri_mid P c (False, ?s)\<close> by (simp add: row_post_def)
        ultimately show ?thesis by blast
      qed
    qed
  qed
qed

lemma readCol_ok:
  assumes "cols_ok P" "c < mSparseSize P"
  shows "readCol P c = Inr (colRows (mRows P) c)"
  using assms by (auto simp: readCol_def cols_ok_def colSpan_def case_prod_beta)

lemma tri_rows_ok:
  assumes rows: "rows_ok P" and room: "mNumItems P + 2 \<le> mSparseSize P" and mid: "tri_mid P c (first, s)"
    and js: "\<forall>i\<in>set js. i < mNumItems P \<and> c \<in> set (mRows P ! i)"
  shows "(\<exists>first' s'. foldr_res (tri_row P c) js (first, s) = Inr (first', s') \<and> row_post P c js first s first' s') \<or>
    foldr_res (tri_row P c) js (first, s) = Inl RTE_LOC \<and> \<not> distinct (mDense P)"
  using mid js
proof (induction js arbitrary: first s)
  case Nil
  then show ?case by (simp add: row_post_def)
next
  case (Cons i js)
  then have i: "i < mNumItems P" "c \<in> set (mRows P ! i)" and js: "\<forall>i\<in>set js. i < mNumItems P \<and> c \<in> set (mRows P ! i)"
    by auto
  from tri_row_ok [OF rows room Cons.prems(1) i] show ?case
  proof (elim disjE exE conjE)
    fix f1 s1 assume 1: "tri_row P c i (first, s) = Inr (f1, s1)" "row_post P c [i] first s f1 s1"
    then have "tri_mid P c (f1, s1)" by (simp add: row_post_def)
    from Cons.IH [OF this js] show ?thesis
    proof (elim disjE exE conjE)
      fix f2 s2 assume "foldr_res (tri_row P c) js (f1, s1) = Inr (f2, s2)" "row_post P c js f1 s1 f2 s2"
      with row_post_Cons [OF 1(2) _ i(1)] 1(1) show ?thesis by simp
    qed (use 1(1) in simp)
  qed simp
qed

lemma openCount_pos: "0 < openCount P rs c \<Longrightarrow> \<exists>i<mNumItems P. \<not> rs ! i \<and> c \<in> set (mRows P ! i)"
  by (auto simp: openCount_def filter_empty_conv)

lemma tri_step_ok:
  assumes rows: "rows_ok P" and cols: "cols_ok P" and room: "mNumItems P + 2 \<le> mSparseSize P"
    and inv: "tri_inv P s" and big: "1 < length (mWeightSets (tWD s))"
  shows "(\<exists>s'. tri_step P s = Inr s' \<and> tri_inv P s' \<and> length (tMainCols s) < length (tMainCols s')) \<or>
    tri_step P s = Inl RTE_LOC \<and> \<not> distinct (mDense P)"
proof -
  let ?W = "openCount P (tRowSet s)"
  have sh: "tri_shape P s" and cl: "closedCols P (set (tMainCols s)) (tRowSet s)" using inv by (auto simp: tri_inv_def)
  obtain L where w: "wts (mIdxBits P) (mSparseSize P) L ?W (set (tMainCols s)) (tWD s)"
    using inv by (auto simp: tri_inv_def)
  obtain e where "e < mSparseSize P" "e \<notin> set (tMainCols s)" "0 < ?W e" using wts_size [OF w] big by blast
  from wts_min [OF w this] obtain c where c: "getMinWeightNode (tWD s) = Inr c" "c < mSparseSize P" "c \<notin> set (tMainCols s)" "0 < ?W c"
    by blast
  obtain i where i: "i < mNumItems P" "\<not> tRowSet s ! i" "c \<in> set (mRows P ! i)" using openCount_pos [OF c(4)] by blast
  have "card (set (tMainCols s)) + 2 \<le> mSparseSize P"
    using shape_room [OF sh i(1,2)] card_length [of "tMainCols s"] room by linarith
  then obtain j k where "j < mSparseSize P" "j \<notin> set (tMainCols s)" "k < mSparseSize P" "k \<notin> set (tMainCols s)" "j \<noteq> k"
    using spare_columns [of "set (tMainCols s)" "mSparseSize P"] by auto
  then obtain j where j: "j < mSparseSize P" "j \<notin> set (tMainCols s)" "j \<noteq> c" by metis
  from wts_pop [OF w c(2,3) j] obtain wd where p: "popNode (mIdxBits P) c (tWD s) = Inr wd"
    "\<exists>L. wts (mIdxBits P) (mSparseSize P) L ?W (insert c (set (tMainCols s))) (modNode c (nWeight_update (\<lambda>_. 0)) wd)" by blast
  let ?s = "s\<lparr>tWD := modNode c (nWeight_update (\<lambda>_. 0)) wd\<rparr>"
  have mid: "tri_mid P c (True, ?s)" using sh cl c(3) p(2) by (simp add: tri_mid_def tri_shape_def)
  have col: "readCol P c = Inr (colRows (mRows P) c)"
    using cols c(2) by (rule readCol_ok)
  have len: "length (mRows P) = mNumItems P" using rows by (simp add: rows_ok_def)
  have js: "\<forall>i\<in>set (colRows (mRows P) c). i < mNumItems P \<and> c \<in> set (mRows P ! i)" by (auto simp: colRows_def len)
  have ic: "i \<in> set (colRows (mRows P) c)" using i by (simp add: colRows_def len)
  have step: "tri_step P s = rbind (foldr_res (tri_row P c) (colRows (mRows P) c) (True, ?s)) (\<lambda>(first, s). if first then Inl RTE_LOC else Inr s)"
    using c(1) p(1) col by (simp add: tri_step_def Let_def)
  from tri_rows_ok [OF rows room mid js] show ?thesis
  proof
    assume "\<exists>first' s'. foldr_res (tri_row P c) (colRows (mRows P) c) (True, ?s) = Inr (first', s') \<and>
      row_post P c (colRows (mRows P) c) True ?s first' s'"
    then obtain f s' where f1: "foldr_res (tri_row P c) (colRows (mRows P) c) (True, ?s) = Inr (f, s')"
      and post: "row_post P c (colRows (mRows P) c) True ?s f s'" by blast
    then have f: "tri_mid P c (f, s')" "\<forall>i\<in>set (colRows (mRows P) c). tRowSet s' ! i" "f \<longrightarrow> s' = ?s"
      "tMainCols s' = (if \<not> f then tMainCols s @ [c] else tMainCols s)"
      by (simp_all add: row_post_def)
    have nf: "\<not> f" using f(2,3) ic i(2) by auto
    have m: "tMainCols s' \<noteq> []" "last (tMainCols s') = c" "closedCols P (set (butlast (tMainCols s'))) (tRowSet s')" "tri_shape P s'"
      using f(1) nf by (auto simp: tri_mid_def)
    have cs: "set (tMainCols s') = insert c (set (butlast (tMainCols s')))"
    proof -
      have "tMainCols s' = butlast (tMainCols s') @ [c]" using m(1,2) append_butlast_last_id [of "tMainCols s'"] by simp
      from arg_cong [OF this, of set] show ?thesis by simp
    qed
    have "closedCols P (set (tMainCols s')) (tRowSet s')"
      using m(3) f(2) unfolding cs by (auto simp: closedCols_def colRows_def len)
    moreover have "insert c (set (tMainCols s')) = set (tMainCols s')" using cs by auto
    ultimately have inv': "tri_inv P s'" using f(1) m(4) by (simp add: tri_inv_def tri_mid_def)
    have "length (tMainCols s) < length (tMainCols s')" using f(4) nf by simp
    with inv' f1 nf step show ?thesis by simp
  qed (use step in simp)
qed

lemma tri_loop_ok:
  assumes rows: "rows_ok P" and cols: "cols_ok P" and room: "mNumItems P + 2 \<le> mSparseSize P"
    and "tri_inv P s" "mNumItems P \<le> length (tMainCols s) + fuel"
  shows "(\<exists>s'. tri_loop fuel P s = Inr s' \<and> tri_inv P s' \<and> \<not> 1 < length (mWeightSets (tWD s'))) \<or>
    tri_loop fuel P s = Inl RTE_LOC \<and> \<not> distinct (mDense P)"
  using assms(4,5)
proof (induction fuel arbitrary: s)
  case 0
  have "\<not> 1 < length (mWeightSets (tWD s))"
  proof
    assume "1 < length (mWeightSets (tWD s))"
    moreover obtain L where "wts (mIdxBits P) (mSparseSize P) L (openCount P (tRowSet s)) (set (tMainCols s)) (tWD s)"
      and sh: "tri_shape P s" using 0 by (auto simp: tri_inv_def)
    ultimately obtain c where "0 < openCount P (tRowSet s) c" using wts_size by blast
    with openCount_pos obtain i where "i < mNumItems P" "\<not> tRowSet s ! i" by blast
    from shape_room [OF sh this] 0(2) show False by simp
  qed
  with 0 show ?case by simp
next
  case (Suc fuel)
  show ?case
  proof (cases "1 < length (mWeightSets (tWD s))")
    case True
    from tri_step_ok [OF rows cols room Suc.prems(1) True] show ?thesis
    proof (elim disjE exE conjE)
      fix s1 assume s1: "tri_step P s = Inr s1" "tri_inv P s1" "length (tMainCols s) < length (tMainCols s1)"
      then have "mNumItems P \<le> length (tMainCols s1) + fuel" using Suc.prems(2) by simp
      from Suc.IH [OF s1(2) this] s1(1) True show ?thesis by simp
    qed (use True in simp)
  qed (use Suc.prems in simp)
qed

text \<open>What a finished triangulation is.\<close>

definition tri_final :: "'a paxos_scheme \<Rightarrow> tri_state \<Rightarrow> bool" where
  "tri_final P s \<longleftrightarrow> tri_shape P s \<and> set (tMainRows s @ map fst (tGapRows s)) = {..<mNumItems P} \<and>
     length (mWeightSets (tWD s)) \<le> 1 \<and> length (mNodes (tWD s)) = mSparseSize P \<and>
     (\<exists>L. wd_rel (mIdxBits P) (mSparseSize P) L (tWD s) \<and> set (L 0) = {..<mSparseSize P} - set (tMainCols s) \<and>
        (\<forall>w. w \<noteq> 0 \<longrightarrow> L w = []))"

lemma tri_inv_final:
  assumes rows: "rows_ok P" and w: "0 < mWeight P" and inv: "tri_inv P s" and small: "\<not> 1 < length (mWeightSets (tWD s))"
  shows "tri_final P s"
proof -
  note R = rows_okD [OF rows]
  have sh: "tri_shape P s" and cl: "closedCols P (set (tMainCols s)) (tRowSet s)" using inv by (auto simp: tri_inv_def)
  obtain L where L: "wts (mIdxBits P) (mSparseSize P) L (openCount P (tRowSet s)) (set (tMainCols s)) (tWD s)"
    using inv by (auto simp: tri_inv_def)
  have zero: "openCount P (tRowSet s) c = 0" if "c < mSparseSize P" "c \<notin> set (tMainCols s)" for c
    using wts_size [OF L] small that by auto
  have "tRowSet s ! i" if i: "i < mNumItems P" for i
  proof (rule ccontr)
    assume u: "\<not> tRowSet s ! i"
    have "mRows P ! i \<noteq> []" using R(4) [OF i] w by auto
    then obtain c where c: "c \<in> set (mRows P ! i)" by (meson list.set_sel(1))
    then have "c \<notin> set (tMainCols s)" using cl i u by (auto simp: closedCols_def)
    with zero R(6) [OF i c] openCount_set(2) [OF i _ u c] sh show False by (simp add: tri_shape_def)
  qed
  then have "set (tMainRows s @ map fst (tGapRows s)) = {..<mNumItems P}" using sh by (auto simp: tri_shape_def)
  moreover have "set (L 0) = {..<mSparseSize P} - set (tMainCols s)"
    using wts_mem [OF L, of _ 0] L zero by (fastforce simp: wts_def)
  moreover have "L w = []" if "w \<noteq> 0" for w
  proof (rule ccontr)
    assume "L w \<noteq> []"
    then obtain i where "i \<in> set (L w)" by (meson list.set_sel(1))
    with wts_mem [OF L this] zero that show False by auto
  qed
  ultimately show ?thesis using sh small L by (auto simp: tri_final_def wts_def nodeWeights_def)
qed

text \<open>The states in which \<open>encode\<close> may be called: after \<open>setInput\<close>, or after an earlier
  \<open>encode\<close> that has used the buckets up.\<close>

definition tri_ready :: "'a paxos_scheme \<Rightarrow> bool" where
  "tri_ready P \<longleftrightarrow> rows_ok P \<and> cols_ok P \<and> size_ok P \<and> 0 < mWeight P \<and> mNumItems P + 2 \<le> mSparseSize P \<and>
     8 \<le> mIdxBits P \<and> (\<forall>c<mSparseSize P. length (colRows (mRows P) c) < 200) \<and>
     (weights_ok P \<or> length (mWeightSets (mWeightData P)) \<le> 1 \<and> length (mNodes (mWeightData P)) = mSparseSize P)"

lemma colRows_few: "length rows < 200 \<Longrightarrow> length (colRows rows c) < 200"
  using length_filter_le [of "\<lambda>i. c \<in> set (rows ! i)" "[0..<length rows]"] by (simp add: colRows_def)

lemma setInput_rows_ready:
  assumes "length rows = mNumItems P" "length dense = mNumItems P" "\<forall>r\<in>set rows. valid_row (mSparseSize P) (mWeight P) r"
    and "0 < mWeight P" "mNumItems P + 2 \<le> mSparseSize P" "mSparseSize P < 2 ^ mIdxBits P" "8 \<le> mIdxBits P"
    and "length (mNodes (mWeightData P)) \<le> mSparseSize P" "length rows < 200"
  shows "\<exists>P'. setInput_rows rows dense P = Inr P' \<and> tri_ready P' \<and> mRows P' = rows \<and> mDense P' = dense \<and>
    paxos_param.truncate P' = paxos_param.truncate P \<and> mNumItems P' = mNumItems P"
proof -
  have "\<exists>cols backing wd. let P' = P\<lparr>mDense := dense, mRows := rows, mCols := cols, mColBacking := backing, mWeightData := wd\<rparr> in
    setInput_rows rows dense P = Inr P' \<and> rows_ok P' \<and> cols_ok P' \<and> weights_ok P' \<and> size_ok P'"
    using assms by (intro setInput_rows_ok) (simp_all add: colRows_few)
  then show ?thesis using assms(4,5,7) colRows_few [OF assms(9)] by (auto simp: Let_def tri_ready_def paxos_param.truncate_def)
qed

lemma rowWeights_eq:
  assumes "rows_ok P"
  shows "rowWeights (mSparseSize P) (mRows P) = map (\<lambda>c. length (colRows (mRows P) c)) [0..<mSparseSize P]"
  using assms rowWeights_nth [of _ "mSparseSize P" "mRows P"]
  by (intro nth_equalityI) (auto simp: rowWeights_def rows_ok_def valid_row_def)

lemma tri_reinit_ok:
  assumes "tri_ready P"
  shows "\<exists>wd. tri_reinit P = Inr wd \<and> weights_ok (P\<lparr>mWeightData := wd\<rparr>)"
proof (cases "length (mWeightSets (mWeightData P)) \<le> 1")
  case True
  have T: "rows_ok P" "cols_ok P" "size_ok P" "8 \<le> mIdxBits P" "\<forall>c<mSparseSize P. length (colRows (mRows P) c) < 200"
    using assms by (auto simp: tri_ready_def)
  have len: "length (mCols P) = mSparseSize P" using T(2) by (simp add: cols_ok_def)
  have nodes: "length (mNodes (mWeightData P)) = mSparseSize P"
    using assms by (auto simp: tri_ready_def weights_ok_def Let_def rowWeights_def nodeWeights_def dest: arg_cong [of _ _ length])
  have "(256 :: nat) \<le> 2 ^ mIdxBits P" using T(4) power_increasing [of 8 "mIdxBits P" "2 :: nat"] by simp
  then have col: "snd (mCols P ! c) mod 2 ^ mIdxBits P = length (colRows (mRows P) c)" if "c < mSparseSize P" for c
    using T(2,5) that by (fastforce simp: cols_ok_def)
  let ?f = "\<lambda>i ws. rbind (at ws i) (\<lambda>_. Inr (ws[i := snd (mCols P ! i) mod 2 ^ mIdxBits P]))"
  have "k \<le> mSparseSize P \<Longrightarrow> foldr_res ?f [0..<k] (replicate (mSparseSize P) 0) =
      Inr (map (\<lambda>c. length (colRows (mRows P) c)) [0..<k] @ replicate (mSparseSize P - k) 0)" for k
  proof (induction k)
    case (Suc k)
    then have "replicate (mSparseSize P - k) 0 = 0 # replicate (mSparseSize P - Suc k) (0 :: nat)"
      by (metis Suc_diff_Suc Suc_le_eq replicate_Suc)
    with Suc col [of k] show ?case by (simp add: foldr_res_append list_update_append)
  qed simp
  from this [OF order_refl] have cw: "foldr_res ?f [0..<length (mCols P)] (replicate (mSparseSize P) 0) =
      Inr (rowWeights (mSparseSize P) (mRows P))" by (simp add: len rowWeights_eq [OF T(1)])
  have "\<exists>wd. weight_init (mIdxBits P) (rowWeights (mSparseSize P) (mRows P)) (mWeightData P) = Inr wd \<and>
      wd_rel (mIdxBits P) (mSparseSize P) (buckets (rowWeights (mSparseSize P) (mRows P)) (mSparseSize P)) wd \<and>
      nodeWeights wd = rowWeights (mSparseSize P) (mRows P)"
    using weight_init_refines [of "mSparseSize P" "rowWeights (mSparseSize P) (mRows P)" "mIdxBits P" "mWeightData P"] T(3,5) nodes
    by (simp add: rowWeights_eq [OF T(1)] size_ok_def)
  with True cw show ?thesis by (auto simp: tri_reinit_def weights_ok_def Let_def)
next
  case False
  with assms show ?thesis by (auto simp: tri_reinit_def tri_ready_def)
qed

lemma triangulate_ok:
  assumes ready: "tri_ready P"
  shows "(\<exists>s. triangulate P = Inr s \<and> tri_final P s) \<or> triangulate P = Inl RTE_LOC \<and> \<not> distinct (mDense P)"
proof -
  have T: "rows_ok P" "cols_ok P" "0 < mWeight P" "mNumItems P + 2 \<le> mSparseSize P" using ready by (auto simp: tri_ready_def)
  obtain wd where wd: "tri_reinit P = Inr wd" "weights_ok (P\<lparr>mWeightData := wd\<rparr>)" using tri_reinit_ok [OF ready] by blast
  let ?s = "\<lparr>tWD = wd, tRowSet = replicate (mNumItems P) False, tMainRows = [], tMainCols = [], tGapRows = []\<rparr>"
  let ?ws = "rowWeights (mSparseSize P) (mRows P)"
  have open0: "openCount P (replicate (mNumItems P) False) c = ?ws ! c" if "c < mSparseSize P" for c
  proof -
    have "filter (\<lambda>i. \<not> replicate (mNumItems P) False ! i \<and> c \<in> set (mRows P ! i)) [0..<mNumItems P]
        = filter (\<lambda>i. c \<in> set (mRows P ! i)) [0..<mNumItems P]" by (rule filter_cong) auto
    then show ?thesis using that rows_okD(1) [OF T(1)] by (simp add: openCount_def rowWeights_eq [OF T(1)] colRows_def)
  qed
  have lws: "length ?ws = mSparseSize P" by (simp add: rowWeights_def)
  have "wts (mIdxBits P) (mSparseSize P) (buckets ?ws (mSparseSize P)) (openCount P (replicate (mNumItems P) False)) {} wd"
    using wd(2) open0 lws by (auto simp: wts_def weights_ok_def Let_def set_buckets)
  then have inv: "tri_inv P ?s"
    by (auto simp: tri_inv_def tri_shape_def triangular_def closedCols_def)
  from tri_loop_ok [OF T(1,2,4) inv, of "Suc (mNumItems P)"] tri_inv_final [OF T(1,3)] wd(1)
  show ?thesis by (auto simp: triangulate_def simp del: tri_loop.simps)
qed

subsection \<open>The properties\<close>

text \<open>C38: triangulate, called after setInput, or again after it has used its buckets up, on a matrix
  with at least two more sparse columns than rows, terminates without assertion failure or
  undefined behaviour: it throws only if two dense values are equal, and otherwise every row is
  either on the diagonal or in the gap, and never both; the diagonal is triangular (the k-th main
  column is in the k-th main row, and in no later one), and every gap row is paired with a main row
  of a different dense value.\<close>

theorem triangulate_correct:
  assumes "tri_ready P"
  shows "(\<exists>s. triangulate P = Inr s \<and>
      distinct (tMainRows s @ map fst (tGapRows s)) \<and> set (tMainRows s @ map fst (tGapRows s)) = {..<mNumItems P} \<and>
      distinct (tMainCols s) \<and> set (tMainCols s) \<subseteq> {..<mSparseSize P} \<and> length (tMainRows s) = length (tMainCols s) \<and>
      (\<forall>k<length (tMainCols s). tMainCols s ! k \<in> set (mRows P ! (tMainRows s ! k)) \<and>
         (\<forall>j<k. tMainCols s ! j \<notin> set (mRows P ! (tMainRows s ! k)))) \<and>
      (\<forall>(r, q)\<in>set (tGapRows s). q \<in> set (tMainRows s) \<and> mDense P ! r \<noteq> mDense P ! q)) \<or>
    triangulate P = Inl RTE_LOC \<and> \<not> distinct (mDense P)"
  using triangulate_ok [OF assms] by (auto simp: tri_final_def tri_shape_def triangular_def)

definition triSample :: paxos where
  "triSample = (freshPaxos 8)\<lparr>mSparseSize := 5, mDenseSize := 2, mWeight := 2, mNumItems := 3\<rparr>"

lemma triSample_ready: "\<exists>P. setInput_rows [[0, 1], [1, 2], [0, 1]] [5, 7, 9] triSample = Inr P \<and> tri_ready P \<and>
  mDense P = [5, 7, 9]"
proof -
  have "\<exists>P. setInput_rows [[0, 1], [1, 2], [0, 1]] [5, 7, 9] triSample = Inr P \<and> tri_ready P \<and>
      mRows P = [[0, 1], [1, 2], [0, 1]] \<and> mDense P = [5, 7, 9] \<and>
      paxos_param.truncate P = paxos_param.truncate triSample \<and> mNumItems P = mNumItems triSample"
    by (rule setInput_rows_ready) (auto simp: triSample_def freshPaxos_def valid_row_def)
  then show ?thesis by blast
qed

theorem triangulate_correct_witness:
  "\<exists>P s. setInput_rows [[0, 1], [1, 2], [0, 1]] [5, 7, 9] triSample = Inr P \<and> triangulate P = Inr s \<and>
    set (tMainRows s @ map fst (tGapRows s)) = {..<mNumItems P}"
proof -
  obtain P where P: "setInput_rows [[0, 1], [1, 2], [0, 1]] [5, 7, 9] triSample = Inr P" "tri_ready P" "mDense P = [5, 7, 9]"
    using triSample_ready by blast
  then have "distinct (mDense P)" by simp
  with triangulate_correct [OF P(2)] P(1) show ?thesis by blast
qed

text \<open>After triangulate the structure of weights is left with a single bucket, that of weight
  zero, and it lists exactly the sparse columns that are not main columns, the free columns that
  encode may randomise; all other columns have been taken out.\<close>

lemma triangulate_free_columns:
  assumes "tri_ready P" and "triangulate P = Inr s"
  shows "\<exists>L. wd_rel (mIdxBits P) (mSparseSize P) L (tWD s) \<and> length (mWeightSets (tWD s)) \<le> 1 \<and>
    distinct (L 0) \<and> set (L 0) = {..<mSparseSize P} - set (tMainCols s) \<and> (\<forall>w. w \<noteq> 0 \<longrightarrow> L w = [])"
proof -
  have "tri_final P s" using triangulate_ok [OF assms(1)] assms(2) by auto
  then obtain L where "wd_rel (mIdxBits P) (mSparseSize P) L (tWD s)" "set (L 0) = {..<mSparseSize P} - set (tMainCols s)"
    "\<forall>w. w \<noteq> 0 \<longrightarrow> L w = []" "length (mWeightSets (tWD s)) \<le> 1" by (auto simp: tri_final_def)
  with wd.dist [OF this(1), of 0] show ?thesis by blast
qed


end
