(* ===== verification/GfField.thy ===== *)
theory GfField
  imports Gf128
begin

section \<open>Inversion in GF(2^128)\<close>

text \<open>
  \<open>gf128Inv\<close> of \<open>volePSI/PaxosImpl.h\<close> computes \<open>x^(2^128 - 2)\<close> by an addition chain.  That
  this is the inverse of a nonzero \<open>x\<close> needs the modulus to be irreducible.  The proof is
  Rabin's test carried out inside the logic: a certificate of 128 squarings, checked by
  the simplifier, shows that \<open>x^(2^128) = x\<close> and that \<open>x^(2^64) + x\<close> is a unit; a
  counting argument on the ideals of idempotents then shows that 0 and 1 are the only
  idempotents, hence that \<open>a^(2^128 - 1) = 1\<close> for every nonzero \<open>a\<close>.
\<close>

subsection \<open>The addition chain\<close>

definition gf128Inv_sqr :: "nat \<Rightarrow> block \<Rightarrow> block" where
  "gf128Inv_sqr n a = fold (\<lambda>_ b. gf128Mul b b) [0..<n] a"

definition gf128Inv_step :: "nat \<Rightarrow> block \<times> block \<Rightarrow> block \<times> block" where
  "gf128Inv_step i s =
     (let (a, result) = s;
          b = gf128Inv_sqr (2 ^ i) a;
          a = gf128Mul a b
      in (a, if i = 0 then b else gf128Mul result b))"

definition gf128Inv :: "block \<Rightarrow> block" where
  "gf128Inv x = snd (fold gf128Inv_step [0..<7] (x, 0))"

lemma GF_gf128Inv_sqr: "GF (gf128Inv_sqr n a) = GF a ^ (2 ^ n)"
proof (induction n)
  case (Suc n)
  have "GF (gf128Inv_sqr (Suc n) a) = GF (gf128Inv_sqr n a) * GF (gf128Inv_sqr n a)"
    by (simp add: gf128Inv_sqr_def)
  with Suc show ?case by (simp flip: power_add add: mult_2)
qed (simp add: gf128Inv_sqr_def)

lemma gf128Inv_step_val:
  assumes "GF a = el ^ m" and "i = 0 \<or> GF r = el ^ k" and "0 < m"
  shows "GF (fst (gf128Inv_step i (a, r))) = el ^ (m + m * 2 ^ 2 ^ i)"
    and "GF (snd (gf128Inv_step i (a, r))) = el ^ ((if i = 0 then 0 else k) + m * 2 ^ 2 ^ i)"
  using assms
  by (auto simp: gf128Inv_step_def GF_gf128Inv_sqr Let_def simp flip: power_mult power_add)

lemma GF_gf128Inv: "GF (gf128Inv x) = GF x ^ (2 ^ 128 - 2)"
proof -
  define el where "el = GF x"
  define s where "s = rec_nat (x, 0 :: block) gf128Inv_step"
  have s0: "s 0 = (x, 0)" and sS: "\<And>i. s (Suc i) = gf128Inv_step i (s i)"
    by (simp_all add: s_def)
  have "GF (fst (s (Suc i))) = el ^ (2 ^ 2 ^ Suc i - 1) \<and> GF (snd (s (Suc i))) = el ^ (2 ^ 2 ^ Suc i - 2)"
    for i
  proof (induction i)
    case 0
    have "GF (fst (s 0)) = el ^ 1" by (simp add: s0 el_def)
    from gf128Inv_step_val [of "fst (s 0)" el 1 0 "snd (s 0)" 0, OF this]
    show ?case by (simp add: sS [of 0] power2_eq_square power3_eq_cube)
  next
    case (Suc i)
    let ?q = "2 ^ 2 ^ Suc i :: nat"
    have q: "4 \<le> ?q"
    proof -
      have "(2 :: nat) ^ 2 \<le> 2 ^ 2 ^ Suc i" by (rule power_increasing) simp_all
      then show ?thesis by simp
    qed
    have sq: "2 ^ 2 ^ Suc (Suc i) = ?q * ?q"
      by (simp flip: power_add add: mult_2)
    have e1: "?q - 1 + (?q - 1) * ?q = 2 ^ 2 ^ Suc (Suc i) - 1"
      and e2: "?q - 2 + (?q - 1) * ?q = 2 ^ 2 ^ Suc (Suc i) - 2"
      unfolding sq using q by (simp_all add: algebra_simps diff_mult_distrib) 
    have A: "GF (fst (s (Suc i))) = el ^ (?q - 1)" and B: "GF (snd (s (Suc i))) = el ^ (?q - 2)"
      using Suc by blast+
    have "0 < ?q - 1" using q by simp
    note st = gf128Inv_step_val [OF A disjI2 [OF B] this, of "Suc i"]
    have "(if Suc i = 0 then 0 else ?q - 2) = ?q - 2" by simp
    with st show ?case by (simp only: sS [of "Suc i"] prod.collapse e1 e2)
  qed
  from this [of 6] have "GF (snd (s 7)) = el ^ (2 ^ 128 - 2)" by simp
  moreover have "fold gf128Inv_step [0..<n] (x, 0) = s n" for n
    by (induction n) (simp_all add: s0 sS)
  ultimately show ?thesis by (simp add: gf128Inv_def el_def)
qed

subsection \<open>Squaring is linear\<close>

definition frob :: "gf128 \<Rightarrow> gf128" where "frob a = a * a"

lemma frob_add: "frob (a + b) = frob a + frob b"
proof -
  have "frob (a + b) = frob a + frob b + (a * b + a * b)"
    by (simp only: frob_def algebra_simps)
  then show ?thesis by (simp only: gf_add_self add_0_right)
qed

lemma frob_mult: "frob (a * b) = frob a * frob b"
  by (simp add: frob_def ac_simps)

lemma frob_0 [simp]: "frob 0 = 0" and frob_1 [simp]: "frob 1 = 1"
  by (simp_all add: frob_def)

lemma frobn_add: "(frob ^^ n) (a + b) = (frob ^^ n) a + (frob ^^ n) b"
  by (induction n) (simp_all add: frob_add)

lemma frobn_0 [simp]: "(frob ^^ n) 0 = 0"
  by (induction n) simp_all

lemma frobn_sum: "(frob ^^ n) (sum f A) = (\<Sum>i\<in>A. (frob ^^ n) (f i))"
  by (induction A rule: infinite_finite_induct) (simp_all add: frobn_add)

lemma frobn_power: "(frob ^^ n) (a ^ k) = ((frob ^^ n) a) ^ k"
proof (induction n)
  case (Suc n)
  then show ?case by (simp add: frob_def power_mult_distrib)
qed simp

lemma frobn_eq: "(frob ^^ n) a = a ^ (2 ^ n)"
proof (induction n)
  case (Suc n)
  then show ?case by (simp add: frob_def power2_eq_square power_mult mult_2 power_add)
qed simp

subsection \<open>Polynomials over GF(2) as natural numbers\<close>

fun pnat :: "nat \<Rightarrow> gf128" where
  "pnat n = (if n = 0 then 0 else (if odd n then 1 else 0) + gfX * pnat (n div 2))"

declare pnat.simps [simp del]

lemma pnat_0 [simp]: "pnat 0 = 0"
  by (simp add: pnat.simps)

lemma pnat_double: "pnat (2 * n) = gfX * pnat n"
  by (cases "n = 0") (simp_all add: pnat.simps [of "2 * n"])

lemma pnat_double1: "pnat (Suc (2 * n)) = 1 + gfX * pnat n"
  by (simp add: pnat.simps [of "Suc (2 * n)"])

lemma pnat_xor: "pnat (a XOR b) = pnat a + pnat b"
proof (induction a arbitrary: b rule: less_induct)
  case (less a)
  show ?case
  proof (cases "a = 0")
    case False
    have "pnat ((a div 2) XOR (b div 2)) = pnat (a div 2) + pnat (b div 2)"
      using False by (intro less) simp
    then have IH: "gfX * pnat ((a XOR b) div 2) = gfX * pnat (a div 2) + gfX * pnat (b div 2)"
      using drop_bit_xor [of 1 a b] by (simp add: drop_bit_eq_div distrib_left)
    have unf: "pnat c = (if odd c then 1 else 0) + gfX * pnat (c div 2)" for c
      by (cases "c = 0") (simp_all add: pnat.simps [of c])
    have parity: "(if odd (a XOR b) then 1 else 0 :: gf128) =
        (if odd a then 1 else 0) + (if odd b then 1 else 0)"
      by (simp add: even_xor_iff)
    show ?thesis
      unfolding unf [of "a XOR b"] unf [of a] unf [of b] IH parity
      by (simp only: ac_simps)
  qed simp
qed

lemma pnat_shift: "pnat (2 ^ k * n) = gfX ^ k * pnat n"
  by (induction k) (simp_all add: pnat_double mult.assoc)

fun sqn :: "num \<Rightarrow> num" where
  "sqn num.One = num.One"
| "sqn (num.Bit0 n) = num.Bit0 (num.Bit0 (sqn n))"
| "sqn (num.Bit1 n) = num.Bit1 (num.Bit0 (sqn n))"

text \<open>Spreading the bits of a polynomial over GF(2) squares it.\<close>

definition sqnat :: "nat \<Rightarrow> nat" where
  "sqnat n = (if n = 0 then 0 else nat_of_num (sqn (num_of_nat n)))"

lemma sqnat_simps [simp]:
  "sqnat 0 = 0" "sqnat (Suc 0) = 1" "sqnat (numeral n) = numeral (sqn n)"
  by (simp_all add: sqnat_def nat_of_num_numeral num_of_nat.simps)

lemma pnat_num:
  "pnat (numeral (num.Bit0 n)) = gfX * pnat (numeral n)"
  "pnat (numeral (num.Bit1 n)) = 1 + gfX * pnat (numeral n)"
  "pnat (numeral num.One) = 1"
proof -
  have 0: "numeral (num.Bit0 n) = 2 * (numeral n :: nat)" by simp
  show "pnat (numeral (num.Bit0 n)) = gfX * pnat (numeral n)"
    unfolding 0 by (rule pnat_double)
  have 1: "numeral (num.Bit1 n) = Suc (2 * (numeral n :: nat))" by simp
  show "pnat (numeral (num.Bit1 n)) = 1 + gfX * pnat (numeral n)"
    unfolding 1 by (rule pnat_double1)
  show "pnat (numeral num.One) = 1" by (simp add: pnat.simps)
qed

lemma pnat_sqn: "pnat (numeral (sqn n)) = frob (pnat (numeral n))"
proof (induction n)
  case (Bit0 n)
  have "pnat (numeral (sqn (num.Bit0 n))) = gfX * (gfX * frob (pnat (numeral n)))"
    by (simp only: sqn.simps pnat_num Bit0)
  then show ?case by (simp only: pnat_num frob_mult) (simp add: frob_def ac_simps)
next
  case (Bit1 n)
  have "pnat (numeral (sqn (num.Bit1 n))) = 1 + gfX * (gfX * frob (pnat (numeral n)))"
    by (simp only: sqn.simps pnat_num Bit1)
  then show ?case by (simp only: pnat_num frob_mult frob_add frob_1) (simp add: frob_def ac_simps)
qed (simp only: sqn.simps pnat_num frob_1)

lemma pnat_sqnat: "pnat (sqnat n) = frob (pnat n)"
proof (cases "n = 0")
  case False
  then have n: "n = numeral (num_of_nat n)"
    by (metis nat_of_num_numeral num_of_nat_inverse neq0_conv)
  show ?thesis
    by (subst (1 2) n) (simp add: pnat_sqn del: numeral_num_of_nat_unfold)
qed simp

definition m87 :: "nat \<Rightarrow> nat" where
  "m87 a = a XOR 2 * a XOR 4 * a XOR 128 * a"

lemma pnat_m87: "pnat (m87 a) = gfX ^ 128 * pnat a"
proof -
  have 1: "pnat (2 * a) = gfX * pnat a" by (rule pnat_double)
  have 2: "pnat (4 * a) = gfX ^ 2 * pnat a" using pnat_shift [of 2 a] by simp
  have 7: "pnat (128 * a) = gfX ^ 7 * pnat a" using pnat_shift [of 7 a] by simp
  show ?thesis
    unfolding m87_def pnat_xor 1 2 7 gfX_modulus by (simp only: algebra_simps mult_1_left)
qed

text \<open>
  A chain of squarings: from the element with halves \<open>(l, h)\<close>, each entry \<open>(l', h', t)\<close>
  gives the halves of the square and the overflow \<open>t\<close> of the first reduction step.
\<close>

definition sq_step_ok :: "nat \<Rightarrow> nat \<Rightarrow> nat \<Rightarrow> nat \<Rightarrow> nat \<Rightarrow> bool" where
  "sq_step_ok l h l' h' t \<longleftrightarrow>
     sqnat l XOR m87 (sqnat h) = l' XOR 2 ^ 64 * h' XOR 2 ^ 128 * t XOR m87 t"

definition phalves :: "nat \<Rightarrow> nat \<Rightarrow> gf128" where
  "phalves l h = pnat l + gfX ^ 64 * pnat h"

lemma sq_step: "sq_step_ok l h l' h' t \<Longrightarrow> frob (phalves l h) = phalves l' h'"
proof -
  assume "sq_step_ok l h l' h' t"
  then have "pnat (sqnat l XOR m87 (sqnat h)) =
      pnat (l' XOR 2 ^ 64 * h' XOR 2 ^ 128 * t XOR m87 t)"
    by (simp only: sq_step_ok_def)
  then have "frob (pnat l) + gfX ^ 128 * frob (pnat h) =
      pnat l' + gfX ^ 64 * pnat h' + (gfX ^ 128 * pnat t + gfX ^ 128 * pnat t)"
    unfolding pnat_xor pnat_m87 pnat_shift pnat_sqnat by (simp only: add.assoc)
  then have "frob (pnat l) + gfX ^ 128 * frob (pnat h) = phalves l' h'"
    by (simp only: gf_add_self add_0_right phalves_def)
  moreover have "frob (gfX ^ 64) = gfX ^ 128" by (simp add: frob_def flip: power_add)
  ultimately show ?thesis by (simp only: phalves_def [of l h] frob_add frob_mult)
qed

fun sq_chain :: "nat \<Rightarrow> nat \<Rightarrow> (nat \<times> nat \<times> nat) list \<Rightarrow> (nat \<times> nat) option" where
  "sq_chain l h [] = Some (l, h)"
| "sq_chain l h ((l', h', t) # cs) =
     (if sq_step_ok l h l' h' t then sq_chain l' h' cs else None)"

lemma sq_chain:
  "sq_chain l h cs = Some (l', h') \<Longrightarrow> (frob ^^ length cs) (phalves l h) = phalves l' h'"
proof (induction cs arbitrary: l h)
  case (Cons c cs)
  obtain l1 h1 t where c: "c = (l1, h1, t)" by (cases c)
  with Cons.prems have "frob (phalves l h) = phalves l1 h1" and "sq_chain l1 h1 cs = Some (l', h')"
    by (auto simp: sq_step split: if_splits)
  with Cons.IH show ?case by (simp add: funpow_swap1)
qed simp

definition x_chain_lo :: "(nat \<times> nat \<times> nat) list" where
  "x_chain_lo =
  [(0x4, 0, 0),
   (0x10, 0, 0),
   (0x100, 0, 0),
   (0x10000, 0, 0),
   (0x100000000, 0, 0),
   (0, 1, 0),
   (0x87, 0, 0),
   (0x4015, 0, 0),
   (0x10000111, 0, 0),
   (0x100000000010101, 0, 0),
   (0x100010001, 0x1000000000000, 0),
   (0x100000001, 0x8700000001, 0),
   (0x86, 0x21caea, 0),
   (0x21cae93f7cfc8, 0, 0),
   (0x4105551550555040, 0x401504454, 0),
   (0x118fe6196978ef70, 0x1001001111110961, 0),
   (0x93c692c775187987, 0x860140d2541486c6, 0),
   (0xea618e11df04ea1e, 0x8b69509b312d6501, 33),
   (0xcad0352d30b311b4, 0xb715594eb7756558, 33),
   (0x54e1a6f865fe82b9, 0x1afdeffd35e5fde, 35),
   (0x218289f09c0659ed, 0x11b4a30358935542, 0),
   (0x97b14587eebe264d, 0x83a513579eda5793, 0),
   (0x38d15180f9de45ad, 0x83ad91f69582bddf, 33),
   (0x1a97936b620f481d, 0xc7f8a41756ad614d, 33),
   (0xe94bf5687ccf4c39, 0xbb844bf6957599a6, 41),
   (0x5aadb3837634c244, 0x2c3bd83d0661350d, 35),
   (0x1f726995c3f33829, 0x24f6fc2353c7f232, 2),
   (0xa5b7efc52c5e9c53, 0x150e344316f35f82, 2),
   (0x891738c79d5ad319, 0xcbe66ebbc72d228a, 0),
   (0xfbb824714f38f6c2, 0xd331a77342cf2867, 41),
   (0x62609e6968de22b0, 0x60dcdee4d2f1fc92, 41),
   (0x21777af80695052a, 0x782d0a995dd3b018, 10),
   (0xde0a74a95b11a7b2, 0xcec3202236b9330f, 10),
   (0x800a7b44dd8e7a70, 0xcad1b2dd09125a5f, 41),
   (0x7016c540c190dd74, 0xd3f537e04c700e27, 41),
   (0x9bbaa007aff17a4, 0x20b022e1c1d1bc08, 41),
   (0xa5ea62f173a564de, 0x1c621e475a73acae, 2),
   (0xc1d3ada9e183a6f8, 0xeaab3a58b8a02fe2, 0),
   (0x2ee29c077314ee0d, 0xdffeae5cfc8592a2, 43),
   (0x1794c9c6116bca12, 0x1854548bb6f4de8e, 41),
   (0x5046371c4cc9eaa8, 0xa7ddbe68af10b36c, 0),
   (0xe77bd7620dd51099, 0xc7c20e0075b34cb3, 35),
   (0xe385088258930c85, 0xeed7a7597ab9140e, 41),
   (0xd9bf3b428f207eec, 0xd3807dd9d6a39649, 43),
   (0x7d1adaba58301148, 0x64fb855fc75b066a, 41),
   (0xaba3d15b0b675aaa, 0x710a093e99bb9946, 10),
   (0x66216c6f770b3b1e, 0xafc267d97044a1c8, 10),
   (0xfe1d7816d9eb81fd, 0xe316b61772920218, 35),
   (0xb87c1159421de6c0, 0xfbcf8c1e442c8cf5, 43),
   (0x687634c0bd8f66a6, 0x4d328e5ae8b1bde5, 43),
   (0xc8b21bf16608e4db, 0x4d758c29eeb484f7, 8),
   (0x939b53119c4b7496, 0x97da6d2e8f7686d, 8),
   (0xccbb31a458da0423, 0x60488351c7403436, 0),
   (0xaba321469362905f, 0x3c5814a4c792b3be, 10),
   (0xfbcf513b18b860f7, 0xf6fd92c58b52c44d, 2),
   (0xe213b075ac781973, 0x740252435434bd93, 43),
   (0xbb228613735755a8, 0xb7740311b0146782, 10),
   (0x4e059e6f77db9735, 0x14a4e774428f86a1, 35),
   (0x6728ba4f8b5ad996, 0x9f07d44ae7b5f72d, 0),
   (0xe68d429870a86444, 0x783e0e827a3c43a2, 33),
   (0xdddef6f866a8cb3a, 0x9ed6f0fd3b898356, 10),
   (0xac6ea52692d6e84f, 0x3dd46c137e3f5775, 33),
   (0x81aae137a9a1f2ac, 0xf64e2b2e01a18185, 2),
   (0x44e598a795a299f6, 0x61651fea6b5832b9, 43)]"

definition x_chain_hi :: "(nat \<times> nat \<times> nat) list" where
  "x_chain_hi =
  [(0xe4292c6d87e2a65, 0x7c9d30e6ed40cbc3, 10),
   (0xd47f657d9736a3bc, 0xc2c57e31da2ff653, 10),
   (0x55cb32146561a494, 0xe325ada8d4bf8eff, 41),
   (0x2b42640baf97546a, 0xbf884491f010fcf9, 43),
   (0x6f55c63e138b0f6a, 0x744ff1cc6c4147e9, 35),
   (0x44bd30ca7a959c35, 0xf72d4a117bba9cee, 10),
   (0xdd3c39ec2fcb97ec, 0x31f9706e56dcd7c9, 43),
   (0xf9104edc7cd7c419, 0xcafd0f1dee4b13f4, 2),
   (0x92f4024ed5a0366e, 0xc6b603373b7fff4c, 41),
   (0xe9408400053759bb, 0xfb4b047c029d81bd, 41),
   (0x22c6b03d1e52223, 0x5c12435b486ac2b0, 43),
   (0xcb1be4b63b5b3d, 0xdeb4814466d6d456, 8),
   (0x235138002e3dec62, 0x1c8f0314c1ca2c6a, 41),
   (0xb4fa968f61ea5bd8, 0xaa94fa2a07db8f59, 0),
   (0x1ec3403efa66966e, 0xbaed1a1f49ca7f89, 35),
   (0x42a87c2811ee47a, 0x79a3d532b4dca977, 35),
   (0x13581fc7a95df199, 0xca74daf67fe0c93b, 10),
   (0x8441bd78c444ed45, 0x92d3f21915a27173, 41),
   (0xdfc4ce06bfdce9ed, 0x52525b16c4db307, 33),
   (0xed08440dda5eba, 0x59a044e544805b99, 0),
   (0x7800914cc52e273b, 0xd6648859781bb4ef, 8),
   (0x9ad1a02c574e9631, 0x28266451a0c9c61d, 41),
   (0xcd3c813afb78aa38, 0x7c8647672078f3f4, 2),
   (0x494fdfab6df42306, 0x92c0cf343ae063ad, 10),
   (0xaca6f91a6abde544, 0x5574a07cca7cd737, 33),
   (0x879287c869f885c3, 0xbbada747894bc3dd, 8),
   (0xf50e0632f2a35f5b, 0x386db41096f62a8a, 35),
   (0x1843656b2ea8f397, 0xefdb454053648225, 2),
   (0xf1c52011971b40b3, 0x864204566cee644d, 43),
   (0x48e86e374780c55, 0x9f65220d0c78fc67, 33),
   (0x3caadfab02ea679d, 0x6c3124a15e087d32, 33),
   (0xdca8758ed620dd7b, 0x40e2dfc1450698ca, 10),
   (0x29e30e4d37b882a1, 0x217bea750913f0db, 8),
   (0x2452c0f06b2d5154, 0x18cc9c758f82f3a6, 2),
   (0xff4fc66638b9c77c, 0xa2f988953ebab6d6, 0),
   (0xb5cf3dbe01503955, 0x8b621a33b1f55be1, 35),
   (0x5bad32ffd131adf1, 0xa6403e49a18fdcec, 33),
   (0x8da7ee035acac1d8, 0xc7213453b5a00431, 35),
   (0x42908c445873de98, 0xfab85890c72cf5bd, 41),
   (0xaba9209e72802626, 0x18fb3bc896b15739, 43),
   (0x584b1b8ff9fdbe53, 0xe2ae4c18bc72d0b5, 0),
   (0x27fbbc64727757a3, 0xbf7fe7e158f5e6b6, 43),
   (0xc3ef36c9b75a0400, 0x74349545e390b89f, 35),
   (0xebaf56677af1691d, 0xb377c7044aeb289d, 10),
   (0x46b3da5829a07e0f, 0xdd4a597abff1c6d, 35),
   (0xfb31442bbbee4562, 0x390a7a5685925c88, 0),
   (0x8d931140ce80f4ca, 0xef0226d7d8c4f908, 2),
   (0x46bdf85b5f5764d5, 0xc77a431b17442dc2, 43),
   (0x9cb66967210ef752, 0xaaf58d8527dbb51e, 41),
   (0x12c3142c06e2acc1, 0xbea766c2fd57dce0, 35),
   (0x22ba9c65acbed68, 0x718b86e46755b667, 35),
   (0x77a7af910537779d, 0xeba2e73f8e06f46e, 10),
   (0xebbd0f52366f13ac, 0x9a6d9a22e2bcf10b, 43),
   (0xab2b66ce2a82776c, 0x30930047648b0f33, 33),
   (0x6015a35f3e3c8cc5, 0xdf6441de141c2ab5, 2),
   (0x8a24abe27faf17b9, 0x821656934ab0df9, 41),
   (0x8606bb0e28094f06, 0x6186189d20b81941, 0),
   (0x18637a81b61a75a5, 0x2cb2ca78e3a46e61, 10),
   (0xebacd53e52b72998, 0x34d34d3086928aea, 2),
   (0xdb490028e7b6cf92, 0xc71c71c308249e75, 2),
   (0x75d751453cf3b6ac, 0xebaebefbebaeb6db, 41),
   (0x8a28a28a1451455a, 0x9a69a69a61861861, 43),
   (0x6db6db6db6db6da4, 0x2492492492492492, 33),
   (0x2, 0, 2)]"

lemma x_chain_lo_eval: "sq_chain 2 0 x_chain_lo = Some (0x44e598a795a299f6, 0x61651fea6b5832b9)"
  by (simp add: x_chain_lo_def sq_step_ok_def m87_def)

lemma x_chain_hi_eval: "sq_chain 0x44e598a795a299f6 0x61651fea6b5832b9 x_chain_hi = Some (2, 0)"
  by (simp add: x_chain_hi_def sq_step_ok_def m87_def)

lemma phalves_X: "phalves 2 0 = gfX"
  using pnat_double [of 1] by (simp add: phalves_def pnat.simps [of "Suc 0"])

lemma frob64_X: "(frob ^^ 64) gfX = phalves 0x44e598a795a299f6 0x61651fea6b5832b9"
proof -
  have "length x_chain_lo = 64" by (simp add: x_chain_lo_def)
  with sq_chain [OF x_chain_lo_eval] show ?thesis by (simp only: phalves_X)
qed

lemma frob128_X: "(frob ^^ 128) gfX = gfX"
proof -
  have "length x_chain_hi = 64" by (simp add: x_chain_hi_def)
  with sq_chain [OF x_chain_hi_eval] have "(frob ^^ 64) ((frob ^^ 64) gfX) = gfX"
    by (simp only: frob64_X phalves_X)
  moreover have "(frob ^^ (64 + 64)) gfX = (frob ^^ 64) ((frob ^^ 64) gfX)"
    by (simp only: funpow_add o_apply)
  moreover have "64 + 64 = (128 :: nat)" by simp
  ultimately show ?thesis by (simp only:)
qed

text \<open>Carry-less products of naturals, and the inverse of \<open>x^(2^64) + x\<close>.\<close>

fun clm :: "num \<Rightarrow> nat \<Rightarrow> nat" where
  "clm num.One b = b"
| "clm (num.Bit0 n) b = 2 * clm n b"
| "clm (num.Bit1 n) b = b XOR 2 * clm n b"

lemma pnat_clm: "pnat (clm n b) = pnat (numeral n) * pnat b"
proof (induction n b rule: clm.induct)
  case (2 n b)
  then show ?case by (simp only: clm.simps pnat_double pnat_num mult.assoc)
next
  case (3 n b)
  then show ?case
    by (simp only: clm.simps pnat_xor pnat_double pnat_num mult.assoc distrib_right mult_1_left)
qed (simp only: clm.simps pnat_num mult_1_left)

lemma x64_unit_eval:
  "clm (num_of_nat 0x61651fea6b5832b944e598a795a299f4) 0x9e4af928ddbc838a41a8cafd2c95b018 = 1 XOR m87 0x34f319a5fb685836214ec51f73e3547b XOR 2 ^ 128 * 0x34f319a5fb685836214ec51f73e3547b"
  by (simp add: m87_def)

lemma x64_unit: "(gfX ^ (2 ^ 64) + gfX) * pnat 0x9e4af928ddbc838a41a8cafd2c95b018 = 1"
proof -
  have "pnat 0x61651fea6b5832b944e598a795a299f4 * pnat 0x9e4af928ddbc838a41a8cafd2c95b018 = pnat (clm (num_of_nat 0x61651fea6b5832b944e598a795a299f4) 0x9e4af928ddbc838a41a8cafd2c95b018)"
    by (simp only: pnat_clm numeral_num_of_nat zero_less_numeral)
  also have "\<dots> = pnat (Suc 0) + (gfX ^ 128 * pnat 0x34f319a5fb685836214ec51f73e3547b + gfX ^ 128 * pnat 0x34f319a5fb685836214ec51f73e3547b)"
    unfolding x64_unit_eval by (simp only: pnat_xor pnat_m87 pnat_shift add.assoc One_nat_def)
  also have "\<dots> = 1"
    by (simp add: pnat.simps [of "Suc 0"])
  finally have "pnat 0x61651fea6b5832b944e598a795a299f4 * pnat 0x9e4af928ddbc838a41a8cafd2c95b018 = 1" by (simp only: mult.commute)
  moreover have "gfX ^ (2 ^ 64) + gfX = pnat 0x61651fea6b5832b944e598a795a299f4"
  proof -
    have "gfX ^ (2 ^ 64) = phalves 0x44e598a795a299f6 0x61651fea6b5832b9"
      using frob64_X by (simp only: frobn_eq)
    also have "\<dots> = pnat (0x44e598a795a299f6 XOR 2 ^ 64 * 0x61651fea6b5832b9)"
      by (simp only: phalves_def pnat_xor pnat_shift)
    finally have "gfX ^ (2 ^ 64) + gfX = pnat (0x44e598a795a299f6 XOR 2 ^ 64 * 0x61651fea6b5832b9 XOR 2 * 1)"
      by (simp only: pnat_xor pnat_double) (simp add: pnat.simps [of "Suc 0"])
    then show ?thesis by simp
  qed
  ultimately show ?thesis by (simp only: mult.commute)
qed

subsection \<open>Every element is fixed by 128 squarings\<close>

lemma frob128: "(frob ^^ 128) a = a"
proof -
  have "(frob ^^ 128) a = (\<Sum>i<128. (frob ^^ 128) (if gf_bit a i then gfX ^ i else 0))"
    by (subst gf_expand [of a]) (simp only: frobn_sum)
  also have "\<dots> = (\<Sum>i<128. if gf_bit a i then gfX ^ i else 0)"
  proof (rule sum.cong)
    fix i
    have "(frob ^^ 128) (gfX ^ i) = gfX ^ i"
      by (simp only: frobn_power frob128_X)
    then show "(frob ^^ 128) (if gf_bit a i then gfX ^ i else 0) = (if gf_bit a i then gfX ^ i else 0)"
      by (cases "gf_bit a i") (simp_all only: if_True if_False frobn_0)
  qed simp
  finally show ?thesis by (simp only: gf_expand [symmetric])
qed

definition gfN :: nat where "gfN = 2 ^ 128 - 1"

lemma gf_pow_N: "a ^ gfN * a = a" for a :: gf128
proof -
  have "a ^ Suc gfN = (frob ^^ 128) a"
    by (simp only: frobn_eq) (simp add: gfN_def)
  then show ?thesis by (simp only: frob128 power_Suc mult.commute)
qed

lemma gfN_pos: "0 < gfN"
  by (simp add: gfN_def)

lemma gf_pow_N_idem: "a ^ gfN * a ^ gfN = a ^ gfN" for a :: gf128
proof -
  obtain k where k: "gfN = Suc k" using gfN_pos by (cases gfN) auto
  have "a ^ gfN * a ^ gfN = (a ^ gfN * a) * a ^ k"
    by (simp only: k power_Suc ac_simps)
  then show ?thesis by (simp only: gf_pow_N) (simp add: k)
qed

subsection \<open>Subgroups have a power of two of elements\<close>

lemma finite_gf [simp]: "finite (A :: gf128 set)"
proof -
  have "(UNIV :: gf128 set) = GF ` UNIV" by (metis gf_rep_inverse surj_def)
  then have "finite (UNIV :: gf128 set)" by (metis finite_code finite_imageI)
  then show ?thesis by (rule finite_subset [rotated]) simp
qed

definition subgroup_gf :: "gf128 set \<Rightarrow> bool" where
  "subgroup_gf V \<longleftrightarrow> 0 \<in> V \<and> (\<forall>a\<in>V. \<forall>b\<in>V. a + b \<in> V)"

lemma subgroup_extend:
  assumes "subgroup_gf W" and "v \<notin> W"
  shows "subgroup_gf (W \<union> (+) v ` W)" and "card (W \<union> (+) v ` W) = 2 * card W"
proof -
  have "a + b \<in> W \<union> (+) v ` W" if "a \<in> W \<union> (+) v ` W" "b \<in> W \<union> (+) v ` W" for a b
  proof -
    obtain a' b' where ab: "a' \<in> W" "b' \<in> W" and "a = a' \<or> a = v + a'" and "b = b' \<or> b = v + b'"
      using \<open>a \<in> W \<union> (+) v ` W\<close> \<open>b \<in> W \<union> (+) v ` W\<close> by blast
    then have "a + b = a' + b' \<or> a + b = v + (a' + b') \<or> a + b = v + (v + (a' + b'))"
      by (auto simp: ac_simps)
    moreover have "a' + b' \<in> W" using assms(1) ab by (simp add: subgroup_gf_def)
    ultimately show ?thesis by auto
  qed
  then show "subgroup_gf (W \<union> (+) v ` W)"
    using assms(1) by (simp add: subgroup_gf_def)
  have "W \<inter> (+) v ` W = {}"
  proof (rule ccontr)
    assume "W \<inter> (+) v ` W \<noteq> {}"
    then obtain a where "a \<in> W" "v + a \<in> W" by auto
    then have "(v + a) + a \<in> W" using assms(1) by (simp only: subgroup_gf_def)
    then have "v \<in> W" by (simp only: add.assoc gf_add_self add_0_right)
    with assms(2) show False by contradiction
  qed
  then show "card (W \<union> (+) v ` W) = 2 * card W"
    by (simp add: card_Un_disjoint card_image)
qed

lemma card_subgroup_aux:
  assumes "subgroup_gf V"
  shows "subgroup_gf W \<Longrightarrow> W \<subseteq> V \<Longrightarrow> card W = 2 ^ k \<Longrightarrow> \<exists>d. card V = 2 ^ d"
proof (induction "card V - card W" arbitrary: W k rule: less_induct)
  case less
  show ?case
  proof (cases "W = V")
    case True
    with less show ?thesis by auto
  next
    case False
    with less obtain v where v: "v \<in> V" "v \<notin> W" by auto
    let ?W = "W \<union> (+) v ` W"
    have sub: "?W \<subseteq> V"
      using less v assms by (auto simp: subgroup_gf_def)
    have c: "card ?W = 2 ^ Suc k"
      using subgroup_extend(2) [OF less(2) v(2)] less by simp
    from sub have "card ?W \<le> card V" by (rule card_mono [rotated]) simp
    moreover have "card ?W = 2 * card W" "0 < card W"
      using c less(4) by simp_all
    ultimately have "card V - card ?W < card V - card W" by linarith
    then show ?thesis
      using subgroup_extend(1) [OF less(2) v(2)] sub c by (rule less(1))
  qed
qed

lemma card_subgroup: "subgroup_gf V \<Longrightarrow> \<exists>d. card V = 2 ^ d"
  by (rule card_subgroup_aux [of V "{0}" 0]) (auto simp: subgroup_gf_def)

subsection \<open>0 and 1 are the only idempotents\<close>

definition ideal :: "gf128 \<Rightarrow> gf128 set" where
  "ideal e = range ((*) e)"

lemma subgroup_ideal: "subgroup_gf (ideal e)"
  unfolding subgroup_gf_def ideal_def
  by (auto simp flip: distrib_left intro: range_eqI [of _ _ 0])

lemma ideal_absorb: "e * e = e \<Longrightarrow> b \<in> ideal e \<Longrightarrow> e * b = b"
  by (auto simp: ideal_def simp flip: mult.assoc)

lemma idem_in_ideal: "e * e = e \<Longrightarrow> e \<in> ideal e"
  unfolding ideal_def by (rule range_eqI [of _ _ e]) simp

lemma minimal_ideal_powers:
  assumes e: "e * e = e" and min: "\<And>f. f * f = f \<Longrightarrow> f \<noteq> 0 \<Longrightarrow> card (ideal e) \<le> card (ideal f)"
    and b: "b \<in> ideal e" "b \<noteq> 0"
  shows "b ^ gfN = e"
proof -
  let ?f = "b ^ gfN"
  have f: "?f * ?f = ?f" by (rule gf_pow_N_idem)
  have "?f \<noteq> 0" using gf_pow_N [of b] b by auto
  have ef: "e * ?f = ?f"
  proof -
    obtain k where k: "gfN = Suc k" using gfN_pos by (cases gfN) auto
    have "e * ?f = (e * b) * b ^ k" by (simp only: k power_Suc ac_simps)
    then show ?thesis using ideal_absorb [OF e b(1)] by (simp only: k power_Suc)
  qed
  have "ideal ?f \<subseteq> ideal e"
  proof
    fix x assume "x \<in> ideal ?f"
    then obtain r where "x = ?f * r" by (auto simp: ideal_def)
    then have "x = e * (?f * r)" by (simp only: mult.assoc [symmetric] ef)
    then show "x \<in> ideal e" by (auto simp: ideal_def)
  qed
  then have "ideal ?f = ideal e"
    using min [OF f \<open>?f \<noteq> 0\<close>] by (intro card_seteq) simp_all
  then have "e \<in> ideal ?f" using idem_in_ideal [OF e] by simp
  then have "?f * e = e" by (rule ideal_absorb [OF f])
  with ef show ?thesis by (simp only: mult.commute)
qed

lemma ideal_fermat:
  assumes e: "e * e = e" and inv: "\<And>b. b \<in> ideal e \<Longrightarrow> b \<noteq> 0 \<Longrightarrow> b ^ gfN = e"
    and c: "c \<in> ideal e"
  shows "c ^ card (ideal e) = c"
proof (cases "c = 0")
  case True
  have "ideal e \<noteq> {}" by (simp add: ideal_def)
  then have "0 < card (ideal e)" by (simp add: card_gt_0_iff)
  with True show ?thesis by (simp add: zero_power)
next
  case False
  let ?T = "ideal e - {0}"
  let ?p = "\<Prod>b\<in>?T. b"
  have cinv: "c ^ gfN = e" using inv c False by blast
  have cancel: "b = b'" if "b \<in> ideal e" "b' \<in> ideal e" "c * b = c * b'" for b b'
  proof -
    obtain k where k: "gfN = Suc k" using gfN_pos by (cases gfN) auto
    have "c ^ gfN * b = c ^ k * (c * b)" "c ^ gfN * b' = c ^ k * (c * b')"
      by (simp_all only: k power_Suc ac_simps)
    with that cinv ideal_absorb [OF e] show ?thesis by simp
  qed
  have "(*) c ` ?T = ?T"
  proof (rule card_subset_eq)
    show "(*) c ` ?T \<subseteq> ?T"
    proof
      fix x assume "x \<in> (*) c ` ?T"
      then obtain b where b: "b \<in> ideal e" "b \<noteq> 0" "x = c * b" by auto
      then obtain r where "b = e * r" by (auto simp: ideal_def)
      with b have "x = e * (c * r)" by (simp add: ac_simps)
      moreover have "x \<noteq> 0"
      proof
        assume "x = 0"
        then have "c * b = c * 0" using b by simp
        moreover have "0 \<in> ideal e" using subgroup_ideal by (simp add: subgroup_gf_def)
        ultimately show False using cancel [of b 0] b by blast
      qed
      ultimately show "x \<in> ?T" by (auto simp: ideal_def)
    qed
    show "card ((*) c ` ?T) = card ?T"
      by (rule card_image) (auto simp: inj_on_def dest: cancel)
  qed simp
  then have "?p = (\<Prod>b\<in>(*) c ` ?T. b)" by simp
  also have "\<dots> = (\<Prod>b\<in>?T. c * b)"
    by (subst prod.reindex) (auto simp: inj_on_def dest: cancel)
  finally have "?p = c ^ card ?T * ?p" by (simp add: prod.distrib)
  moreover have "?p * ?p ^ (gfN - 1) = e ^ card ?T"
  proof -
    have "?p * ?p ^ (gfN - 1) = ?p ^ gfN"
      using gfN_pos by (simp flip: power_Suc)
    also have "\<dots> = (\<Prod>b\<in>?T. b ^ gfN)" by (rule prod_power_distrib)
    also have "\<dots> = (\<Prod>b\<in>?T. e)" using inv by (intro prod.cong) auto
    finally show ?thesis by simp
  qed
  moreover have card: "card (ideal e) = Suc (card ?T)"
    using subgroup_ideal [of e] by (intro card.remove) (simp_all add: subgroup_gf_def)
  moreover have "e ^ card ?T = e"
  proof -
    have "c \<in> ?T" using c False by simp
    then have "0 < card ?T" by (auto simp: card_gt_0_iff)
    then obtain k where "card ?T = Suc k" by (cases "card ?T") auto
    moreover have "e ^ Suc n = e" for n by (induction n) (simp_all add: e)
    ultimately show ?thesis by simp
  qed
  ultimately have "c ^ card ?T * e = e"
    by (metis mult.assoc)
  then have "c * (c ^ card ?T * e) = c * e" by simp
  moreover have "e * c = c" by (rule ideal_absorb [OF e c])
  ultimately show ?thesis unfolding card power_Suc by (metis mult.assoc mult.commute)
qed

lemma funpow_fixed_gcd:
  fixes f :: "'a \<Rightarrow> 'a"
  shows "(f ^^ m) x = x \<Longrightarrow> (f ^^ n) x = x \<Longrightarrow> (f ^^ gcd m n) x = x"
proof (induction m n rule: gcd_nat_induct)
  case (step m n)
  then have "(f ^^ (m mod n)) x = x" by (simp add: funpow_mod_eq)
  with step show ?case by (simp flip: gcd_red_nat)
qed simp

lemma funpow_fixed_mult: "(f ^^ m) x = x \<Longrightarrow> (f ^^ (k * m)) x = x"
  by (induction k) (simp_all add: funpow_add)

lemma dvd_pow2: "g dvd 2 ^ Suc n \<Longrightarrow> g dvd 2 ^ n \<or> g = 2 ^ Suc n" for g :: nat
proof -
  assume "g dvd 2 ^ Suc n"
  then obtain k where k: "2 ^ Suc n = g * k" ..
  show ?thesis
  proof (cases "even k")
    case True
    then obtain k' where "k = 2 * k'" ..
    with k have "2 ^ n = g * k'" by simp
    then show ?thesis by simp
  next
    case False
    then have "coprime k (2 ^ Suc n)" by simp
    moreover have "k dvd 2 ^ Suc n" using k by simp
    ultimately have "k = 1" by (metis coprime_absorb_left nat_dvd_1_iff_1)
    with k show ?thesis by simp
  qed
qed

lemma gf_idempotents:
  assumes "e * e = e" and "e \<noteq> (0 :: gf128)"
  shows "e = 1"
proof -
  let ?I = "{e :: gf128. e * e = e \<and> e \<noteq> 0}"
  have full: "f = 1" if "f * f = f" and "ideal f = UNIV" for f
    using that ideal_absorb [of f 1] by simp
  obtain m where m: "m * m = m" "m \<noteq> 0"
    and min: "\<And>f. f * f = f \<Longrightarrow> f \<noteq> 0 \<Longrightarrow> card (ideal m) \<le> card (ideal f)"
    using ex_has_least_nat [of "\<lambda>f. f \<in> ?I" e "\<lambda>f. card (ideal f)"] assms by auto
  have pow: "c ^ card (ideal m) = c" if "c \<in> ideal m" for c
    using m(1) minimal_ideal_powers [OF m(1) min] that by (rule ideal_fermat) 
  obtain d where d: "card (ideal m) = 2 ^ d"
    using card_subgroup [OF subgroup_ideal] by blast
  have cardU: "card (UNIV :: gf128 set) = 2 ^ 128"
  proof -
    have "(UNIV :: gf128 set) = GF ` UNIV" by (metis gf_rep_inverse surj_def)
    moreover have "card (GF ` UNIV) = card (UNIV :: block set)"
      by (rule card_image) (simp add: inj_def)
    ultimately show ?thesis by (simp add: card_word)
  qed
  have "ideal m = UNIV"
  proof (rule ccontr)
    assume "ideal m \<noteq> UNIV"
    then have "card (ideal m) < card (UNIV :: gf128 set)"
      by (intro psubset_card_mono) auto
    then have "d < 128" unfolding d cardU by (rule power_less_imp_less_exp [rotated]) simp
    define c where "c = m * gfX"
    have c: "c \<in> ideal m" by (simp add: c_def ideal_def)
    have "d \<noteq> 0"
    proof
      assume "d = 0"
      then have "card (ideal m) = 1" by (simp add: d)
      moreover have "0 \<in> ideal m" using subgroup_ideal by (simp add: subgroup_gf_def)
      ultimately have "ideal m = {0}" by (metis card_1_singletonE singletonD)
      with idem_in_ideal [OF m(1)] m(2) show False by simp
    qed
    have "(frob ^^ d) c = c" using pow [OF c] by (simp only: frobn_eq d)
    then have g: "(frob ^^ gcd d 128) c = c" by (rule funpow_fixed_gcd) (rule frob128)
    have "gcd d 128 dvd 2 ^ Suc 6" by simp
    moreover have "gcd d 128 \<le> d" using \<open>d \<noteq> 0\<close> by (simp add: gcd_le1_nat)
    ultimately have "gcd d 128 dvd 2 ^ 6"
      using \<open>d < 128\<close> dvd_pow2 [of "gcd d 128" 6] by auto
    then obtain k where "2 ^ 6 = gcd d 128 * k" ..
    then have "64 = k * gcd d 128" by (simp add: mult.commute)
    then have "(frob ^^ 64) c = c" using funpow_fixed_mult [OF g] by metis
    then have "m * gfX ^ (2 ^ 64) = m * gfX"
    proof -
      have idp: "m ^ Suc n = m" for n by (induction n) (simp_all add: m)
      have "(frob ^^ 64) c = m ^ (2 ^ 64) * gfX ^ (2 ^ 64)"
        by (simp only: frobn_eq c_def power_mult_distrib)
      moreover have "m ^ (2 ^ 64) = m" using idp [of "2 ^ 64 - 1"] by simp
      ultimately show ?thesis using \<open>(frob ^^ 64) c = c\<close> by (simp only: c_def)
    qed
    then have "m * (gfX ^ (2 ^ 64) + gfX) = 0"
      by (simp only: distrib_left gf_add_self)
    then have "m * ((gfX ^ (2 ^ 64) + gfX) * u) = 0" for u
      by (simp only: mult.assoc [symmetric] mult_zero_left)
    with x64_unit have "m = 0" by (metis mult.right_neutral)
    with m(2) show False by contradiction
  qed
  have "card (ideal m) \<le> card (ideal e)" using assms by (rule min)
  then have "ideal e = UNIV"
    unfolding \<open>ideal m = UNIV\<close> by (intro card_seteq) simp_all
  with assms(1) show ?thesis by (rule full)
qed

lemma gf_pow_N_one: "a \<noteq> 0 \<Longrightarrow> a ^ gfN = 1" for a :: gf128
proof -
  assume "a \<noteq> 0"
  then have "a ^ gfN \<noteq> 0" using gf_pow_N [of a] by auto
  with gf_pow_N_idem show ?thesis by (rule gf_idempotents)
qed

instantiation gf128 :: field
begin

definition inverse_gf128 :: "gf128 \<Rightarrow> gf128" where
  "inverse (a :: gf128) = a ^ (gfN - 1)"

definition divide_gf128 :: "gf128 \<Rightarrow> gf128 \<Rightarrow> gf128" where
  "divide (a :: gf128) b = a * inverse b"

instance
proof
  fix a b :: gf128
  have "a ^ (gfN - 1) * a = a ^ gfN"
    using gfN_pos by (simp flip: power_Suc2)
  with gf_pow_N_one show "a \<noteq> 0 \<Longrightarrow> inverse a * a = 1"
    by (simp only: inverse_gf128_def)
  show "a div b = a * inverse b" by (simp add: divide_gf128_def)
  have "0 < gfN - 1" by (simp add: gfN_def)
  then show "inverse (0 :: gf128) = 0" by (simp add: inverse_gf128_def zero_power)
qed

end

subsection \<open>The inversion of the code\<close>

lemma GF_gf128Inv_inverse: "GF (gf128Inv x) = inverse (GF x)"
  by (simp only: GF_gf128Inv inverse_gf128_def gfN_def) (simp add: diff_diff_left)

text \<open>C23: gf128Inv, by its addition chain of squarings, returns the inverse of every non-zero
  block: the product with the argument, computed by gf128Mul, is OneBlock, which is the
  assertion at the end of the function.\<close>

theorem gf128Inv_correct: "x \<noteq> 0 \<Longrightarrow> gf128Mul (gf128Inv x) x = 1"
proof -
  assume "x \<noteq> 0"
  then have "GF x \<noteq> 0" by (simp add: GF_zero [symmetric])
  then have "GF (gf128Mul (gf128Inv x) x) = GF 1"
    by (simp add: GF_gf128Inv_inverse GF_one)
  then show ?thesis by (simp only: GF_inject_iff)
qed

theorem gf128Inv_correct_witness: "gf128Mul (gf128Inv 2) 2 = 1 \<and> (2 :: block) \<noteq> 0"
  using gf128Inv_correct [of 2] by simp

subsection \<open>Powers\<close>

text \<open>\<open>block::gf128Pow\<close>: square and multiply over the bits of the exponent. The zero block
  has its own branch, so its zeroth power is zero.\<close>

fun gf128Pow_loop :: "nat \<Rightarrow> block \<Rightarrow> block \<Rightarrow> block" where
  "gf128Pow_loop i s pow2 =
     (if i = 0 then s
      else gf128Pow_loop (i div 2) (if odd i then gf128Mul s pow2 else s) (gf128Mul pow2 pow2))"

declare gf128Pow_loop.simps [simp del]

definition gf128Pow :: "block \<Rightarrow> u64 \<Rightarrow> block" where
  "gf128Pow x i = (if x = 0 then 0 else gf128Pow_loop (unat i) 1 x)"

lemma GF_gf128Pow_loop: "GF (gf128Pow_loop i s p) = GF s * GF p ^ i"
proof (induction i s p rule: gf128Pow_loop.induct)
  case (1 i s p)
  show ?case
  proof (cases "i = 0")
    case True
    then show ?thesis by (simp add: gf128Pow_loop.simps)
  next
    case False
    have "GF p ^ i = (GF p * GF p) ^ (i div 2) * GF p ^ (i mod 2)"
      by (simp flip: power_add power_mult power2_eq_square)
    with 1 [OF False] False show ?thesis
      by (simp add: gf128Pow_loop.simps [of i] odd_iff_mod_2_eq_one ac_simps)
  qed
qed

text \<open>Gf128Pow terminates and returns the power of its argument in GF(2^128), except that
  every power of the zero block, the zeroth included, is the zero block.\<close>

lemma gf128Pow_correct:
  "GF (gf128Pow x i) = (if x = 0 then 0 else GF x ^ unat i)"
  by (simp add: gf128Pow_def GF_gf128Pow_loop GF_zero GF_one)

end
