(* ===== verification/Gf128Matrix.thy ===== *)
theory Gf128Matrix
  imports GfField
begin

section \<open>Matrices over GF(2^128)\<close>

text \<open>
  \<open>gf128Inv(Matrix<block>)\<close> and \<open>gf128Mul(Matrix<block>, Matrix<block>)\<close> of
  \<open>src/volePSI/PaxosImpl.h\<close>. A \<open>Matrix<block>\<close> is the list of its rows. The
  Gauss-Jordan elimination is modelled with the pivot search of the code, which looks for a
  lower row whose entry is \<open>OneBlock\<close>.

  The lemmas show that what the inversion returns is an inverse, on both sides, and that it
  returns the empty matrix for some matrices that are invertible.
\<close>

type_synonym 'a mtx = "'a list list"

definition is_mtx :: "nat \<Rightarrow> nat \<Rightarrow> 'a mtx \<Rightarrow> bool" where
  "is_mtx n m M \<longleftrightarrow> length M = n \<and> (\<forall>r\<in>set M. length r = m)"

definition mtx_cols :: "'a mtx \<Rightarrow> nat" where
  "mtx_cols M = (case M of [] \<Rightarrow> 0 | r # _ \<Rightarrow> length r)"

lemma is_mtx_iff: "is_mtx n m M \<longleftrightarrow> length M = n \<and> (\<forall>i<n. length (M ! i) = m)"
  by (auto simp: is_mtx_def all_set_conv_all_nth)

lemma is_mtx_length: "is_mtx n m M \<Longrightarrow> length M = n"
  by (simp add: is_mtx_def)

lemma is_mtx_row: "is_mtx n m M \<Longrightarrow> i < n \<Longrightarrow> length (M ! i) = m"
  by (simp add: is_mtx_iff)

lemmas is_mtxD = is_mtx_length is_mtx_row

lemma is_mtx_update: "is_mtx n m M \<Longrightarrow> length r = m \<Longrightarrow> is_mtx n m (M[i := r])"
  by (cases "i < n") (simp_all add: is_mtx_iff nth_list_update)

lemma is_mtx_cols: "is_mtx n m M \<Longrightarrow> 0 < n \<Longrightarrow> mtx_cols M = m"
  by (cases M) (auto simp: is_mtx_def mtx_cols_def)

definition gf128_eye :: "nat \<Rightarrow> block mtx" where
  "gf128_eye n = map (\<lambda>i. map (\<lambda>j. if i = j then 1 else 0) [0..<n]) [0..<n]"

lemma is_mtx_eye [simp]: "is_mtx n n (gf128_eye n)"
  by (auto simp: is_mtx_def gf128_eye_def)

subsection \<open>The operations\<close>

definition swapRows :: "nat \<Rightarrow> nat \<Rightarrow> 'a mtx \<Rightarrow> 'a mtx" where
  "swapRows i j M = M[i := M ! j, j := M ! i]"

definition scaleRow :: "nat \<Rightarrow> block \<Rightarrow> block mtx \<Rightarrow> block mtx" where
  "scaleRow i c M = M[i := map (\<lambda>x. gf128Mul x c) (M ! i)]"

definition elimRow :: "nat \<Rightarrow> nat \<Rightarrow> block \<Rightarrow> block mtx \<Rightarrow> block mtx" where
  "elimRow i j c M = M[j := map2 (\<lambda>x y. x XOR gf128Mul y c) (M ! j) (M ! i)]"

text \<open>Lines 76 to 101: the row swap of column \<open>i\<close>; \<open>None\<close> is \<open>return {}\<close>.\<close>

definition gf128InvMtx_pivot ::
    "nat \<Rightarrow> nat \<Rightarrow> block mtx \<times> block mtx \<Rightarrow> (block mtx \<times> block mtx) option" where
  "gf128InvMtx_pivot n i s =
     (let (mtx, Inv) = s in
      if mtx ! i ! i = 0
      then (let (mtx, Inv) =
                  (case List.find (\<lambda>j. mtx ! j ! i = 1) [i + 1..<n] of
                     None \<Rightarrow> (mtx, Inv)
                   | Some j \<Rightarrow> (swapRows i j mtx, swapRows i j Inv))
            in if mtx ! i ! i = 0 then None else Some (mtx, Inv))
      else Some s)"

definition gf128InvMtx_elimStep :: "nat \<Rightarrow> nat \<Rightarrow> block mtx \<times> block mtx \<Rightarrow> block mtx \<times> block mtx" where
  "gf128InvMtx_elimStep i j s =
     (let (mtx, Inv) = s in
      if j \<noteq> i
      then (let mtx_ji = mtx ! j ! i in (elimRow i j mtx_ji mtx, elimRow i j mtx_ji Inv))
      else (mtx, Inv))"

definition gf128InvMtx_elim :: "nat \<Rightarrow> nat \<Rightarrow> block mtx \<times> block mtx \<Rightarrow> block mtx \<times> block mtx" where
  "gf128InvMtx_elim n i s =
     (let (mtx, Inv) = s;
          mtx_ii_inv = gf128Inv (mtx ! i ! i);
          mtx = scaleRow i mtx_ii_inv mtx;
          Inv = scaleRow i mtx_ii_inv Inv
      in fold (gf128InvMtx_elimStep i) [0..<n] (mtx, Inv))"

fun gf128InvMtx_loop ::
    "nat \<Rightarrow> nat list \<Rightarrow> block mtx \<times> block mtx \<Rightarrow> (block mtx \<times> block mtx) option" where
  "gf128InvMtx_loop n [] s = Some s"
| "gf128InvMtx_loop n (i # is) s =
     (case gf128InvMtx_pivot n i s of
        None \<Rightarrow> None
      | Some s' \<Rightarrow> gf128InvMtx_loop n is (gf128InvMtx_elim n i s'))"

definition gf128InvMtx :: "block mtx \<Rightarrow> block mtx res" where
  "gf128InvMtx mtx =
     (let n = length mtx in
      if n = mtx_cols mtx
      then (case gf128InvMtx_loop n [0..<n] (mtx, gf128_eye n) of
              None \<Rightarrow> Inr []
            | Some (_, Inv) \<Rightarrow> Inr Inv)
      else Inl AssertFail)"

definition gf128MulMtx :: "block mtx \<Rightarrow> block mtx \<Rightarrow> block mtx res" where
  "gf128MulMtx m0 m1 =
     (if mtx_cols m0 = length m1
      then Inr (map (\<lambda>r. map (\<lambda>j.
             fold (\<lambda>k v. v XOR gf128Mul (r ! k) (m1 ! k ! j)) [0..<mtx_cols m0] 0)
             [0..<mtx_cols m1]) m0)
      else Inl AssertFail)"

subsection \<open>Rows as linear equations\<close>

text \<open>The equation a row of the pair (mtx, Inv) stands for: \<open>mtx_r * v = Inv_r * b\<close>, as a
  sum that is zero.\<close>

definition dotl :: "block list \<Rightarrow> (nat \<Rightarrow> gf128) \<Rightarrow> gf128" where
  "dotl r v = (\<Sum>k<length r. GF (r ! k) * v k)"

definition rowEq :: "block mtx \<times> block mtx \<Rightarrow> (nat \<Rightarrow> gf128) \<Rightarrow> (nat \<Rightarrow> gf128) \<Rightarrow> nat \<Rightarrow> gf128" where
  "rowEq s v b r = dotl (fst s ! r) v + dotl (snd s ! r) b"

definition sameSols :: "nat \<Rightarrow> block mtx \<times> block mtx \<Rightarrow> block mtx \<times> block mtx \<Rightarrow> bool" where
  "sameSols n s t \<longleftrightarrow>
     (\<forall>v b. (\<forall>r<n. rowEq s v b r = 0) \<longleftrightarrow> (\<forall>r<n. rowEq t v b r = 0))"

definition pair_mtx :: "nat \<Rightarrow> block mtx \<times> block mtx \<Rightarrow> bool" where
  "pair_mtx n s \<longleftrightarrow> is_mtx n n (fst s) \<and> is_mtx n n (snd s)"

lemma sameSols_refl [simp]: "sameSols n s s"
  by (simp add: sameSols_def)

lemma sameSols_trans [trans]: "sameSols n s t \<Longrightarrow> sameSols n t u \<Longrightarrow> sameSols n s u"
  by (simp add: sameSols_def)

lemma dotl_scale: "dotl (map (\<lambda>x. gf128Mul x c) r) v = GF c * dotl r v"
  by (simp add: dotl_def sum_distrib_left ac_simps)

lemma dotl_elim:
  "length r = length q \<Longrightarrow>
     dotl (map2 (\<lambda>x y. x XOR gf128Mul y c) r q) v = dotl r v + GF c * dotl q v"
  by (simp add: dotl_def sum_distrib_left sum.distrib algebra_simps flip: GF_add)

lemma dotl_eye: "i < n \<Longrightarrow> dotl (gf128_eye n ! i) v = v i"
proof -
  assume i: "i < n"
  then have "dotl (gf128_eye n ! i) v = (\<Sum>k<n. if i = k then v k else 0)"
    unfolding dotl_def by (intro sum.cong) (auto simp: gf128_eye_def GF_one GF_zero)
  with i show ?thesis by (simp add: sum.delta)
qed

lemma rowEq_swap:
  assumes "pair_mtx n (M, I)" "i < n" "j < n"
  shows "sameSols n (M, I) (swapRows i j M, swapRows i j I)"
proof -
  have eq: "rowEq (swapRows i j M, swapRows i j I) v b r =
      rowEq (M, I) v b (if r = j then i else if r = i then j else r)" if "r < n" for v b r
    using assms that by (auto simp: rowEq_def swapRows_def pair_mtx_def is_mtx_iff nth_list_update)
  show ?thesis
    unfolding sameSols_def
  proof (intro allI iffI impI)
    fix v b r
    assume "\<forall>r<n. rowEq (swapRows i j M, swapRows i j I) v b r = 0" and "r < n"
    then have "rowEq (M, I) v b (if r' = j then i else if r' = i then j else r') = 0" if "r' < n" for r'
      using that by (simp add: eq)
    from this [of i] this [of j] this [of r] assms(2,3) \<open>r < n\<close>
    show "rowEq (M, I) v b r = 0" by (cases "r = i"; cases "r = j") simp_all
  qed (auto simp: eq assms(2,3))
qed

lemma rowEq_scale:
  assumes "pair_mtx n (M, I)" "i < n" "c \<noteq> 0"
  shows "sameSols n (M, I) (scaleRow i c M, scaleRow i c I)"
proof -
  have "rowEq (scaleRow i c M, scaleRow i c I) v b r =
      (if r = i then GF c * rowEq (M, I) v b r else rowEq (M, I) v b r)" if "r < n" for v b r
    using assms that
    by (auto simp: rowEq_def scaleRow_def pair_mtx_def is_mtx_iff nth_list_update dotl_scale distrib_left)
  moreover have "GF c \<noteq> 0" using assms(3) by (simp add: GF_zero [symmetric])
  ultimately show ?thesis by (auto simp: sameSols_def)
qed

lemma rowEq_elim:
  assumes "pair_mtx n (M, I)" "i < n" "j < n" "i \<noteq> j"
  shows "sameSols n (M, I) (elimRow i j c M, elimRow i j c I)"
proof -
  have eq: "rowEq (elimRow i j c M, elimRow i j c I) v b r =
      (if r = j then rowEq (M, I) v b j + GF c * rowEq (M, I) v b i else rowEq (M, I) v b r)"
    if "r < n" for v b r
    using assms that
    by (auto simp: rowEq_def elimRow_def pair_mtx_def is_mtx_iff nth_list_update dotl_elim algebra_simps)
  show ?thesis
    unfolding sameSols_def
  proof (intro allI iffI impI)
    fix v b r
    assume "\<forall>r<n. rowEq (elimRow i j c M, elimRow i j c I) v b r = 0" and "r < n"
    then have all: "\<And>r. r < n \<Longrightarrow> (if r = j then rowEq (M, I) v b j + GF c * rowEq (M, I) v b i
        else rowEq (M, I) v b r) = 0" by (simp add: eq)
    from all [of i] assms have "rowEq (M, I) v b i = 0" by simp
    with all [of r] \<open>r < n\<close> show "rowEq (M, I) v b r = 0" by (auto split: if_splits)
  qed (auto simp: eq assms)
qed

lemma pair_mtx_ops:
  assumes "pair_mtx n (M, I)" "i < n" "j < n"
  shows "pair_mtx n (swapRows i j M, swapRows i j I)"
    and "pair_mtx n (scaleRow i c M, scaleRow i c I)"
    and "pair_mtx n (elimRow i j c M, elimRow i j c I)"
  using assms
  by (simp_all add: pair_mtx_def swapRows_def scaleRow_def elimRow_def is_mtx_iff nth_list_update)

subsection \<open>The elimination\<close>

definition unitCol :: "nat \<Rightarrow> nat \<Rightarrow> block mtx \<Rightarrow> bool" where
  "unitCol n k M \<longleftrightarrow> (\<forall>r<n. M ! r ! k = (if r = k then 1 else 0))"

definition gj_inv :: "nat \<Rightarrow> block mtx \<Rightarrow> nat \<Rightarrow> block mtx \<times> block mtx \<Rightarrow> bool" where
  "gj_inv n M0 i s \<longleftrightarrow> pair_mtx n s \<and> sameSols n (M0, gf128_eye n) s \<and> (\<forall>k<i. unitCol n k (fst s))"

lemma gf128Mul_0 [simp]: "gf128Mul 0 c = 0"
  by (metis GF_gf128Mul GF_inject_iff GF_zero mult_zero_left)

lemma gf128Mul_1 [simp]: "gf128Mul 1 c = c"
  by (metis GF_gf128Mul GF_inject_iff GF_one mult_1_left)

lemma gf128Mul_inv: "x \<noteq> 0 \<Longrightarrow> gf128Mul x (gf128Inv x) = 1"
proof -
  assume "x \<noteq> 0"
  then have "GF x \<noteq> 0" by (simp add: GF_zero [symmetric])
  then have "GF (gf128Mul x (gf128Inv x)) = GF 1" by (simp add: GF_gf128Inv_inverse GF_one)
  then show ?thesis by (simp only: GF_inject_iff)
qed

lemma pivot_inv:
  assumes "gj_inv n M0 i s" "i < n" "gf128InvMtx_pivot n i s = Some t"
  shows "gj_inv n M0 i t" "fst t ! i ! i \<noteq> 0"
proof -
  obtain M I where s: "s = (M, I)" by fastforce
  have "gj_inv n M0 i t \<and> fst t ! i ! i \<noteq> 0"
  proof (cases "M ! i ! i = 0")
    case False
    with assms s show ?thesis by (auto simp: gf128InvMtx_pivot_def)
  next
    case True
    with assms s obtain j where j: "List.find (\<lambda>j. M ! j ! i = 1) [i + 1..<n] = Some j"
      and t: "t = (swapRows i j M, swapRows i j I)" and nz: "swapRows i j M ! i ! i \<noteq> 0"
      by (auto simp: gf128InvMtx_pivot_def Let_def split: option.splits if_splits)
    from j have "i < j" "j < n" by (auto simp: find_Some_iff simp del: upt_Suc)
    with assms(1,2) s t have "pair_mtx n t" "sameSols n s t"
      by (auto simp: gj_inv_def intro: rowEq_swap pair_mtx_ops)
    moreover have "unitCol n k (swapRows i j M)" if "k < i" for k
      using assms(1) s that \<open>i < j\<close> \<open>j < n\<close>
      by (auto simp: gj_inv_def unitCol_def swapRows_def pair_mtx_def is_mtx_iff nth_list_update)
    ultimately show ?thesis
      using assms(1) s t nz by (auto simp: gj_inv_def intro: sameSols_trans)
  qed
  then show "gj_inv n M0 i t" "fst t ! i ! i \<noteq> 0" by auto
qed

lemma elim_fold:
  assumes "gj_inv n M0 i (M, I)" "i < n" "M ! i ! i = 1" "m \<le> n"
    and "(M', I') = fold (gf128InvMtx_elimStep i) [0..<m] (M, I)"
  shows "gj_inv n M0 i (M', I') \<and> M' ! i = M ! i \<and> (\<forall>r<m. r \<noteq> i \<longrightarrow> M' ! r ! i = 0)"
  using assms(4,5)
proof (induction m arbitrary: M' I')
  case 0
  with assms(1) show ?case by simp
next
  case (Suc m)
  obtain Mp Ip where p: "(Mp, Ip) = fold (gf128InvMtx_elimStep i) [0..<m] (M, I)"
    using surj_pair by metis
  with Suc have IH: "gj_inv n M0 i (Mp, Ip)" "Mp ! i = M ! i" "\<forall>r<m. r \<noteq> i \<longrightarrow> Mp ! r ! i = 0"
    by auto
  show ?case
  proof (cases "m = i")
    case True
    with Suc.prems p have "(M', I') = gf128InvMtx_elimStep i m (Mp, Ip)" by (simp flip: p)
    with True have "(M', I') = (Mp, Ip)" by (simp add: gf128InvMtx_elimStep_def)
    with IH True show ?thesis by (auto simp: less_Suc_eq)
  next
    case False
    let ?c = "Mp ! m ! i"
    have M': "(M', I') = (elimRow i m ?c Mp, elimRow i m ?c Ip)"
    proof -
      have "(M', I') = gf128InvMtx_elimStep i m (Mp, Ip)" using Suc.prems by (simp flip: p)
      with False show ?thesis by (simp add: gf128InvMtx_elimStep_def Let_def)
    qed
    have m: "m < n" using Suc.prems by simp
    have pm: "pair_mtx n (Mp, Ip)" using IH by (simp add: gj_inv_def)
    then have len: "length (Mp ! m) = n" "length (Mp ! i) = n" "length Mp = n"
      using m assms(2) by (auto simp: pair_mtx_def is_mtx_iff)
    have "sameSols n (Mp, Ip) (elimRow i m ?c Mp, elimRow i m ?c Ip)"
      using pm assms(2) m False by (intro rowEq_elim) auto
    moreover have "pair_mtx n (elimRow i m ?c Mp, elimRow i m ?c Ip)"
      using pm assms(2) m by (rule pair_mtx_ops)
    moreover have "unitCol n k (elimRow i m ?c Mp)" if "k < i" for k
      using IH(1) that len m assms(2)
      by (auto simp: gj_inv_def unitCol_def elimRow_def nth_list_update)
    ultimately have "gj_inv n M0 i (M', I')"
      using IH(1) unfolding M' by (auto simp: gj_inv_def intro: sameSols_trans)
    moreover have "M' ! i = M ! i" using M' False IH(2) by (auto simp: elimRow_def)
    moreover have "M' ! r ! i = 0" if "r < Suc m" "r \<noteq> i" for r
      using M' that len m IH(2,3) assms(2,3) by (auto simp: elimRow_def nth_list_update less_Suc_eq)
    ultimately show ?thesis by blast
  qed
qed

lemma elim_inv:
  assumes "gj_inv n M0 i s" "i < n" "fst s ! i ! i \<noteq> 0"
  shows "gj_inv n M0 (Suc i) (gf128InvMtx_elim n i s)"
proof -
  obtain M I where s: "s = (M, I)" by fastforce
  let ?c = "gf128Inv (M ! i ! i)"
  have nz: "M ! i ! i \<noteq> 0" using assms(3) s by simp
  have pm: "pair_mtx n (M, I)" using assms(1) s by (simp add: gj_inv_def)
  then have len: "length M = n" "\<And>r. r < n \<Longrightarrow> length (M ! r) = n" by (auto simp: pair_mtx_def is_mtx_iff)
  have c: "?c \<noteq> 0"
    using gf128Mul_inv [OF nz] by (metis GF_gf128Mul GF_inject_iff GF_zero mult_zero_right zero_neq_one)
  have "pair_mtx n (scaleRow i ?c M, scaleRow i ?c I)"
    using pm assms(2) assms(2) by (rule pair_mtx_ops)
  moreover have "sameSols n (M0, gf128_eye n) (scaleRow i ?c M, scaleRow i ?c I)"
    using assms(1) s rowEq_scale [OF pm assms(2) c] by (auto simp: gj_inv_def intro: sameSols_trans)
  moreover have "unitCol n k (scaleRow i ?c M)" if "k < i" for k
    using assms(1,2) s that len by (auto simp: gj_inv_def unitCol_def scaleRow_def nth_list_update)
  ultimately have "gj_inv n M0 i (scaleRow i ?c M, scaleRow i ?c I)"
    by (simp add: gj_inv_def)
  moreover have "scaleRow i ?c M ! i ! i = 1"
    using assms(2) len nz by (simp add: scaleRow_def gf128Mul_inv)
  moreover obtain M' I' where r: "(M', I') = fold (gf128InvMtx_elimStep i) [0..<n] (scaleRow i ?c M, scaleRow i ?c I)"
    using surj_pair by metis
  ultimately have "gj_inv n M0 i (M', I')" "M' ! i ! i = 1" "\<forall>r<n. r \<noteq> i \<longrightarrow> M' ! r ! i = 0"
    using elim_fold [OF _ assms(2) _ order_refl r] by auto
  moreover have "gf128InvMtx_elim n i s = (M', I')"
    by (simp add: gf128InvMtx_elim_def s Let_def flip: r)
  ultimately show ?thesis by (auto simp: gj_inv_def unitCol_def less_Suc_eq)
qed

lemma gf128InvMtx_loop_inv:
  assumes "gf128InvMtx_loop n [i..<n] s = Some t" "gj_inv n M0 i s" "i \<le> n"
  shows "gj_inv n M0 n t"
  using assms
proof (induction "n - i" arbitrary: i s)
  case 0
  then show ?case by simp
next
  case (Suc k)
  then have i: "i < n" by simp
  with Suc.prems obtain s' where s': "gf128InvMtx_pivot n i s = Some s'"
    and loop: "gf128InvMtx_loop n [Suc i..<n] (gf128InvMtx_elim n i s') = Some t"
    by (auto simp: upt_conv_Cons split: option.splits)
  from pivot_inv [OF Suc.prems(2) i s'] i have "gj_inv n M0 (Suc i) (gf128InvMtx_elim n i s')"
    by (intro elim_inv) auto
  with Suc.hyps(1) [of "Suc i"] Suc.hyps(2) loop i show ?case by simp
qed

text \<open>What a returned inverse solves: \<open>M v = b\<close> has exactly one solution, \<open>v = Inv b\<close>.\<close>

lemma gf128InvMtx_solves:
  assumes "gf128InvMtx M = Inr Inv" "is_mtx n n M" "Inv \<noteq> []"
  shows "is_mtx n n Inv"
    and "(\<forall>r<n. dotl (M ! r) v = b r) \<longleftrightarrow> (\<forall>r<n. v r = dotl (Inv ! r) b)"
proof -
  have "length M = n" using assms(2) by (rule is_mtx_length)
  with assms(1,3) obtain M' where
    loop: "gf128InvMtx_loop n [0..<n] (M, gf128_eye n) = Some (M', Inv)"
    by (auto simp: gf128InvMtx_def Let_def split: if_splits option.splits)
  have "gj_inv n M 0 (M, gf128_eye n)"
    using assms(2) by (simp add: gj_inv_def pair_mtx_def)
  with loop have inv: "gj_inv n M n (M', Inv)" by (rule gf128InvMtx_loop_inv) simp
  then show "is_mtx n n Inv" by (simp add: gj_inv_def pair_mtx_def)
  have M': "dotl (M' ! r) v = v r" if "r < n" for r v
  proof -
    have len: "length (M' ! r) = n" using inv that by (simp add: gj_inv_def pair_mtx_def is_mtx_iff)
    have "dotl (M' ! r) v = (\<Sum>k<n. if r = k then v k else 0)"
      unfolding dotl_def len
    proof (intro sum.cong refl)
      fix k assume "k \<in> {..<n}"
      then have "M' ! r ! k = (if r = k then 1 else 0)"
        using inv that by (simp add: gj_inv_def unitCol_def)
      then show "GF (M' ! r ! k) * v k = (if r = k then v k else 0)"
        by (simp add: GF_one GF_zero)
    qed
    with that show ?thesis by (simp add: sum.delta)
  qed
  have "(\<forall>r<n. rowEq (M, gf128_eye n) v b r = 0) \<longleftrightarrow> (\<forall>r<n. rowEq (M', Inv) v b r = 0)"
    using inv by (simp add: gj_inv_def sameSols_def)
  then show "(\<forall>r<n. dotl (M ! r) v = b r) \<longleftrightarrow> (\<forall>r<n. v r = dotl (Inv ! r) b)"
    by (simp add: rowEq_def dotl_eye M' gf_add_eq_0_iff)
qed

subsection \<open>The matrix product\<close>

lemma GF_fold_xor:
  "GF (fold (\<lambda>k v. v XOR f k) ks v) = GF v + (\<Sum>k\<leftarrow>ks. GF (f k))"
  by (induction ks arbitrary: v) (simp_all add: ac_simps flip: GF_add)

lemma GF_fold_xor_upt:
  "GF (fold (\<lambda>k v. v XOR f k) [0..<n] v) = GF v + (\<Sum>k<n. GF (f k))"
  by (simp add: GF_fold_xor interv_sum_list_conv_sum_set_nat atLeast0LessThan)

lemma gf128MulMtx_entries:
  assumes "is_mtx n m A" "is_mtx m p B" "0 < n" "0 < m"
  obtains C where "gf128MulMtx A B = Inr C" "is_mtx n p C"
    "\<And>i j. i < n \<Longrightarrow> j < p \<Longrightarrow> GF (C ! i ! j) = dotl (A ! i) (\<lambda>k. GF (B ! k ! j))"
proof -
  let ?C = "map (\<lambda>r. map (\<lambda>j.
             fold (\<lambda>k v. v XOR gf128Mul (r ! k) (B ! k ! j)) [0..<m] 0) [0..<p]) A"
  have "gf128MulMtx A B = Inr ?C"
    using assms by (simp add: gf128MulMtx_def is_mtx_cols [OF assms(1)] is_mtx_cols [OF assms(2)] is_mtx_length)
  moreover have "is_mtx n p ?C" using assms(1) by (auto simp: is_mtx_def)
  moreover have "GF (?C ! i ! j) = dotl (A ! i) (\<lambda>k. GF (B ! k ! j))" if "i < n" "j < p" for i j
    using that assms(1) by (simp add: GF_fold_xor_upt dotl_def GF_zero is_mtx_iff)
  ultimately show ?thesis using that by blast
qed

lemma mtx_eqI:
  assumes "is_mtx n m A" "is_mtx n m B" "\<And>i j. i < n \<Longrightarrow> j < m \<Longrightarrow> A ! i ! j = B ! i ! j"
  shows "A = B"
  using assms by (auto simp: is_mtx_iff intro!: nth_equalityI)

lemma GF_eye: "i < n \<Longrightarrow> j < n \<Longrightarrow> GF (gf128_eye n ! i ! j) = (if i = j then 1 else 0)"
  by (simp add: gf128_eye_def GF_one GF_zero)

lemma gf128InvMtx_correct_aux:
  assumes "is_mtx n n M" and "gf128InvMtx M = Inr Inv" and "Inv \<noteq> []"
  shows "gf128MulMtx M Inv = Inr (gf128_eye n) \<and> gf128MulMtx Inv M = Inr (gf128_eye n)"
proof -
  note sol = gf128InvMtx_solves [OF assms(2,1,3)]
  have Inv: "is_mtx n n Inv" by (rule sol(1))
  then have n: "0 < n" using assms(3) by (auto simp: is_mtx_iff)
  obtain C where C: "gf128MulMtx M Inv = Inr C" "is_mtx n n C"
    and eC: "\<And>i j. i < n \<Longrightarrow> j < n \<Longrightarrow> GF (C ! i ! j) = dotl (M ! i) (\<lambda>k. GF (Inv ! k ! j))"
    using gf128MulMtx_entries [OF assms(1) Inv n n] by blast
  obtain D where D: "gf128MulMtx Inv M = Inr D" "is_mtx n n D"
    and eD: "\<And>i j. i < n \<Longrightarrow> j < n \<Longrightarrow> GF (D ! i ! j) = dotl (Inv ! i) (\<lambda>k. GF (M ! k ! j))"
    using gf128MulMtx_entries [OF Inv assms(1) n n] by blast
  have unit: "dotl r (\<lambda>k. if k = j then 1 else 0) = GF (r ! j)" if "j < length r" for r j
    using that by (simp add: dotl_def if_distrib cong: if_cong)
  have "GF (C ! i ! j) = GF (gf128_eye n ! i ! j)" if "i < n" "j < n" for i j
  proof -
    have "\<forall>r<n. GF (Inv ! r ! j) = dotl (Inv ! r) (\<lambda>k. if k = j then 1 else 0)"
      using that Inv by (simp add: unit is_mtx_iff)
    then have "dotl (M ! i) (\<lambda>k. GF (Inv ! k ! j)) = (if i = j then 1 else 0)"
      using sol(2) [of "\<lambda>k. GF (Inv ! k ! j)" "\<lambda>k. if k = j then 1 else 0"] that by blast
    with eC that show ?thesis by (simp add: GF_eye)
  qed
  moreover have "GF (D ! i ! j) = GF (gf128_eye n ! i ! j)" if "i < n" "j < n" for i j
  proof -
    have "\<forall>r<n. dotl (M ! r) (\<lambda>k. if k = j then 1 else 0) = GF (M ! r ! j)"
      using that assms(1) by (simp add: unit is_mtx_iff)
    then have "(if i = j then 1 else 0) = dotl (Inv ! i) (\<lambda>k. GF (M ! k ! j))"
      using sol(2) [of "\<lambda>k. if k = j then 1 else 0" "\<lambda>r. GF (M ! r ! j)"] that by blast
    with eD that show ?thesis by (simp add: GF_eye)
  qed
  ultimately show ?thesis
    using C D by (metis GF_inject_iff is_mtx_eye mtx_eqI)
qed

text \<open>C24: whenever the matrix version of gf128Inv returns a non-empty matrix for a square
  matrix, that matrix is a two-sided inverse: its products with the argument, computed by the
  matrix version of gf128Mul, are the identity.\<close>

theorem gf128InvMtx_correct:
  assumes "is_mtx n n M" and "gf128InvMtx M = Inr Inv" and "Inv \<noteq> []"
  shows "gf128MulMtx M Inv = Inr (gf128_eye n) \<and> gf128MulMtx Inv M = Inr (gf128_eye n)"
  using assms by (rule gf128InvMtx_correct_aux)

text \<open>The inverse of the diagonal matrix with one entry.\<close>

theorem gf128InvMtx_correct_witness:
  "is_mtx 1 1 [[1 :: block]] \<and> gf128InvMtx [[1]] = Inr [[1]] \<and>
   gf128MulMtx [[1]] [[1]] = Inr (gf128_eye 1)"
proof -
  have 1: "is_mtx 1 1 [[1 :: block]]" by (simp add: is_mtx_def)
  have "gf128Inv 1 = 1" using gf128Mul_inv [of 1] by simp
  then have 2: "gf128InvMtx [[1]] = Inr [[1]]"
    by (simp add: gf128InvMtx_def mtx_cols_def gf128InvMtx_pivot_def gf128InvMtx_elim_def
        gf128InvMtx_elimStep_def scaleRow_def gf128_eye_def)
  from gf128InvMtx_correct [OF 1 2] 1 2 show ?thesis by simp
qed

subsection \<open>The pivot search misses pivots\<close>

lemma gf128Mul_0_right [simp]: "gf128Mul c 0 = 0"
  by (metis GF_gf128Mul GF_inject_iff GF_zero mult_zero_right)

text \<open>C25: the comment of the pivot search says that it looks for a lower row whose entry is
  non-zero, but it compares the entry with OneBlock: for the invertible anti-diagonal matrix of
  any entry that is neither zero nor one it finds no pivot and returns the empty matrix, which
  its caller reads as "not invertible".\<close>

theorem gf128InvMtx_misses_pivot:
  assumes "c \<noteq> 0" and "c \<noteq> 1"
  shows "gf128InvMtx [[0, c], [c, 0]] = Inr [] \<and>
    gf128MulMtx [[0, c], [c, 0]] [[0, gf128Inv c], [gf128Inv c, 0]] = Inr (gf128_eye 2)"
proof
  show "gf128InvMtx [[0, c], [c, 0]] = Inr []"
    using assms
    by (simp add: gf128InvMtx_def mtx_cols_def gf128InvMtx_pivot_def numeral_2_eq_2 upt_rec)
  show "gf128MulMtx [[0, c], [c, 0]] [[0, gf128Inv c], [gf128Inv c, 0]] = Inr (gf128_eye 2)"
    by (simp add: gf128MulMtx_def mtx_cols_def gf128_eye_def gf128Mul_inv [OF assms(1)]
        numeral_2_eq_2 upt_rec)
qed

theorem gf128InvMtx_misses_pivot_witness:
  "gf128InvMtx [[0, 2], [2, 0]] = Inr [] \<and> (2 :: block) \<noteq> 0 \<and> (2 :: block) \<noteq> 1"
  using gf128InvMtx_misses_pivot [of 2] by simp

end
