(* ===== verification/PxVec.thy ===== *)
theory PxVec
  imports Gf128Matrix
begin

section \<open>Vectors of values\<close>

text \<open>
  \<open>PxVector\<close> and \<open>PxMatrix\<close> of \<open>src/volePSI/PxUtil.h\<close>: the value vectors that encoding and
  decoding are templated over, each with its \<open>Helper\<close>, the operations on one element.

  A vector is the list of its elements. An element of a \<open>PxMatrix\<close> is a row; \<open>px_matrix\<close> keeps
  the flat storage of the code and \<open>PxMatrix_rows\<close> is the list of rows it stands for.
  The random generator is a parameter: \<open>rnd n s\<close> draws \<open>n\<close> values from the state \<open>s\<close>.

  The contract of a helper is a locale: elements have coordinates in GF(2^128), \<open>add\<close> adds them,
  and \<open>multAdd\<close> adds a scalar multiple. Every element type is an interpretation.
\<close>

record ('v, 's) px_helper =
  hZero :: 'v
  hNew :: 'v
  hAdd :: "'v \<Rightarrow> 'v \<Rightarrow> 'v"
  hMultAdd :: "'v \<Rightarrow> 'v \<Rightarrow> block \<Rightarrow> 'v res"
  hMultAddBit :: "'v \<Rightarrow> 'v \<Rightarrow> u8 \<Rightarrow> 'v res"
  hRandomize :: "'s \<Rightarrow> 'v \<times> 's"
  hEq :: "'v \<Rightarrow> 'v \<Rightarrow> bool"

subsection \<open>PxVector\<close>

definition zeroOneMask :: "'a::len word list" where "zeroOneMask = [0, - 1]"

definition PxVector_add :: "'a::len word \<Rightarrow> 'a word \<Rightarrow> 'a word" where
  "PxVector_add dst src = dst XOR src"

text \<open>The two branches of \<open>if constexpr\<close> on the element type.\<close>

definition PxVector_multAdd :: "block \<Rightarrow> block \<Rightarrow> block \<Rightarrow> block res" where
  "PxVector_multAdd dst src m = Inr (dst XOR gf128Mul src m)"

definition PxVector_multAdd_throws :: "'a::len word \<Rightarrow> 'a word \<Rightarrow> block \<Rightarrow> 'a word res" where
  "PxVector_multAdd_throws dst src m =
     Inl (RuntimeError ''the gf128 dense encoding is only implemented for block type. '')"

definition PxVector_multAddBit :: "'a::len word \<Rightarrow> 'a word \<Rightarrow> u8 \<Rightarrow> 'a word res" where
  "PxVector_multAddBit dst src b =
     rbind (guardr (b < 2) AssertFail) (\<lambda>_. Inr (dst XOR (src AND zeroOneMask ! unat b)))"

definition PxVector_randomize :: "(nat \<Rightarrow> 's \<Rightarrow> 'a::len word list \<times> 's) \<Rightarrow> 's \<Rightarrow> 'a word \<times> 's" where
  "PxVector_randomize rnd s = (let (xs, s) = rnd 1 s in (hd xs, s))"

definition PxVector_zerofill :: "'a::len word list \<Rightarrow> 'a word list" where
  "PxVector_zerofill v = map (\<lambda>_. 0) v"

definition px_subspan :: "nat \<Rightarrow> nat \<Rightarrow> 'a list \<Rightarrow> 'a list res" where
  "px_subspan offset count v =
     (if offset + count \<le> length v then Inr (take count (drop offset v)) else Inl UB)"

definition PxVector_blocks :: "(nat \<Rightarrow> 's \<Rightarrow> block list \<times> 's) \<Rightarrow> (block, 's) px_helper" where
  "PxVector_blocks rnd = \<lparr>hZero = 0, hNew = 0, hAdd = PxVector_add, hMultAdd = PxVector_multAdd,
     hMultAddBit = PxVector_multAddBit, hRandomize = PxVector_randomize rnd, hEq = (=)\<rparr>"

definition PxVector_words :: "(nat \<Rightarrow> 's \<Rightarrow> 'a::len word list \<times> 's) \<Rightarrow> ('a word, 's) px_helper" where
  "PxVector_words rnd = \<lparr>hZero = 0, hNew = 0, hAdd = PxVector_add, hMultAdd = PxVector_multAdd_throws,
     hMultAddBit = PxVector_multAddBit, hRandomize = PxVector_randomize rnd, hEq = (=)\<rparr>"

subsection \<open>PxMatrix\<close>

record 'a px_matrix =
  pmElements :: "'a list"
  pmRows :: nat
  pmCols :: nat

definition PxMatrix_make :: "nat \<Rightarrow> nat \<Rightarrow> 'a \<Rightarrow> 'a px_matrix" where
  "PxMatrix_make rows cols x = \<lparr>pmElements = replicate (rows * cols) x, pmRows = rows, pmCols = cols\<rparr>"

text \<open>Reading and writing the row that the iterator \<open>m[i]\<close> points to.\<close>

definition PxMatrix_get :: "'a px_matrix \<Rightarrow> nat \<Rightarrow> 'a list res" where
  "PxMatrix_get m i = px_subspan (i * pmCols m) (pmCols m) (pmElements m)"

definition PxMatrix_assign :: "'a px_matrix \<Rightarrow> nat \<Rightarrow> 'a list \<Rightarrow> 'a px_matrix res" where
  "PxMatrix_assign m i src =
     (if i * pmCols m + pmCols m \<le> length (pmElements m) \<and> length src = pmCols m
      then Inr (m\<lparr>pmElements := take (i * pmCols m) (pmElements m) @ src @ drop (i * pmCols m + pmCols m) (pmElements m)\<rparr>)
      else Inl UB)"

definition PxMatrix_subspan :: "nat \<Rightarrow> nat \<Rightarrow> 'a px_matrix \<Rightarrow> 'a px_matrix res" where
  "PxMatrix_subspan offset count m =
     rbind (guardr (offset \<le> pmRows m) AssertFail) (\<lambda>_.
     rbind (guardr (count \<le> pmRows m - offset) AssertFail) (\<lambda>_.
     rbind (px_subspan (offset * pmCols m) (count * pmCols m) (pmElements m)) (\<lambda>es.
     Inr \<lparr>pmElements = es, pmRows = count, pmCols = pmCols m\<rparr>)))"

definition PxMatrix_zerofill :: "'a::len word px_matrix \<Rightarrow> 'a word px_matrix" where
  "PxMatrix_zerofill m = m\<lparr>pmElements := map (\<lambda>_. 0) (pmElements m)\<rparr>"

text \<open>The element-wise loops of the helper.\<close>

definition PxMatrix_add :: "nat \<Rightarrow> 'a::len word list \<Rightarrow> 'a word list \<Rightarrow> 'a word list" where
  "PxMatrix_add cols dst src = fold (\<lambda>i dst. dst[i := dst ! i XOR src ! i]) [0..<cols] dst"

definition PxMatrix_multAdd :: "nat \<Rightarrow> block list \<Rightarrow> block list \<Rightarrow> block \<Rightarrow> block list res" where
  "PxMatrix_multAdd cols dst src m =
     Inr (fold (\<lambda>i dst. dst[i := dst ! i XOR gf128Mul (src ! i) m]) [0..<cols] dst)"

definition PxMatrix_multAdd_throws :: "'a::len word list \<Rightarrow> 'a word list \<Rightarrow> block \<Rightarrow> 'a word list res" where
  "PxMatrix_multAdd_throws dst src m =
     Inl (RuntimeError ''the gf128 dense encoding is only implemented for block type. '')"

definition PxMatrix_multAddBit :: "nat \<Rightarrow> 'a::len word list \<Rightarrow> 'a word list \<Rightarrow> u8 \<Rightarrow> 'a word list res" where
  "PxMatrix_multAddBit cols dst src b =
     rbind (guardr (b < 2) AssertFail) (\<lambda>_.
     Inr (fold (\<lambda>i dst. dst[i := dst ! i XOR (src ! i AND zeroOneMask ! unat b)]) [0..<cols] dst))"

definition PxMatrix_blocks :: "nat \<Rightarrow> (nat \<Rightarrow> 's \<Rightarrow> block list \<times> 's) \<Rightarrow> (block list, 's) px_helper" where
  "PxMatrix_blocks cols rnd = \<lparr>hZero = replicate cols 0, hNew = replicate cols 0, hAdd = PxMatrix_add cols,
     hMultAdd = PxMatrix_multAdd cols, hMultAddBit = PxMatrix_multAddBit cols, hRandomize = rnd cols, hEq = (=)\<rparr>"

definition PxMatrix_words :: "nat \<Rightarrow> (nat \<Rightarrow> 's \<Rightarrow> 'a::len word list \<times> 's) \<Rightarrow> ('a word list, 's) px_helper" where
  "PxMatrix_words cols rnd = \<lparr>hZero = replicate cols 0, hNew = replicate cols 0, hAdd = PxMatrix_add cols,
     hMultAdd = PxMatrix_multAdd_throws, hMultAddBit = PxMatrix_multAddBit cols, hRandomize = rnd cols, hEq = (=)\<rparr>"

subsection \<open>The flat storage is a list of rows\<close>

definition px_matrix_ok :: "'a px_matrix \<Rightarrow> bool" where
  "px_matrix_ok m \<longleftrightarrow> length (pmElements m) = pmRows m * pmCols m"

definition PxMatrix_rows :: "'a px_matrix \<Rightarrow> 'a list list" where
  "PxMatrix_rows m = map (\<lambda>i. take (pmCols m) (drop (i * pmCols m) (pmElements m))) [0..<pmRows m]"

lemma row_bound: "px_matrix_ok m \<Longrightarrow> i < pmRows m \<Longrightarrow> i * pmCols m + pmCols m \<le> length (pmElements m)"
proof -
  assume ok: "px_matrix_ok m" and i: "i < pmRows m"
  from i have "Suc i * pmCols m \<le> pmRows m * pmCols m" by (intro mult_right_mono) simp_all
  with ok show ?thesis by (simp add: px_matrix_ok_def)
qed

lemma length_PxMatrix_rows [simp]: "length (PxMatrix_rows m) = pmRows m"
  by (simp add: PxMatrix_rows_def)

lemma PxMatrix_get_rows:
  "px_matrix_ok m \<Longrightarrow> i < pmRows m \<Longrightarrow> PxMatrix_get m i = Inr (PxMatrix_rows m ! i)"
  using row_bound [of m i] by (simp add: PxMatrix_get_def px_subspan_def PxMatrix_rows_def)

lemma blocks_disjoint: "i \<noteq> j \<Longrightarrow> j * c + c \<le> i * c \<or> i * c + c \<le> j * c" for i j c :: nat
proof -
  assume "i \<noteq> j"
  then have "Suc j \<le> i \<or> Suc i \<le> j" by auto
  then have "Suc j * c \<le> i * c \<or> Suc i * c \<le> j * c" using mult_right_mono [of "Suc j" i c] mult_right_mono [of "Suc i" j c] by auto
  then show ?thesis by (simp add: add.commute)
qed

lemma PxMatrix_assign_rows:
  assumes "px_matrix_ok m" "i < pmRows m" "length src = pmCols m"
  shows "\<exists>m'. PxMatrix_assign m i src = Inr m' \<and> px_matrix_ok m' \<and> pmRows m' = pmRows m \<and> pmCols m' = pmCols m \<and>
    PxMatrix_rows m' = (PxMatrix_rows m)[i := src]"
proof -
  let ?c = "pmCols m" and ?e = "pmElements m"
  let ?e' = "take (i * ?c) ?e @ src @ drop (i * ?c + ?c) ?e"
  have b: "i * ?c + ?c \<le> length ?e" using assms(1,2) by (rule row_bound)
  have len: "length ?e' = length ?e" using b assms(3) by simp
  have row: "take ?c (drop (j * ?c) ?e') = (if j = i then src else take ?c (drop (j * ?c) ?e))" if "j < pmRows m" for j
  proof (cases "j = i")
    case True
    then show ?thesis using b assms(3) by simp
  next
    case False
    have bj: "j * ?c + ?c \<le> length ?e" using assms(1) that by (rule row_bound)
    have "?e' ! (j * ?c + k) = ?e ! (j * ?c + k)" if k: "k < ?c" for k
      using blocks_disjoint [OF False, of ?c] k b bj assms(3) by (auto simp: nth_append)
    moreover have "length (take ?c (drop (j * ?c) ?e')) = ?c" "length (take ?c (drop (j * ?c) ?e)) = ?c"
      using bj len by (simp_all only: length_take length_drop)
    ultimately have "take ?c (drop (j * ?c) ?e') = take ?c (drop (j * ?c) ?e)"
      using bj len by (intro nth_equalityI) (simp_all only: nth_take nth_drop)
    with False show ?thesis by simp
  qed
  let ?m = "m\<lparr>pmElements := ?e'\<rparr>"
  have "PxMatrix_rows ?m = (PxMatrix_rows m)[i := src]"
    using row by (intro nth_equalityI) (simp_all add: PxMatrix_rows_def nth_list_update)
  with b len assms show ?thesis by (intro exI [of _ ?m]) (simp add: PxMatrix_assign_def px_matrix_ok_def)
qed

lemma PxMatrix_subspan_rows:
  assumes "px_matrix_ok m" "offset + count \<le> pmRows m"
  shows "\<exists>m'. PxMatrix_subspan offset count m = Inr m' \<and> px_matrix_ok m' \<and>
    px_subspan offset count (PxMatrix_rows m) = Inr (PxMatrix_rows m')"
proof -
  let ?c = "pmCols m" and ?e = "pmElements m"
  let ?m = "\<lparr>pmElements = take (count * ?c) (drop (offset * ?c) ?e), pmRows = count, pmCols = ?c\<rparr>"
  have "(offset + count) * ?c \<le> pmRows m * ?c" using assms(2) by (rule mult_right_mono) simp
  then have b: "offset * ?c + count * ?c \<le> length ?e"
    using assms(1) by (simp add: px_matrix_ok_def add_mult_distrib)
  have "take ?c (drop ((offset + i) * ?c) ?e) = take ?c (drop (i * ?c) (take (count * ?c) (drop (offset * ?c) ?e)))"
    if "i < count" for i
  proof -
    have "Suc i * ?c \<le> count * ?c" using that by (intro mult_right_mono) simp_all
    then have "?c \<le> count * ?c - i * ?c" by simp
    then show ?thesis by (simp add: drop_take add_mult_distrib add.commute min_absorb1)
  qed
  then have "take count (drop offset (PxMatrix_rows m)) = PxMatrix_rows ?m"
    using assms(2) by (intro nth_equalityI) (simp_all add: PxMatrix_rows_def)
  moreover have "offset \<le> pmRows m" "count \<le> pmRows m - offset" using assms(2) by simp_all
  ultimately show ?thesis using b assms
    by (intro exI [of _ ?m]) (simp add: PxMatrix_subspan_def px_subspan_def px_matrix_ok_def)
qed

lemma PxMatrix_zerofill_rows:
  assumes "px_matrix_ok m"
  shows "PxMatrix_rows (PxMatrix_zerofill m) = replicate (pmRows m) (replicate (pmCols m) 0)"
proof -
  have "take (pmCols m) (drop (i * pmCols m) (map (\<lambda>_. 0) (pmElements m))) = replicate (pmCols m) 0"
    if "i < pmRows m" for i
    using row_bound [OF assms that] by (simp add: drop_map take_map map_replicate_const)
  then have "PxMatrix_rows (PxMatrix_zerofill m) = map (\<lambda>_. replicate (pmCols m) 0) [0..<pmRows m]"
    unfolding PxMatrix_rows_def PxMatrix_zerofill_def by (intro map_cong) simp_all
  then show ?thesis by (simp add: map_replicate_const)
qed

subsection \<open>The contract of a helper\<close>

locale px_space =
  fixes h :: "('v, 's) px_helper" and V :: "'v set" and I :: "'i set" and crd :: "'i \<Rightarrow> 'v \<Rightarrow> gf128"
  assumes zero_V: "hZero h \<in> V" and new_V: "hNew h \<in> V"
    and crd_zero: "i \<in> I \<Longrightarrow> crd i (hZero h) = 0"
    and add_V: "x \<in> V \<Longrightarrow> y \<in> V \<Longrightarrow> hAdd h x y \<in> V"
    and crd_add: "x \<in> V \<Longrightarrow> y \<in> V \<Longrightarrow> i \<in> I \<Longrightarrow> crd i (hAdd h x y) = crd i x + crd i y"
    and crd_eq: "x \<in> V \<Longrightarrow> y \<in> V \<Longrightarrow> (\<And>i. i \<in> I \<Longrightarrow> crd i x = crd i y) \<Longrightarrow> x = y"
    and multAddBit: "x \<in> V \<Longrightarrow> y \<in> V \<Longrightarrow> hMultAddBit h x y b =
      (if b < 2 then Inr (if b = 1 then hAdd h x y else x) else Inl AssertFail)"
    and randomize_V: "fst (hRandomize h s) \<in> V"
    and eq_iff: "x \<in> V \<Longrightarrow> y \<in> V \<Longrightarrow> hEq h x y \<longleftrightarrow> x = y"

text \<open>Element types for which the scalar multiplication is implemented.\<close>

locale px_module = px_space +
  assumes multAdd: "x \<in> V \<Longrightarrow> y \<in> V \<Longrightarrow>
    \<exists>z\<in>V. hMultAdd h x y m = Inr z \<and> (\<forall>i\<in>I. crd i z = crd i x + crd i y * GF m)"

lemma zeroOneMask_nth: "b < 2 \<Longrightarrow> x AND zeroOneMask ! unat b = (if b = 1 then x else 0)" for b :: u8
proof -
  assume "b < 2"
  then have "unat b < 2" by (simp add: word_less_nat_alt)
  moreover have "b = 1 \<longleftrightarrow> unat b = 1" by (simp add: word_unat_eq_iff)
  ultimately show ?thesis by (auto simp: zeroOneMask_def less_Suc_eq numeral_2_eq_2)
qed

lemma PxVector_multAddBit_eq:
  "PxVector_multAddBit x y b = (if b < 2 then Inr (if b = 1 then PxVector_add x y else x) else Inl AssertFail)"
  by (simp add: PxVector_multAddBit_def zeroOneMask_nth PxVector_add_def)

definition bitGF :: "bool \<Rightarrow> gf128" where "bitGF b = (if b then 1 else 0)"

lemma bitGF_xor: "bitGF (a \<noteq> b) = bitGF a + bitGF b"
  by (simp add: bitGF_def)

lemma bitGF_eq [simp]: "bitGF a = bitGF b \<longleftrightarrow> a = b"
  by (auto simp: bitGF_def)

interpretation pxv: px_module "PxVector_blocks rnd" UNIV UNIV "\<lambda>_ :: unit. GF" for rnd
  by unfold_locales
    (simp_all add: PxVector_blocks_def PxVector_multAdd_def PxVector_multAddBit_eq PxVector_add_def GF_zero flip: GF_add)

interpretation pxw: px_space "PxVector_words rnd" UNIV "{..<LENGTH('a::len)}"
    "\<lambda>i (x :: 'a word). bitGF (bit x i)" for rnd
proof unfold_locales
  fix x y :: "'a word" assume "\<And>i. i \<in> {..<LENGTH('a)} \<Longrightarrow> bitGF (bit x i) = bitGF (bit y i)"
  then show "x = y" by (intro bit_word_eqI) simp
next
  fix x y :: "'a word" and b
  show "hMultAddBit (PxVector_words rnd) x y b =
      (if b < 2 then Inr (if b = 1 then hAdd (PxVector_words rnd) x y else x) else Inl AssertFail)"
    by (simp add: PxVector_words_def PxVector_multAddBit_eq)
next
  fix x y :: "'a word" and i
  show "bitGF (bit (hAdd (PxVector_words rnd) x y) i) = bitGF (bit x i) + bitGF (bit y i)"
    by (simp add: PxVector_words_def PxVector_add_def bit_xor_iff flip: bitGF_xor)
qed (simp_all add: PxVector_words_def bitGF_def)

lemma row_loop:
  "cols \<le> length dst \<Longrightarrow> fold (\<lambda>i dst. dst[i := f (dst ! i) i]) [0..<cols] dst = map (\<lambda>i. f (dst ! i) i) [0..<cols] @ drop cols dst"
proof (induction cols)
  case (Suc n)
  then have "drop n dst = dst ! n # drop (Suc n) dst" by (simp add: Cons_nth_drop_Suc)
  with Suc show ?case by (simp add: list_update_append nth_append)
qed simp

lemma row_loop_full: "length dst = cols \<Longrightarrow>
  fold (\<lambda>i dst. dst[i := f (dst ! i) i]) [0..<cols] dst = map (\<lambda>i. f (dst ! i) i) [0..<cols]"
  using row_loop [of cols dst f] by simp

lemma PxMatrix_add_eq: "length dst = cols \<Longrightarrow> PxMatrix_add cols dst src = map (\<lambda>i. dst ! i XOR src ! i) [0..<cols]"
  unfolding PxMatrix_add_def by (rule row_loop_full)

lemma PxMatrix_multAddBit_eq:
  assumes "length x = cols"
  shows "PxMatrix_multAddBit cols x y b = (if b < 2 then Inr (if b = 1 then PxMatrix_add cols x y else x) else Inl AssertFail)"
proof (cases "b < 2")
  case True
  have id: "map (\<lambda>i. x ! i) [0..<cols] = x" using assms map_nth [of x] by simp
  have "fold (\<lambda>i dst. dst[i := dst ! i XOR (y ! i AND zeroOneMask ! unat b)]) [0..<cols] x
      = map (\<lambda>i. x ! i XOR (if b = 1 then y ! i else 0)) [0..<cols]"
    using row_loop_full [OF assms, of "\<lambda>v i. v XOR (y ! i AND zeroOneMask ! unat b)"] by (simp only: zeroOneMask_nth [OF True])
  with True assms id show ?thesis by (cases "b = 1") (simp_all add: PxMatrix_multAddBit_def PxMatrix_add_eq)
qed (simp add: PxMatrix_multAddBit_def)

lemma PxMatrix_space:
  assumes rnd: "\<And>n s. length (fst (rnd n s)) = n"
  shows "px_module (PxMatrix_blocks cols rnd) {x. length x = cols} {..<cols} (\<lambda>i x. GF (x ! i))"
proof unfold_locales
  fix x y :: "block list" and m assume "x \<in> {x. length x = cols}" "y \<in> {x. length x = cols}"
  then show "\<exists>z\<in>{x. length x = cols}. hMultAdd (PxMatrix_blocks cols rnd) x y m = Inr z \<and>
      (\<forall>i\<in>{..<cols}. GF (z ! i) = GF (x ! i) + GF (y ! i) * GF m)"
    by (simp add: PxMatrix_blocks_def PxMatrix_multAdd_def row_loop_full [where f = "\<lambda>v i. v XOR gf128Mul (y ! i) m"] flip: GF_add)
next
  fix x y :: "block list" assume "x \<in> {x. length x = cols}" "y \<in> {x. length x = cols}"
    "\<And>i. i \<in> {..<cols} \<Longrightarrow> GF (x ! i) = GF (y ! i)"
  then show "x = y" by (intro nth_equalityI) auto
qed (simp_all add: PxMatrix_blocks_def PxMatrix_multAddBit_eq PxMatrix_add_eq GF_zero rnd flip: GF_add)

lemma PxMatrix_words_space:
  fixes rnd :: "nat \<Rightarrow> 's \<Rightarrow> 'a::len word list \<times> 's"
  assumes rnd: "\<And>n s. length (fst (rnd n s)) = n"
  shows "px_space (PxMatrix_words cols rnd) {x. length x = cols} ({..<cols} \<times> {..<LENGTH('a)})
    (\<lambda>(i, k) x. bitGF (bit (x ! i) k))"
proof unfold_locales
  fix x y :: "'a word list" assume xy: "x \<in> {x. length x = cols}" "y \<in> {x. length x = cols}"
    and "\<And>i. i \<in> {..<cols} \<times> {..<LENGTH('a)} \<Longrightarrow>
      (case i of (i, k) \<Rightarrow> \<lambda>x. bitGF (bit (x ! i) k)) x = (case i of (i, k) \<Rightarrow> \<lambda>x. bitGF (bit (x ! i) k)) y"
  then have "bit (x ! i) k = bit (y ! i) k" if "i < cols" "k < LENGTH('a)" for i k using that by force
  then have "x ! i = y ! i" if "i < cols" for i using that by (intro bit_word_eqI) auto
  with xy show "x = y" by (intro nth_equalityI) auto
next
  fix x y :: "'a word list" and i assume "x \<in> {x. length x = cols}" "i \<in> {..<cols} \<times> {..<LENGTH('a)}"
  then show "(case i of (i, k) \<Rightarrow> \<lambda>x. bitGF (bit (x ! i) k)) (hAdd (PxMatrix_words cols rnd) x y) =
      (case i of (i, k) \<Rightarrow> \<lambda>x. bitGF (bit (x ! i) k)) x + (case i of (i, k) \<Rightarrow> \<lambda>x. bitGF (bit (x ! i) k)) y"
    by (auto simp: PxMatrix_words_def PxMatrix_add_eq bit_xor_iff simp flip: bitGF_xor)
qed (auto simp: PxMatrix_words_def PxMatrix_multAddBit_eq PxMatrix_add_eq bitGF_def rnd)

text \<open>C40: the flat storage of PxMatrix represents the list of its rows: reading element i gives
  row i, assigning element i replaces row i and no other, subspan is the sublist of rows, and
  zerofill makes every row the zero row.\<close>

theorem PxMatrix_refines_rows:
  assumes "px_matrix_ok m" and "i < pmRows m" and "length src = pmCols m" and "offset + count \<le> pmRows m"
  shows "PxMatrix_get m i = Inr (PxMatrix_rows m ! i) \<and>
    (\<exists>m'. PxMatrix_assign m i src = Inr m' \<and> px_matrix_ok m' \<and> PxMatrix_rows m' = (PxMatrix_rows m)[i := src]) \<and>
    (\<exists>m'. PxMatrix_subspan offset count m = Inr m' \<and> px_matrix_ok m' \<and>
       PxMatrix_rows m' = take count (drop offset (PxMatrix_rows m))) \<and>
    PxMatrix_rows (PxMatrix_zerofill m) = replicate (pmRows m) (replicate (pmCols m) 0)"
proof (intro conjI)
  show "PxMatrix_get m i = Inr (PxMatrix_rows m ! i)" using assms by (intro PxMatrix_get_rows)
  show "\<exists>m'. PxMatrix_assign m i src = Inr m' \<and> px_matrix_ok m' \<and> PxMatrix_rows m' = (PxMatrix_rows m)[i := src]"
    using PxMatrix_assign_rows [OF assms(1,2,3)] by blast
  show "\<exists>m'. PxMatrix_subspan offset count m = Inr m' \<and> px_matrix_ok m' \<and>
       PxMatrix_rows m' = take count (drop offset (PxMatrix_rows m))"
    using PxMatrix_subspan_rows [OF assms(1,4)] by (auto simp: px_subspan_def split: if_splits)
  show "PxMatrix_rows (PxMatrix_zerofill m) = replicate (pmRows m) (replicate (pmCols m) 0)"
    using assms(1) by (rule PxMatrix_zerofill_rows)
qed

theorem PxMatrix_refines_rows_witness:
  "PxMatrix_get \<lparr>pmElements = [1, 2, 3, 4, 5, 6 :: u8], pmRows = 3, pmCols = 2\<rparr> 1 = Inr [3, 4]"
  using PxMatrix_refines_rows [of "\<lparr>pmElements = [1, 2, 3, 4, 5, 6 :: u8], pmRows = 3, pmCols = 2\<rparr>" 1 "[7, 8]" 0 2]
  by (simp add: px_matrix_ok_def PxMatrix_rows_def)

end
