(* ===== verification/Decode.thy ===== *)
theory Decode
  imports Paxos PxVec
begin

section \<open>Decoding\<close>

text \<open>
  \<open>Paxos::decode1\<close>, \<open>decode8\<close>, \<open>decode32\<close> and \<open>decode\<close> of \<open>src/volePSI/PaxosImpl.h\<close>: the value
  stored for a key is the sum of the sparse positions of its row plus the dense part, which
  multiplies the dense positions by the powers of a field element (GF128) or by the bits of a
  word (Binary).

  The row of a key is a vector of coefficients in GF(2^128); decoding is its product with the
  structure, and the batched decoders compute exactly what \<open>decode1\<close> does.
\<close>

subsection \<open>decode1\<close>

text \<open>\<open>*BitIterator((u8*)dense, i)\<close>; past the block it reads other memory.\<close>

definition bitIterator :: "block \<Rightarrow> nat \<Rightarrow> bool res" where
  "bitIterator d i = (if i < 128 then Inr (bit d i) else Inl UB)"

definition decode1_sparse :: "('v, 's) px_helper \<Rightarrow> nat \<Rightarrow> nat list \<Rightarrow> 'v list \<Rightarrow> 'v res" where
  "decode1_sparse h weight row p =
     rbind (at row 0) (\<lambda>c. rbind (at p c) (\<lambda>v.
     foldr_res (\<lambda>j v. rbind (at row j) (\<lambda>c. rbind (at p c) (\<lambda>x. Inr (hAdd h v x)))) [1..<weight] v))"

definition decode1 :: "('v, 's) px_helper \<Rightarrow> 'a paxos_scheme \<Rightarrow> nat list \<Rightarrow> block \<Rightarrow> 'v list \<Rightarrow> 'v res" where
  "decode1 h P row dense p =
     rbind (decode1_sparse h (mWeight P) row p) (\<lambda>v.
     case mDt P of
       GF128 \<Rightarrow>
         rbind (at p (mSparseSize P)) (\<lambda>e. rbind (hMultAdd h v e dense) (\<lambda>v.
         rbind (foldr_res (\<lambda>i (x, v).
                  let x = gf128Mul x dense
                  in rbind (at p (i + mSparseSize P)) (\<lambda>e. rbind (hMultAdd h v e x) (\<lambda>v. Inr (x, v))))
                [1..<mDenseSize P] (dense, v)) (\<lambda>(x, v). Inr v)))
     | Binary \<Rightarrow>
         foldr_res (\<lambda>i v. rbind (bitIterator dense i) (\<lambda>b.
             if b then rbind (at p (i + mSparseSize P)) (\<lambda>e. Inr (hAdd h v e)) else Inr v))
           [0..<mDenseSize P] v)"

subsection \<open>Batches\<close>

text \<open>One statement for each of the eight values of group \<open>k\<close>.\<close>

definition eachOf8 :: "nat \<Rightarrow> (nat \<Rightarrow> 'v \<Rightarrow> 'v res) \<Rightarrow> 'v list \<Rightarrow> 'v list res" where
  "eachOf8 k f vs =
     foldr_res (\<lambda>l vs. rbind (at vs (8 * k + l)) (\<lambda>v. rbind (f (8 * k + l) v) (\<lambda>v. Inr (vs[8 * k + l := v])))) [0..<8] vs"

definition decodeBatch_sparse :: "nat \<Rightarrow> ('v, 's) px_helper \<Rightarrow> nat \<Rightarrow> nat list list \<Rightarrow> 'v list \<Rightarrow> 'v list \<Rightarrow> 'v list res" where
  "decodeBatch_sparse groups h weight rows p vs =
     rbind (foldr_res (\<lambda>k. eachOf8 k (\<lambda>l v. rbind (at rows l) (\<lambda>row. rbind (at row 0) (\<lambda>c. at p c)))) [0..<groups] vs) (\<lambda>vs.
     foldr_res (\<lambda>j. foldr_res (\<lambda>k. eachOf8 k (\<lambda>l v.
         rbind (at rows l) (\<lambda>row. rbind (at row j) (\<lambda>c. rbind (at p c) (\<lambda>x. Inr (hAdd h v x)))))) [0..<groups])
       [1..<weight] vs)"

definition decodeBatch_gf128 ::
    "nat \<Rightarrow> ('v, 's) px_helper \<Rightarrow> nat \<Rightarrow> nat \<Rightarrow> block list \<Rightarrow> 'v list \<Rightarrow> 'v list \<Rightarrow> 'v list res" where
  "decodeBatch_gf128 groups h sparse denseSize dense p vs =
     rbind (at p sparse) (\<lambda>p2.
     rbind (foldr_res (\<lambda>k. eachOf8 k (\<lambda>l v. rbind (at dense l) (\<lambda>x. hMultAdd h v p2 x))) [0..<groups] vs) (\<lambda>vs.
     rbind (foldr_res (\<lambda>i (xx, vs).
         rbind (at p (sparse + i)) (\<lambda>p2.
         foldr_res (\<lambda>k (xx, vs).
           rbind (eachOf8 k (\<lambda>l x. rbind (at dense l) (\<lambda>d. Inr (gf128Mul x d))) xx) (\<lambda>xx.
           rbind (eachOf8 k (\<lambda>l v. rbind (at xx l) (\<lambda>x. hMultAdd h v p2 x)) vs) (\<lambda>vs. Inr (xx, vs))))
           [0..<groups] (xx, vs)))
       [1..<denseSize] (dense, vs)) (\<lambda>(xx, vs). Inr vs)))"

definition decodeBatch_binary ::
    "nat \<Rightarrow> ('v, 's) px_helper \<Rightarrow> nat \<Rightarrow> nat \<Rightarrow> block list \<Rightarrow> 'v list \<Rightarrow> 'v list \<Rightarrow> 'v list res" where
  "decodeBatch_binary groups h sparse denseSize dense p vs =
     foldr_res (\<lambda>k vs.
       rbind (guardr (denseSize \<le> 64) AssertFail) (\<lambda>_.
       rbind (foldr_res (\<lambda>i (d2, vs).
           let b = map (\<lambda>d. ucast (d AND 1) :: u8) d2;
               d2 = map (drop_bit 1) d2
           in rbind (at p (sparse + i)) (\<lambda>p2.
              rbind (eachOf8 k (\<lambda>l v. hMultAddBit h v p2 (b ! (l - 8 * k))) vs) (\<lambda>vs. Inr (d2, vs))))
         [0..<denseSize] (map lo64 (take 8 (drop (8 * k) dense)), vs)) (\<lambda>(d2, vs). Inr vs)))
     [0..<groups] vs"

definition decodeBatch ::
    "nat \<Rightarrow> ('v, 's) px_helper \<Rightarrow> 'a paxos_scheme \<Rightarrow> nat list list \<Rightarrow> block list \<Rightarrow> 'v list \<Rightarrow> 'v list \<Rightarrow> 'v list res" where
  "decodeBatch groups h P rows dense p vs =
     rbind (decodeBatch_sparse groups h (mWeight P) rows p vs) (\<lambda>vs.
     case mDt P of
       GF128 \<Rightarrow> decodeBatch_gf128 groups h (mSparseSize P) (mDenseSize P) dense p vs
     | Binary \<Rightarrow> decodeBatch_binary groups h (mSparseSize P) (mDenseSize P) dense p vs)"

definition decode32 ::
    "('v, 's) px_helper \<Rightarrow> 'a paxos_scheme \<Rightarrow> nat list list \<Rightarrow> block list \<Rightarrow> 'v list \<Rightarrow> 'v list \<Rightarrow> 'v list res" where
  "decode32 = decodeBatch 4"

definition decode8 ::
    "('v, 's) px_helper \<Rightarrow> 'a paxos_scheme \<Rightarrow> nat list list \<Rightarrow> block list \<Rightarrow> 'v list \<Rightarrow> 'v list \<Rightarrow> 'v list res" where
  "decode8 = decodeBatch 1"

subsection \<open>decode\<close>

text \<open>The values are a list; \<open>values[i ..]\<close> of a batch is \<open>take 32 (drop i values)\<close>.\<close>

definition storeAt :: "nat \<Rightarrow> 'v list \<Rightarrow> 'v list \<Rightarrow> 'v list" where
  "storeAt i new vs = take i vs @ new @ drop (i + length new) vs"

definition decode_add8 :: "('v, 's) px_helper \<Rightarrow> nat \<Rightarrow> nat \<Rightarrow> 'v list \<Rightarrow> 'v list \<Rightarrow> 'v list res" where
  "decode_add8 h i j v values =
     foldr_res (\<lambda>l values. rbind (at values (i + j + l)) (\<lambda>x. rbind (at v (j + l)) (\<lambda>y.
        Inr (values[i + j + l := hAdd h x y])))) [0..<8] values"

definition decode_main :: "(block \<Rightarrow> block \<Rightarrow> block) \<Rightarrow> ('v, 's) px_helper \<Rightarrow> 'a paxos_scheme \<Rightarrow> block list \<Rightarrow> 'v list \<Rightarrow>
    nat \<Rightarrow> 'v list \<times> 'v list \<Rightarrow> ('v list \<times> 'v list) res" where
  "decode_main aesHash h P inputs p i s =
     (let (values, v) = s;
          (rows, dense) = hashBuildRow32 (mIdxBits P) aesHash (mHasher P) (drop i inputs)
      in if mAddToDecode P then
           rbind (decode32 h P rows dense p v) (\<lambda>v.
           rbind (foldr_res (\<lambda>j. decode_add8 h i j v) [0, 8, 16, 24] values) (\<lambda>values. Inr (values, v)))
         else if length values < i + gPaxosBuildRowSize then Inl UB
         else rbind (decode32 h P rows dense p (take gPaxosBuildRowSize (drop i values))) (\<lambda>new.
              Inr (storeAt i new values, v)))"

definition decode_tail :: "(block \<Rightarrow> block \<Rightarrow> block) \<Rightarrow> ('v, 's) px_helper \<Rightarrow> 'a paxos_scheme \<Rightarrow> block list \<Rightarrow> 'v list \<Rightarrow>
    nat \<Rightarrow> 'v list \<times> 'v list \<Rightarrow> ('v list \<times> 'v list) res" where
  "decode_tail aesHash h P inputs p i s =
     (let (values, v) = s;
          (row, dense) = hashBuildRow1 (mIdxBits P) aesHash (mHasher P) (inputs ! i)
      in rbind (at values i) (\<lambda>x.
         rbind (decode1 h P row dense p) (\<lambda>y.
         if mAddToDecode P then Inr (values[i := hAdd h x y], v[0 := y]) else Inr (values[i := y], v))))"

definition decode :: "(block \<Rightarrow> block \<Rightarrow> block) \<Rightarrow> ('v, 's) px_helper \<Rightarrow> 'a paxos_scheme \<Rightarrow> block list \<Rightarrow> 'v list \<Rightarrow>
    'v list \<Rightarrow> 'v list res" where
  "decode aesHash h P inputs values p =
     (if length p \<noteq> paxos_size P then Inl RTE_LOC
      else
        let main = length inputs div gPaxosBuildRowSize
        in rbind (foldr_res (\<lambda>b. decode_main aesHash h P inputs p (gPaxosBuildRowSize * b)) [0..<main]
                    (values, replicate gPaxosBuildRowSize (hNew h))) (\<lambda>s.
           rbind (foldr_res (decode_tail aesHash h P inputs p) [gPaxosBuildRowSize * main..<length inputs] s)
             (\<lambda>(values, v). Inr values)))"

subsection \<open>The row of a key as a vector\<close>

definition denseCoef :: "DenseType \<Rightarrow> block \<Rightarrow> nat \<Rightarrow> gf128" where
  "denseCoef dt d k = (case dt of GF128 \<Rightarrow> GF d ^ Suc k | Binary \<Rightarrow> bitGF (bit d k))"

definition sparseSum :: "nat list \<Rightarrow> (nat \<Rightarrow> gf128) \<Rightarrow> gf128" where
  "sparseSum row x = (\<Sum>c\<leftarrow>row. x c)"

definition rowSum :: "'a paxos_scheme \<Rightarrow> nat list \<Rightarrow> block \<Rightarrow> (nat \<Rightarrow> gf128) \<Rightarrow> gf128" where
  "rowSum P row d x = sparseSum row x + (\<Sum>k<mDenseSize P. denseCoef (mDt P) d k * x (mSparseSize P + k))"

lemma sparseSum_Nil [simp]: "sparseSum [] x = 0"
  by (simp add: sparseSum_def)

lemma sparseSum_Cons [simp]: "sparseSum (c # row) x = x c + sparseSum row x"
  by (simp add: sparseSum_def)

lemma sparseSum_add: "sparseSum row (\<lambda>c. x c + y c) = sparseSum row x + sparseSum row y"
  by (induction row) simp_all

lemma sparseSum_cong: "(\<And>c. c \<in> set row \<Longrightarrow> x c = y c) \<Longrightarrow> sparseSum row x = sparseSum row y"
  by (induction row) simp_all

lemma rowSum_add: "rowSum P row d (\<lambda>c. x c + y c) = rowSum P row d x + rowSum P row d y"
  by (simp add: rowSum_def sparseSum_add distrib_left sum.distrib)

lemma rowSum_cong:
  assumes "valid_row (mSparseSize P) w row" "\<And>c. c < paxos_size P \<Longrightarrow> x c = y c"
  shows "rowSum P row d x = rowSum P row d y"
proof -
  have "sparseSum row x = sparseSum row y"
    using assms by (intro sparseSum_cong) (auto simp: valid_row_def paxos_size_def)
  moreover have "denseCoef (mDt P) d k * x (mSparseSize P + k) = denseCoef (mDt P) d k * y (mSparseSize P + k)"
    if "k < mDenseSize P" for k
    using assms(2) [of "mSparseSize P + k"] that by (simp add: paxos_size_def)
  ultimately show ?thesis unfolding rowSum_def by (metis (no_types, lifting) lessThan_iff sum.cong)
qed

text \<open>The element types on which a dense type is implemented.\<close>

locale px_values = px_space +
  fixes dt :: DenseType
  assumes multAdd: "dt = GF128 \<Longrightarrow> x \<in> V \<Longrightarrow> y \<in> V \<Longrightarrow>
    \<exists>z\<in>V. hMultAdd h x y m = Inr z \<and> (\<forall>i\<in>I. crd i z = crd i x + crd i y * GF m)"

sublocale px_module \<subseteq> both: px_values h V I crd dt for dt
  by unfold_locales (rule multAdd)

sublocale px_space \<subseteq> bin: px_values h V I crd Binary
  by unfold_locales simp

subsection \<open>decode1 multiplies the row with the structure\<close>

context px_values
begin

text \<open>Adding the elements that \<open>g\<close> reads.\<close>

lemma addAll:
  assumes "v \<in> V" "\<And>x. x \<in> set xs \<Longrightarrow> g x = Inr (e x) \<and> e x \<in> V"
  shows "\<exists>v'\<in>V. foldr_res (\<lambda>x v. rbind (g x) (\<lambda>y. Inr (hAdd h v y))) xs v = Inr v' \<and>
    (\<forall>i\<in>I. crd i v' = crd i v + (\<Sum>x\<leftarrow>xs. crd i (e x)))"
  using assms
proof (induction xs arbitrary: v)
  case (Cons x xs)
  then have x: "g x = Inr (e x)" "e x \<in> V" by auto
  then have "hAdd h v (e x) \<in> V" using Cons.prems(1) by (simp add: add_V)
  with Cons obtain v' where "v' \<in> V" "foldr_res (\<lambda>x v. rbind (g x) (\<lambda>y. Inr (hAdd h v y))) xs (hAdd h v (e x)) = Inr v'"
    "\<forall>i\<in>I. crd i v' = crd i (hAdd h v (e x)) + (\<Sum>x\<leftarrow>xs. crd i (e x))" by force
  with x Cons.prems(1) show ?case by (auto simp: crd_add add.assoc)
qed auto

lemma decode1_sparse_ok:
  assumes "valid_row n w row" "0 < w" "n \<le> length p" "set p \<subseteq> V"
  shows "\<exists>v\<in>V. decode1_sparse h w row p = Inr v \<and> (\<forall>i\<in>I. crd i v = sparseSum row (\<lambda>c. crd i (p ! c)))"
proof -
  have len: "length row = w" and rng: "\<And>c. c \<in> set row \<Longrightarrow> c < length p"
    using assms by (auto simp: valid_row_def)
  have V: "p ! c \<in> V" if "c \<in> set row" for c using rng [OF that] assms(4) by (auto simp: subset_iff)
  have row: "row = row ! 0 # map ((!) row) [1..<w]"
    using len assms(2) map_nth [of row] by (simp add: upt_conv_Cons)
  have r0: "row ! 0 \<in> set row" using len assms(2) by (cases row) auto
  have eq: "foldr_res (\<lambda>j v. rbind (at row j) (\<lambda>c. rbind (at p c) (\<lambda>x. Inr (hAdd h v x)))) [1..<w] v =
      foldr_res (\<lambda>c v. rbind (at p c) (\<lambda>x. Inr (hAdd h v x))) (map ((!) row) [1..<w]) v" for v
    unfolding foldr_res_map using len by (intro foldr_res_cong refl) auto
  have "\<exists>v\<in>V. foldr_res (\<lambda>c v. rbind (at p c) (\<lambda>x. Inr (hAdd h v x))) (map ((!) row) [1..<w]) (p ! (row ! 0)) = Inr v \<and>
      (\<forall>i\<in>I. crd i v = crd i (p ! (row ! 0)) + (\<Sum>c\<leftarrow>map ((!) row) [1..<w]. crd i (p ! c)))"
  proof (rule addAll)
    show "p ! (row ! 0) \<in> V" using r0 by (rule V)
    fix c assume "c \<in> set (map ((!) row) [1..<w])"
    then have "c \<in> set row" using len by auto
    then show "at p c = Inr (p ! c) \<and> p ! c \<in> V" using rng V by simp
  qed
  moreover have "sparseSum row x = x (row ! 0) + (\<Sum>c\<leftarrow>map ((!) row) [1..<w]. x c)" for x
    by (subst row) (simp add: sparseSum_def)
  ultimately show ?thesis
    using rng [OF r0] len assms(2) unfolding decode1_sparse_def eq by simp
qed

lemma gf128_loop:
  assumes "dt = GF128" "v \<in> V" "set p \<subseteq> V" "n + k \<le> length p" "0 < k"
    and "v0 = v" "hMultAdd h v (p ! n) d = Inr v1"
  shows "v1 \<in> V \<and> (\<exists>x v'. foldr_res (\<lambda>i (x, v).
            let x = gf128Mul x d
            in rbind (at p (i + n)) (\<lambda>e. rbind (hMultAdd h v e x) (\<lambda>v. Inr (x, v))))
          [1..<k] (d, v1) = Inr (x, v') \<and> v' \<in> V \<and> GF x = GF d ^ k \<and>
       (\<forall>i\<in>I. crd i v' = crd i v + (\<Sum>j<k. GF d ^ Suc j * crd i (p ! (n + j)))))"
  using assms(5,4)
proof (induction k)
  case (Suc k)
  have pn: "p ! (n + j) \<in> V" if "j < Suc k" for j using that Suc.prems assms(3) by (auto simp: subset_iff)
  show ?case
  proof (cases "k = 0")
    case True
    obtain z where z: "z \<in> V" "hMultAdd h v (p ! n) d = Inr z" "\<forall>i\<in>I. crd i z = crd i v + crd i (p ! n) * GF d"
      using multAdd [OF assms(1,2) pn [of 0]] by auto
    with assms(7) True show ?thesis by (simp add: mult.commute)
  next
    case False
    with Suc obtain x v' where IH: "v1 \<in> V" "foldr_res (\<lambda>i (x, v).
            let x = gf128Mul x d
            in rbind (at p (i + n)) (\<lambda>e. rbind (hMultAdd h v e x) (\<lambda>v. Inr (x, v))))
          [1..<k] (d, v1) = Inr (x, v')" "v' \<in> V" "GF x = GF d ^ k"
       "\<forall>i\<in>I. crd i v' = crd i v + (\<Sum>j<k. GF d ^ Suc j * crd i (p ! (n + j)))" by auto
    obtain z where z: "z \<in> V" "hMultAdd h v' (p ! (n + k)) (gf128Mul x d) = Inr z"
      "\<forall>i\<in>I. crd i z = crd i v' + crd i (p ! (n + k)) * GF (gf128Mul x d)"
      using multAdd [OF assms(1) IH(3) pn [of k]] by blast
    have "GF (gf128Mul x d) = GF d ^ Suc k" using IH(4) by (simp add: mult.commute)
    with IH z Suc.prems False show ?thesis
      by (simp add: foldr_res_append Let_def add.commute [of k n] mult.commute add.assoc)
  qed
qed simp

lemma binary_loop:
  assumes "v \<in> V" "set p \<subseteq> V" "n + k \<le> length p" "k \<le> 128"
  shows "\<exists>v'\<in>V. foldr_res (\<lambda>i v. rbind (bitIterator d i) (\<lambda>b.
             if b then rbind (at p (i + n)) (\<lambda>e. Inr (hAdd h v e)) else Inr v)) [0..<k] v = Inr v' \<and>
       (\<forall>i\<in>I. crd i v' = crd i v + (\<Sum>j<k. bitGF (bit d j) * crd i (p ! (n + j))))"
  using assms(3,4)
proof (induction k)
  case (Suc k)
  then obtain v' where IH: "v' \<in> V" "foldr_res (\<lambda>i v. rbind (bitIterator d i) (\<lambda>b.
             if b then rbind (at p (i + n)) (\<lambda>e. Inr (hAdd h v e)) else Inr v)) [0..<k] v = Inr v'"
       "\<forall>i\<in>I. crd i v' = crd i v + (\<Sum>j<k. bitGF (bit d j) * crd i (p ! (n + j)))" by auto
  have "p ! (n + k) \<in> V" using Suc.prems assms(2) by (auto simp: subset_iff)
  with IH Suc.prems show ?case
    by (auto simp: foldr_res_append bitIterator_def add.commute [of k n] add_V crd_add bitGF_def add.assoc)
qed (use assms in auto)

lemma decode1_ok:
  assumes "dt = mDt P" "valid_row (mSparseSize P) (mWeight P) row" "0 < mWeight P"
    and "length p = paxos_size P" "set p \<subseteq> V" "0 < mDenseSize P" "dt = Binary \<Longrightarrow> mDenseSize P \<le> 128"
  shows "\<exists>v\<in>V. decode1 h P row d p = Inr v \<and> (\<forall>i\<in>I. crd i v = rowSum P row d (\<lambda>c. crd i (p ! c)))"
proof -
  have le: "mSparseSize P \<le> length p" "mSparseSize P + mDenseSize P \<le> length p" using assms(4) by (simp_all add: paxos_size_def)
  obtain v where v: "v \<in> V" "decode1_sparse h (mWeight P) row p = Inr v"
    "\<forall>i\<in>I. crd i v = sparseSum row (\<lambda>c. crd i (p ! c))"
    using decode1_sparse_ok [OF assms(2,3) le(1) assms(5)] by blast
  show ?thesis
  proof (cases "mDt P")
    case Binary
    with binary_loop [OF v(1) assms(5) le(2)] assms(1,7) v show ?thesis
      by (auto simp: decode1_def rowSum_def denseCoef_def)
  next
    case GF128
    have n: "mSparseSize P < length p" using le assms(6) by simp
    have "p ! mSparseSize P \<in> V" using n assms(5) by (auto simp: subset_iff)
    with multAdd v(1) GF128 assms(1) obtain v1 where v1: "hMultAdd h v (p ! mSparseSize P) d = Inr v1" by metis
    from gf128_loop [OF _ v(1) assms(5) le(2) assms(6) refl v1] GF128 assms(1)
    show ?thesis using v v1 n by (auto simp: decode1_def rowSum_def denseCoef_def)
  qed
qed

end

subsection \<open>The batches compute what decode1 does\<close>

lemma foldr_res_single [simp]: "foldr_res f [x] = f x"
  by (auto simp: fun_eq_iff rbind_def split: sum.splits)

definition setEach :: "(nat \<Rightarrow> 'v \<Rightarrow> 'v res) \<Rightarrow> nat \<Rightarrow> 'v list \<Rightarrow> 'v list res" where
  "setEach f l vs = rbind (at vs l) (\<lambda>v. rbind (f l v) (\<lambda>v. Inr (vs[l := v])))"

lemma eachOf8_eq: "eachOf8 k f vs = foldr_res (setEach f) [8 * k..<8 * k + 8] vs"
proof -
  have "[8 * k..<8 * k + 8] = map (\<lambda>l. 8 * k + l) [0..<8]" using map_add_upt [of "8 * k" 8] by (simp add: add.commute)
  then show ?thesis by (simp only: foldr_res_map) (simp add: eachOf8_def setEach_def [abs_def])
qed

lemma groups_eq: "foldr_res (\<lambda>k. eachOf8 k f) [0..<n] vs = foldr_res (setEach f) [0..<8 * n] vs"
proof (induction n)
  case (Suc n)
  have "[0..<8 * Suc n] = [0..<8 * n] @ [8 * n..<8 * n + 8]" using upt_add_eq_append [of 0 "8 * n" 8] by (simp add: add.commute)
  with Suc show ?case by (simp add: foldr_res_append eachOf8_eq)
qed simp

lemma setEach_pure:
  assumes "b \<le> length xs" "a \<le> b" "\<And>l. a \<le> l \<Longrightarrow> l < b \<Longrightarrow> f l (xs ! l) = Inr (g l)"
  shows "\<exists>ys. foldr_res (setEach f) [a..<b] xs = Inr ys \<and> length ys = length xs \<and>
    (\<forall>l<length xs. ys ! l = (if a \<le> l \<and> l < b then g l else xs ! l))"
  using assms
proof (induction b)
  case (Suc b)
  show ?case
  proof (cases "a = Suc b")
    case False
    with Suc obtain ys where "foldr_res (setEach f) [a..<b] xs = Inr ys" "length ys = length xs"
      "\<forall>l<length xs. ys ! l = (if a \<le> l \<and> l < b then g l else xs ! l)" by auto
    moreover from this have "setEach f b ys = Inr (ys[b := g b])" using Suc.prems False by (simp add: setEach_def)
    ultimately show ?thesis using Suc.prems False by (auto simp: foldr_res_append nth_list_update less_Suc_eq)
  qed auto
qed auto

context px_values
begin

text \<open>Every value of a list is an element with the given coordinates.\<close>

definition vecOk :: "'a list \<Rightarrow> ('c \<Rightarrow> nat \<Rightarrow> gf128) \<Rightarrow> bool" where
  "vecOk vs F \<longleftrightarrow> (\<forall>l<length vs. vs ! l \<in> V \<and> (\<forall>i\<in>I. crd i (vs ! l) = F i l))"

lemma vecOk_cong:
  "vecOk vs F \<Longrightarrow> (\<And>i l. i \<in> I \<Longrightarrow> l < length vs \<Longrightarrow> F i l = G i l) \<Longrightarrow> vecOk vs G"
  by (simp add: vecOk_def)

lemma setEach_vecOk:
  assumes "vecOk vs F" "a \<le> b" "b \<le> length vs"
    and f: "\<And>l v. a \<le> l \<Longrightarrow> l < b \<Longrightarrow> v \<in> V \<Longrightarrow> (\<forall>i\<in>I. crd i v = F i l) \<Longrightarrow>
      \<exists>z\<in>V. f l v = Inr z \<and> (\<forall>i\<in>I. crd i z = G i l)"
  shows "\<exists>vs'. foldr_res (setEach f) [a..<b] vs = Inr vs' \<and> length vs' = length vs \<and>
    vecOk vs' (\<lambda>i l. if a \<le> l \<and> l < b then G i l else F i l)"
  using assms(2,3) f
proof (induction b)
  case (Suc b)
  show ?case
  proof (cases "a = Suc b")
    case True
    with assms(1) show ?thesis by (auto simp: vecOk_def)
  next
    case False
    with Suc.prems have "a \<le> b" by simp
    with Suc obtain vs' where IH: "foldr_res (setEach f) [a..<b] vs = Inr vs'" "length vs' = length vs"
      "vecOk vs' (\<lambda>i l. if a \<le> l \<and> l < b then G i l else F i l)" by auto
    then have "vs' ! b \<in> V" "\<forall>i\<in>I. crd i (vs' ! b) = F i b" using Suc.prems by (auto simp: vecOk_def)
    from Suc.prems(3) [OF \<open>a \<le> b\<close> lessI this] obtain z where
      z: "z \<in> V" "f b (vs' ! b) = Inr z" "\<forall>i\<in>I. crd i z = G i b" by blast
    then have "setEach f b vs' = Inr (vs'[b := z])" using IH(2) Suc.prems(2) by (simp add: setEach_def)
    moreover have "vecOk (vs'[b := z]) (\<lambda>i l. if a \<le> l \<and> l < Suc b then G i l else F i l)"
      using IH(2,3) z Suc.prems(2) \<open>a \<le> b\<close> by (auto simp: vecOk_def nth_list_update less_Suc_eq)
    ultimately show ?thesis using IH \<open>a \<le> b\<close> by (simp add: foldr_res_append)
  qed
qed (use assms(1) in \<open>auto simp: vecOk_def\<close>)

lemma groups_vecOk:
  assumes "vecOk vs F" "length vs = 8 * n"
    and "\<And>l v. l < 8 * n \<Longrightarrow> v \<in> V \<Longrightarrow> (\<forall>i\<in>I. crd i v = F i l) \<Longrightarrow>
      \<exists>z\<in>V. f l v = Inr z \<and> (\<forall>i\<in>I. crd i z = G i l)"
  shows "\<exists>vs'. foldr_res (\<lambda>k. eachOf8 k f) [0..<n] vs = Inr vs' \<and> length vs' = 8 * n \<and> vecOk vs' G"
proof -
  obtain vs' where "foldr_res (setEach f) [0..<8 * n] vs = Inr vs'" "length vs' = length vs"
    "vecOk vs' (\<lambda>i l. if 0 \<le> l \<and> l < 8 * n then G i l else F i l)"
    using setEach_vecOk [OF assms(1), of 0 "8 * n" f G] assms(2,3) by auto
  with assms(2) show ?thesis unfolding groups_eq by (auto simp: vecOk_def)
qed

text \<open>The first round overwrites whatever the values were.\<close>

lemma groups_assign:
  assumes "length vs = 8 * n" "\<And>l v. l < 8 * n \<Longrightarrow> \<exists>z\<in>V. f l v = Inr z \<and> (\<forall>i\<in>I. crd i z = G i l)"
  shows "\<exists>vs'. foldr_res (\<lambda>k. eachOf8 k f) [0..<n] vs = Inr vs' \<and> length vs' = 8 * n \<and> vecOk vs' G"
proof -
  have "b \<le> 8 * n \<Longrightarrow> \<exists>vs'. foldr_res (setEach f) [0..<b] vs = Inr vs' \<and> length vs' = 8 * n \<and>
      (\<forall>l<b. vs' ! l \<in> V \<and> (\<forall>i\<in>I. crd i (vs' ! l) = G i l))" for b
  proof (induction b)
    case (Suc b)
    then obtain vs' where IH: "foldr_res (setEach f) [0..<b] vs = Inr vs'" "length vs' = 8 * n"
      "\<forall>l<b. vs' ! l \<in> V \<and> (\<forall>i\<in>I. crd i (vs' ! l) = G i l)" by auto
    obtain z where "z \<in> V" "f b (vs' ! b) = Inr z" "\<forall>i\<in>I. crd i z = G i b" using assms(2) [of b "vs' ! b"] Suc.prems by auto
    moreover from this have "setEach f b vs' = Inr (vs'[b := z])" using IH(2) Suc.prems by (simp add: setEach_def)
    ultimately show ?case using IH Suc.prems by (auto simp: foldr_res_append nth_list_update less_Suc_eq)
  qed (simp add: assms)
  from this [of "8 * n"] show ?thesis unfolding groups_eq by (auto simp: vecOk_def)
qed

lemma decodeBatch_sparse_ok:
  assumes rows: "\<And>l. l < 8 * n \<Longrightarrow> valid_row m w (rows ! l)" and len: "length rows = 8 * n" "length vs = 8 * n" "0 < w"
    and p: "m \<le> length p" "set p \<subseteq> V"
  shows "\<exists>vs'. decodeBatch_sparse n h w rows p vs = Inr vs' \<and> length vs' = 8 * n \<and>
    vecOk vs' (\<lambda>i l. sparseSum (rows ! l) (\<lambda>c. crd i (p ! c)))"
proof -
  have R: "length (rows ! l) = w" "j < w \<Longrightarrow> rows ! l ! j < length p" "j < w \<Longrightarrow> p ! (rows ! l ! j) \<in> V"
    if "l < 8 * n" for l j
  proof -
    have v: "length (rows ! l) = w" "\<And>c. c \<in> set (rows ! l) \<Longrightarrow> c < length p"
      using rows [OF that] p(1) by (auto simp: valid_row_def)
    then show "length (rows ! l) = w" "j < w \<Longrightarrow> rows ! l ! j < length p" by (auto simp: nth_mem)
    then show "j < w \<Longrightarrow> p ! (rows ! l ! j) \<in> V" using p(2) by (auto simp: subset_iff)
  qed
  let ?G = "\<lambda>j i l. \<Sum>t<j. crd i (p ! (rows ! l ! t))"
  let ?step = "\<lambda>j. foldr_res (\<lambda>k. eachOf8 k (\<lambda>l v.
         rbind (at rows l) (\<lambda>row. rbind (at row j) (\<lambda>c. rbind (at p c) (\<lambda>x. Inr (hAdd h v x)))))) [0..<n]"
  have "\<exists>vs'. foldr_res (\<lambda>k. eachOf8 k (\<lambda>l v. rbind (at rows l) (\<lambda>row. rbind (at row 0) (\<lambda>c. at p c)))) [0..<n] vs = Inr vs' \<and>
      length vs' = 8 * n \<and> vecOk vs' (?G 1)"
    using len(1,3) R(1) R(2,3) [where j = 0] by (intro groups_assign [OF len(2)]) simp
  then obtain v0 where v0: "foldr_res (\<lambda>k. eachOf8 k (\<lambda>l v. rbind (at rows l) (\<lambda>row. rbind (at row 0) (\<lambda>c. at p c)))) [0..<n] vs = Inr v0"
      "length v0 = 8 * n" "vecOk v0 (?G 1)" by blast
  have loop: "\<exists>vs'. foldr_res ?step [1..<j] v0 = Inr vs' \<and> length vs' = 8 * n \<and> vecOk vs' (?G j)" if "0 < j" "j \<le> w" for j
    using that
  proof (induction j)
    case (Suc j)
    show ?case
    proof (cases "j = 0")
      case False
      with Suc obtain u where u: "foldr_res ?step [1..<j] v0 = Inr u" "length u = 8 * n" "vecOk u (?G j)" by auto
      have "\<exists>vs'. ?step j u = Inr vs' \<and> length vs' = 8 * n \<and> vecOk vs' (?G (Suc j))"
        using len(1) R(1) R(2,3) [where j = j] Suc.prems by (intro groups_vecOk [OF u(3,2)]) (simp add: add_V crd_add)
      with u False show ?thesis by (simp add: foldr_res_append)
    qed (use v0 in simp)
  qed simp
  have "?G w i l = sparseSum (rows ! l) (\<lambda>c. crd i (p ! c))" if "l < 8 * n" for i l
    using R(1) [OF that] by (simp add: sparseSum_def sum_list_sum_nth atLeast0LessThan)
  with loop [of w] v0 len(3) show ?thesis
    by (fastforce simp: decodeBatch_sparse_def vecOk_def)
qed

lemma gf128_group:
  assumes "dt = GF128" "length xx = 8 * n" "length dense = 8 * n" "length vs = 8 * n" "k < n" "q \<in> V"
    and x: "\<forall>l<8 * n. GF (xx ! l) = (if l < 8 * k then E l * GF (dense ! l) else E l)"
    and v: "vecOk vs (\<lambda>i l. if l < 8 * k then F i l + E l * GF (dense ! l) * crd i q else F i l)"
  shows "\<exists>xx' vs'. eachOf8 k (\<lambda>l x. rbind (at dense l) (\<lambda>d. Inr (gf128Mul x d))) xx = Inr xx' \<and>
    eachOf8 k (\<lambda>l v. rbind (at xx' l) (\<lambda>x. hMultAdd h v q x)) vs = Inr vs' \<and>
    length xx' = 8 * n \<and> length vs' = 8 * n \<and>
    (\<forall>l<8 * n. GF (xx' ! l) = (if l < 8 * Suc k then E l * GF (dense ! l) else E l)) \<and>
    vecOk vs' (\<lambda>i l. if l < 8 * Suc k then F i l + E l * GF (dense ! l) * crd i q else F i l)"
proof -
  have k: "8 * k + 8 \<le> 8 * n" using assms(5) by simp
  obtain xx' where xx': "foldr_res (setEach (\<lambda>l x. rbind (at dense l) (\<lambda>d. Inr (gf128Mul x d)))) [8 * k..<8 * k + 8] xx = Inr xx'"
    "length xx' = 8 * n" "\<forall>l<8 * n. xx' ! l = (if 8 * k \<le> l \<and> l < 8 * k + 8 then gf128Mul (xx ! l) (dense ! l) else xx ! l)"
    using setEach_pure [of "8 * k + 8" xx "8 * k" "\<lambda>l x. rbind (at dense l) (\<lambda>d. Inr (gf128Mul x d))" "\<lambda>l. gf128Mul (xx ! l) (dense ! l)"]
      k assms(2,3) by auto
  have "\<exists>vs'. foldr_res (setEach (\<lambda>l v. rbind (at xx' l) (\<lambda>x. hMultAdd h v q x))) [8 * k..<8 * k + 8] vs = Inr vs' \<and>
    length vs' = length vs \<and> vecOk vs' (\<lambda>i l. if 8 * k \<le> l \<and> l < 8 * k + 8
      then F i l + E l * GF (dense ! l) * crd i q
      else (if l < 8 * k then F i l + E l * GF (dense ! l) * crd i q else F i l))"
  proof (rule setEach_vecOk [OF v])
    fix l y assume l: "8 * k \<le> l" "l < 8 * k + 8" and y: "y \<in> V"
      "\<forall>i\<in>I. crd i y = (if l < 8 * k then F i l + E l * GF (dense ! l) * crd i q else F i l)"
    obtain z where "z \<in> V" "hMultAdd h y q (xx' ! l) = Inr z" "\<forall>i\<in>I. crd i z = crd i y + crd i q * GF (xx' ! l)"
      using multAdd [OF assms(1) y(1) assms(6)] by blast
    moreover have "GF (xx' ! l) = E l * GF (dense ! l)" using x xx'(3) l k by simp
    ultimately show "\<exists>z\<in>V. rbind (at xx' l) (\<lambda>x. hMultAdd h y q x) = Inr z \<and>
        (\<forall>i\<in>I. crd i z = F i l + E l * GF (dense ! l) * crd i q)"
      using l k xx'(2) y(2) by (auto simp: mult.commute)
  qed (use k assms(4) in simp_all)
  then obtain vs' where vs': "foldr_res (setEach (\<lambda>l v. rbind (at xx' l) (\<lambda>x. hMultAdd h v q x))) [8 * k..<8 * k + 8] vs = Inr vs'"
    "length vs' = 8 * n" "vecOk vs' (\<lambda>i l. if 8 * k \<le> l \<and> l < 8 * k + 8
      then F i l + E l * GF (dense ! l) * crd i q
      else (if l < 8 * k then F i l + E l * GF (dense ! l) * crd i q else F i l))" using assms(4) by auto
  have "vecOk vs' (\<lambda>i l. if l < 8 * Suc k then F i l + E l * GF (dense ! l) * crd i q else F i l)"
    using vs'(3) by (auto simp: vecOk_def)
  moreover have "\<forall>l<8 * n. GF (xx' ! l) = (if l < 8 * Suc k then E l * GF (dense ! l) else E l)"
    using x xx'(3) by auto
  ultimately show ?thesis using xx' vs' unfolding eachOf8_eq by auto
qed

lemma gf128_groups:
  assumes "dt = GF128" "length dense = 8 * n" "q \<in> V" "length xx = 8 * n" "length vs = 8 * n"
    and "\<forall>l<8 * n. GF (xx ! l) = E l" "vecOk vs F"
  shows "\<exists>xx' vs'. foldr_res (\<lambda>k (xx, vs).
           rbind (eachOf8 k (\<lambda>l x. rbind (at dense l) (\<lambda>d. Inr (gf128Mul x d))) xx) (\<lambda>xx.
           rbind (eachOf8 k (\<lambda>l v. rbind (at xx l) (\<lambda>x. hMultAdd h v q x)) vs) (\<lambda>vs. Inr (xx, vs))))
           [0..<n] (xx, vs) = Inr (xx', vs') \<and> length xx' = 8 * n \<and> length vs' = 8 * n \<and>
    (\<forall>l<8 * n. GF (xx' ! l) = E l * GF (dense ! l)) \<and>
    vecOk vs' (\<lambda>i l. F i l + E l * GF (dense ! l) * crd i q)"
proof -
  have "m \<le> n \<Longrightarrow> \<exists>xx' vs'. foldr_res (\<lambda>k (xx, vs).
           rbind (eachOf8 k (\<lambda>l x. rbind (at dense l) (\<lambda>d. Inr (gf128Mul x d))) xx) (\<lambda>xx.
           rbind (eachOf8 k (\<lambda>l v. rbind (at xx l) (\<lambda>x. hMultAdd h v q x)) vs) (\<lambda>vs. Inr (xx, vs))))
           [0..<m] (xx, vs) = Inr (xx', vs') \<and> length xx' = 8 * n \<and> length vs' = 8 * n \<and>
    (\<forall>l<8 * n. GF (xx' ! l) = (if l < 8 * m then E l * GF (dense ! l) else E l)) \<and>
    vecOk vs' (\<lambda>i l. if l < 8 * m then F i l + E l * GF (dense ! l) * crd i q else F i l)" for m
  proof (induction m)
    case (Suc m)
    then obtain xx' vs' where IH: "foldr_res (\<lambda>k (xx, vs).
           rbind (eachOf8 k (\<lambda>l x. rbind (at dense l) (\<lambda>d. Inr (gf128Mul x d))) xx) (\<lambda>xx.
           rbind (eachOf8 k (\<lambda>l v. rbind (at xx l) (\<lambda>x. hMultAdd h v q x)) vs) (\<lambda>vs. Inr (xx, vs))))
           [0..<m] (xx, vs) = Inr (xx', vs')" "length xx' = 8 * n" "length vs' = 8 * n"
        "\<forall>l<8 * n. GF (xx' ! l) = (if l < 8 * m then E l * GF (dense ! l) else E l)"
        "vecOk vs' (\<lambda>i l. if l < 8 * m then F i l + E l * GF (dense ! l) * crd i q else F i l)" by auto
    from gf128_group [OF assms(1) IH(2) assms(2) IH(3) _ assms(3) IH(4,5)] Suc.prems obtain x2 v2 where
      g: "eachOf8 m (\<lambda>l x. rbind (at dense l) (\<lambda>d. Inr (gf128Mul x d))) xx' = Inr x2"
      "eachOf8 m (\<lambda>l v. rbind (at x2 l) (\<lambda>x. hMultAdd h v q x)) vs' = Inr v2" "length x2 = 8 * n" "length v2 = 8 * n"
      "\<forall>l<8 * n. GF (x2 ! l) = (if l < 8 * Suc m then E l * GF (dense ! l) else E l)"
      "vecOk v2 (\<lambda>i l. if l < 8 * Suc m then F i l + E l * GF (dense ! l) * crd i q else F i l)" by auto
    with IH(1) show ?case by (simp add: foldr_res_append)
  qed (use assms in simp)
  from this [of n] show ?thesis by (auto simp: vecOk_def)
qed

lemma decodeBatch_gf128_ok:
  assumes "dt = GF128" "length dense = 8 * n" "length vs = 8 * n" "vecOk vs F" "0 < ds"
    and "m + ds \<le> length p" "set p \<subseteq> V"
  shows "\<exists>vs'. decodeBatch_gf128 n h m ds dense p vs = Inr vs' \<and> length vs' = 8 * n \<and>
    vecOk vs' (\<lambda>i l. F i l + (\<Sum>k<ds. GF (dense ! l) ^ Suc k * crd i (p ! (m + k))))"
proof -
  have pV: "p ! (m + k) \<in> V" if "k < ds" for k using that assms(6,7) by (auto simp: subset_iff)
  let ?H = "\<lambda>e i l. F i l + (\<Sum>k<e. GF (dense ! l) ^ Suc k * crd i (p ! (m + k)))"
  let ?step = "\<lambda>i (xx, vs). rbind (at p (m + i)) (\<lambda>p2.
         foldr_res (\<lambda>k (xx, vs).
           rbind (eachOf8 k (\<lambda>l x. rbind (at dense l) (\<lambda>d. Inr (gf128Mul x d))) xx) (\<lambda>xx.
           rbind (eachOf8 k (\<lambda>l v. rbind (at xx l) (\<lambda>x. hMultAdd h v p2 x)) vs) (\<lambda>vs. Inr (xx, vs))))
           [0..<n] (xx, vs))"
  have "\<exists>v1. foldr_res (\<lambda>k. eachOf8 k (\<lambda>l v. rbind (at dense l) (\<lambda>x. hMultAdd h v (p ! m) x))) [0..<n] vs = Inr v1 \<and>
      length v1 = 8 * n \<and> vecOk v1 (?H 1)"
  proof (rule groups_vecOk [OF assms(4,3)])
    fix l y assume l: "l < 8 * n" and y: "y \<in> V" "\<forall>i\<in>I. crd i y = F i l"
    obtain z where "z \<in> V" "hMultAdd h y (p ! m) (dense ! l) = Inr z"
      "\<forall>i\<in>I. crd i z = crd i y + crd i (p ! m) * GF (dense ! l)"
      using multAdd [OF assms(1) y(1) pV [of 0]] assms(5) by auto
    with l y(2) assms(2) show "\<exists>z\<in>V. rbind (at dense l) (\<lambda>x. hMultAdd h y (p ! m) x) = Inr z \<and>
        (\<forall>i\<in>I. crd i z = ?H 1 i l)" by (auto simp: mult.commute)
  qed
  then obtain v1 where v1: "foldr_res (\<lambda>k. eachOf8 k (\<lambda>l v. rbind (at dense l) (\<lambda>x. hMultAdd h v (p ! m) x))) [0..<n] vs = Inr v1"
    "length v1 = 8 * n" "vecOk v1 (?H 1)" by blast
  have "e \<le> ds \<Longrightarrow> 0 < e \<Longrightarrow> \<exists>xx v'. foldr_res ?step [1..<e] (dense, v1) = Inr (xx, v') \<and> length xx = 8 * n \<and> length v' = 8 * n \<and>
      (\<forall>l<8 * n. GF (xx ! l) = GF (dense ! l) ^ e) \<and> vecOk v' (?H e)" for e
  proof (induction e)
    case (Suc e)
    show ?case
    proof (cases "e = 0")
      case True
      with v1 assms(2) show ?thesis by simp
    next
      case False
      with Suc.prems have "e \<le> ds" "0 < e" by simp_all
      from Suc.IH [OF this] obtain xx v' where IH: "foldr_res ?step [1..<e] (dense, v1) = Inr (xx, v')" "length xx = 8 * n"
        "length v' = 8 * n" "\<forall>l<8 * n. GF (xx ! l) = GF (dense ! l) ^ e" "vecOk v' (?H e)" by blast
      from gf128_groups [OF assms(1,2) pV [of e] IH(2-5)] Suc.prems obtain x2 v2 where
        g: "foldr_res (\<lambda>k (xx, vs).
           rbind (eachOf8 k (\<lambda>l x. rbind (at dense l) (\<lambda>d. Inr (gf128Mul x d))) xx) (\<lambda>xx.
           rbind (eachOf8 k (\<lambda>l v. rbind (at xx l) (\<lambda>x. hMultAdd h v (p ! (m + e)) x)) vs) (\<lambda>vs. Inr (xx, vs))))
           [0..<n] (xx, v') = Inr (x2, v2)" "length x2 = 8 * n" "length v2 = 8 * n"
        "\<forall>l<8 * n. GF (x2 ! l) = GF (dense ! l) ^ e * GF (dense ! l)"
        "vecOk v2 (\<lambda>i l. ?H e i l + GF (dense ! l) ^ e * GF (dense ! l) * crd i (p ! (m + e)))" by auto
      have "?step e (xx, v') = Inr (x2, v2)" using g(1) Suc.prems assms(6) by simp
      moreover have "[1..<Suc e] = [1..<e] @ [e]" using False by simp
      ultimately have "foldr_res ?step [1..<Suc e] (dense, v1) = Inr (x2, v2)"
        by (simp only: foldr_res_append IH(1) rbind_simps foldr_res_single)
      moreover have "vecOk v2 (?H (Suc e))" using g(5) by (simp add: vecOk_def add.assoc mult.commute)
      moreover have "\<forall>l<8 * n. GF (x2 ! l) = GF (dense ! l) ^ Suc e" using g(4) by (simp add: mult.commute)
      ultimately show ?thesis using g(2,3) by blast
    qed
  qed simp
  from this [of ds] assms(5) obtain xx v' where l: "foldr_res ?step [1..<ds] (dense, v1) = Inr (xx, v')"
    "length v' = 8 * n" "vecOk v' (?H ds)" by auto
  moreover have "m < length p" using assms(5,6) by simp
  ultimately show ?thesis using v1 unfolding decodeBatch_gf128_def by simp
qed

lemma binary_group:
  assumes "ds \<le> 64" "length dense = 8 * n" "length vs = 8 * n" "k < n" "vecOk vs F" "m + ds \<le> length p" "set p \<subseteq> V"
  shows "\<exists>d2 vs'. foldr_res (\<lambda>i (d2, vs).
           let b = map (\<lambda>d. ucast (d AND 1) :: u8) d2;
               d2 = map (drop_bit 1) d2
           in rbind (at p (m + i)) (\<lambda>p2.
              rbind (eachOf8 k (\<lambda>l v. hMultAddBit h v p2 (b ! (l - 8 * k))) vs) (\<lambda>vs. Inr (d2, vs))))
         [0..<ds] (map lo64 (take 8 (drop (8 * k) dense)), vs) = Inr (d2, vs') \<and> length vs' = 8 * n \<and>
    vecOk vs' (\<lambda>i l. if 8 * k \<le> l \<and> l < 8 * k + 8 then F i l + (\<Sum>j<ds. bitGF (bit (dense ! l) j) * crd i (p ! (m + j))) else F i l)"
  using assms(1,6)
proof (induction ds)
  case 0
  with assms(3,5) show ?case by (auto simp: vecOk_def)
next
  case (Suc e)
  let ?d = "map lo64 (take 8 (drop (8 * k) dense))"
  let ?step = "\<lambda>i (d2, vs).
           let b = map (\<lambda>d. ucast (d AND 1) :: u8) d2;
               d2 = map (drop_bit 1) d2
           in rbind (at p (m + i)) (\<lambda>p2.
              rbind (eachOf8 k (\<lambda>l v. hMultAddBit h v p2 (b ! (l - 8 * k))) vs) (\<lambda>vs. Inr (d2, vs)))"
  have shift: "\<exists>vs'. foldr_res ?step [0..<e] (?d, vs) = Inr (map (drop_bit e) ?d, vs') \<and> length vs' = 8 * n \<and>
    vecOk vs' (\<lambda>i l. if 8 * k \<le> l \<and> l < 8 * k + 8 then F i l + (\<Sum>j<e. bitGF (bit (dense ! l) j) * crd i (p ! (m + j))) else F i l)"
  proof -
    obtain d2 vs' where u: "foldr_res ?step [0..<e] (?d, vs) = Inr (d2, vs')" "length vs' = 8 * n"
      "vecOk vs' (\<lambda>i l. if 8 * k \<le> l \<and> l < 8 * k + 8 then F i l + (\<Sum>j<e. bitGF (bit (dense ! l) j) * crd i (p ! (m + j))) else F i l)"
      using Suc by auto
    have "foldr_res ?step [0..<c] (?d, vs) = Inr (d2, vs') \<Longrightarrow> d2 = map (drop_bit c) ?d" for c d2 vs'
    proof (induction c arbitrary: d2 vs')
      case (Suc c)
      then obtain d3 v3 where "foldr_res ?step [0..<c] (?d, vs) = Inr (d3, v3)" "?step c (d3, v3) = Inr (d2, vs')"
        by (auto simp: foldr_res_append rbind_Inr_iff)
      with Suc.IH have "d2 = map (drop_bit 1) (map (drop_bit c) ?d)" by (auto simp: Let_def rbind_Inr_iff)
      then show ?case by simp
    qed (simp add: comp_def)
    with u show ?thesis by blast
  qed
  then obtain vs' where u: "foldr_res ?step [0..<e] (?d, vs) = Inr (map (drop_bit e) ?d, vs')" "length vs' = 8 * n"
    "vecOk vs' (\<lambda>i l. if 8 * k \<le> l \<and> l < 8 * k + 8 then F i l + (\<Sum>j<e. bitGF (bit (dense ! l) j) * crd i (p ! (m + j))) else F i l)"
    by blast
  let ?b = "map (\<lambda>d. ucast (d AND 1) :: u8) (map (drop_bit e) ?d)"
  have k: "8 * k + 8 \<le> 8 * n" using assms(4) by simp
  have pm: "m + e < length p" "p ! (m + e) \<in> V" using Suc.prems assms(7) by (auto simp: subset_iff)
  have b: "?b ! (l - 8 * k) < 2" "?b ! (l - 8 * k) = 1 \<longleftrightarrow> bit (dense ! l) e" if "8 * k \<le> l" "l < 8 * k + 8" for l
  proof -
    have "?b ! (l - 8 * k) = ucast (drop_bit e (lo64 (dense ! l)) AND 1)" using that k assms(2) by simp
    also have "drop_bit e (lo64 (dense ! l)) AND 1 = (if bit (dense ! l) e then 1 else 0)"
      using Suc.prems by (intro bit_word_eqI) (auto simp: bit_simps intro!: Nat.gr0I)
    finally show "?b ! (l - 8 * k) < 2" "?b ! (l - 8 * k) = 1 \<longleftrightarrow> bit (dense ! l) e" by simp_all
  qed
  have "\<exists>v2. foldr_res (setEach (\<lambda>l v. hMultAddBit h v (p ! (m + e)) (?b ! (l - 8 * k)))) [8 * k..<8 * k + 8] vs' = Inr v2 \<and>
      length v2 = length vs' \<and> vecOk v2 (\<lambda>i l. if 8 * k \<le> l \<and> l < 8 * k + 8
        then F i l + (\<Sum>j<Suc e. bitGF (bit (dense ! l) j) * crd i (p ! (m + j)))
        else (if 8 * k \<le> l \<and> l < 8 * k + 8 then F i l + (\<Sum>j<e. bitGF (bit (dense ! l) j) * crd i (p ! (m + j))) else F i l))"
  proof (rule setEach_vecOk [OF u(3)])
    fix l y assume l: "8 * k \<le> l" "l < 8 * k + 8" and y: "y \<in> V"
      "\<forall>i\<in>I. crd i y = (if 8 * k \<le> l \<and> l < 8 * k + 8 then F i l + (\<Sum>j<e. bitGF (bit (dense ! l) j) * crd i (p ! (m + j))) else F i l)"
    show "\<exists>z\<in>V. hMultAddBit h y (p ! (m + e)) (?b ! (l - 8 * k)) = Inr z \<and>
        (\<forall>i\<in>I. crd i z = F i l + (\<Sum>j<Suc e. bitGF (bit (dense ! l) j) * crd i (p ! (m + j))))"
      using l y pm(2) b [OF l] unfolding multAddBit [OF y(1) pm(2)]
      by (simp add: add_V crd_add bitGF_def add.assoc)
  qed (use k u(2) in simp_all)
  then obtain v2 where s: "foldr_res (setEach (\<lambda>l v. hMultAddBit h v (p ! (m + e)) (?b ! (l - 8 * k)))) [8 * k..<8 * k + 8] vs' = Inr v2"
    "length v2 = length vs'" and w: "vecOk v2 (\<lambda>i l. if 8 * k \<le> l \<and> l < 8 * k + 8
        then F i l + (\<Sum>j<Suc e. bitGF (bit (dense ! l) j) * crd i (p ! (m + j)))
        else (if 8 * k \<le> l \<and> l < 8 * k + 8 then F i l + (\<Sum>j<e. bitGF (bit (dense ! l) j) * crd i (p ! (m + j))) else F i l))"
    by blast
  have v2: "eachOf8 k (\<lambda>l v. hMultAddBit h v (p ! (m + e)) (?b ! (l - 8 * k))) vs' = Inr v2" "length v2 = 8 * n"
    using s u(2) by (simp_all only: eachOf8_eq)
  have v3: "vecOk v2 (\<lambda>i l. if 8 * k \<le> l \<and> l < 8 * k + 8
        then F i l + (\<Sum>j<Suc e. bitGF (bit (dense ! l) j) * crd i (p ! (m + j))) else F i l)"
    by (rule vecOk_cong [OF w]) simp
  have "?step e (map (drop_bit e) ?d, vs') = Inr (map (drop_bit 1) (map (drop_bit e) ?d), v2)"
    using v2(1) pm(1) by (simp only: prod.case Let_def at_Inr rbind_simps)
  then have "foldr_res ?step [0..<Suc e] (?d, vs) = Inr (map (drop_bit 1) (map (drop_bit e) ?d), v2)"
    by (simp only: upt_Suc_append zero_le foldr_res_append u(1) rbind_simps foldr_res_single)
  with v2(2) v3 show ?case by blast
qed

lemma decodeBatch_binary_ok:
  assumes "ds \<le> 64" "length dense = 8 * n" "length vs = 8 * n" "vecOk vs F" "m + ds \<le> length p" "set p \<subseteq> V"
  shows "\<exists>vs'. decodeBatch_binary n h m ds dense p vs = Inr vs' \<and> length vs' = 8 * n \<and>
    vecOk vs' (\<lambda>i l. F i l + (\<Sum>j<ds. bitGF (bit (dense ! l) j) * crd i (p ! (m + j))))"
proof -
  let ?S = "\<lambda>i l. F i l + (\<Sum>j<ds. bitGF (bit (dense ! l) j) * crd i (p ! (m + j)))"
  let ?step = "\<lambda>k vs. rbind (guardr (ds \<le> 64) AssertFail) (\<lambda>_.
       rbind (foldr_res (\<lambda>i (d2, vs).
           let b = map (\<lambda>d. ucast (d AND 1) :: u8) d2;
               d2 = map (drop_bit 1) d2
           in rbind (at p (m + i)) (\<lambda>p2.
              rbind (eachOf8 k (\<lambda>l v. hMultAddBit h v p2 (b ! (l - 8 * k))) vs) (\<lambda>vs. Inr (d2, vs))))
         [0..<ds] (map lo64 (take 8 (drop (8 * k) dense)), vs)) (\<lambda>(d2, vs). Inr vs))"
  have "c \<le> n \<Longrightarrow> \<exists>vs'. foldr_res ?step [0..<c] vs = Inr vs' \<and> length vs' = 8 * n \<and>
      vecOk vs' (\<lambda>i l. if l < 8 * c then ?S i l else F i l)" for c
  proof (induction c)
    case 0
    with assms(3,4) show ?case by simp
  next
    case (Suc c)
    then have "c \<le> n" "c < n" by simp_all
    from Suc.IH [OF this(1)] obtain u where u: "foldr_res ?step [0..<c] vs = Inr u" "length u = 8 * n"
      "vecOk u (\<lambda>i l. if l < 8 * c then ?S i l else F i l)" by blast
    from binary_group [OF assms(1,2) u(2) \<open>c < n\<close> u(3) assms(5,6)] obtain d2 v2 where
      g: "foldr_res (\<lambda>i (d2, vs).
           let b = map (\<lambda>d. ucast (d AND 1) :: u8) d2;
               d2 = map (drop_bit 1) d2
           in rbind (at p (m + i)) (\<lambda>p2.
              rbind (eachOf8 c (\<lambda>l v. hMultAddBit h v p2 (b ! (l - 8 * c))) vs) (\<lambda>vs. Inr (d2, vs))))
         [0..<ds] (map lo64 (take 8 (drop (8 * c) dense)), u) = Inr (d2, v2)" "length v2 = 8 * n"
      "vecOk v2 (\<lambda>i l. if 8 * c \<le> l \<and> l < 8 * c + 8 then (if l < 8 * c then ?S i l else F i l) +
        (\<Sum>j<ds. bitGF (bit (dense ! l) j) * crd i (p ! (m + j))) else (if l < 8 * c then ?S i l else F i l))" by blast
    have "?step c u = Inr v2"
      by (simp only: g(1) assms(1) guardr_simps rbind_simps prod.case)
    then have "foldr_res ?step [0..<Suc c] vs = Inr v2"
      by (simp only: upt_Suc_append zero_le foldr_res_append u(1) rbind_simps foldr_res_single)
    moreover have "vecOk v2 (\<lambda>i l. if l < 8 * Suc c then ?S i l else F i l)"
      using g(3) by (auto simp: vecOk_def)
    ultimately show ?case using g(2) by blast
  qed
  from this [OF order_refl] obtain vs' where "foldr_res ?step [0..<n] vs = Inr vs'" "length vs' = 8 * n"
      "vecOk vs' (\<lambda>i l. if l < 8 * n then ?S i l else F i l)" by blast
  then show ?thesis unfolding decodeBatch_binary_def by (auto simp: vecOk_def)
qed

text \<open>The batch against the row vectors, and against \<open>decode1\<close>.\<close>

lemma decodeBatch_ok:
  assumes "dt = mDt P" "\<And>l. l < 8 * n \<Longrightarrow> valid_row (mSparseSize P) (mWeight P) (rows ! l)" "0 < mWeight P"
    and "length rows = 8 * n" "length dense = 8 * n" "length vs = 8 * n"
    and "length p = paxos_size P" "set p \<subseteq> V" "0 < mDenseSize P" "dt = Binary \<Longrightarrow> mDenseSize P \<le> 64"
  shows "\<exists>vs'. decodeBatch n h P rows dense p vs = Inr vs' \<and> length vs' = 8 * n \<and>
    (\<forall>l<8 * n. vs' ! l \<in> V \<and> decode1 h P (rows ! l) (dense ! l) p = Inr (vs' ! l))"
proof -
  have le: "mSparseSize P \<le> length p" "mSparseSize P + mDenseSize P \<le> length p" using assms(7) by (simp_all add: paxos_size_def)
  obtain v1 where v1: "decodeBatch_sparse n h (mWeight P) rows p vs = Inr v1" "length v1 = 8 * n"
    "vecOk v1 (\<lambda>i l. sparseSum (rows ! l) (\<lambda>c. crd i (p ! c)))"
    using decodeBatch_sparse_ok [OF assms(2,4,6,3) le(1) assms(8)] by blast
  have "\<exists>vs'. decodeBatch n h P rows dense p vs = Inr vs' \<and> length vs' = 8 * n \<and>
      vecOk vs' (\<lambda>i l. rowSum P (rows ! l) (dense ! l) (\<lambda>c. crd i (p ! c)))"
  proof (cases "mDt P")
    case Binary
    with decodeBatch_binary_ok [OF _ assms(5) v1(2,3) le(2) assms(8)] assms(1,10) v1(1) show ?thesis
      by (simp add: decodeBatch_def rowSum_def denseCoef_def)
  next
    case GF128
    with decodeBatch_gf128_ok [OF _ assms(5) v1(2,3) assms(9) le(2) assms(8)] assms(1) v1(1) show ?thesis
      by (simp add: decodeBatch_def rowSum_def denseCoef_def)
  qed
  then obtain vs' where vs': "decodeBatch n h P rows dense p vs = Inr vs'" "length vs' = 8 * n"
      "vecOk vs' (\<lambda>i l. rowSum P (rows ! l) (dense ! l) (\<lambda>c. crd i (p ! c)))" by blast
  have "vs' ! l \<in> V \<and> decode1 h P (rows ! l) (dense ! l) p = Inr (vs' ! l)" if l: "l < 8 * n" for l
  proof -
    have b: "dt = Binary \<Longrightarrow> mDenseSize P \<le> 128" using assms(10) by fastforce
    obtain v where v: "v \<in> V" "decode1 h P (rows ! l) (dense ! l) p = Inr v"
      "\<forall>i\<in>I. crd i v = rowSum P (rows ! l) (dense ! l) (\<lambda>c. crd i (p ! c))"
      using decode1_ok [OF assms(1) assms(2) [OF l] assms(3,7,8,9) b] by blast
    with vs'(2,3) l have "vs' ! l \<in> V" "v = vs' ! l" by (auto simp: vecOk_def intro!: crd_eq)
    with v(2) show ?thesis by simp
  qed
  with vs' show ?thesis by blast
qed

end

subsection \<open>decode, key by key\<close>

lemma rbind_assoc: "rbind (rbind m f) g = rbind m (\<lambda>x. rbind (f x) g)"
  by (simp add: rbind_def split: sum.splits)

lemma decode_add8_eq:
  "decode_add8 h i j v = foldr_res (setEach (\<lambda>t x. rbind (at v (t - i)) (\<lambda>y. Inr (hAdd h x y)))) [i + j..<i + j + 8]"
proof -
  have "[i + j..<i + j + 8] = map (\<lambda>l. i + j + l) [0..<8]"
    using map_add_upt [of "i + j" 8] by (simp add: add.commute)
  then show ?thesis
    by (simp only: foldr_res_map fun_eq_iff) (simp add: decode_add8_def setEach_def [abs_def] rbind_assoc add.assoc)
qed

lemma foldr_res_concat_map:
  "foldr_res (\<lambda>x. foldr_res f (g x)) xs s = foldr_res f (concat (map g xs)) s"
proof (induction xs arbitrary: s)
  case (Cons x xs)
  then show ?case by (simp add: foldr_res_append rbind_def split: sum.splits)
qed simp

lemma decode_add_eq:
  "foldr_res (\<lambda>j. decode_add8 h i j v) [0, 8, 16, 24] values =
     foldr_res (setEach (\<lambda>t x. rbind (at v (t - i)) (\<lambda>y. Inr (hAdd h x y)))) [i..<i + 32] values"
proof -
  have "[i..<i + 32] = [i + 0..<i + 0 + 8] @ [i + 8..<i + 8 + 8] @ [i + 16..<i + 16 + 8] @ [i + 24..<i + 24 + 8]"
    using upt_add_eq_append [of i "i + 8" 24] upt_add_eq_append [of "i + 8" "i + 16" 16]
      upt_add_eq_append [of "i + 16" "i + 24" 8] by (simp add: add.assoc)
  then show ?thesis by (simp only: decode_add8_eq foldr_res_concat_map list.map concat.simps append_Nil2)
qed

lemma storeAt_nth:
  "i + length new \<le> length vs \<Longrightarrow> l < length vs \<Longrightarrow>
     storeAt i new vs ! l = (if i \<le> l \<and> l < i + length new then new ! (l - i) else vs ! l)"
  by (auto simp: storeAt_def nth_append)

lemma length_storeAt: "i + length new \<le> length vs \<Longrightarrow> length (storeAt i new vs) = length vs"
  by (simp add: storeAt_def)

text \<open>What \<open>decode\<close> returns for one key: \<open>decode1\<close> on the key's row.\<close>

definition decodeKey :: "(block \<Rightarrow> block \<Rightarrow> block) \<Rightarrow> ('v, 's) px_helper \<Rightarrow> 'a paxos_scheme \<Rightarrow> 'v list \<Rightarrow> block \<Rightarrow> 'v res" where
  "decodeKey aesHash h P p x = (let (row, dense) = keyRow aesHash P x in decode1 h P row dense p)"

definition putValue :: "('v, 's) px_helper \<Rightarrow> 'a paxos_scheme \<Rightarrow> 'v \<Rightarrow> 'v \<Rightarrow> 'v" where
  "putValue h P old y = (if mAddToDecode P then hAdd h old y else y)"

lemma hashBuildRow32_take:
  assumes "hasher_ok P" "i + 32 \<le> length inputs"
  shows "hashBuildRow32 (mIdxBits P) aesHash (mHasher P) (drop i inputs) =
    (map (\<lambda>x. fst (keyRow aesHash P x)) (take 32 (drop i inputs)), map (\<lambda>x. snd (keyRow aesHash P x)) (take 32 (drop i inputs)))"
  using assms buildRow32_eq [of "mIdxBits P" "mHasher P" "map (aesHash (phSeed (mHasher P))) (take 32 (drop i inputs))"]
  by (simp add: hashBuildRow32_def keyRow_def hashBuildRow1_def Let_def hasher_ok_def)

context px_values
begin

definition decode_ok :: "'d paxos_scheme \<Rightarrow> 'a list \<Rightarrow> bool" where
  "decode_ok P p \<longleftrightarrow> hasher_ok P \<and> dt = mDt P \<and> 0 < mWeight P \<and> length p = paxos_size P \<and> set p \<subseteq> V \<and>
     0 < mDenseSize P \<and> (dt = Binary \<longrightarrow> mDenseSize P \<le> 64)"

lemma decodeKey_ok:
  assumes "decode_ok P p"
  shows "\<exists>y\<in>V. decodeKey aesHash h P p x = Inr y \<and>
    (\<forall>i\<in>I. crd i y = rowSum P (fst (keyRow aesHash P x)) (snd (keyRow aesHash P x)) (\<lambda>c. crd i (p ! c)))"
proof -
  have D: "hasher_ok P" "dt = mDt P" "0 < mWeight P" "length p = paxos_size P" "set p \<subseteq> V" "0 < mDenseSize P"
    "dt = Binary \<Longrightarrow> mDenseSize P \<le> 64" using assms unfolding decode_ok_def by blast+
  then have "dt = Binary \<Longrightarrow> mDenseSize P \<le> 128" by fastforce
  from decode1_ok [OF D(2) keyRow_valid [OF D(1)] D(3-6) this, of aesHash x "snd (keyRow aesHash P x)"]
  show ?thesis by (simp add: decodeKey_def case_prod_beta)
qed

lemma decode_main_ok:
  assumes "decode_ok P p" "i + 32 \<le> length inputs" "length values = length inputs" "length v = 32"
  shows "\<exists>values' v'. decode_main aesHash h P inputs p i (values, v) = Inr (values', v') \<and> length values' = length inputs \<and>
    length v' = 32 \<and> (\<forall>l<length inputs. if i \<le> l \<and> l < i + 32
      then \<exists>y. decodeKey aesHash h P p (inputs ! l) = Inr y \<and> values' ! l = putValue h P (values ! l) y
      else values' ! l = values ! l)"
proof -
  have D: "hasher_ok P" "dt = mDt P" "0 < mWeight P" "length p = paxos_size P" "set p \<subseteq> V" "0 < mDenseSize P"
    "dt = Binary \<Longrightarrow> mDenseSize P \<le> 64" using assms(1) unfolding decode_ok_def by blast+
  let ?in = "take 32 (drop i inputs)"
  let ?rows = "map (\<lambda>x. fst (keyRow aesHash P x)) ?in" and ?dense = "map (\<lambda>x. snd (keyRow aesHash P x)) ?in"
  have len: "length ?in = 32" using assms(2) by simp
  have nth: "?in ! l = inputs ! (i + l)" if "l < 32" for l using that assms(2) by simp
  have batch: "\<exists>vs'. decode32 h P ?rows ?dense p vs = Inr vs' \<and> length vs' = 32 \<and>
      (\<forall>l<32. decodeKey aesHash h P p (inputs ! (i + l)) = Inr (vs' ! l))" if "length vs = 32" for vs
  proof -
    have v: "valid_row (mSparseSize P) (mWeight P) (?rows ! l)" if "l < 8 * 4" for l
      using that len keyRow_valid [OF D(1)] by simp
    have L: "length ?rows = 8 * 4" "length ?dense = 8 * 4" "length vs = 8 * 4" using len that by simp_all
    from decodeBatch_ok [OF D(2) v D(3) L D(4-7)] obtain vs' where vs': "decodeBatch 4 h P ?rows ?dense p vs = Inr vs'"
      "length vs' = 8 * 4" "\<forall>l<8 * 4. vs' ! l \<in> V \<and> decode1 h P (?rows ! l) (?dense ! l) p = Inr (vs' ! l)" by blast
    have "decodeKey aesHash h P p (inputs ! (i + l)) = Inr (vs' ! l)" if "l < 32" for l
      using vs'(3) [rule_format, of l] that len nth [OF that] by (simp add: decodeKey_def case_prod_beta)
    with vs'(1,2) show ?thesis by (auto simp: decode32_def)
  qed
  note h32 = hashBuildRow32_take [OF D(1) assms(2), of aesHash]
  show ?thesis
  proof (cases "mAddToDecode P")
    case True
    obtain v' where v': "decode32 h P ?rows ?dense p v = Inr v'" "length v' = 32"
      "\<forall>l<32. decodeKey aesHash h P p (inputs ! (i + l)) = Inr (v' ! l)" using batch [OF assms(4)] by blast
    obtain vals where vals: "foldr_res (setEach (\<lambda>t x. rbind (at v' (t - i)) (\<lambda>y. Inr (hAdd h x y)))) [i..<i + 32] values = Inr vals"
      "length vals = length values" "\<forall>l<length values. vals ! l = (if i \<le> l \<and> l < i + 32 then hAdd h (values ! l) (v' ! (l - i)) else values ! l)"
      using setEach_pure [of "i + 32" "values" i "\<lambda>t x. rbind (at v' (t - i)) (\<lambda>y. Inr (hAdd h x y))" "\<lambda>l. hAdd h (values ! l) (v' ! (l - i))"]
        assms(2,3) v'(2) by auto
    have "decode_main aesHash h P inputs p i (values, v) = Inr (vals, v')"
      unfolding decode_main_def Let_def prod.case h32 using True v'(1) vals(1) by (simp only: decode_add_eq if_True rbind_simps)
    moreover have "if i \<le> l \<and> l < i + 32
      then \<exists>y. decodeKey aesHash h P p (inputs ! l) = Inr y \<and> vals ! l = putValue h P (values ! l) y
      else vals ! l = values ! l" if "l < length inputs" for l
      using v'(3) [rule_format, of "l - i"] vals(3) [rule_format, of l] that assms(3) True by (auto simp: putValue_def)
    ultimately show ?thesis using vals(2) v'(2) assms(3) by auto
  next
    case False
    obtain new where new: "decode32 h P ?rows ?dense p (take 32 (drop i values)) = Inr new" "length new = 32"
      "\<forall>l<32. decodeKey aesHash h P p (inputs ! (i + l)) = Inr (new ! l)" using batch [of "take 32 (drop i values)"] assms(2,3) by auto
    have "decode_main aesHash h P inputs p i (values, v) = Inr (storeAt i new values, v)"
      unfolding decode_main_def Let_def prod.case h32 using False new(1) assms(2,3) by (simp add: gPaxosBuildRowSize_def)
    moreover have "if i \<le> l \<and> l < i + 32
      then \<exists>y. decodeKey aesHash h P p (inputs ! l) = Inr y \<and> storeAt i new values ! l = putValue h P (values ! l) y
      else storeAt i new values ! l = values ! l" if "l < length inputs" for l
      using new(2) new(3) [rule_format, of "l - i"] that assms(2,3) False by (auto simp: putValue_def storeAt_nth)
    ultimately show ?thesis using new(2) assms(2-4) by (auto simp: length_storeAt)
  qed
qed

lemma decode_tail_ok:
  assumes "decode_ok P p" "i < length inputs" "length values = length inputs" "length v = 32"
  shows "\<exists>y v'. decodeKey aesHash h P p (inputs ! i) = Inr y \<and>
    decode_tail aesHash h P inputs p i (values, v) = Inr (values[i := putValue h P (values ! i) y], v') \<and> length v' = 32"
proof -
  obtain y where y: "decodeKey aesHash h P p (inputs ! i) = Inr y" using decodeKey_ok [OF assms(1)] by blast
  obtain row d where r: "keyRow aesHash P (inputs ! i) = (row, d)" by fastforce
  with y have "decode1 h P row d p = Inr y" by (simp add: decodeKey_def)
  with r y assms show ?thesis by (auto simp: decode_tail_def keyRow_def putValue_def)
qed

lemma decode_each:
  assumes ok: "decode_ok P p" and len: "length values = length inputs"
  shows "\<exists>out. decode aesHash h P inputs values p = Inr out \<and> length out = length inputs \<and>
    (\<forall>l<length inputs. \<exists>y. decodeKey aesHash h P p (inputs ! l) = Inr y \<and> out ! l = putValue h P (values ! l) y)"
proof -
  let ?n = "length inputs" and ?m = "length inputs div 32"
  let ?fin = "\<lambda>k vals. length vals = ?n \<and> (\<forall>l<?n. if l < k
      then \<exists>y. decodeKey aesHash h P p (inputs ! l) = Inr y \<and> vals ! l = putValue h P (values ! l) y else vals ! l = values ! l)"
  have main: "b \<le> ?m \<Longrightarrow> \<exists>vals v. foldr_res (\<lambda>b. decode_main aesHash h P inputs p (32 * b)) [0..<b]
      (values, replicate 32 (hNew h)) = Inr (vals, v) \<and> length v = 32 \<and> ?fin (32 * b) vals" for b
  proof (induction b)
    case (Suc b)
    then obtain vals v where IH: "foldr_res (\<lambda>b. decode_main aesHash h P inputs p (32 * b)) [0..<b]
      (values, replicate 32 (hNew h)) = Inr (vals, v)" "length v = 32" "?fin (32 * b) vals" by auto
    have "32 * b + 32 \<le> ?n" using Suc.prems by (simp add: less_eq_div_iff_mult_less_eq)
    from decode_main_ok [OF ok this _ IH(2)] IH(3) obtain vals' v' where
      s: "decode_main aesHash h P inputs p (32 * b) (vals, v) = Inr (vals', v')" "length vals' = ?n" "length v' = 32"
      "\<forall>l<?n. if 32 * b \<le> l \<and> l < 32 * b + 32
        then \<exists>y. decodeKey aesHash h P p (inputs ! l) = Inr y \<and> vals' ! l = putValue h P (vals ! l) y
        else vals' ! l = vals ! l" by blast
    have "?fin (32 * Suc b) vals'"
    proof (intro conjI allI impI)
      fix l assume l: "l < ?n"
      from s(4) l IH(3) show "if l < 32 * Suc b
        then \<exists>y. decodeKey aesHash h P p (inputs ! l) = Inr y \<and> vals' ! l = putValue h P (values ! l) y
        else vals' ! l = values ! l"
        by (cases "l < 32 * b"; cases "l < 32 * b + 32") (auto dest: spec [of _ l])
    qed (rule s)
    moreover have "foldr_res (\<lambda>b. decode_main aesHash h P inputs p (32 * b)) [0..<Suc b]
        (values, replicate 32 (hNew h)) = Inr (vals', v')"
      using IH(1) s(1) by (simp add: foldr_res_append)
    ultimately show ?case using s(3) by blast
  qed (simp add: len)
  from main [OF order_refl] obtain vals v where M: "foldr_res (\<lambda>b. decode_main aesHash h P inputs p (32 * b)) [0..<?m]
      (values, replicate 32 (hNew h)) = Inr (vals, v)" "length v = 32" "?fin (32 * ?m) vals" by blast
  have "k \<le> ?n \<Longrightarrow> 32 * ?m \<le> k \<Longrightarrow> \<exists>vals' v'. foldr_res (decode_tail aesHash h P inputs p) [32 * ?m..<k] (vals, v) = Inr (vals', v') \<and>
      length v' = 32 \<and> ?fin k vals'" for k
  proof (induction k)
    case 0
    with M show ?case by auto
  next
    case (Suc k)
    show ?case
    proof (cases "32 * ?m = Suc k")
      case True
      with M show ?thesis by auto
    next
      case False
      with Suc obtain vals' v' where IH: "foldr_res (decode_tail aesHash h P inputs p) [32 * ?m..<k] (vals, v) = Inr (vals', v')"
        "length v' = 32" "?fin k vals'" by auto
      from decode_tail_ok [OF ok, of k inputs vals' v' aesHash] IH Suc.prems obtain y v2 where
        "decodeKey aesHash h P p (inputs ! k) = Inr y"
        "decode_tail aesHash h P inputs p k (vals', v') = Inr (vals'[k := putValue h P (vals' ! k) y], v2)" "length v2 = 32" by auto
      moreover have "vals' ! k = values ! k" using IH(3) Suc.prems by (auto dest: spec [of _ k])
      ultimately show ?thesis using IH Suc.prems False
        by (auto simp: foldr_res_append nth_list_update less_Suc_eq)
    qed
  qed
  from this [of ?n] obtain out v' where T: "foldr_res (decode_tail aesHash h P inputs p) [32 * ?m..<?n] (vals, v) = Inr (out, v')"
    "?fin ?n out" by auto
  have "length p = paxos_size P" using ok by (simp add: decode_ok_def)
  with M(1) T(1) have "decode aesHash h P inputs values p = Inr out"
    by (simp add: decode_def gPaxosBuildRowSize_def Let_def)
  with T(2) show ?thesis by auto
qed

end

subsection \<open>The properties\<close>

text \<open>C36: decode of a vector of blocks, with either dense type, succeeds on a structure of the right
  size, and its value for every key is the product of the key's row with the structure over
  GF(2^128), the sum of the sparse positions of the row plus the dense positions times the powers
  (GF128) or the bits (Binary) of the key's hash; with mAddToDecode the product is added to the old
  value.\<close>

theorem decode_correct:
  assumes "hasher_ok P" and "0 < mWeight P" and "0 < mDenseSize P" and "mDt P = Binary \<longrightarrow> mDenseSize P \<le> 64"
    and "length p = paxos_size P" and "length values = length inputs"
  shows "\<exists>out. decode aesHash (PxVector_blocks rnd) P inputs values p = Inr out \<and> length out = length inputs \<and>
    (\<forall>l<length inputs. GF (out ! l) = (if mAddToDecode P then GF (values ! l) else 0) +
      rowSum P (fst (keyRow aesHash P (inputs ! l))) (snd (keyRow aesHash P (inputs ! l))) (\<lambda>c. GF (p ! c)))"
proof -
  have ok: "pxv.both.decode_ok (mDt P) P p" using assms by (simp add: pxv.both.decode_ok_def)
  obtain out where out: "decode aesHash (PxVector_blocks rnd) P inputs values p = Inr out" "length out = length inputs"
    "\<forall>l<length inputs. \<exists>y. decodeKey aesHash (PxVector_blocks rnd) P p (inputs ! l) = Inr y \<and>
      out ! l = putValue (PxVector_blocks rnd) P (values ! l) y"
    using pxv.both.decode_each [OF ok assms(6)] by blast
  have "GF (out ! l) = (if mAddToDecode P then GF (values ! l) else 0) +
      rowSum P (fst (keyRow aesHash P (inputs ! l))) (snd (keyRow aesHash P (inputs ! l))) (\<lambda>c. GF (p ! c))"
    if l: "l < length inputs" for l
  proof -
    obtain y where y: "decodeKey aesHash (PxVector_blocks rnd) P p (inputs ! l) = Inr y"
      "out ! l = putValue (PxVector_blocks rnd) P (values ! l) y" using out(3) l by blast
    with pxv.both.decodeKey_ok [OF ok, of aesHash rnd "inputs ! l"]
    show ?thesis by (auto simp: putValue_def PxVector_blocks_def PxVector_add_def simp flip: GF_add)
  qed
  with out show ?thesis by blast
qed

theorem decode_correct_witness:
  "\<exists>P out. Paxos_init 2 sampleParam 9 (freshPaxos 8) = Inr P \<and>
    decode (\<lambda>k x. k XOR x) (PxVector_blocks (\<lambda>n (s :: unit). (replicate n 0, s))) P [1, 2, 3] [0, 0, 0] (replicate 8 0) = Inr out \<and>
    out ! 1 = 0"
proof -
  have "\<exists>P. Paxos_init 2 sampleParam 9 (freshPaxos 8) = Inr P"
    by (rule Paxos_init_succeeds) (simp_all add: sampleParam_def freshPaxos_def)
  then obtain P where P: "Paxos_init 2 sampleParam 9 (freshPaxos 8) = Inr P" ..
  have f: "mIdxBits (freshPaxos 8) = 8" by (simp add: freshPaxos_def)
  note I = Paxos_init_ok [OF P, unfolded f]
  have t: "paxos_param.truncate P = sampleParam" "hasher_ok P" using I by (simp_all add: sampleParam_def)
  then have m: "mWeight P = 3" "mDenseSize P = 2" "mSparseSize P = 6" "mDt P = GF128"
    by (auto simp: paxos_param.truncate_def sampleParam_def)
  have a: "mAddToDecode P = False"
    using P by (auto simp: Paxos_init_def freshPaxos_def Let_def rbind_Inr_iff split: if_splits)
  have z: "rowSum P (fst (keyRow aes P x)) (snd (keyRow aes P x)) (\<lambda>c. GF (replicate 8 0 ! c)) = 0" for aes x
  proof -
    have "rowSum P (fst (keyRow aes P x)) (snd (keyRow aes P x)) (\<lambda>c. GF (replicate 8 0 ! c))
        = rowSum P (fst (keyRow aes P x)) (snd (keyRow aes P x)) (\<lambda>c. 0)"
      using m by (intro rowSum_cong [OF keyRow_valid [OF t(2)]]) (simp add: paxos_size_def GF_zero)
    also have "\<dots> = 0" by (simp add: rowSum_def sparseSum_def)
    finally show ?thesis .
  qed
  let ?rnd = "\<lambda>n (s :: unit). (replicate n (0 :: block), s)"
  have "\<exists>out. decode (\<lambda>k x. k XOR x) (PxVector_blocks ?rnd) P [1, 2, 3] [0, 0, 0] (replicate 8 0) = Inr out \<and> length out = length [1, 2, 3 :: block] \<and>
    (\<forall>l<length [1, 2, 3 :: block]. GF (out ! l) = (if mAddToDecode P then GF ([0, 0, 0] ! l) else 0) +
      rowSum P (fst (keyRow (\<lambda>k x. k XOR x) P ([1, 2, 3] ! l))) (snd (keyRow (\<lambda>k x. k XOR x) P ([1, 2, 3] ! l))) (\<lambda>c. GF (replicate 8 0 ! c)))"
    using t m by (intro decode_correct) (simp_all add: paxos_size_def)
  then obtain out where o: "decode (\<lambda>k x. k XOR x) (PxVector_blocks ?rnd) P [1, 2, 3] [0, 0, 0] (replicate 8 0) = Inr out"
    "\<forall>l<3. GF (out ! l) = 0" unfolding z a by auto
  have "GF (out ! 1) = GF 0" using o(2) by (simp add: GF_zero)
  with P o(1) show ?thesis by auto
qed

text \<open>C37: decode32 and decode8, which interleave the groups of eight rows and carry the powers of
  the dense parts, or the shifted words, of all rows along, return for every row exactly what decode1
  returns for it, whatever the destination held.\<close>

theorem decodeBatch_eq_decode1:
  assumes "\<forall>l<32. valid_row (mSparseSize P) (mWeight P) (rows ! l)" and "0 < mWeight P" and "0 < mDenseSize P"
    and "mDt P = Binary \<longrightarrow> mDenseSize P \<le> 64" and "length p = paxos_size P"
    and "length rows = 32" and "length dense = 32" and "length vs = 32"
  shows "(\<exists>vs'. decode32 (PxVector_blocks rnd) P rows dense p vs = Inr vs' \<and> length vs' = 32 \<and>
      (\<forall>l<32. decode1 (PxVector_blocks rnd) P (rows ! l) (dense ! l) p = Inr (vs' ! l))) \<and>
    (\<exists>vs'. decode8 (PxVector_blocks rnd) P (take 8 rows) (take 8 dense) p (take 8 vs) = Inr vs' \<and> length vs' = 8 \<and>
      (\<forall>l<8. decode1 (PxVector_blocks rnd) P (rows ! l) (dense ! l) p = Inr (vs' ! l)))"
proof
  have v: "valid_row (mSparseSize P) (mWeight P) (rows ! l)" if "l < 8 * 4" for l using assms(1) that by simp
  have v8: "valid_row (mSparseSize P) (mWeight P) (take 8 rows ! l)" if "l < 8 * 1" for l using assms(1) that by simp
  show "\<exists>vs'. decode32 (PxVector_blocks rnd) P rows dense p vs = Inr vs' \<and> length vs' = 32 \<and>
      (\<forall>l<32. decode1 (PxVector_blocks rnd) P (rows ! l) (dense ! l) p = Inr (vs' ! l))"
    using pxv.both.decodeBatch_ok [OF refl v assms(2) _ _ _ assms(5) _ assms(3), where dense = dense and vs = vs and rnd = rnd] assms(4,6-8)
    by (auto simp: decode32_def)
  show "\<exists>vs'. decode8 (PxVector_blocks rnd) P (take 8 rows) (take 8 dense) p (take 8 vs) = Inr vs' \<and> length vs' = 8 \<and>
      (\<forall>l<8. decode1 (PxVector_blocks rnd) P (rows ! l) (dense ! l) p = Inr (vs' ! l))"
    using pxv.both.decodeBatch_ok [OF refl v8 assms(2) _ _ _ assms(5) _ assms(3), where dense = "take 8 dense" and vs = "take 8 vs" and rnd = rnd] assms(4,6-8)
    by (auto simp: decode8_def)
qed

definition decodeSample :: "paxos" where
  "decodeSample = (freshPaxos 8)\<lparr>mSparseSize := 4, mDenseSize := 2, mWeight := 2\<rparr>"

theorem decodeBatch_eq_decode1_witness:
  "\<exists>vs'. decode32 (PxVector_blocks (\<lambda>n (s :: unit). (replicate n 0, s))) decodeSample
      (replicate 32 [0, 2]) (replicate 32 3) [1, 2, 3, 4, 5, 6] (replicate 32 0) = Inr vs' \<and>
    decode1 (PxVector_blocks (\<lambda>n (s :: unit). (replicate n 0, s))) decodeSample [0, 2] 3 [1, 2, 3, 4, 5, 6] = Inr (vs' ! 31)"
  using decodeBatch_eq_decode1 [of decodeSample "replicate 32 [0, 2]" "[1, 2, 3, 4, 5, 6]" "replicate 32 3" "replicate 32 0"
      "\<lambda>n (s :: unit). (replicate n 0, s)"]
  by (auto simp: decodeSample_def freshPaxos_def valid_row_def paxos_size_def)

end
