(* ===== verification/BitMatrix.thy ===== *)
theory BitMatrix
  imports Gf128Matrix
begin

section \<open>Dense binary matrices\<close>

text \<open>
  The operations of \<open>DenseMtx\<close> (\<open>libOTe/Tools/LDPC/Mtx.cpp\<close>) that PaXoS solves its dense
  gap with: \<open>Identity\<close>, \<open>mult\<close>, \<open>Row::swap\<close> and \<open>invert\<close>. The packed, column-major
  bits are modelled by the list of rows.

  The binary inversion is shown to be the restriction of the GF(2^128) inversion to matrices
  with entries 0 and 1, so that what is proved of the latter carries over.
\<close>

type_synonym dense_mtx = "bool mtx"

definition DenseMtx_Identity :: "nat \<Rightarrow> dense_mtx" where
  "DenseMtx_Identity n = map (\<lambda>i. map (\<lambda>j. i = j) [0..<n]) [0..<n]"

definition DenseMtx_mult :: "dense_mtx \<Rightarrow> dense_mtx \<Rightarrow> dense_mtx res" where
  "DenseMtx_mult A B =
     (if mtx_cols A = length B
      then Inr (map (\<lambda>r. map (\<lambda>j.
             fold (\<lambda>k v. v \<noteq> (r ! k \<and> B ! k ! j)) [0..<mtx_cols A] False) [0..<mtx_cols B]) A)
      else Inl AssertFail)"

text \<open>\<open>DenseMtx::Row::operator^=\<close> of row \<open>i\<close> into row \<open>j\<close>.\<close>

definition DenseMtx_xorRow :: "nat \<Rightarrow> nat \<Rightarrow> dense_mtx \<Rightarrow> dense_mtx" where
  "DenseMtx_xorRow i j M = M[j := map2 (\<noteq>) (M ! j) (M ! i)]"

definition DenseMtx_pivot :: "nat \<Rightarrow> nat \<Rightarrow> dense_mtx \<times> dense_mtx \<Rightarrow> (dense_mtx \<times> dense_mtx) option" where
  "DenseMtx_pivot n i s =
     (let (mtx, Inv) = s in
      if \<not> mtx ! i ! i
      then (let (mtx, Inv) =
                  (case List.find (\<lambda>j. mtx ! j ! i) [i + 1..<n] of
                     None \<Rightarrow> (mtx, Inv)
                   | Some j \<Rightarrow> (swapRows i j mtx, swapRows i j Inv))
            in if \<not> mtx ! i ! i then None else Some (mtx, Inv))
      else Some s)"

definition DenseMtx_elimStep :: "nat \<Rightarrow> nat \<Rightarrow> dense_mtx \<times> dense_mtx \<Rightarrow> dense_mtx \<times> dense_mtx" where
  "DenseMtx_elimStep i j s =
     (let (mtx, Inv) = s in
      if j \<noteq> i \<and> mtx ! j ! i
      then (DenseMtx_xorRow i j mtx, DenseMtx_xorRow i j Inv)
      else (mtx, Inv))"

fun DenseMtx_loop :: "nat \<Rightarrow> nat list \<Rightarrow> dense_mtx \<times> dense_mtx \<Rightarrow> (dense_mtx \<times> dense_mtx) option" where
  "DenseMtx_loop n [] s = Some s"
| "DenseMtx_loop n (i # is) s =
     (case DenseMtx_pivot n i s of
        None \<Rightarrow> None
      | Some s' \<Rightarrow> DenseMtx_loop n is (fold (DenseMtx_elimStep i) [0..<n] s'))"

definition DenseMtx_invert :: "dense_mtx \<Rightarrow> dense_mtx res" where
  "DenseMtx_invert M =
     (let n = length M in
      if n = mtx_cols M
      then (case DenseMtx_loop n [0..<n] (M, DenseMtx_Identity n) of
              None \<Rightarrow> Inr []
            | Some (_, Inv) \<Rightarrow> Inr Inv)
      else Inl AssertFail)"

subsection \<open>The embedding into GF(2^128)\<close>

definition emb :: "bool \<Rightarrow> block" where "emb b = (if b then 1 else 0)"

abbreviation embm :: "dense_mtx \<Rightarrow> block mtx" where "embm M \<equiv> map (map emb) M"

abbreviation embp :: "dense_mtx \<times> dense_mtx \<Rightarrow> block mtx \<times> block mtx" where
  "embp s \<equiv> map_prod (map (map emb)) (map (map emb)) s"

lemma emb_simps [simp]: "emb True = 1" "emb False = 0" "emb b = 0 \<longleftrightarrow> \<not> b" "emb b = 1 \<longleftrightarrow> b"
  by (simp_all add: emb_def)

lemma emb_inj: "emb a = emb b \<Longrightarrow> a = b"
  by (cases a; cases b) simp_all

lemma emb_xor: "emb (a \<noteq> b) = emb a XOR emb b"
  by (cases a; cases b) simp_all

lemma emb_xor_iff: "emb (a = (\<not> b)) = emb a XOR emb b"
  by (cases a; cases b) simp_all

lemma embm_inj: "embm A = embm B \<Longrightarrow> A = B"
  using inj_mapI [OF inj_mapI [OF injI [OF emb_inj]]] by (meson injD)

lemma is_mtx_embm [simp]: "is_mtx n m (embm M) \<longleftrightarrow> is_mtx n m M"
  by (simp add: is_mtx_def)

lemma mtx_cols_embm [simp]: "mtx_cols (embm M) = mtx_cols M"
  by (cases M) (simp_all add: mtx_cols_def)

lemma embm_nth: "is_mtx n m M \<Longrightarrow> i < n \<Longrightarrow> j < m \<Longrightarrow> embm M ! i ! j = emb (M ! i ! j)"
  by (simp add: is_mtx_iff)

lemma gf128Inv_1: "gf128Inv 1 = 1"
  using gf128Mul_inv [of 1] by simp

lemma embm_identity: "embm (DenseMtx_Identity n) = gf128_eye n"
  by (simp add: DenseMtx_Identity_def gf128_eye_def emb_def)

lemma embm_swap: "i < length M \<Longrightarrow> j < length M \<Longrightarrow> swapRows i j (embm M) = embm (swapRows i j M)"
  by (simp add: swapRows_def map_update)

lemma gf128Mul_1_right [simp]: "gf128Mul c 1 = c"
  by (metis GF_gf128Mul GF_inject_iff GF_one mult_1_right)

lemma embm_xorRow:
  "i < length M \<Longrightarrow> j < length M \<Longrightarrow> elimRow i j 1 (embm M) = embm (DenseMtx_xorRow i j M)"
  by (simp add: elimRow_def DenseMtx_xorRow_def map_update zip_map_map 
      emb_xor_iff case_prod_beta comp_def)

definition bit_pair :: "nat \<Rightarrow> dense_mtx \<times> dense_mtx \<Rightarrow> bool" where
  "bit_pair n s \<longleftrightarrow> is_mtx n n (fst s) \<and> is_mtx n n (snd s)"

lemma find_cong_map: "(\<And>x. x \<in> set xs \<Longrightarrow> P x = Q x) \<Longrightarrow> List.find P xs = List.find Q xs"
  by (induction xs) auto

lemma embm_pivot:
  assumes "bit_pair n s" "i < n"
  shows "gf128InvMtx_pivot n i (embp s) = map_option embp (DenseMtx_pivot n i s)"
    and "DenseMtx_pivot n i s = Some t \<Longrightarrow> bit_pair n t \<and> fst t ! i ! i"
proof -
  obtain M I where s: "s = (M, I)" by fastforce
  have M: "is_mtx n n M" "is_mtx n n I" and len: "length M = n" "length I = n"
    using assms s by (auto simp: bit_pair_def is_mtx_length)
  have nth: "embm X ! a ! b = emb (X ! a ! b)" if "is_mtx n n X" "a < n" "b < n" for X a b
    using that by (rule embm_nth)
  have find: "List.find (\<lambda>j. embm M ! j ! i = 1) [Suc i..<n] = List.find (\<lambda>j. M ! j ! i) [Suc i..<n]"
    using M assms(2) by (intro find_cong_map) (simp add: is_mtx_iff)
  have swap: "is_mtx n n (swapRows i j X)" if "is_mtx n n X" "j < n" for X :: dense_mtx and j
    using that assms(2) by (simp add: swapRows_def is_mtx_iff nth_list_update)
  have j: "j < n \<and> i < j" if "List.find (\<lambda>j. M ! j ! i) [Suc i..<n] = Some j" for j
    using that by (auto simp: find_Some_iff simp del: upt_Suc)
  show "gf128InvMtx_pivot n i (embp s) = map_option embp (DenseMtx_pivot n i s)"
  proof (cases "List.find (\<lambda>j. M ! j ! i) [Suc i..<n]")
    case None
    then show ?thesis
      using M assms(2)
      by (simp add: s gf128InvMtx_pivot_def DenseMtx_pivot_def find nth del: upt_Suc nth_map)
  next
    case (Some j')
    with j have j': "j' < n" by blast
    show ?thesis
      using M assms(2) Some j' len swap [OF M(1) j']
      by (simp add: s gf128InvMtx_pivot_def DenseMtx_pivot_def find nth embm_swap
          del: upt_Suc nth_map)
  qed
  show "DenseMtx_pivot n i s = Some t \<Longrightarrow> bit_pair n t \<and> fst t ! i ! i"
    using M len assms(2) j swap
    by (auto simp: s DenseMtx_pivot_def Let_def bit_pair_def split: option.splits if_splits)
qed

lemma embm_elimStep:
  assumes "bit_pair n s" "i < n" "j < n"
  shows "gf128InvMtx_elimStep i j (embp s) = embp (DenseMtx_elimStep i j s)"
    and "bit_pair n (DenseMtx_elimStep i j s)"
proof -
  obtain M I where s: "s = (M, I)" by fastforce
  have M: "is_mtx n n M" "is_mtx n n I" and len: "length M = n" "length I = n"
    using assms s by (auto simp: bit_pair_def is_mtx_length)
  have zero: "elimRow i j 0 (embm X) = embm X" if "is_mtx n n X" for X
    using that assms(2,3)
    by (auto simp: elimRow_def is_mtx_iff intro!: nth_equalityI simp: nth_list_update)
  show "gf128InvMtx_elimStep i j (embp s) = embp (DenseMtx_elimStep i j s)"
    using M len assms(2,3)
    by (cases "M ! j ! i")
      (simp_all add: s gf128InvMtx_elimStep_def DenseMtx_elimStep_def Let_def embm_nth [OF M(1)]
        embm_xorRow zero del: nth_map)
  show "bit_pair n (DenseMtx_elimStep i j s)"
    using M assms(2,3)
    by (auto simp: s bit_pair_def DenseMtx_elimStep_def DenseMtx_xorRow_def is_mtx_iff nth_list_update)
qed

lemma embm_elim_fold:
  assumes "bit_pair n s" "i < n" "\<And>j. j \<in> set js \<Longrightarrow> j < n"
  shows "fold (gf128InvMtx_elimStep i) js (embp s) = embp (fold (DenseMtx_elimStep i) js s)
    \<and> bit_pair n (fold (DenseMtx_elimStep i) js s)"
  using assms
proof (induction js arbitrary: s)
  case (Cons j js)
  then show ?case by (simp add: embm_elimStep)
qed simp

lemma scaleRow_1 [simp]: "scaleRow i 1 M = M"
  by (simp add: scaleRow_def)

lemma embm_loop:
  assumes "bit_pair n s" "\<And>i. i \<in> set is \<Longrightarrow> i < n"
  shows "gf128InvMtx_loop n is (embp s) = map_option embp (DenseMtx_loop n is s)"
  using assms
proof (induction "is" arbitrary: s)
  case (Cons i "is")
  have i: "i < n" using Cons.prems by simp
  show ?case
  proof (cases "DenseMtx_pivot n i s")
    case None
    then show ?thesis by (simp add: embm_pivot(1) [OF Cons.prems(1) i])
  next
    case (Some t)
    obtain M I where t: "t = (M, I)" by fastforce
    from embm_pivot(2) [OF Cons.prems(1) i Some] have b: "bit_pair n t" "M ! i ! i"
      using t by auto
    then have "embm M ! i ! i = 1" using i t by (simp add: bit_pair_def is_mtx_iff)
    then have "gf128InvMtx_elim n i (embp t) = fold (gf128InvMtx_elimStep i) [0..<n] (embp t)"
      by (simp add: gf128InvMtx_elim_def t gf128Inv_1)
    with embm_elim_fold [OF b(1) i, of "[0..<n]"] Cons Some show ?thesis
      by (simp add: embm_pivot(1) [OF Cons.prems(1) i])
  qed
qed simp

lemma embm_invert:
  assumes "is_mtx n m M"
  shows "gf128InvMtx (embm M) = (case DenseMtx_invert M of Inl e \<Rightarrow> Inl e | Inr I \<Rightarrow> Inr (embm I))"
proof (cases "n = mtx_cols M")
  case False
  with assms show ?thesis
    by (simp add: gf128InvMtx_def DenseMtx_invert_def Let_def is_mtx_length)
next
  case True
  have "is_mtx n n M"
    using assms True is_mtx_cols [OF assms] by (cases "n = 0") (auto simp: is_mtx_iff)
  moreover have "is_mtx n n (DenseMtx_Identity n)" by (simp add: DenseMtx_Identity_def is_mtx_iff)
  ultimately have "bit_pair n (M, DenseMtx_Identity n)" by (simp add: bit_pair_def)
  from embm_loop [OF this, of "[0..<n]"] True assms show ?thesis
    by (auto simp: gf128InvMtx_def DenseMtx_invert_def Let_def is_mtx_length embm_identity
        split: option.splits)
qed

subsection \<open>What the inversion solves\<close>

definition dotb :: "bool list \<Rightarrow> (nat \<Rightarrow> gf128) \<Rightarrow> gf128" where
  "dotb r v = (\<Sum>k<length r. if r ! k then v k else 0)"

lemma dotl_emb: "dotl (map emb r) v = dotb r v"
  unfolding dotl_def dotb_def by (simp, intro sum.cong refl) (auto simp: GF_one GF_zero)

lemma DenseMtx_invert_gf:
  assumes "DenseMtx_invert M = Inr Inv" "is_mtx n n M"
  shows "gf128InvMtx (embm M) = Inr (embm Inv)"
  using embm_invert [OF assms(2)] assms(1) by simp

lemma DenseMtx_invert_solves:
  assumes "DenseMtx_invert M = Inr Inv" "is_mtx n n M" "Inv \<noteq> []"
  shows "is_mtx n n Inv"
    and "(\<forall>r<n. dotb (M ! r) v = b r) \<longleftrightarrow> (\<forall>r<n. v r = dotb (Inv ! r) b)"
proof -
  have "is_mtx n n (embm M)" "embm Inv \<noteq> []" using assms by simp_all
  note sol = gf128InvMtx_solves [OF DenseMtx_invert_gf [OF assms(1,2)] this]
  from sol(1) show I: "is_mtx n n Inv" by simp
  have "dotl (embm M ! r) v = dotb (M ! r) v" "dotl (embm Inv ! r) v = dotb (Inv ! r) v"
    if "r < n" for r v
    using that assms(2) I by (simp_all add: is_mtx_length dotl_emb)
  with sol(2) [of v b] show "(\<forall>r<n. dotb (M ! r) v = b r) \<longleftrightarrow> (\<forall>r<n. v r = dotb (Inv ! r) b)"
    by simp
qed

lemma gj_stuck:
  assumes "gj_inv n M0 i s" "i < n" "\<And>r. i \<le> r \<Longrightarrow> r < n \<Longrightarrow> fst s ! r ! i = 0"
    and "is_mtx n n M0" "\<And>k. k < i \<Longrightarrow> fst s ! k ! i = emb (c k)"
  shows "\<exists>x. x ! i \<and> length x = n \<and> (\<forall>r<n. dotl (M0 ! r) (\<lambda>k. GF (emb (x ! k))) = 0)"
proof -
  define x where "x = map (\<lambda>k. if k < i then c k else k = i) [0..<n]"
  define v where "v = (\<lambda>k. if k < i then GF (emb (c k)) else if k = i then 1 else (0 :: gf128))"
  have "dotl (fst s ! r) v = 0" if "r < n" for r
  proof -
    have len: "length (fst s ! r) = n"
      using assms(1) that by (simp add: gj_inv_def pair_mtx_def is_mtx_iff)
    have ent: "fst s ! r ! k = (if r = k then 1 else 0)" if "k < i" for k
      using assms(1) that \<open>r < n\<close> by (auto simp: gj_inv_def unitCol_def)
    have fi: "fst s ! r ! i = (if r < i then emb (c r) else 0)"
      using assms(3,5) that by simp
    have "dotl (fst s ! r) v = (\<Sum>k<n. if k = i then GF (fst s ! r ! i)
        else if k = r \<and> k < i then GF (emb (c r)) else 0)"
      unfolding dotl_def len
      by (intro sum.cong refl) (auto simp: v_def ent GF_one GF_zero)
    also have "\<dots> = (\<Sum>k<n. (if k = i then GF (fst s ! r ! i) else 0)
        + (if k = r then if r < i then GF (emb (c r)) else 0 else 0))"
      by (intro sum.cong refl) auto
    also have "\<dots> = GF (fst s ! r ! i) + (if r < i then GF (emb (c r)) else 0)"
      using assms(2) that by (simp add: sum.distrib)
    finally show ?thesis by (simp add: fi GF_zero)
  qed
  then have "\<forall>r<n. rowEq s v (\<lambda>_. 0) r = 0" by (simp add: rowEq_def dotl_def)
  then have "\<forall>r<n. rowEq (M0, gf128_eye n) v (\<lambda>_. 0) r = 0"
    using assms(1) unfolding gj_inv_def sameSols_def by blast
  then have "\<forall>r<n. dotl (M0 ! r) v = 0" by (simp add: rowEq_def dotl_def)
  moreover have "dotl (M0 ! r) v = dotl (M0 ! r) (\<lambda>k. GF (emb (x ! k)))" if "r < n" for r
    using assms(4) that unfolding dotl_def
    by (intro sum.cong refl) (auto simp: x_def v_def is_mtx_iff GF_one GF_zero)
  ultimately have "x ! i \<and> length x = n \<and> (\<forall>r<n. dotl (M0 ! r) (\<lambda>k. GF (emb (x ! k))) = 0)"
    using assms(2) by (simp add: x_def)
  then show ?thesis by blast
qed

lemma DenseMtx_pivot_None:
  assumes "DenseMtx_pivot n i s = None" "bit_pair n s" "i < n" "i \<le> r" "r < n"
  shows "\<not> fst s ! r ! i"
proof -
  obtain M I where s: "s = (M, I)" by fastforce
  have M: "is_mtx n n M" using assms(2) s by (simp add: bit_pair_def)
  show ?thesis
  proof (cases "List.find (\<lambda>j. M ! j ! i) [Suc i..<n]")
    case None
    then have "\<not> M ! j ! i" if "Suc i \<le> j" "j < n" for j
      using that by (auto simp: find_None_iff)
    moreover have "\<not> M ! i ! i" using assms(1) s by (auto simp: DenseMtx_pivot_def split: if_splits)
    ultimately show ?thesis using assms(4,5) s by (cases "r = i") simp_all
  next
    case (Some j)
    then have "j < n" "M ! j ! i" by (auto simp: find_Some_iff simp del: upt_Suc)
    then have "swapRows i j M ! i ! i"
      using M assms(3) by (auto simp: swapRows_def is_mtx_iff nth_list_update)
    with Some assms(1) s show ?thesis by (auto simp: DenseMtx_pivot_def split: if_splits)
  qed
qed

lemma DenseMtx_loop_None:
  assumes "DenseMtx_loop n [i..<n] s = None" "bit_pair n s" "gj_inv n M0 i (embp s)" "i \<le> n"
    and "is_mtx n n M0"
  shows "\<exists>x. length x = n \<and> (\<exists>j<n. x ! j) \<and> (\<forall>r<n. dotl (M0 ! r) (\<lambda>k. GF (emb (x ! k))) = 0)"
  using assms(1-4)
proof (induction "n - i" arbitrary: i s)
  case 0
  then show ?case by simp
next
  case (Suc k)
  then have i: "i < n" by simp
  show ?case
  proof (cases "DenseMtx_pivot n i s")
    case None
    have m: "is_mtx n n (fst s)" using Suc.prems(2) by (simp add: bit_pair_def)
    have "\<exists>x. x ! i \<and> length x = n \<and> (\<forall>r<n. dotl (M0 ! r) (\<lambda>k. GF (emb (x ! k))) = 0)"
    proof (rule gj_stuck [OF Suc.prems(3) i _ assms(5)])
      show "fst (embp s) ! r ! i = 0" if "i \<le> r" "r < n" for r
        using DenseMtx_pivot_None [OF None Suc.prems(2) i that] m i that by (simp add: is_mtx_iff)
      show "fst (embp s) ! k ! i = emb (fst s ! k ! i)" if "k < i" for k
        using m i that by (simp add: is_mtx_iff)
    qed
    with i show ?thesis by blast
  next
    case (Some t)
    from embm_pivot [OF Suc.prems(2) i] Some have b: "bit_pair n t" "fst t ! i ! i"
      and p: "gf128InvMtx_pivot n i (embp s) = Some (embp t)" by simp_all
    have "embm (fst t) ! i ! i = 1" using b i by (simp add: bit_pair_def is_mtx_iff)
    then have "gf128InvMtx_elim n i (embp t) = fold (gf128InvMtx_elimStep i) [0..<n] (embp t)"
      by (cases t) (simp add: gf128InvMtx_elim_def gf128Inv_1)
    moreover have "gj_inv n M0 (Suc i) (gf128InvMtx_elim n i (embp t))"
      using pivot_inv [OF Suc.prems(3) i p] i by (intro elim_inv) auto
    ultimately have "gj_inv n M0 (Suc i) (embp (fold (DenseMtx_elimStep i) [0..<n] t))"
      "bit_pair n (fold (DenseMtx_elimStep i) [0..<n] t)"
      using embm_elim_fold [OF b(1) i, of "[0..<n]"] by simp_all
    with Suc.hyps(1) [of "Suc i"] Suc.hyps(2) Suc.prems(1) Some i show ?thesis
      by (simp add: upt_conv_Cons)
  qed
qed

lemma emb_fold:
  "emb (fold (\<lambda>k v. v \<noteq> (f k \<and> g k)) ks b) = fold (\<lambda>k v. v XOR gf128Mul (emb (f k)) (emb (g k))) ks (emb b)"
proof (induction ks arbitrary: b)
  case (Cons k ks)
  have "emb (b \<noteq> (f k \<and> g k)) = emb b XOR gf128Mul (emb (f k)) (emb (g k))"
    by (cases b; cases "f k"; cases "g k") simp_all
  with Cons [of "b \<noteq> (f k \<and> g k)"] show ?case by simp
qed simp

lemma fold_cong_set: "(\<And>x s. x \<in> set xs \<Longrightarrow> f x s = g x s) \<Longrightarrow> fold f xs s = fold g xs s"
  by (induction xs arbitrary: s) auto

lemma embm_mult:
  assumes "is_mtx n m A" "is_mtx m p B" "0 < n" "0 < m"
  obtains C where "DenseMtx_mult A B = Inr C" "is_mtx n p C" "gf128MulMtx (embm A) (embm B) = Inr (embm C)"
proof -
  have cols: "mtx_cols A = m" "mtx_cols B = p" "length B = m"
    using assms by (auto simp: is_mtx_cols is_mtx_length)
  obtain C where C: "DenseMtx_mult A B = Inr C" by (simp add: DenseMtx_mult_def cols)
  have "is_mtx n p C" using C assms(1) by (auto simp: DenseMtx_mult_def cols is_mtx_iff)
  moreover have "gf128MulMtx (embm A) (embm B) = Inr (embm C)"
  proof -
    have "fold (\<lambda>k v. v XOR gf128Mul (map emb r ! k) (embm B ! k ! j)) [0..<m] 0
        = emb (fold (\<lambda>k v. v \<noteq> (r ! k \<and> B ! k ! j)) [0..<m] False)" if "r \<in> set A" "j < p" for r j
    proof -
      have "length r = m" using assms(1) that(1) by (simp add: is_mtx_def)
      then have "fold (\<lambda>k v. v XOR gf128Mul (map emb r ! k) (embm B ! k ! j)) [0..<m] 0
        = fold (\<lambda>k v. v XOR gf128Mul (emb (r ! k)) (emb (B ! k ! j))) [0..<m] 0"
        using assms(2) that(2) by (intro fold_cong_set) (simp add: is_mtx_iff)
      then show ?thesis by (simp add: emb_fold del: not_iff)
    qed
    with C show ?thesis
      by (auto simp: DenseMtx_mult_def gf128MulMtx_def cols simp del: nth_map)
  qed
  ultimately show ?thesis using that C by blast
qed

text \<open>C26: DenseMtx::invert decides invertibility of a square binary matrix. A non-empty result
  is an inverse on both sides, and an empty result means that some non-zero bit vector is mapped
  to zero by the matrix.\<close>

theorem DenseMtx_invert_correct:
  assumes "is_mtx n n M" and "0 < n"
  shows "\<exists>Inv. DenseMtx_invert M = Inr Inv \<and>
    (if Inv = [] then \<exists>x. length x = n \<and> (\<exists>j<n. x ! j) \<and> DenseMtx_mult M (map (\<lambda>b. [b]) x) = Inr (replicate n [False])
     else DenseMtx_mult M Inv = Inr (DenseMtx_Identity n) \<and> DenseMtx_mult Inv M = Inr (DenseMtx_Identity n))"
proof (cases "DenseMtx_loop n [0..<n] (M, DenseMtx_Identity n)")
  case None
  have M: "is_mtx n n (embm M)" "is_mtx n n (DenseMtx_Identity n)"
    using assms by (simp_all add: DenseMtx_Identity_def is_mtx_iff)
  then have "\<exists>x. length x = n \<and> (\<exists>j<n. x ! j) \<and>
      (\<forall>r<n. dotl (embm M ! r) (\<lambda>k. GF (emb (x ! k))) = 0)"
    using DenseMtx_loop_None [of n 0 "(M, DenseMtx_Identity n)" "embm M"] None assms
    by (simp add: bit_pair_def gj_inv_def pair_mtx_def embm_identity)
  then obtain x where x: "length x = n" "\<exists>j<n. x ! j"
    "\<And>r. r < n \<Longrightarrow> dotl (embm M ! r) (\<lambda>k. GF (emb (x ! k))) = 0" by blast
  let ?X = "map (\<lambda>b. [b]) x"
  have X: "is_mtx n 1 ?X" using x(1) by (simp add: is_mtx_def)
  obtain C where C: "DenseMtx_mult M ?X = Inr C" "is_mtx n 1 C"
    and g: "gf128MulMtx (embm M) (embm ?X) = Inr (embm C)"
    using embm_mult [OF assms(1) X assms(2,2)] by blast
  obtain D where D: "gf128MulMtx (embm M) (embm ?X) = Inr D"
    and eD: "\<And>i j. i < n \<Longrightarrow> j < 1 \<Longrightarrow> GF (D ! i ! j) = dotl (embm M ! i) (\<lambda>k. GF (embm ?X ! k ! j))"
    by (rule gf128MulMtx_entries [OF M(1) X [THEN is_mtx_embm [THEN iffD2]] assms(2,2)]) (rule that)
  have "C ! i ! 0 = False" if "i < n" for i
  proof -
    have "GF (embm C ! i ! 0) = dotl (embm M ! i) (\<lambda>k. GF (embm ?X ! k ! 0))"
      using D g eD [OF that, of 0] by simp
    also have "\<dots> = dotl (embm M ! i) (\<lambda>k. GF (emb (x ! k)))"
      using x(1) assms(1) that unfolding dotl_def by (intro sum.cong refl) (simp add: is_mtx_iff)
    finally have "GF (embm C ! i ! 0) = GF 0" using x(3) that by (simp add: GF_zero)
    then have "embm C ! i ! 0 = 0" by (simp only: GF_inject_iff)
    then show ?thesis using C(2) that by (simp add: is_mtx_iff)
  qed
  then have "C = replicate n [False]"
    using C(2) by (intro mtx_eqI [of n 1]) (simp_all add: is_mtx_iff)
  with C x assms None show ?thesis
    by (auto simp: DenseMtx_invert_def is_mtx_length is_mtx_cols [OF assms])
next
  case (Some s)
  then obtain Inv where inv: "DenseMtx_invert M = Inr Inv" and s: "s = (fst s, Inv)"
    using assms by (cases s) (auto simp: DenseMtx_invert_def is_mtx_length is_mtx_cols [OF assms])
  have g: "gf128InvMtx (embm M) = Inr (embm Inv)"
    using inv assms(1) by (rule DenseMtx_invert_gf)
  show ?thesis
  proof (cases "Inv = []")
    case True
    have "bit_pair n (M, DenseMtx_Identity n)"
      using assms by (simp add: bit_pair_def DenseMtx_Identity_def is_mtx_iff)
    then have "gf128InvMtx_loop n [0..<n] (embm M, gf128_eye n) = Some (embp s)"
      using embm_loop [of n "(M, DenseMtx_Identity n)" "[0..<n]"] Some by (simp add: embm_identity)
    moreover have "gj_inv n (embm M) 0 (embm M, gf128_eye n)"
      using assms by (simp add: gj_inv_def pair_mtx_def)
    ultimately have "gj_inv n (embm M) n (embp s)" by (intro gf128InvMtx_loop_inv [of n 0]) simp_all
    then have "length Inv = n" using s by (cases s) (auto simp: gj_inv_def pair_mtx_def is_mtx_iff)
    with True assms show ?thesis by simp
  next
    case False
    have I: "is_mtx n n Inv" using inv assms(1) False by (rule DenseMtx_invert_solves(1))
    have e: "gf128MulMtx (embm M) (embm Inv) = Inr (gf128_eye n)"
      "gf128MulMtx (embm Inv) (embm M) = Inr (gf128_eye n)"
      using gf128InvMtx_correct_aux [of n "embm M" "embm Inv"] g False assms(1) by simp_all
    obtain C D where "DenseMtx_mult M Inv = Inr C" "gf128MulMtx (embm M) (embm Inv) = Inr (embm C)"
      "DenseMtx_mult Inv M = Inr D" "gf128MulMtx (embm Inv) (embm M) = Inr (embm D)"
      using embm_mult [OF assms(1) I assms(2,2)] embm_mult [OF I assms(1,2,2)] by metis
    with e inv False show ?thesis
      by (simp flip: embm_identity) (blast dest: embm_inj)
  qed
qed

text \<open>A matrix that needs a row swap.\<close>

theorem DenseMtx_invert_correct_witness:
  "is_mtx 2 2 [[False, True], [True, True]] \<and>
   DenseMtx_invert [[False, True], [True, True]] = Inr [[True, True], [True, False]] \<and>
   DenseMtx_mult [[False, True], [True, True]] [[True, True], [True, False]] = Inr (DenseMtx_Identity 2)"
proof -
  have 1: "is_mtx 2 2 [[False, True], [True, True]]" by (simp add: is_mtx_def)
  have 2: "DenseMtx_invert [[False, True], [True, True]] = Inr [[True, True], [True, False]]"
    by code_simp
  from DenseMtx_invert_correct [OF 1] 1 2 show ?thesis by simp
qed

end
