(* ===== verification/Gap.thy ===== *)
theory Gap
  imports Combination Triangulate Decode BitMatrix
begin

section \<open>The gap\<close>

text \<open>
  The part of the encoder that deals with the gap rows, the rows that triangulation could not put
  on the diagonal: \<open>Paxos::getFCInv\<close>, \<open>getGapCols\<close>, \<open>getX2Prime\<close> and \<open>getEPrime\<close> of
  \<open>src/volePSI/PaxosImpl.h\<close>.

  For every gap row \<open>getFCInv\<close> returns diagonal rows whose sum agrees with the gap row on all
  diagonal columns; \<open>getGapCols\<close> chooses dense columns on which the remaining matrix is
  invertible. \<open>std::set\<close> with \<open>std::greater\<close> is the strictly decreasing list of its elements.
\<close>

subsection \<open>getFCInv\<close>

definition mainRowAt :: "nat list \<Rightarrow> nat \<Rightarrow> nat res" where
  "mainRowAt mainRows i = (if i < length mainRows then at mainRows (length mainRows - i - 1) else Inl UB)"

definition noCol :: "nat \<Rightarrow> nat" where "noCol ib = 2 ^ ib - 1"

definition fcMapping :: "'a paxos_scheme \<Rightarrow> nat \<Rightarrow> nat list \<Rightarrow> nat list res" where
  "fcMapping P m mainCols =
     foldr_res (\<lambda>i cm. rbind (at mainCols (m - i - 1)) (\<lambda>c. rbind (at cm c) (\<lambda>_. Inr (cm[c := i mod 2 ^ mIdxBits P]))))
       [0..<m] (replicate (paxos_size P) (noCol (mIdxBits P)))"

fun setInsert :: "nat \<Rightarrow> nat list \<Rightarrow> nat list" where
  "setInsert x [] = [x]"
| "setInsert x (y # ys) = (if x = y then y # ys else if y < x then x # y # ys else y # setInsert x ys)"

definition fcToggle :: "nat \<Rightarrow> nat list \<Rightarrow> nat \<Rightarrow> nat \<Rightarrow> nat list \<Rightarrow> nat list res" where
  "fcToggle ib cm CCol HCol row =
     rbind (at cm HCol) (\<lambda>CCol2.
     if CCol2 = noCol ib then Inr row
     else rbind (guardr (CCol2 \<le> CCol) AssertFail) (\<lambda>_.
       Inr (if CCol2 \<in> set row then remove1 CCol2 row else setInsert CCol2 row)))"

fun fcCancel :: "nat \<Rightarrow> 'a paxos_scheme \<Rightarrow> nat list \<Rightarrow> nat list \<Rightarrow> nat list \<Rightarrow> nat list \<Rightarrow> nat list res" where
  "fcCancel fuel P cm mainRows [] out = Inr out"
| "fcCancel 0 P cm mainRows (CCol # row) out = Inl Diverges"
| "fcCancel (Suc fuel) P cm mainRows (CCol # row) out =
     rbind (mainRowAt mainRows CCol) (\<lambda>HRow.
     rbind (at (mRows P) HRow) (\<lambda>cols.
     rbind (foldr_res (fcToggle (mIdxBits P) cm CCol) cols (CCol # row)) (\<lambda>row'.
     rbind (guardr (row' = [] \<or> hd row' \<noteq> CCol) AssertFail) (\<lambda>_.
     fcCancel fuel P cm mainRows row' (out @ [HRow])))))"

definition fcStart :: "'a paxos_scheme \<Rightarrow> nat list \<Rightarrow> nat list \<Rightarrow> nat list res" where
  "fcStart P cm gapRow =
     foldr_res (\<lambda>j row. rbind (at gapRow j) (\<lambda>c1. rbind (at cm c1) (\<lambda>u.
         Inr (if u \<noteq> noCol (mIdxBits P) then setInsert u row else row)))) [0..<mWeight P] []"

definition fcGap :: "'a paxos_scheme \<Rightarrow> nat list \<Rightarrow> nat list \<Rightarrow> nat \<times> nat \<Rightarrow> nat list \<times> nat list list \<Rightarrow>
    (nat list \<times> nat list list) res" where
  "fcGap P mainRows mainCols gap s =
     (let (cm, ret) = s in
      rbind (at (mRows P) (fst gap)) (\<lambda>a. rbind (at (mRows P) (snd gap)) (\<lambda>b.
      if take (mWeight P) a = take (mWeight P) b then Inr (cm, ret @ [[snd gap]])
      else
        rbind (if cm = [] then fcMapping P (length mainRows) mainCols else Inr cm) (\<lambda>cm.
        rbind (fcStart P cm a) (\<lambda>row.
        rbind (fcCancel (Suc (length mainRows)) P cm mainRows row []) (\<lambda>js. Inr (cm, ret @ [js])))))))"

definition getFCInv :: "'a paxos_scheme \<Rightarrow> nat list \<Rightarrow> nat list \<Rightarrow> (nat \<times> nat) list \<Rightarrow> nat list list res" where
  "getFCInv P mainRows mainCols gapRows =
     rbind (foldr_res (fcGap P mainRows mainCols) gapRows ([], [])) (\<lambda>(cm, ret). Inr ret)"

subsection \<open>getGapCols\<close>

definition denseXor :: "'a paxos_scheme \<Rightarrow> nat list \<Rightarrow> block \<Rightarrow> block res" where
  "denseXor P js d = foldr_res (\<lambda>j d. rbind (at (mDense P) j) (\<lambda>x. Inr (d XOR x))) js d"

definition selectBits :: "block \<Rightarrow> nat list \<Rightarrow> bool list res" where
  "selectBits d cols = mapr (bitIterator d) cols"

definition gapMtx :: "'a paxos_scheme \<Rightarrow> nat list list \<Rightarrow> (nat \<times> nat) list \<Rightarrow> nat list \<Rightarrow> dense_mtx res" where
  "gapMtx P fcinv gapRows gapCols =
     mapr (\<lambda>i. rbind (at fcinv i) (\<lambda>js. rbind (denseXor P js 0) (\<lambda>FCB.
        rbind (at gapRows i) (\<lambda>gap. rbind (at (mDense P) (fst gap)) (\<lambda>e. selectBits (e XOR FCB) gapCols)))))
       [0..<length gapRows]"

fun gapCols_loop :: "nat \<Rightarrow> 'a paxos_scheme \<Rightarrow> nat list list \<Rightarrow> (nat \<times> nat) list \<Rightarrow> u64 \<Rightarrow> u64 \<Rightarrow> nat list res" where
  "gapCols_loop 0 P fcinv gapRows e ci = Inl Diverges"
| "gapCols_loop (Suc fuel) P fcinv gapRows e ci =
     rbind (ithCombination ci (of_nat (mDenseSize P)) (length gapRows)) (\<lambda>sel.
     let gapCols = map unat sel; ci = ci + 1 in
     if ci > e then Inl (RuntimeError ''failed to find invertible matrix. '')
     else
       rbind (gapMtx P fcinv gapRows gapCols) (\<lambda>EE.
       rbind (DenseMtx_invert EE) (\<lambda>EEInv.
       if EEInv \<noteq> [] then Inr gapCols else gapCols_loop fuel P fcinv gapRows e ci)))"

text \<open>The loop tries the combinations 0 to e, so e + 1 rounds are enough.\<close>

definition getGapCols :: "'a paxos_scheme \<Rightarrow> nat list list \<Rightarrow> (nat \<times> nat) list \<Rightarrow> nat list res" where
  "getGapCols P fcinv gapRows =
     (if gapRows = [] then Inr []
      else
        let e = choose_u64 (of_nat (mDenseSize P)) (length gapRows)
        in gapCols_loop (Suc (unat e)) P fcinv gapRows e 0)"

subsection \<open>getX2Prime and getEPrime\<close>

definition x2Row :: "('v, 's) px_helper \<Rightarrow> 'v list \<Rightarrow> nat list \<Rightarrow> nat \<Rightarrow> 'v res" where
  "x2Row h X js r = rbind (at X r) (\<lambda>x. foldr_res (\<lambda>j v. rbind (at X j) (\<lambda>y. Inr (hAdd h v y))) js x)"

definition x2Dense :: "('v, 's) px_helper \<Rightarrow> 'a paxos_scheme \<Rightarrow> nat list list \<Rightarrow> (nat \<times> nat) list \<Rightarrow> 'v list \<Rightarrow>
    nat \<Rightarrow> nat \<Rightarrow> 'v list \<Rightarrow> 'v list res" where
  "x2Dense h P fcinv gapRows p i j xx2 =
     rbind (at gapRows j) (\<lambda>gap. rbind (at (mDense P) (fst gap)) (\<lambda>d.
     rbind (at fcinv j) (\<lambda>js. rbind (denseXor P js d) (\<lambda>dense.
     rbind (bitIterator dense i) (\<lambda>b.
     if b then rbind (at p (i + mSparseSize P)) (\<lambda>e. rbind (at xx2 j) (\<lambda>v. Inr (xx2[j := hAdd h v e])))
     else Inr xx2)))))"

definition getX2Prime :: "('v, 's) px_helper \<Rightarrow> 'a paxos_scheme \<Rightarrow> nat list list \<Rightarrow> (nat \<times> nat) list \<Rightarrow> nat list \<Rightarrow>
    'v list \<Rightarrow> 'v list \<Rightarrow> 'v list res" where
  "getX2Prime h P fcinv gapRows gapCols X p =
     rbind (guardr (length X = mNumItems P) AssertFail) (\<lambda>_.
     rbind (mapr (\<lambda>i. rbind (at gapRows i) (\<lambda>gap. rbind (at fcinv i) (\<lambda>js. x2Row h X js (fst gap)))) [0..<length gapRows]) (\<lambda>xx2.
     if p \<noteq> [] then
       rbind (guardr (length p = mDenseSize P + mSparseSize P) AssertFail) (\<lambda>_.
       foldr_res (\<lambda>i xx2. if i \<notin> set gapCols then foldr_res (x2Dense h P fcinv gapRows p i) [0..<length gapRows] xx2
                          else Inr xx2) [0..<mDenseSize P] xx2)
     else Inr xx2))"

definition getEPrime :: "'a paxos_scheme \<Rightarrow> nat list list \<Rightarrow> (nat \<times> nat) list \<Rightarrow> nat list \<Rightarrow> dense_mtx res" where
  "getEPrime P fcinv gapRows gapCols =
     mapr (\<lambda>i. rbind (at gapRows i) (\<lambda>gap. rbind (at (mDense P) (fst gap)) (\<lambda>e.
        rbind (at fcinv i) (\<lambda>js. rbind (denseXor P js e) (\<lambda>EERow. selectBits EERow gapCols)))))
       [0..<length gapRows]"

subsection \<open>The diagonal\<close>

definition main_ok :: "'a paxos_scheme \<Rightarrow> nat list \<Rightarrow> nat list \<Rightarrow> bool" where
  "main_ok P mainRows mainCols \<longleftrightarrow> rows_ok P \<and> size_ok P \<and> triangular (mRows P) mainRows mainCols \<and> distinct mainCols \<and>
     set mainCols \<subseteq> {..<mSparseSize P} \<and> set mainRows \<subseteq> {..<mNumItems P}"

lemma main_okD:
  assumes "main_ok P mainRows mainCols"
  shows "rows_ok P" "size_ok P" "length mainRows = length mainCols" "distinct mainCols"
    "j < length mainCols \<Longrightarrow> mainCols ! j < mSparseSize P" "j < length mainCols \<Longrightarrow> mainRows ! j < mNumItems P"
    "j < length mainCols \<Longrightarrow> mainCols ! j \<in> set (mRows P ! (mainRows ! j))"
    "i < j \<Longrightarrow> j < length mainCols \<Longrightarrow> mainCols ! i \<notin> set (mRows P ! (mainRows ! j))"
    "length mainCols \<le> noCol (mIdxBits P)"
proof -
  show "rows_ok P" "size_ok P" "length mainRows = length mainCols" "distinct mainCols"
    "j < length mainCols \<Longrightarrow> mainCols ! j \<in> set (mRows P ! (mainRows ! j))"
    "i < j \<Longrightarrow> j < length mainCols \<Longrightarrow> mainCols ! i \<notin> set (mRows P ! (mainRows ! j))"
    "j < length mainCols \<Longrightarrow> mainCols ! j < mSparseSize P" "j < length mainCols \<Longrightarrow> mainRows ! j < mNumItems P"
    using assms by (auto simp: main_ok_def triangular_def subset_iff)
  have "card (set mainCols) \<le> card {..<mSparseSize P}" using assms by (intro card_mono) (auto simp: main_ok_def)
  moreover have "card (set mainCols) = length mainCols" using assms by (intro distinct_card) (simp add: main_ok_def)
  ultimately show "length mainCols \<le> noCol (mIdxBits P)"
    using assms by (simp add: main_ok_def size_ok_def NullNode_def noCol_def)
qed

lemma main_okI: "rows_ok P \<Longrightarrow> size_ok P \<Longrightarrow> tri_shape P s \<Longrightarrow> main_ok P (tMainRows s) (tMainCols s)"
  by (auto simp: main_ok_def tri_shape_def)

text \<open>The index of a diagonal column in the order of C, which is reversed.\<close>

definition cm_ok :: "'a paxos_scheme \<Rightarrow> nat list \<Rightarrow> nat list \<Rightarrow> bool" where
  "cm_ok P mainCols cm \<longleftrightarrow> length cm = paxos_size P \<and>
     (\<forall>j<length mainCols. cm ! (mainCols ! j) = length mainCols - 1 - j) \<and>
     (\<forall>c<paxos_size P. c \<notin> set mainCols \<longrightarrow> cm ! c = noCol (mIdxBits P))"

lemma fcMapping_ok:
  assumes "main_ok P mainRows mainCols"
  shows "\<exists>cm. fcMapping P (length mainRows) mainCols = Inr cm \<and> cm_ok P mainCols cm"
proof -
  note M = main_okD [OF assms]
  let ?m = "length mainCols"
  let ?f = "\<lambda>i cm. rbind (at mainCols (?m - i - 1)) (\<lambda>c. rbind (at cm c) (\<lambda>_. Inr (cm[c := i mod 2 ^ mIdxBits P])))"
  have "k \<le> ?m \<Longrightarrow> \<exists>cm. foldr_res ?f [0..<k] (replicate (paxos_size P) (noCol (mIdxBits P))) = Inr cm \<and> length cm = paxos_size P \<and>
      (\<forall>j<?m. ?m - k \<le> j \<longrightarrow> cm ! (mainCols ! j) = ?m - 1 - j) \<and>
      (\<forall>c<paxos_size P. c \<notin> set (drop (?m - k) mainCols) \<longrightarrow> cm ! c = noCol (mIdxBits P))" for k
  proof (induction k)
    case (Suc k)
    then obtain cm where IH: "foldr_res ?f [0..<k] (replicate (paxos_size P) (noCol (mIdxBits P))) = Inr cm" "length cm = paxos_size P"
      "\<forall>j<?m. ?m - k \<le> j \<longrightarrow> cm ! (mainCols ! j) = ?m - 1 - j"
      "\<forall>c<paxos_size P. c \<notin> set (drop (?m - k) mainCols) \<longrightarrow> cm ! c = noCol (mIdxBits P)" by auto
    let ?j = "?m - k - 1" and ?c = "mainCols ! (?m - k - 1)"
    have "?j < ?m" using Suc.prems by simp
    with M(5) [OF this] have j: "?j < ?m" "?c < paxos_size P" "Suc ?j = ?m - k" using Suc.prems by (simp_all add: paxos_size_def)
    have k: "k mod 2 ^ mIdxBits P = k" using Suc.prems M(9) by (intro mod_less) (simp add: noCol_def)
    have "?f k cm = Inr (cm[?c := k])" using j IH(2) k by simp
    then have "foldr_res ?f [0..<Suc k] (replicate (paxos_size P) (noCol (mIdxBits P))) = Inr (cm[?c := k])"
      using IH(1) by (simp only: upt_Suc_append le0 foldr_res_append rbind_simps foldr_res_single)
    moreover have "cm[?c := k] ! (mainCols ! i) = ?m - 1 - i" if i: "i < ?m" "?m - Suc k \<le> i" for i
    proof (cases "i = ?j")
      case True
      then show ?thesis using j IH(2) Suc.prems by simp
    next
      case False
      then have "mainCols ! i \<noteq> ?c" using nth_eq_iff_index_eq [OF M(4) i(1) j(1)] by simp
      moreover have "?m - k \<le> i" using False i(2) Suc.prems by simp
      ultimately show ?thesis using IH(3) i(1) by simp
    qed
    moreover have "drop (?m - Suc k) mainCols = ?c # drop (?m - k) mainCols"
    proof -
      have "?m - Suc k = ?j" by simp
      then show ?thesis using Cons_nth_drop_Suc [OF j(1), symmetric] by (simp only: j(3))
    qed
    ultimately show ?case using IH(2,4) by (intro exI [of _ "cm[?c := k]"]) simp
  qed simp
  from this [of ?m] M(3) show ?thesis by (auto simp: fcMapping_def cm_ok_def)
qed

lemma cm_okD:
  assumes "cm_ok P mainCols cm"
  shows "length cm = paxos_size P" "j < length mainCols \<Longrightarrow> cm ! (mainCols ! j) = length mainCols - 1 - j"
    "c < paxos_size P \<Longrightarrow> c \<notin> set mainCols \<Longrightarrow> cm ! c = noCol (mIdxBits P)"
  using assms by (auto simp: cm_ok_def)

lemma cm_member:
  assumes "main_ok P mainRows mainCols" "cm_ok P mainCols cm" "c < mSparseSize P"
  shows "cm ! c \<noteq> noCol (mIdxBits P) \<longleftrightarrow> c \<in> set mainCols"
    and "c \<in> set mainCols \<Longrightarrow> cm ! c < length mainCols \<and> mainCols ! (length mainCols - 1 - cm ! c) = c"
proof -
  have sz: "c < paxos_size P" using assms(3) by (simp add: paxos_size_def)
  show 1: "c \<in> set mainCols \<Longrightarrow> cm ! c < length mainCols \<and> mainCols ! (length mainCols - 1 - cm ! c) = c"
    using cm_okD(2) [OF assms(2)] by (auto simp: in_set_conv_nth)
  show "cm ! c \<noteq> noCol (mIdxBits P) \<longleftrightarrow> c \<in> set mainCols"
    using 1 cm_okD(3) [OF assms(2) sz] main_okD(9) [OF assms(1)] by fastforce
qed

subsection \<open>The rows that getFCInv adds up\<close>

text \<open>A row restricted to the diagonal columns, and a set of the search read as a row.\<close>

definition onCols :: "nat set \<Rightarrow> (nat \<Rightarrow> gf128) \<Rightarrow> nat \<Rightarrow> gf128" where
  "onCols C x c = (if c \<in> C then x c else 0)"

definition setSum :: "nat list \<Rightarrow> (nat \<Rightarrow> gf128) \<Rightarrow> nat list \<Rightarrow> gf128" where
  "setSum mainCols x us = (\<Sum>u\<leftarrow>us. x (mainCols ! (length mainCols - 1 - u)))"

lemma setSum_simps [simp]: "setSum mc x [] = 0" "setSum mc x (u # us) = x (mc ! (length mc - 1 - u)) + setSum mc x us"
  by (simp_all add: setSum_def)

lemma setSum_remove1: "u \<in> set us \<Longrightarrow> setSum mc x (remove1 u us) = setSum mc x us + x (mc ! (length mc - 1 - u))"
proof (induction us)
  case (Cons v us)
  have "b = b + a + a" for a b :: gf128 by (simp only: add.assoc gf_add_self add_0_right)
  with Cons show ?case by (auto simp: ac_simps)
qed simp

definition descending :: "nat list \<Rightarrow> bool" where "descending xs \<longleftrightarrow> sorted_wrt (>) xs"

lemma descending_simps [simp]: "descending []" "descending (x # xs) \<longleftrightarrow> (\<forall>y\<in>set xs. y < x) \<and> descending xs"
  by (simp_all add: descending_def)

lemma descending_distinct: "descending xs \<Longrightarrow> distinct xs"
  by (induction xs) auto

lemma set_setInsert [simp]: "set (setInsert x xs) = insert x (set xs)"
  by (induction xs) auto

lemma setInsert_ok:
  "descending xs \<Longrightarrow> descending (setInsert x xs)"
  "x \<notin> set xs \<Longrightarrow> setSum mc y (setInsert x xs) = setSum mc y xs + y (mc ! (length mc - 1 - x))"
  by (induction xs) (auto simp: ac_simps)

lemma descending_remove1: "descending xs \<Longrightarrow> descending (remove1 x xs)"
  by (induction xs) (auto dest: in_set_remove1 notin_set_remove1)

text \<open>Adding one row of C.\<close>

lemma fcToggle_ok:
  assumes M: "main_ok P mainRows mainCols" and C: "cm_ok P mainCols cm"
    and c: "c < mSparseSize P" "c \<in> set mainCols \<Longrightarrow> cm ! c \<le> CCol" and row: "descending row"
  shows "\<exists>row'. fcToggle (mIdxBits P) cm CCol c row = Inr row' \<and> descending row' \<and>
    (\<forall>x. setSum mainCols x row' = setSum mainCols x row + onCols (set mainCols) x c) \<and>
    (\<forall>u. u \<in> set row' \<longleftrightarrow> (u \<in> set row) \<noteq> (c \<in> set mainCols \<and> u = cm ! c))"
proof -
  have l: "c < length cm" using c(1) cm_okD(1) [OF C] by (simp add: paxos_size_def)
  note m = cm_member [OF M C c(1)]
  show ?thesis
  proof (cases "c \<in> set mainCols")
    case False
    with m l row show ?thesis by (auto simp: fcToggle_def onCols_def)
  next
    case True
    have d: "distinct row" using row by (rule descending_distinct)
    let ?row = "if cm ! c \<in> set row then remove1 (cm ! c) row else setInsert (cm ! c) row"
    have "fcToggle (mIdxBits P) cm CCol c row = Inr ?row"
      using True m(1) l c(2) by (simp add: fcToggle_def)
    moreover have "descending ?row" using row by (simp add: setInsert_ok descending_remove1)
    moreover have "\<forall>x. setSum mainCols x ?row = setSum mainCols x row + onCols (set mainCols) x c"
      using m(2) [OF True] True by (simp add: onCols_def setSum_remove1 setInsert_ok)
    moreover have "\<forall>u. u \<in> set ?row \<longleftrightarrow> (u \<in> set row) \<noteq> (c \<in> set mainCols \<and> u = cm ! c)"
      using True d by auto
    ultimately show ?thesis by blast
  qed
qed

lemma fcToggles_ok:
  assumes M: "main_ok P mainRows mainCols" and C: "cm_ok P mainCols cm"
    and "\<forall>c\<in>set cols. c < mSparseSize P \<and> (c \<in> set mainCols \<longrightarrow> cm ! c \<le> CCol)" "descending row"
    and "distinct cols"
  shows "\<exists>row'. foldr_res (fcToggle (mIdxBits P) cm CCol) cols row = Inr row' \<and> descending row' \<and>
    (\<forall>x. setSum mainCols x row' = setSum mainCols x row + sparseSum cols (onCols (set mainCols) x)) \<and>
    (\<forall>u. u \<in> set row' \<longleftrightarrow> (u \<in> set row) \<noteq> (\<exists>c\<in>set cols. c \<in> set mainCols \<and> u = cm ! c))"
  using assms(3-5)
proof (induction cols arbitrary: row)
  case (Cons c cols)
  have c: "c < mSparseSize P" "c \<in> set mainCols \<Longrightarrow> cm ! c \<le> CCol" using Cons.prems(1) by auto
  from fcToggle_ok [OF M C c Cons.prems(2)] obtain r1 where
    1: "fcToggle (mIdxBits P) cm CCol c row = Inr r1" "descending r1"
    "\<forall>x. setSum mainCols x r1 = setSum mainCols x row + onCols (set mainCols) x c"
    "\<forall>u. u \<in> set r1 \<longleftrightarrow> (u \<in> set row) \<noteq> (c \<in> set mainCols \<and> u = cm ! c)" by blast
  from Cons.IH [OF _ 1(2)] Cons.prems(1,3) obtain r2 where
    2: "foldr_res (fcToggle (mIdxBits P) cm CCol) cols r1 = Inr r2" "descending r2"
    "\<forall>x. setSum mainCols x r2 = setSum mainCols x r1 + sparseSum cols (onCols (set mainCols) x)"
    "\<forall>u. u \<in> set r2 \<longleftrightarrow> (u \<in> set r1) \<noteq> (\<exists>c\<in>set cols. c \<in> set mainCols \<and> u = cm ! c)" by auto
  have inj: "cm ! e \<noteq> cm ! c" if e: "e \<in> set cols" "e \<in> set mainCols" "c \<in> set mainCols" for e
  proof
    assume eq: "cm ! e = cm ! c"
    have es: "e < mSparseSize P" using Cons.prems(1) e(1) by simp
    from cm_member(2) [OF M C es e(2)] cm_member(2) [OF M C c(1) e(3)] eq have "e = c" by simp
    with e(1) Cons.prems(3) show False by simp
  qed
  have "(u \<in> set r2) \<longleftrightarrow> (u \<in> set row) \<noteq> (\<exists>e\<in>set (c # cols). e \<in> set mainCols \<and> u = cm ! e)" for u
  proof (cases "c \<in> set mainCols \<and> u = cm ! c")
    case True
    then have "\<not> (\<exists>e\<in>set cols. e \<in> set mainCols \<and> u = cm ! e)" using inj by blast
    with True show ?thesis using 1(4) 2(4) by simp
  next
    case False
    then show ?thesis using 1(4) 2(4) by auto
  qed
  with 1 2 show ?case by (simp add: add.assoc)
qed simp

lemma fcCancel_ok:
  assumes M: "main_ok P mainRows mainCols" and C: "cm_ok P mainCols cm"
    and "descending row" "\<forall>u\<in>set row. u < b" "b \<le> fuel" "b \<le> length mainCols"
  shows "\<exists>js. fcCancel fuel P cm mainRows row out = Inr (out @ js) \<and> set js \<subseteq> set mainRows \<and>
    (\<forall>x. setSum mainCols x row + (\<Sum>j\<leftarrow>js. sparseSum (mRows P ! j) (onCols (set mainCols) x)) = 0)"
  using assms(3-6)
proof (induction fuel arbitrary: row out b)
  case 0
  then have "row = []" by (cases row) auto
  then show ?case by simp
next
  case (Suc fuel)
  note D = main_okD [OF M]
  show ?case
  proof (cases row)
    case Nil
    then show ?thesis by simp
  next
    case (Cons CCol rest)
    let ?m = "length mainCols" and ?k = "length mainCols - 1 - CCol"
    have lt: "CCol < ?m" "CCol < Suc fuel" using Cons Suc.prems by auto
    let ?H = "mainRows ! ?k"
    have k: "?k < ?m" "?m - 1 - ?k = CCol" using lt by auto
    have H: "mainRowAt mainRows CCol = Inr ?H" using lt D(3) by (simp add: mainRowAt_def)
    have HN: "?H < mNumItems P" using k(1) by (rule D(6))
    note R = rows_okD [OF D(1)]
    have cols: "\<forall>c\<in>set (mRows P ! ?H). c < mSparseSize P \<and> (c \<in> set mainCols \<longrightarrow> cm ! c \<le> CCol)"
    proof (intro ballI conjI impI)
      fix c assume c: "c \<in> set (mRows P ! ?H)"
      then show s: "c < mSparseSize P" using R(6) HN by blast
      assume "c \<in> set mainCols"
      note m = cm_member(2) [OF M C s this]
      show "cm ! c \<le> CCol"
      proof (rule ccontr)
        assume "\<not> cm ! c \<le> CCol"
        then have "?m - 1 - cm ! c < ?k" using m by linarith
        from D(8) [OF this k(1)] m c show False by simp
      qed
    qed
    from fcToggles_ok [OF M C cols Suc.prems(1) R(5) [OF HN]] obtain row' where
      T: "foldr_res (fcToggle (mIdxBits P) cm CCol) (mRows P ! ?H) row = Inr row'" "descending row'"
      "\<forall>x. setSum mainCols x row' = setSum mainCols x row + sparseSum (mRows P ! ?H) (onCols (set mainCols) x)"
      "\<forall>u. u \<in> set row' \<longleftrightarrow> (u \<in> set row) \<noteq> (\<exists>c\<in>set (mRows P ! ?H). c \<in> set mainCols \<and> u = cm ! c)" by blast
    have "CCol \<notin> set row'"
    proof -
      have "mainCols ! ?k \<in> set mainCols" "cm ! (mainCols ! ?k) = CCol" using k cm_okD(2) [OF C k(1)] by simp_all
      with D(7) [OF k(1)] have "\<exists>c\<in>set (mRows P ! ?H). c \<in> set mainCols \<and> CCol = cm ! c" by auto
      then show ?thesis using T(4) Cons by simp
    qed
    moreover have "u \<le> CCol" if "u \<in> set row'" for u
      using that T(4) cols Suc.prems(1) Cons by (auto intro: less_imp_le)
    ultimately have b: "\<forall>u\<in>set row'. u < CCol" by (metis le_neq_implies_less)
    from Suc.IH [OF T(2) b, of "out @ [?H]"] lt obtain js where
      js: "fcCancel fuel P cm mainRows row' (out @ [?H]) = Inr ((out @ [?H]) @ js)" "set js \<subseteq> set mainRows"
      "\<forall>x. setSum mainCols x row' + (\<Sum>j\<leftarrow>js. sparseSum (mRows P ! j) (onCols (set mainCols) x)) = 0" by auto
    have "row' = [] \<or> hd row' \<noteq> CCol" using b by (cases row') auto
    then have "fcCancel (Suc fuel) P cm mainRows row out = Inr (out @ ?H # js)"
      using H HN R(1) T(1) js(1) Cons by simp
    moreover have "set (?H # js) \<subseteq> set mainRows" using js(2) k(1) D(3) by simp
    moreover have "\<forall>x. setSum mainCols x row + (\<Sum>j\<leftarrow>?H # js. sparseSum (mRows P ! j) (onCols (set mainCols) x)) = 0"
      using js(3) T(3) by (simp add: add.assoc)
    ultimately show ?thesis by blast
  qed
qed

lemma fcStart_ok:
  assumes M: "main_ok P mainRows mainCols" and C: "cm_ok P mainCols cm" and r: "r < mNumItems P"
  shows "\<exists>row. fcStart P cm (mRows P ! r) = Inr row \<and> descending row \<and> (\<forall>u\<in>set row. u < length mainCols) \<and>
    (\<forall>x. setSum mainCols x row = sparseSum (mRows P ! r) (onCols (set mainCols) x))"
proof -
  note R = rows_okD [OF main_okD(1) [OF M]]
  let ?f = "\<lambda>c row. rbind (at cm c) (\<lambda>u. Inr (if u \<noteq> noCol (mIdxBits P) then setInsert u row else row))"
  have eq: "fcStart P cm (mRows P ! r) = foldr_res ?f (mRows P ! r) []"
    unfolding fcStart_def R(4) [OF r, symmetric] foldr_res_upt_nth [of ?f "mRows P ! r"]
    by (intro foldr_res_cong refl) simp
  have "\<exists>row. foldr_res ?f cols s = Inr row \<and> descending row \<and> (\<forall>u\<in>set row. u < length mainCols) \<and>
      (\<forall>x. setSum mainCols x row = setSum mainCols x s + sparseSum cols (onCols (set mainCols) x))"
    if "distinct cols" "\<forall>c\<in>set cols. c < mSparseSize P" "descending s" "\<forall>u\<in>set s. u < length mainCols"
      "\<forall>c\<in>set cols. c \<in> set mainCols \<longrightarrow> cm ! c \<notin> set s" for cols s
    using that
  proof (induction cols arbitrary: s)
    case (Cons c cols)
    have c: "c < mSparseSize P" "c < length cm" using Cons.prems(2) cm_okD(1) [OF C] by (auto simp: paxos_size_def)
    note m = cm_member [OF M C c(1)]
    let ?s = "if c \<in> set mainCols then setInsert (cm ! c) s else s"
    have "?f c s = Inr ?s" using m(1) c(2) by simp
    moreover have "cm ! e \<noteq> cm ! c" if "e \<in> set cols" "e \<in> set mainCols" "c \<in> set mainCols" for e
    proof
      assume eq: "cm ! e = cm ! c"
      have "e < mSparseSize P" using Cons.prems(2) that(1) by simp
      from cm_member(2) [OF M C this that(2)] m(2) [OF that(3)] eq have "e = c" by simp
      with that(1) Cons.prems(1) show False by simp
    qed
    then have "\<exists>row. foldr_res ?f cols ?s = Inr row \<and> descending row \<and> (\<forall>u\<in>set row. u < length mainCols) \<and>
      (\<forall>x. setSum mainCols x row = setSum mainCols x ?s + sparseSum cols (onCols (set mainCols) x))"
      using Cons.prems m(2) by (intro Cons.IH) (auto simp: setInsert_ok)
    moreover have "setSum mainCols x ?s = setSum mainCols x s + onCols (set mainCols) x c" for x
      using Cons.prems(5) m(2) by (simp add: onCols_def setInsert_ok(2))
    ultimately show ?case by (simp add: add.assoc)
  qed simp
  from this [of "mRows P ! r" "[]"] R(5,6) [OF r] show ?thesis unfolding eq by auto
qed

text \<open>What \<open>fcinv.mMtx[i]\<close> is for the gap row \<open>i\<close>.\<close>

definition fcRow_ok :: "'a paxos_scheme \<Rightarrow> nat list \<Rightarrow> nat list \<Rightarrow> nat \<times> nat \<Rightarrow> nat list \<Rightarrow> bool" where
  "fcRow_ok P mainRows mainCols gap js \<longleftrightarrow> set js \<subseteq> set mainRows \<and>
     (\<forall>x. sparseSum (mRows P ! fst gap) (onCols (set mainCols) x) +
        (\<Sum>j\<leftarrow>js. sparseSum (mRows P ! j) (onCols (set mainCols) x)) = 0) \<and>
     (mRows P ! fst gap = mRows P ! snd gap \<longrightarrow> js = [snd gap])"

definition gaps_ok :: "'a paxos_scheme \<Rightarrow> nat list \<Rightarrow> (nat \<times> nat) list \<Rightarrow> bool" where
  "gaps_ok P mainRows gapRows \<longleftrightarrow> (\<forall>gap\<in>set gapRows. fst gap < mNumItems P \<and> snd gap \<in> set mainRows)"

lemma fcGap_ok:
  assumes M: "main_ok P mainRows mainCols" and C: "cm = [] \<or> cm_ok P mainCols cm"
    and g: "fst gap < mNumItems P" "snd gap \<in> set mainRows"
  shows "\<exists>cm' js. fcGap P mainRows mainCols gap (cm, ret) = Inr (cm', ret @ [js]) \<and>
    (cm' = [] \<or> cm_ok P mainCols cm') \<and> fcRow_ok P mainRows mainCols gap js"
proof -
  note D = main_okD [OF M]
  note R = rows_okD [OF D(1)]
  have s: "snd gap < mNumItems P" using g(2) M by (auto simp: main_ok_def)
  have take: "take (mWeight P) (mRows P ! i) = mRows P ! i" if "i < mNumItems P" for i using R(4) [OF that] by simp
  show ?thesis
  proof (cases "mRows P ! fst gap = mRows P ! snd gap")
    case True
    then have "fcRow_ok P mainRows mainCols gap [snd gap]" using g(2) by (simp add: fcRow_ok_def gf_add_self)
    with True C g(1) s R(1) show ?thesis by (simp add: fcGap_def)
  next
    case False
    obtain cm' where cm': "(if cm = [] then fcMapping P (length mainRows) mainCols else Inr cm) = Inr cm'" "cm_ok P mainCols cm'"
      using C fcMapping_ok [OF M] by (cases "cm = []") auto
    from fcStart_ok [OF M cm'(2) g(1)] obtain row where row: "fcStart P cm' (mRows P ! fst gap) = Inr row" "descending row"
      "\<forall>u\<in>set row. u < length mainCols" "\<forall>x. setSum mainCols x row = sparseSum (mRows P ! fst gap) (onCols (set mainCols) x)"
      by blast
    have "length mainCols \<le> Suc (length mainRows)" using D(3) by simp
    from fcCancel_ok [OF M cm'(2) row(2,3) this order_refl, of "[]"] obtain js where
      js: "fcCancel (Suc (length mainRows)) P cm' mainRows row [] = Inr js" "set js \<subseteq> set mainRows"
      "\<forall>x. setSum mainCols x row + (\<Sum>j\<leftarrow>js. sparseSum (mRows P ! j) (onCols (set mainCols) x)) = 0" by auto
    have "fcGap P mainRows mainCols gap (cm, ret) = Inr (cm', ret @ [js])"
      using False g(1) s R(1) take cm'(1) row(1) js(1) by (simp add: fcGap_def Let_def del: fcCancel.simps)
    moreover have "fcRow_ok P mainRows mainCols gap js" using js(2,3) row(4) False by (simp add: fcRow_ok_def)
    ultimately show ?thesis using cm'(2) by blast
  qed
qed

lemma getFCInv_ok:
  assumes M: "main_ok P mainRows mainCols" and G: "gaps_ok P mainRows gapRows"
  shows "\<exists>fcinv. getFCInv P mainRows mainCols gapRows = Inr fcinv \<and> list_all2 (fcRow_ok P mainRows mainCols) gapRows fcinv"
proof -
  have "\<exists>cm' ret'. foldr_res (fcGap P mainRows mainCols) gs (cm, ret) = Inr (cm', ret @ ret') \<and>
      list_all2 (fcRow_ok P mainRows mainCols) gs ret'"
    if "gaps_ok P mainRows gs" "cm = [] \<or> cm_ok P mainCols cm" for gs cm ret
    using that
  proof (induction gs arbitrary: cm ret)
    case (Cons gap gs)
    then have g: "fst gap < mNumItems P" "snd gap \<in> set mainRows" "gaps_ok P mainRows gs" by (auto simp: gaps_ok_def)
    from fcGap_ok [OF M Cons.prems(2) g(1,2)] obtain cm1 js where
      1: "fcGap P mainRows mainCols gap (cm, ret) = Inr (cm1, ret @ [js])" "cm1 = [] \<or> cm_ok P mainCols cm1"
      "fcRow_ok P mainRows mainCols gap js" by blast
    from Cons.IH [OF g(3) 1(2), of "ret @ [js]"] obtain cm2 ret2 where
      "foldr_res (fcGap P mainRows mainCols) gs (cm1, ret @ [js]) = Inr (cm2, (ret @ [js]) @ ret2)"
      "list_all2 (fcRow_ok P mainRows mainCols) gs ret2" by blast
    with 1 show ?case by (auto intro: exI [of _ "js # ret2"])
  qed simp
  from this [OF G, of "[]" "[]"] show ?thesis by (auto simp: getFCInv_def)
qed

subsection \<open>The gap matrix\<close>

definition gapBlock :: "'a paxos_scheme \<Rightarrow> nat list \<Rightarrow> nat \<Rightarrow> block" where
  "gapBlock P js r = fold (\<lambda>j d. d XOR mDense P ! j) js (mDense P ! r)"

definition gapE :: "'a paxos_scheme \<Rightarrow> nat list list \<Rightarrow> (nat \<times> nat) list \<Rightarrow> nat list \<Rightarrow> dense_mtx" where
  "gapE P fcinv gapRows cols =
     map (\<lambda>i. map (bit (gapBlock P (fcinv ! i) (fst (gapRows ! i)))) cols) [0..<length gapRows]"

definition fcinv_ok :: "'a paxos_scheme \<Rightarrow> nat list list \<Rightarrow> (nat \<times> nat) list \<Rightarrow> bool" where
  "fcinv_ok P fcinv gapRows \<longleftrightarrow> length (mDense P) = mNumItems P \<and> length fcinv = length gapRows \<and>
     (\<forall>js\<in>set fcinv. \<forall>j\<in>set js. j < mNumItems P) \<and> (\<forall>gap\<in>set gapRows. fst gap < mNumItems P)"

lemma fcinv_okI:
  assumes "list_all2 (fcRow_ok P mainRows mainCols) gapRows fcinv" "main_ok P mainRows mainCols" "gaps_ok P mainRows gapRows"
  shows "fcinv_ok P fcinv gapRows"
proof -
  have "set js \<subseteq> set mainRows" if "js \<in> set fcinv" for js
    using assms(1) that by (auto simp: list_all2_conv_all_nth in_set_conv_nth fcRow_ok_def)
  moreover have "j < mNumItems P" if "j \<in> set mainRows" for j using assms(2) that by (auto simp: main_ok_def)
  ultimately have "\<forall>js\<in>set fcinv. \<forall>j\<in>set js. j < mNumItems P" by blast
  moreover have "\<forall>gap\<in>set gapRows. fst gap < mNumItems P" using assms(3) by (simp add: gaps_ok_def)
  ultimately show ?thesis unfolding fcinv_ok_def
    by (intro conjI rows_okD(2) [OF main_okD(1) [OF assms(2)]] list_all2_lengthD [OF assms(1), symmetric])
qed

lemma denseXor_ok: "\<forall>j\<in>set js. j < length (mDense P) \<Longrightarrow> denseXor P js d = Inr (fold (\<lambda>j d. d XOR mDense P ! j) js d)"
  unfolding denseXor_def by (intro foldr_res_pure) simp

lemma fold_xor_start: "fold (\<lambda>j d. d XOR f j) js (d XOR e) = d XOR fold (\<lambda>j d. d XOR f j) js e" for d :: block
  by (induction js arbitrary: e) (simp_all add: xor.assoc)

lemma selectBits_ok: "\<forall>c\<in>set cols. c < 128 \<Longrightarrow> selectBits d cols = Inr (map (bit d) cols)"
  unfolding selectBits_def by (intro mapr_pure) (simp add: bitIterator_def)

lemma gapMtx_ok:
  assumes "fcinv_ok P fcinv gapRows" "\<forall>c\<in>set cols. c < 128"
  shows "gapMtx P fcinv gapRows cols = Inr (gapE P fcinv gapRows cols)"
    and "getEPrime P fcinv gapRows cols = Inr (gapE P fcinv gapRows cols)"
proof -
  have "\<forall>j\<in>set (fcinv ! i). j < length (mDense P)" "fst (gapRows ! i) < length (mDense P)" "i < length fcinv"
    if "i < length gapRows" for i using assms(1) that by (auto simp: fcinv_ok_def)
  note F = this
  show "gapMtx P fcinv gapRows cols = Inr (gapE P fcinv gapRows cols)"
    unfolding gapMtx_def gapE_def
  proof (rule mapr_pure)
    fix i assume i: "i \<in> set [0..<length gapRows]"
    have "mDense P ! fst (gapRows ! i) XOR fold (\<lambda>j d. d XOR mDense P ! j) (fcinv ! i) 0 = gapBlock P (fcinv ! i) (fst (gapRows ! i))"
      unfolding gapBlock_def fold_xor_start [symmetric] xor.right_neutral ..
    with i F [of i] selectBits_ok [OF assms(2)] show "rbind (at fcinv i) (\<lambda>js. rbind (denseXor P js 0) (\<lambda>FCB.
        rbind (at gapRows i) (\<lambda>gap. rbind (at (mDense P) (fst gap)) (\<lambda>e. selectBits (e XOR FCB) cols)))) =
      Inr (map (bit (gapBlock P (fcinv ! i) (fst (gapRows ! i)))) cols)"
      by (simp add: denseXor_ok)
  qed
  show "getEPrime P fcinv gapRows cols = Inr (gapE P fcinv gapRows cols)"
    unfolding getEPrime_def gapE_def
    by (rule mapr_pure) (use F selectBits_ok [OF assms(2)] in \<open>simp add: denseXor_ok gapBlock_def\<close>)
qed

lemma is_mtx_gapE: "length cols = length gapRows \<Longrightarrow> is_mtx (length gapRows) (length gapRows) (gapE P fcinv gapRows cols)"
  by (simp add: is_mtx_iff gapE_def)

lemma DenseMtx_invert_Inr: "is_mtx n n M \<Longrightarrow> 0 < n \<Longrightarrow> \<exists>Inv. DenseMtx_invert M = Inr Inv"
  by (auto simp: DenseMtx_invert_def Let_def is_mtx_cols is_mtx_length split: option.splits)

text \<open>A choice of dense columns, and when it is a good one.\<close>

definition gapChoice :: "'a paxos_scheme \<Rightarrow> (nat \<times> nat) list \<Rightarrow> nat list \<Rightarrow> bool" where
  "gapChoice P gapRows cols \<longleftrightarrow> length cols = length gapRows \<and> sorted_wrt (<) cols \<and> (\<forall>c\<in>set cols. c < mDenseSize P)"

definition gapInvertible :: "'a paxos_scheme \<Rightarrow> nat list list \<Rightarrow> (nat \<times> nat) list \<Rightarrow> nat list \<Rightarrow> bool" where
  "gapInvertible P fcinv gapRows cols \<longleftrightarrow> (\<exists>Inv. DenseMtx_invert (gapE P fcinv gapRows cols) = Inr Inv \<and> Inv \<noteq> [])"

lemma ithCombination_choice:
  assumes "comb_ok (mDenseSize P) (length gapRows)"
  shows "\<exists>sel. ithCombination index (of_nat (mDenseSize P)) (length gapRows) = Inr sel \<and> gapChoice P gapRows (map unat sel)"
proof -
  have u: "unat (of_nat (mDenseSize P) :: u64) = mDenseSize P"
    using assms by (intro unat_of_nat_small) (simp add: comb_ok_def)
  from ithCombination_correct_aux [of "of_nat (mDenseSize P)" "length gapRows" index] assms u obtain sel where
    "ithCombination index (of_nat (mDenseSize P)) (length gapRows) = Inr sel" "length sel = length gapRows" "sorted_wrt (<) sel"
    "\<forall>x\<in>set sel. x < of_nat (mDenseSize P)" by auto
  then show ?thesis using u by (auto simp: gapChoice_def sorted_unat word_less_nat_alt)
qed

lemma gapCols_loop_ok:
  assumes F: "fcinv_ok P fcinv gapRows" and D: "comb_ok (mDenseSize P) (length gapRows)" "mDenseSize P \<le> 128" "gapRows \<noteq> []"
    and "unat ci \<le> unat e" "unat e - unat ci < fuel" and e: "unat e + 1 < 2 ^ 64"
  shows "(\<exists>cols. gapCols_loop fuel P fcinv gapRows e ci = Inr cols \<and> gapChoice P gapRows cols \<and> gapInvertible P fcinv gapRows cols) \<or>
    gapCols_loop fuel P fcinv gapRows e ci = Inl (RuntimeError ''failed to find invertible matrix. '') \<and>
    (\<forall>index sel. unat ci \<le> unat index \<and> unat index < unat e \<and> ithCombination index (of_nat (mDenseSize P)) (length gapRows) = Inr sel
       \<longrightarrow> \<not> gapInvertible P fcinv gapRows (map unat sel))"
  using assms(5,6)
proof (induction fuel arbitrary: ci)
  case (Suc fuel)
  obtain sel where s: "ithCombination ci (of_nat (mDenseSize P)) (length gapRows) = Inr sel" "gapChoice P gapRows (map unat sel)"
    using ithCombination_choice [OF D(1)] by blast
  have c1: "unat (ci + 1) = unat ci + 1" using e Suc.prems(1) by (simp add: unat_word_ariths)
  show ?case
  proof (cases "ci + 1 > e")
    case True
    then have "unat e \<le> unat ci" using c1 by (simp add: word_less_nat_alt)
    with True s show ?thesis by (auto simp: Let_def)
  next
    case False
    then have lt: "unat (ci + 1) \<le> unat e" using c1 by (simp add: word_less_nat_alt)
    have cols: "\<forall>c\<in>set (map unat sel). c < 128" "length (map unat sel) = length gapRows"
      using s(2) D(2) by (auto simp: gapChoice_def)
    let ?E = "gapE P fcinv gapRows (map unat sel)"
    from DenseMtx_invert_Inr [OF is_mtx_gapE [OF cols(2)], of P fcinv] D(3) obtain Inv where I: "DenseMtx_invert ?E = Inr Inv" by auto
    show ?thesis
    proof (cases "Inv = []")
      case False
      with \<open>\<not> ci + 1 > e\<close> I s gapMtx_ok(1) [OF F cols(1)] show ?thesis by (auto simp: Let_def gapInvertible_def)
    next
      case True
      have step: "gapCols_loop (Suc fuel) P fcinv gapRows e ci = gapCols_loop fuel P fcinv gapRows e (ci + 1)"
        "\<not> gapInvertible P fcinv gapRows (map unat sel)"
        using \<open>\<not> ci + 1 > e\<close> I True s gapMtx_ok(1) [OF F cols(1)] by (simp_all add: Let_def gapInvertible_def)
      have "unat e - unat (ci + 1) < fuel" using Suc.prems(2) c1 lt by linarith
      from Suc.IH [OF lt this] show ?thesis
      proof (elim disjE conjE)
        assume none: "\<forall>index sel. unat (ci + 1) \<le> unat index \<and> unat index < unat e \<and>
          ithCombination index (of_nat (mDenseSize P)) (length gapRows) = Inr sel \<longrightarrow> \<not> gapInvertible P fcinv gapRows (map unat sel)"
        have "\<not> gapInvertible P fcinv gapRows (map unat sel')"
          if "unat ci \<le> unat index" "unat index < unat e"
            "ithCombination index (of_nat (mDenseSize P)) (length gapRows) = Inr sel'" for index sel'
        proof (cases "index = ci")
          case True
          with that(3) s(1) step(2) show ?thesis by simp
        next
          case False
          then have "unat index \<noteq> unat ci" by (simp add: word_unat_eq_iff)
          then have "unat (ci + 1) \<le> unat index" using that(1) c1 by simp
          with none that(2,3) show ?thesis by blast
        qed
        moreover assume "gapCols_loop fuel P fcinv gapRows e (ci + 1) = Inl (RuntimeError ''failed to find invertible matrix. '')"
        ultimately show ?thesis unfolding step(1) by blast
      qed (unfold step(1), blast)
    qed
  qed
qed simp

lemma getGapCols_ok:
  assumes F: "fcinv_ok P fcinv gapRows" and D: "comb_ok (mDenseSize P) (length gapRows)" "mDenseSize P \<le> 128" "gapRows \<noteq> []"
  shows "(\<exists>cols. getGapCols P fcinv gapRows = Inr cols \<and> gapChoice P gapRows cols \<and> gapInvertible P fcinv gapRows cols) \<or>
    getGapCols P fcinv gapRows = Inl (RuntimeError ''failed to find invertible matrix. '') \<and>
    (\<forall>cols. gapChoice P gapRows cols \<longrightarrow> \<not> gapInvertible P fcinv gapRows cols)"
proof -
  let ?n = "of_nat (mDenseSize P) :: u64" and ?g = "length gapRows"
  have u: "unat ?n = mDenseSize P" using D(1) by (intro unat_of_nat_small) (simp add: comb_ok_def)
  let ?e = "choose_u64 ?n ?g"
  have e: "unat ?e = (mDenseSize P choose ?g)" using choose_u64_eq [of ?g ?n] D(1) u by (simp add: comb_ok_def)
  have "mDenseSize P * (mDenseSize P choose ?g) < 2 ^ 64" "?g \<le> mDenseSize P" using D(1) by (auto simp: comb_ok_def)
  moreover have "0 < ?g" using D(3) by simp
  ultimately have "unat ?e + 1 < 2 ^ 64"
  proof (cases "mDenseSize P = 1")
    case True
    with e \<open>0 < ?g\<close> show ?thesis by (cases "?g = 1") (simp_all add: binomial_eq_0)
  next
    case False
    then have "2 * (mDenseSize P choose ?g) \<le> mDenseSize P * (mDenseSize P choose ?g)"
      using \<open>0 < ?g\<close> \<open>?g \<le> mDenseSize P\<close> by (intro mult_le_mono1) linarith
    then have "2 * (mDenseSize P choose ?g) < 2 ^ 64"
      using \<open>mDenseSize P * (mDenseSize P choose ?g) < 2 ^ 64\<close> by linarith
    then show ?thesis unfolding e by simp
  qed
  from gapCols_loop_ok [OF F D _ _ this, of 0 "Suc (unat ?e)"] consider
    cols where "getGapCols P fcinv gapRows = Inr cols" "gapChoice P gapRows cols" "gapInvertible P fcinv gapRows cols"
  | "getGapCols P fcinv gapRows = Inl (RuntimeError ''failed to find invertible matrix. '')"
    "\<forall>index sel. unat index < unat ?e \<and> ithCombination index ?n ?g = Inr sel \<longrightarrow> \<not> gapInvertible P fcinv gapRows (map unat sel)"
    using D(3) by (auto simp: getGapCols_def Let_def simp del: gapCols_loop.simps)
  then show ?thesis
  proof cases
    case 2
    have "\<not> gapInvertible P fcinv gapRows cols" if "gapChoice P gapRows cols" for cols
    proof -
      have cols: "sorted_wrt (<) cols" "length cols = ?g" "set cols \<subseteq> {..<unat ?n}" using that u by (auto simp: gapChoice_def)
      moreover have "card (set cols) = ?g" using cols(1,2) strict_sorted_iff distinct_card by metis
      ultimately obtain index sel where i: "unat index < (unat ?n choose ?g)" "ithCombination index ?n ?g = Inr sel" "unat ` set sel = set cols"
        using ithCombination_complete_aux [of ?n ?g "set cols"] D(1) u by auto
      have "sorted_wrt (<) (map unat sel)" using ithCombination_choice [OF D(1), of index] i(2) by (simp add: gapChoice_def)
      moreover have "set (map unat sel) = set cols" using i(3) by simp
      ultimately have "map unat sel = cols" using cols(1) strict_sorted_equal by blast
      with 2(2) i e u show ?thesis by auto
    qed
    with 2(1) show ?thesis by blast
  qed blast
qed

text \<open>The shape that \<open>triangulate\<close> leaves.\<close>

lemma tri_shape_main: "tri_shape P t \<Longrightarrow> i \<in> set (tMainRows t) \<Longrightarrow> i < mNumItems P"
  by (auto simp: tri_shape_def)

lemma tri_shape_gap:
  assumes "tri_shape P t" "(r, q) \<in> set (tGapRows t)"
  shows "r < mNumItems P \<and> q \<in> set (tMainRows t)"
proof -
  have "r \<in> set (tMainRows t @ map fst (tGapRows t))" using assms(2) by force
  then have "r < mNumItems P" using assms(1) unfolding tri_shape_def by blast
  with assms show ?thesis by (auto simp: tri_shape_def)
qed

lemma tri_gap_ok:
  assumes "tri_ready P" "triangulate P = Inr t"
  shows "main_ok P (tMainRows t) (tMainCols t)" and "gaps_ok P (tMainRows t) (tGapRows t)"
proof -
  have sh: "tri_shape P t" using triangulate_ok [OF assms(1)] assms(2) by (auto simp: tri_final_def)
  show "main_ok P (tMainRows t) (tMainCols t)" using assms(1) by (intro main_okI [OF _ _ sh]) (simp_all add: tri_ready_def)
  show "gaps_ok P (tMainRows t) (tGapRows t)" using tri_shape_gap [OF sh] by (auto simp: gaps_ok_def)
qed

text \<open>The coordinate of one column counts rows modulo two.\<close>

lemma sparseSum_unit: "distinct row \<Longrightarrow> sparseSum row (\<lambda>d. if d = c then 1 else 0) = bitGF (c \<in> set row)"
  by (induction row) (auto simp: bitGF_def)

lemma sum_bitGF: "(\<Sum>j\<leftarrow>js. bitGF (Q j)) = bitGF (odd (length (filter Q js)))"
  by (induction js) (auto simp: bitGF_def)

lemma fcRow_parity:
  assumes "fcRow_ok P mainRows mainCols gap js" "main_ok P mainRows mainCols" "fst gap < mNumItems P" "c \<in> set mainCols"
  shows "c \<in> set (mRows P ! fst gap) \<longleftrightarrow> odd (length (filter (\<lambda>j. c \<in> set (mRows P ! j)) js))"
proof -
  let ?x = "\<lambda>d. if d = c then 1 else (0 :: gf128)"
  note R = rows_okD [OF main_okD(1) [OF assms(2)]]
  have on: "onCols (set mainCols) ?x = ?x" using assms(4) by (auto simp: onCols_def)
  have js: "j < mNumItems P" if "j \<in> set js" for j using assms(1,2) that by (auto simp: fcRow_ok_def main_ok_def)
  have "(\<Sum>j\<leftarrow>js. sparseSum (mRows P ! j) ?x) = (\<Sum>j\<leftarrow>js. bitGF (c \<in> set (mRows P ! j)))"
    using R(5) js by (intro arg_cong [of _ _ sum_list] map_cong) (simp_all add: sparseSum_unit)
  moreover have "sparseSum (mRows P ! fst gap) (onCols (set mainCols) ?x) + (\<Sum>j\<leftarrow>js. sparseSum (mRows P ! j) (onCols (set mainCols) ?x)) = 0"
    using assms(1) unfolding fcRow_ok_def by blast
  ultimately have "bitGF (c \<in> set (mRows P ! fst gap)) + bitGF (odd (length (filter (\<lambda>j. c \<in> set (mRows P ! j)) js))) = 0"
    by (simp only: on sum_bitGF sparseSum_unit [OF R(5) [OF assms(3)]])
  then show ?thesis by (auto simp: bitGF_def split: if_splits)
qed

subsection \<open>The properties\<close>

text \<open>C19: getFCInv, on the diagonal and the gap that triangulate returns, terminates and returns for
  every gap row a list of diagonal rows whose sum, modulo two, equals the gap row on every diagonal
  column, that is the row of F * C^-1, although it only follows the entries below the diagonal.\<close>

theorem getFCInv_correct:
  assumes "tri_ready P" and "triangulate P = Inr t"
  shows "\<exists>fcinv. getFCInv P (tMainRows t) (tMainCols t) (tGapRows t) = Inr fcinv \<and> length fcinv = length (tGapRows t) \<and>
    (\<forall>k<length fcinv. set (fcinv ! k) \<subseteq> set (tMainRows t) \<and>
      (\<forall>c\<in>set (tMainCols t). c \<in> set (mRows P ! fst (tGapRows t ! k)) \<longleftrightarrow>
         odd (length (filter (\<lambda>j. c \<in> set (mRows P ! j)) (fcinv ! k)))))"
proof -
  note M = tri_gap_ok [OF assms]
  obtain fcinv where f: "getFCInv P (tMainRows t) (tMainCols t) (tGapRows t) = Inr fcinv"
    "list_all2 (fcRow_ok P (tMainRows t) (tMainCols t)) (tGapRows t) fcinv" using getFCInv_ok [OF M] by blast
  have k: "fcRow_ok P (tMainRows t) (tMainCols t) (tGapRows t ! k) (fcinv ! k)" "fst (tGapRows t ! k) < mNumItems P"
    if "k < length fcinv" for k
    using f(2) M(2) that by (auto simp: list_all2_conv_all_nth gaps_ok_def)
  have "set (fcinv ! k) \<subseteq> set (tMainRows t)" if "k < length fcinv" for k using k(1) [OF that] by (simp add: fcRow_ok_def)
  with f fcRow_parity [OF k(1) M(1) k(2)] show ?thesis by (auto dest: list_all2_lengthD)
qed

theorem getFCInv_correct_witness:
  "\<exists>P t fcinv. setInput_rows [[0, 1], [1, 2], [0, 1]] [5, 7, 9] triSample = Inr P \<and> triangulate P = Inr t \<and>
    getFCInv P (tMainRows t) (tMainCols t) (tGapRows t) = Inr fcinv \<and> length fcinv = length (tGapRows t)"
proof -
  obtain P where P: "setInput_rows [[0, 1], [1, 2], [0, 1]] [5, 7, 9] triSample = Inr P" "tri_ready P" "mDense P = [5, 7, 9]"
    using triSample_ready by blast
  then have "distinct (mDense P)" by simp
  with triangulate_ok [OF P(2)] obtain t where t: "triangulate P = Inr t" by blast
  from getFCInv_correct [OF P(2) t] P(1) t show ?thesis by blast
qed

text \<open>C20: getGapCols finds columns of the dense part on which the gap matrix E' is invertible whenever
  there are any: it returns increasing dense columns, one per gap row, for which DenseMtx::invert
  inverts E', or throws the runtime error after every choice of columns has been tried in vain.\<close>

theorem getGapCols_correct:
  assumes "tri_ready P" and "triangulate P = Inr t" and "getFCInv P (tMainRows t) (tMainCols t) (tGapRows t) = Inr fcinv"
    and "comb_ok (mDenseSize P) (length (tGapRows t))" and "mDenseSize P \<le> 128" and "tGapRows t \<noteq> []"
  shows "(\<exists>cols. getGapCols P fcinv (tGapRows t) = Inr cols \<and>
      length cols = length (tGapRows t) \<and> sorted_wrt (<) cols \<and> (\<forall>c\<in>set cols. c < mDenseSize P) \<and>
      (\<exists>Inv. DenseMtx_invert (gapE P fcinv (tGapRows t) cols) = Inr Inv \<and> Inv \<noteq> [])) \<or>
    getGapCols P fcinv (tGapRows t) = Inl (RuntimeError ''failed to find invertible matrix. '') \<and>
    (\<forall>cols. length cols = length (tGapRows t) \<and> sorted_wrt (<) cols \<and> (\<forall>c\<in>set cols. c < mDenseSize P) \<longrightarrow>
      \<not> (\<exists>Inv. DenseMtx_invert (gapE P fcinv (tGapRows t) cols) = Inr Inv \<and> Inv \<noteq> []))"
proof -
  note M = tri_gap_ok [OF assms(1,2)]
  have "list_all2 (fcRow_ok P (tMainRows t) (tMainCols t)) (tGapRows t) fcinv" using getFCInv_ok [OF M] assms(3) by auto
  from getGapCols_ok [OF fcinv_okI [OF this M] assms(4-6)] show ?thesis unfolding gapChoice_def gapInvertible_def conj_assoc .
qed

definition gapSample :: paxos where
  "gapSample = (freshPaxos 8)\<lparr>mSparseSize := 6, mDenseSize := 2, mWeight := 3, mG := 2, mDt := Binary, mNumItems := 3\<rparr>"

lemma gap_sample:
  "case setInput_rows [[0, 1, 2], [0, 1, 3], [0, 2, 3]] [1, 2, 1] gapSample of Inl _ \<Rightarrow> False | Inr P \<Rightarrow>
     (case triangulate P of Inl _ \<Rightarrow> False | Inr t \<Rightarrow> length (tGapRows t) = 1 \<and>
       (case getFCInv P (tMainRows t) (tMainCols t) (tGapRows t) of Inl _ \<Rightarrow> False | Inr f \<Rightarrow> getGapCols P f (tGapRows t) \<noteq> Inl (RuntimeError ''failed to find invertible matrix. '')))"
  by code_simp

theorem getGapCols_correct_witness:
  "\<exists>P t fcinv cols. setInput_rows [[0, 1, 2], [0, 1, 3], [0, 2, 3]] [1, 2, 1] gapSample = Inr P \<and> triangulate P = Inr t \<and>
    getFCInv P (tMainRows t) (tMainCols t) (tGapRows t) = Inr fcinv \<and> getGapCols P fcinv (tGapRows t) = Inr cols \<and>
    (\<exists>Inv. DenseMtx_invert (gapE P fcinv (tGapRows t) cols) = Inr Inv \<and> Inv \<noteq> [])"
proof -
  have "\<exists>P. setInput_rows [[0, 1, 2], [0, 1, 3], [0, 2, 3]] [1, 2, 1] gapSample = Inr P \<and> tri_ready P \<and>
      mRows P = [[0, 1, 2], [0, 1, 3], [0, 2, 3]] \<and> mDense P = [1, 2, 1] \<and>
      paxos_param.truncate P = paxos_param.truncate gapSample \<and> mNumItems P = mNumItems gapSample"
    by (rule setInput_rows_ready) (auto simp: gapSample_def freshPaxos_def valid_row_def)
  then obtain P where P: "setInput_rows [[0, 1, 2], [0, 1, 3], [0, 2, 3]] [1, 2, 1] gapSample = Inr P" "tri_ready P" "mDenseSize P = 2"
    by (auto simp: gapSample_def paxos_param.truncate_def)
  then obtain t f where t: "triangulate P = Inr t" "length (tGapRows t) = 1" "getFCInv P (tMainRows t) (tMainCols t) (tGapRows t) = Inr f"
    "getGapCols P f (tGapRows t) \<noteq> Inl (RuntimeError ''failed to find invertible matrix. '')"
    using gap_sample by (auto split: sum.splits)
  moreover have "comb_ok (mDenseSize P) (length (tGapRows t))" using P(3) t(2) by (intro comb_ok_small) simp_all
  moreover have "tGapRows t \<noteq> []" using t(2) by auto
  ultimately show ?thesis using getGapCols_correct [OF P(2) t(1,3)] P by auto
qed

end
