(* ===== verification/Encode.thy ===== *)
theory Encode
  imports Gap
begin

section \<open>Encoding\<close>

text \<open>
  \<open>Paxos::encode\<close>, \<open>backfill\<close>, \<open>backfillBinary\<close>, \<open>backfillGf128\<close> and \<open>randomizeDenseCols\<close> of
  \<open>src/volePSI/PaxosImpl.h\<close>: the structure P with H * P = X is found by triangulating H, solving for
  the dense part on the gap rows, and substituting back along the diagonal.

  \<open>P.subspan(mSparseSize)\<close> is a view of P, so its element i is element \<open>mSparseSize + i\<close> of the
  list P. A null \<open>prng\<close> is \<open>None\<close>; otherwise its state is threaded through every draw.
\<close>

subsection \<open>Back substitution\<close>

definition backfill_sparse :: "('v, 's) px_helper \<Rightarrow> 'a paxos_scheme \<Rightarrow> 'v list \<Rightarrow> nat \<Rightarrow> 'v list \<Rightarrow> 'v res" where
  "backfill_sparse h P X i p =
     rbind (at X i) (\<lambda>y. rbind (at (mRows P) i) (\<lambda>row.
     foldr_res (\<lambda>j y. rbind (at row j) (\<lambda>cc. rbind (at p cc) (\<lambda>e. Inr (hAdd h y e)))) [0..<mWeight P] y))"

text \<open>The unrolled version for weight 3.\<close>

definition backfill_sparse3 :: "('v, 's) px_helper \<Rightarrow> 'a paxos_scheme \<Rightarrow> 'v list \<Rightarrow> nat \<Rightarrow> 'v list \<Rightarrow> 'v res" where
  "backfill_sparse3 h P X i p =
     rbind (at X i) (\<lambda>y. rbind (at (mRows P) i) (\<lambda>row.
     rbind (at row 0) (\<lambda>cc0. rbind (at row 1) (\<lambda>cc1. rbind (at row 2) (\<lambda>cc2.
     rbind (at p cc0) (\<lambda>e0. rbind (at p cc1) (\<lambda>e1. rbind (at p cc2) (\<lambda>e2.
     Inr (hAdd h (hAdd h (hAdd h y e0) e1) e2)))))))))"

definition backfill_row :: "(nat \<Rightarrow> 'v list \<Rightarrow> 'v res) \<Rightarrow> (nat \<Rightarrow> 'v list \<Rightarrow> 'v \<Rightarrow> 'v res) \<Rightarrow> nat list \<Rightarrow> nat list \<Rightarrow>
    nat \<Rightarrow> 'v list \<Rightarrow> 'v list res" where
  "backfill_row sparse dense mainRows mainCols k p =
     rbind (at (rev mainRows) k) (\<lambda>i. rbind (at (rev mainCols) k) (\<lambda>c.
     rbind (sparse i p) (\<lambda>y. rbind (dense i p y) (\<lambda>y.
     rbind (at p c) (\<lambda>_. Inr (p[c := y]))))))"

subsection \<open>backfillBinary\<close>

definition randomizeDenseCols :: "('v, 's) px_helper \<Rightarrow> 'a paxos_scheme \<Rightarrow> nat list \<Rightarrow> 'v list \<times> 's \<Rightarrow> ('v list \<times> 's) res" where
  "randomizeDenseCols h P gapCols st =
     foldr_res (\<lambda>i (p, s). if i \<notin> set gapCols
         then rbind (at p (i + mSparseSize P)) (\<lambda>_. let (v, s) = hRandomize h s in Inr (p[i + mSparseSize P := v], s))
         else Inr (p, s)) [0..<mDenseSize P] st"

definition randomizeDense :: "('v, 's) px_helper \<Rightarrow> 'a paxos_scheme \<Rightarrow> 'v list \<times> 's \<Rightarrow> 'v list \<times> 's" where
  "randomizeDense h P st =
     fold (\<lambda>i (p, s). let (v, s) = hRandomize h s in (p[mSparseSize P + i := v], s)) [0..<length (fst st) - mSparseSize P] st"

definition binary_dense :: "('v, 's) px_helper \<Rightarrow> 'a paxos_scheme \<Rightarrow> bool \<Rightarrow> u64 list \<Rightarrow> nat list \<Rightarrow>
    nat \<Rightarrow> 'v list \<Rightarrow> 'v \<Rightarrow> 'v res" where
  "binary_dense h P withPrng denseMasks gapCols i p y =
     rbind (guardr (mDenseSize P \<le> 64) AssertFail) (\<lambda>_.
     rbind (at (mDense P) i) (\<lambda>dense.
     if withPrng then
       rbind (foldr_res (\<lambda>j (d, y).
           rbind (if d AND 1 \<noteq> 0 then rbind (at p (j + mSparseSize P)) (\<lambda>e. Inr (hAdd h y e)) else Inr y) (\<lambda>y.
           Inr (drop_bit 1 d, y))) [0..<mDenseSize P] (lo64 dense, y)) (\<lambda>(d, y). Inr y)
     else
       foldr_res (\<lambda>j y. rbind (at denseMasks j) (\<lambda>m.
           if lo64 dense AND m \<noteq> 0
           then rbind (at gapCols j) (\<lambda>c. rbind (at p (c + mSparseSize P)) (\<lambda>e. Inr (hAdd h y e)))
           else Inr y)) [0..<length gapCols] y))"

text \<open>\<open>1ull << c\<close> is undefined from 64 on.\<close>

definition denseMask :: "nat \<Rightarrow> u64 res" where
  "denseMask c = (if c < 64 then Inr (push_bit c 1) else Inl UB)"

definition gapSolveBinary :: "('v, 's) px_helper \<Rightarrow> 'a paxos_scheme \<Rightarrow> nat list \<Rightarrow> dense_mtx \<Rightarrow> 'v list \<Rightarrow> 'v list \<Rightarrow> 'v list res" where
  "gapSolveBinary h P gapCols EEInv xx2 p =
     foldr_res (\<lambda>i p. rbind (at gapCols i) (\<lambda>c.
        foldr_res (\<lambda>j p. rbind (at EEInv i) (\<lambda>r. rbind (at r j) (\<lambda>b.
            if b then rbind (at p (c + mSparseSize P)) (\<lambda>pp. rbind (at xx2 j) (\<lambda>x.
              Inr (p[c + mSparseSize P := hAdd h pp x])))
            else Inr p))) [0..<length xx2] p)) [0..<length gapCols] p"

definition gapBinary :: "('v, 's) px_helper \<Rightarrow> 'a paxos_scheme \<Rightarrow> nat list \<Rightarrow> nat list \<Rightarrow> (nat \<times> nat) list \<Rightarrow>
    'v list \<Rightarrow> 'v list \<Rightarrow> 's option \<Rightarrow> (nat list \<times> 'v list \<times> 's option) res" where
  "gapBinary h P mainRows mainCols gapRows X p prng =
     rbind (getFCInv P mainRows mainCols gapRows) (\<lambda>fcinv.
     rbind (getGapCols P fcinv gapRows) (\<lambda>gapCols.
     rbind (case prng of None \<Rightarrow> Inr (p, None)
            | Some s \<Rightarrow> rbind (randomizeDenseCols h P gapCols (p, s)) (\<lambda>(p, s). Inr (p, Some s))) (\<lambda>(p, prng).
     rbind (getX2Prime h P fcinv gapRows gapCols X (if prng = None then [] else p)) (\<lambda>xx2.
     rbind (getEPrime P fcinv gapRows gapCols) (\<lambda>EE.
     rbind (DenseMtx_invert EE) (\<lambda>EEInv.
     rbind (gapSolveBinary h P gapCols EEInv xx2 p) (\<lambda>p.
     Inr (gapCols, p, prng))))))))"

definition backfillBinary :: "('v, 's) px_helper \<Rightarrow> 'a paxos_scheme \<Rightarrow> nat list \<Rightarrow> nat list \<Rightarrow> (nat \<times> nat) list \<Rightarrow>
    'v list \<Rightarrow> 'v list \<Rightarrow> 's option \<Rightarrow> ('v list \<times> 's option) res" where
  "backfillBinary h P mainRows mainCols gapRows X p prng =
     (if length gapRows > mG P then Inl RTE_LOC
      else
        rbind (if gapRows \<noteq> [] then gapBinary h P mainRows mainCols gapRows X p prng
               else Inr (case prng of None \<Rightarrow> ([], p, None)
                         | Some s \<Rightarrow> (let (p, s) = randomizeDense h P (p, s) in ([], p, Some s)))) (\<lambda>(gapCols, p, prng).
        rbind (mapr denseMask gapCols) (\<lambda>denseMasks.
        rbind (foldr_res (backfill_row (backfill_sparse h P X) (binary_dense h P (prng \<noteq> None) denseMasks gapCols)
                 mainRows mainCols) [0..<length mainRows] p) (\<lambda>p. Inr (p, prng)))))"

subsection \<open>backfillGf128\<close>

text \<open>The powers d, d^2, ..., of a dense value.\<close>

definition gfPowers :: "nat \<Rightarrow> block \<Rightarrow> block list" where
  "gfPowers n d = snd (fold (\<lambda>k (x, row). let x = gf128Mul x d in (x, row[k := x])) [1..<n] (d, (replicate n 0)[0 := d]))"

definition addPowers :: "nat \<Rightarrow> block \<Rightarrow> block list \<Rightarrow> block list" where
  "addPowers n d row =
     snd (fold (\<lambda>k (x, row). let x = gf128Mul x d in (x, row[k := row ! k XOR x])) [1..<n] (d, row[0 := row ! 0 XOR d]))"

definition gapRowGf128 :: "('v, 's) px_helper \<Rightarrow> 'a paxos_scheme \<Rightarrow> nat \<Rightarrow> 'v list \<Rightarrow> nat \<Rightarrow> nat list \<Rightarrow> (block list \<times> 'v) res" where
  "gapRowGf128 h P n X r js =
     rbind (at (mDense P) r) (\<lambda>e. rbind (at X r) (\<lambda>x.
     foldr_res (\<lambda>j (row, x). rbind (at X j) (\<lambda>y. rbind (at (mDense P) j) (\<lambda>fcb.
         Inr (addPowers n fcb row, hAdd h x y)))) js (gfPowers n e, x)))"

text \<open>The rows below the gap rows are drawn at random.\<close>

definition randomRows :: "('v, 's) px_helper \<Rightarrow> (nat \<Rightarrow> 's \<Rightarrow> block list \<times> 's) \<Rightarrow> nat \<Rightarrow> nat \<Rightarrow>
    block mtx \<times> 'v list \<times> 's \<Rightarrow> block mtx \<times> 'v list \<times> 's" where
  "randomRows h rndBlocks g n st =
     fold (\<lambda>i (EE, xx, s). let (row, s) = rndBlocks n s; (v, s) = hRandomize h s in (EE @ [row], xx @ [v], s)) [g..<n] st"

definition gapSolveGf128 :: "('v, 's) px_helper \<Rightarrow> 'a paxos_scheme \<Rightarrow> block mtx \<Rightarrow> 'v list \<Rightarrow> 'v list \<Rightarrow> 'v list res" where
  "gapSolveGf128 h P EE xx p =
     foldr_res (\<lambda>i p. foldr_res (\<lambda>j p.
         rbind (at EE i) (\<lambda>r. rbind (at r j) (\<lambda>m.
         rbind (at p (i + mSparseSize P)) (\<lambda>pp. rbind (at xx j) (\<lambda>x.
         rbind (hMultAdd h pp x m) (\<lambda>v. Inr (p[i + mSparseSize P := v])))))))
       [0..<length xx] p) [0..<length xx] p"

definition gapGf128 :: "('v, 's) px_helper \<Rightarrow> (nat \<Rightarrow> 's \<Rightarrow> block list \<times> 's) \<Rightarrow> 'a paxos_scheme \<Rightarrow> nat list \<Rightarrow> nat list \<Rightarrow>
    (nat \<times> nat) list \<Rightarrow> 'v list \<Rightarrow> 'v list \<Rightarrow> 's option \<Rightarrow> ('v list \<times> 's option) res" where
  "gapGf128 h rndBlocks P mainRows mainCols gapRows X p prng =
     rbind (getFCInv P mainRows mainCols gapRows) (\<lambda>fcinv.
     let g = length gapRows; n = (if prng = None then g else mDenseSize P) in
     rbind (mapr (\<lambda>i. rbind (at gapRows i) (\<lambda>gap. rbind (at fcinv i) (\<lambda>js. gapRowGf128 h P n X (fst gap) js))) [0..<g]) (\<lambda>rs.
     let (EE, xx, prng) = (case prng of None \<Rightarrow> (map fst rs, map snd rs, None)
           | Some s \<Rightarrow> (let (EE, xx, s) = randomRows h rndBlocks g n (map fst rs, map snd rs, s) in (EE, xx, Some s))) in
     rbind (gf128InvMtx EE) (\<lambda>EE.
     if EE = [] then Inl (RuntimeError ''E' not invertable. '')
     else rbind (gapSolveGf128 h P EE xx p) (\<lambda>p. Inr (p, prng)))))"

definition gf128_dense :: "('v, 's) px_helper \<Rightarrow> 'a paxos_scheme \<Rightarrow> bool \<Rightarrow> nat \<Rightarrow> 'v list \<Rightarrow> 'v \<Rightarrow> 'v res" where
  "gf128_dense h P doDense i p y =
     (if doDense then
        rbind (at (mDense P) i) (\<lambda>d.
        rbind (at p (mSparseSize P)) (\<lambda>e. rbind (hMultAdd h y e d) (\<lambda>y.
        rbind (foldr_res (\<lambda>i (x, v).
                 let x = gf128Mul x d
                 in rbind (at p (i + mSparseSize P)) (\<lambda>e. rbind (hMultAdd h v e x) (\<lambda>v. Inr (x, v))))
               [1..<mDenseSize P] (d, y)) (\<lambda>(x, v). Inr v))))
      else Inr y)"

definition backfillGf128 :: "('v, 's) px_helper \<Rightarrow> (nat \<Rightarrow> 's \<Rightarrow> block list \<times> 's) \<Rightarrow> 'a paxos_scheme \<Rightarrow> nat list \<Rightarrow> nat list \<Rightarrow>
    (nat \<times> nat) list \<Rightarrow> 'v list \<Rightarrow> 'v list \<Rightarrow> 's option \<Rightarrow> ('v list \<times> 's option) res" where
  "backfillGf128 h rndBlocks P mainRows mainCols gapRows X p prng =
     rbind (guardr (mDt P = GF128) AssertFail) (\<lambda>_.
     if length gapRows > mDenseSize P then Inl RTE_LOC
     else
       rbind (if gapRows \<noteq> [] then gapGf128 h rndBlocks P mainRows mainCols gapRows X p prng
              else Inr (case prng of None \<Rightarrow> (p, None)
                        | Some s \<Rightarrow> (let (p, s) = randomizeDense h P (p, s) in (p, Some s)))) (\<lambda>(p, prng).
       rbind (foldr_res (backfill_row (if mWeight P = 3 then backfill_sparse3 h P X else backfill_sparse h P X)
                (gf128_dense h P (gapRows \<noteq> [] \<or> prng \<noteq> None)) mainRows mainCols) [0..<length mainRows] p) (\<lambda>p.
       Inr (p, prng))))"

subsection \<open>backfill and encode\<close>

definition backfill :: "('v, 's) px_helper \<Rightarrow> (nat \<Rightarrow> 's \<Rightarrow> block list \<times> 's) \<Rightarrow> 'a paxos_scheme \<Rightarrow> nat list \<Rightarrow> nat list \<Rightarrow>
    (nat \<times> nat) list \<Rightarrow> 'v list \<Rightarrow> 'v list \<Rightarrow> 's option \<Rightarrow> ('v list \<times> 's option) res" where
  "backfill h rndBlocks P mainRows mainCols gapRows X p prng =
     (if mDt P = GF128 then backfillGf128 h rndBlocks P mainRows mainCols gapRows X p prng
      else backfillBinary h P mainRows mainCols gapRows X p prng)"

text \<open>Randomising the columns of weight 0, in the order of their list.\<close>

definition randomizeFree :: "('v, 's) px_helper \<Rightarrow> 'a paxos_scheme \<Rightarrow> weight_data \<Rightarrow> 'v list \<times> 's \<Rightarrow> ('v list \<times> 's) res" where
  "randomizeFree h P wd st =
     rbind (at (mWeightSets wd) 0) (\<lambda>node.
     rbind (walk (mIdxBits P) (length (mNodes wd)) (mNodes wd) node) (\<lambda>cols.
     foldr_res (\<lambda>c (p, s). rbind (at p c) (\<lambda>_. let (v, s) = hRandomize h s in Inr (p[c := v], s))) cols st))"

definition encode :: "('v, 's) px_helper \<Rightarrow> (nat \<Rightarrow> 's \<Rightarrow> block list \<times> 's) \<Rightarrow> 'a paxos_scheme \<Rightarrow> 'v list \<Rightarrow> 'v list \<Rightarrow>
    's option \<Rightarrow> ('a paxos_scheme \<times> 'v list \<times> 's option) res" where
  "encode h rndBlocks P X output prng =
     (if length output \<noteq> paxos_size P then Inl RTE_LOC
      else
        rbind (triangulate P) (\<lambda>t.
        let P = P\<lparr>mWeightData := tWD t\<rparr>; output = map (\<lambda>_. hZero h) output in
        rbind (case prng of None \<Rightarrow> Inr (output, None)
               | Some s \<Rightarrow> rbind (randomizeFree h P (tWD t) (output, s)) (\<lambda>(p, s). Inr (p, Some s))) (\<lambda>(output, prng).
        rbind (backfill h rndBlocks P (tMainRows t) (tMainCols t) (tGapRows t) X output prng) (\<lambda>(output, prng).
        Inr (P, output, prng)))))"

subsection \<open>Rows as equations\<close>

definition denseSum :: "'a paxos_scheme \<Rightarrow> block \<Rightarrow> (nat \<Rightarrow> gf128) \<Rightarrow> gf128" where
  "denseSum P d x = (\<Sum>k<mDenseSize P. denseCoef (mDt P) d k * x (mSparseSize P + k))"

lemma rowSum_eq: "rowSum P row d x = sparseSum row x + denseSum P d x"
  by (simp add: rowSum_def denseSum_def)

lemma gf_cancel: "a + (a + b) = b" "a + b + b = a" for a b :: gf128
  by (simp_all only: add.assoc [symmetric] gf_add_self add_0_left, simp only: add.assoc gf_add_self add_0_right)

lemma gf_move: "a + b = c \<longleftrightarrow> a = c + b" for a b c :: gf128
  using gf_cancel(2) by metis

text \<open>The part of a row off the diagonal columns.\<close>

definition offCols :: "nat set \<Rightarrow> (nat \<Rightarrow> gf128) \<Rightarrow> nat \<Rightarrow> gf128" where
  "offCols C x c = (if c \<in> C then 0 else x c)"

lemma sparseSum_split: "sparseSum row x = sparseSum row (onCols C x) + sparseSum row (offCols C x)"
  by (simp flip: sparseSum_add) (rule sparseSum_cong, simp add: onCols_def offCols_def)

lemma sparseSum_zero: "(\<And>c. c \<in> set row \<Longrightarrow> x c = 0) \<Longrightarrow> sparseSum row x = 0"
  by (induction row) simp_all

lemma sparseSum_upd:
  "distinct row \<Longrightarrow> c \<in> set row \<Longrightarrow> sparseSum row (x(c := v)) + x c = sparseSum row x + v"
proof (induction row)
  case (Cons e row)
  show ?case
  proof (cases "e = c")
    case True
    then have "sparseSum row (x(c := v)) = sparseSum row x" using Cons.prems by (intro sparseSum_cong) auto
    with True have "sparseSum (e # row) (x(c := v)) = v + sparseSum row x" by (simp only: sparseSum_Cons fun_upd_same)
    with True show ?thesis by (simp only: sparseSum_Cons ac_simps)
  next
    case False
    then have "sparseSum (e # row) (x(c := v)) = x e + sparseSum row (x(c := v))" by simp
    moreover have "distinct row" "c \<in> set row" using Cons.prems False by auto
    then have "sparseSum row (x(c := v)) + x c = sparseSum row x + v" by (rule Cons.IH)
    ultimately show ?thesis by (simp only: sparseSum_Cons add.assoc)
  qed
qed simp

text \<open>A gap row is the sum of its diagonal rows on the diagonal columns. What is left of its
  equation, once the diagonal rows hold and the dense part is solved, is its part off the
  diagonal.\<close>

definition freeSum :: "'a paxos_scheme \<Rightarrow> nat list \<Rightarrow> nat \<Rightarrow> nat list \<Rightarrow> (nat \<Rightarrow> gf128) \<Rightarrow> gf128" where
  "freeSum P mainCols r js x = sparseSum (mRows P ! r) (offCols (set mainCols) x) +
     (\<Sum>j\<leftarrow>js. sparseSum (mRows P ! j) (offCols (set mainCols) x))"

lemma gap_residual:
  assumes "fcRow_ok P mainRows mainCols gap js"
    and main: "\<And>j. j \<in> set js \<Longrightarrow> rowSum P (mRows P ! j) (mDense P ! j) x = b j"
    and dense: "denseSum P (mDense P ! fst gap) x + (\<Sum>j\<leftarrow>js. denseSum P (mDense P ! j) x) = b (fst gap) + (\<Sum>j\<leftarrow>js. b j)"
  shows "rowSum P (mRows P ! fst gap) (mDense P ! fst gap) x = b (fst gap) + freeSum P mainCols (fst gap) js x"
proof -
  let ?C = "set mainCols" and ?r = "fst gap"
  have on: "sparseSum (mRows P ! ?r) (onCols ?C x) + (\<Sum>j\<leftarrow>js. sparseSum (mRows P ! j) (onCols ?C x)) = 0"
    using assms(1) by (simp add: fcRow_ok_def)
  have "(\<Sum>j\<leftarrow>js. b j) = (\<Sum>j\<leftarrow>js. sparseSum (mRows P ! j) (onCols ?C x)) + (\<Sum>j\<leftarrow>js. sparseSum (mRows P ! j) (offCols ?C x)) +
      (\<Sum>j\<leftarrow>js. denseSum P (mDense P ! j) x)"
    using main
  proof (induction js)
    case (Cons j js)
    have "b j = sparseSum (mRows P ! j) (onCols ?C x) + sparseSum (mRows P ! j) (offCols ?C x) + denseSum P (mDense P ! j) x"
      using Cons.prems [of j] by (simp add: rowSum_eq sparseSum_split [of "mRows P ! j" x ?C])
    with Cons show ?case by (simp add: ac_simps)
  qed simp
  note js = this
  have r: "rowSum P (mRows P ! ?r) (mDense P ! ?r) x =
      sparseSum (mRows P ! ?r) (onCols ?C x) + sparseSum (mRows P ! ?r) (offCols ?C x) + denseSum P (mDense P ! ?r) x"
    by (simp add: rowSum_eq sparseSum_split [of "mRows P ! ?r" x ?C])
  have alg: "a1 + a2 = 0 \<Longrightarrow> d1 + d2 = b1 + b2 \<Longrightarrow> b2 = a2 + f2 + d2 \<Longrightarrow> a1 + f1 + d1 = b1 + (f1 + f2)"
    for a1 a2 d1 d2 b1 b2 f1 f2 :: gf128
  proof -
    assume "a1 + a2 = 0" "d1 + d2 = b1 + b2" "b2 = a2 + f2 + d2"
    then have "a1 = a2" "d1 = b1 + (a2 + f2)" using gf_move [of a1 a2 0] gf_move [of d1 d2] gf_cancel(2)
      by (simp_all add: add.assoc [symmetric])
    then show ?thesis using gf_cancel(1) [of a2] by (simp add: ac_simps)
  qed
  show ?thesis unfolding r freeSum_def by (rule alg [OF on dense js])
qed

text \<open>The residual vanishes for a duplicated row, and when nothing off the diagonal is set.\<close>

lemma freeSum_dup:
  assumes "fcRow_ok P mainRows mainCols gap js" "mRows P ! fst gap = mRows P ! snd gap"
  shows "freeSum P mainCols (fst gap) js x = 0"
  using assms by (simp add: fcRow_ok_def freeSum_def gf_add_self)

lemma freeSum_zero:
  assumes "rows_ok P" "r < mNumItems P" "\<forall>j\<in>set js. j < mNumItems P"
    and "\<And>c. c < mSparseSize P \<Longrightarrow> c \<notin> set mainCols \<Longrightarrow> x c = 0"
  shows "freeSum P mainCols r js x = 0"
proof -
  have z: "sparseSum (mRows P ! j) (offCols (set mainCols) x) = 0" if "j < mNumItems P" for j
    using rows_okD(6) [OF assms(1) that] assms(4) by (intro sparseSum_zero) (simp add: offCols_def)
  then have "(\<Sum>j\<leftarrow>js. sparseSum (mRows P ! j) (offCols (set mainCols) x)) = (\<Sum>j\<leftarrow>js. 0)"
    using assms(3) by (intro arg_cong [of _ _ sum_list] map_cong) simp_all
  with z [OF assms(2)] show ?thesis by (simp add: freeSum_def)
qed

subsection \<open>The dense part of a row\<close>

lemma lo64_bit: "j < 64 \<Longrightarrow> bit (lo64 d) j = bit d j"
  by (simp add: lo64_def bit_ucast_iff)

lemma mask_bit: "c < 64 \<Longrightarrow> lo64 d AND push_bit c 1 \<noteq> 0 \<longleftrightarrow> bit d c"
proof -
  assume c: "c < 64"
  have "lo64 d AND push_bit c 1 = (if bit (lo64 d) c then push_bit c 1 else 0)"
    by (rule bit_word_eqI) (auto simp: bit_simps)
  moreover have "bit (push_bit c (1 :: u64)) c" using c by (simp add: bit_simps)
  with c have "push_bit c (1 :: u64) \<noteq> 0" by (cases "push_bit c (1 :: u64) = 0") simp_all
  ultimately show ?thesis using lo64_bit [OF c] by simp
qed

lemma gfPowers_ok:
  assumes "0 < n"
  shows "length (gfPowers n d) = n" and "\<forall>k<n. GF (gfPowers n d ! k) = GF d ^ Suc k"
proof -
  let ?f = "\<lambda>k (x, row). let x = gf128Mul x d in (x, row[k := x])"
  have "0 < m \<Longrightarrow> m \<le> n \<Longrightarrow> case fold ?f [1..<m] (d, (replicate n 0)[0 := d]) of (x, row) \<Rightarrow>
      length row = n \<and> GF x = GF d ^ m \<and> (\<forall>k<m. GF (row ! k) = GF d ^ Suc k)" for m
  proof (induction m)
    case (Suc m)
    show ?case
    proof (cases "m = 0")
      case False
      with Suc show ?thesis by (auto simp: Let_def less_Suc_eq nth_list_update mult.commute split: prod.splits)
    qed (use assms in simp)
  qed simp
  from this [of n] assms show "length (gfPowers n d) = n" "\<forall>k<n. GF (gfPowers n d ! k) = GF d ^ Suc k"
    by (auto simp: gfPowers_def split: prod.splits)
qed

lemma addPowers_ok:
  assumes "0 < n" "length row = n"
  shows "length (addPowers n d row) = n" and "\<forall>k<n. GF (addPowers n d row ! k) = GF (row ! k) + GF d ^ Suc k"
proof -
  let ?f = "\<lambda>k (x, row). let x = gf128Mul x d in (x, row[k := row ! k XOR x])"
  have "0 < m \<Longrightarrow> m \<le> n \<Longrightarrow> case fold ?f [1..<m] (d, row[0 := row ! 0 XOR d]) of (x, r) \<Rightarrow>
      length r = n \<and> GF x = GF d ^ m \<and> (\<forall>k<n. GF (r ! k) = (if k < m then GF (row ! k) + GF d ^ Suc k else GF (row ! k)))" for m
  proof (induction m)
    case (Suc m)
    show ?case
    proof (cases "m = 0")
      case True
      then show ?thesis using assms by (auto simp: nth_list_update simp flip: GF_add)
    next
      case False
      with Suc show ?thesis
        by (auto simp: Let_def less_Suc_eq nth_list_update mult.commute simp flip: GF_add split: prod.splits)
    qed
  qed simp
  from this [of n] assms show "length (addPowers n d row) = n" "\<forall>k<n. GF (addPowers n d row ! k) = GF (row ! k) + GF d ^ Suc k"
    by (auto simp: addPowers_def split: prod.splits)
qed

lemma sum_list_mult: "(\<Sum>j\<leftarrow>js. a j) * (c :: gf128) = (\<Sum>j\<leftarrow>js. a j * c)"
  by (induction js) (simp_all add: distrib_right)

lemma sum_sum_list: "finite K \<Longrightarrow> (\<Sum>k\<in>K. \<Sum>j\<leftarrow>js. f j k) = (\<Sum>j\<leftarrow>js. \<Sum>k\<in>K. f j k :: gf128)"
  by (induction js) (simp_all add: sum.distrib)

lemma bitGF_xor_iff: "bitGF (a = (\<not> b)) = bitGF a + bitGF b"
  by (auto simp: bitGF_def)

text \<open>A draw of n blocks returns n blocks.\<close>

definition draws_ok :: "(nat \<Rightarrow> 'e \<Rightarrow> block list \<times> 'e) \<Rightarrow> bool" where
  "draws_ok rndBlocks \<longleftrightarrow> (\<forall>n s. length (fst (rndBlocks n s)) = n)"

text \<open>The number of gap rows an encoding accepts.\<close>

definition gapLimit :: "'e paxos_scheme \<Rightarrow> nat" where
  "gapLimit P = (case mDt P of GF128 \<Rightarrow> mDenseSize P | Binary \<Rightarrow> mG P)"

subsection \<open>Back substitution satisfies the diagonal rows\<close>

context px_values
begin

definition sat :: "'e paxos_scheme \<Rightarrow> 'a list \<Rightarrow> 'a list \<Rightarrow> nat \<Rightarrow> bool" where
  "sat P X p r \<longleftrightarrow> (\<forall>t\<in>I. rowSum P (mRows P ! r) (mDense P ! r) (\<lambda>c. crd t (p ! c)) = crd t (X ! r))"

definition struct_ok :: "'e paxos_scheme \<Rightarrow> 'a list \<Rightarrow> bool" where
  "struct_ok P p \<longleftrightarrow> length p = paxos_size P \<and> set p \<subseteq> V"

definition input_vec :: "'e paxos_scheme \<Rightarrow> 'a list \<Rightarrow> bool" where
  "input_vec P X \<longleftrightarrow> length X = mNumItems P \<and> set X \<subseteq> V"

lemma struct_okD:
  assumes "struct_ok P p"
  shows "length p = paxos_size P" "c < paxos_size P \<Longrightarrow> p ! c \<in> V" "k < mDenseSize P \<Longrightarrow> mSparseSize P + k < length p"
    "c < mSparseSize P \<Longrightarrow> c < length p"
  using assms by (auto simp: struct_ok_def paxos_size_def subset_iff)

lemma struct_ok_update: "struct_ok P p \<Longrightarrow> y \<in> V \<Longrightarrow> struct_ok P (p[c := y])"
  using set_update_subset_insert [of p c y] by (auto simp: struct_ok_def)

text \<open>What the two halves of a step compute.\<close>

definition sparseStep :: "'e paxos_scheme \<Rightarrow> 'a list \<Rightarrow> (nat \<Rightarrow> 'a list \<Rightarrow> 'a res) \<Rightarrow> bool" where
  "sparseStep P X sparse \<longleftrightarrow> (\<forall>i<mNumItems P. \<forall>p. struct_ok P p \<longrightarrow> (\<exists>y\<in>V. sparse i p = Inr y \<and>
     (\<forall>t\<in>I. crd t y = crd t (X ! i) + sparseSum (mRows P ! i) (\<lambda>c. crd t (p ! c)))))"

definition denseStep :: "'e paxos_scheme \<Rightarrow> 'a list \<Rightarrow> (nat \<Rightarrow> 'a list \<Rightarrow> 'a \<Rightarrow> 'a res) \<Rightarrow> bool" where
  "denseStep P p0 dense \<longleftrightarrow> (\<forall>i<mNumItems P. \<forall>p y. struct_ok P p \<longrightarrow> y \<in> V \<longrightarrow>
     (\<forall>k<mDenseSize P. p ! (mSparseSize P + k) = p0 ! (mSparseSize P + k)) \<longrightarrow>
     (\<exists>y'\<in>V. dense i p y = Inr y' \<and> (\<forall>t\<in>I. crd t y' = crd t y + denseSum P (mDense P ! i) (\<lambda>c. crd t (p ! c)))))"

lemma backfill_sparse_ok:
  assumes rows: "rows_ok P" and X: "input_vec P X"
  shows "sparseStep P X (backfill_sparse h P X)"
    and "mWeight P = 3 \<Longrightarrow> sparseStep P X (backfill_sparse3 h P X)"
proof -
  note R = rows_okD [OF rows]
  have x: "X ! i \<in> V" "i < length X" if "i < mNumItems P" for i using X that by (auto simp: input_vec_def subset_iff)
  show 1: "sparseStep P X (backfill_sparse h P X)"
    unfolding sparseStep_def
  proof (intro allI impI)
    fix i p assume i: "i < mNumItems P" and p: "struct_ok P p"
    let ?f = "\<lambda>c y. rbind (at p c) (\<lambda>e. Inr (hAdd h y e))"
    have "at p c = Inr (p ! c) \<and> p ! c \<in> V" if "c \<in> set (mRows P ! i)" for c
      using struct_okD(2,4) [OF p] R(6) [OF i that] by (simp add: paxos_size_def)
    from addAll [OF x(1) [OF i] this, of "mRows P ! i" "\<lambda>c. c"] obtain y where
      "y \<in> V" "foldr_res ?f (mRows P ! i) (X ! i) = Inr y"
      "\<forall>t\<in>I. crd t y = crd t (X ! i) + sparseSum (mRows P ! i) (\<lambda>c. crd t (p ! c))" by (auto simp: sparseSum_def)
    moreover have "foldr_res (\<lambda>j y. rbind (at (mRows P ! i) j) (\<lambda>cc. rbind (at p cc) (\<lambda>e. Inr (hAdd h y e)))) [0..<mWeight P] y
        = foldr_res ?f (mRows P ! i) y" for y
      unfolding R(4) [OF i, symmetric] foldr_res_upt_nth [of ?f "mRows P ! i"] by (intro foldr_res_cong refl) simp
    ultimately show "\<exists>y\<in>V. backfill_sparse h P X i p = Inr y \<and>
        (\<forall>t\<in>I. crd t y = crd t (X ! i) + sparseSum (mRows P ! i) (\<lambda>c. crd t (p ! c)))"
      using i x(2) R(1) by (auto simp: backfill_sparse_def)
  qed
  assume w: "mWeight P = 3"
  have "backfill_sparse3 h P X i p = backfill_sparse h P X i p" if i: "i < mNumItems P" and p: "struct_ok P p" for i p
  proof -
    have len: "length (mRows P ! i) = 3" using R(4) [OF i] w by simp
    then have "mRows P ! i ! j < length p" if "j < 3" for j
      using struct_okD(4) [OF p] R(6) [OF i, of "mRows P ! i ! j"] that by simp
    with len i x(2) R(1) w show ?thesis by (simp add: backfill_sparse3_def backfill_sparse_def eval_nat_numeral)
  qed
  with 1 show "sparseStep P X (backfill_sparse3 h P X)" by (simp add: sparseStep_def)
qed

lemma backfill_row_ok:
  assumes M: "main_ok P mainRows mainCols" and n: "n < length mainCols"
    and S: "sparseStep P X sparse" and D: "denseStep P p0 dense" and X: "input_vec P X" and p: "struct_ok P p"
    and same: "\<forall>c<paxos_size P. c \<notin> set (drop (length mainCols - n) mainCols) \<longrightarrow> p ! c = p0 ! c"
    and zero: "\<forall>c\<in>set mainCols. \<forall>t\<in>I. crd t (p0 ! c) = 0"
    and sat: "\<forall>k<length mainCols. length mainCols - n \<le> k \<longrightarrow> sat P X p (mainRows ! k)"
  shows "\<exists>p'. backfill_row sparse dense mainRows mainCols n p = Inr p' \<and> struct_ok P p' \<and>
    (\<forall>c<paxos_size P. c \<notin> set (drop (length mainCols - Suc n) mainCols) \<longrightarrow> p' ! c = p0 ! c) \<and>
    (\<forall>k<length mainCols. length mainCols - Suc n \<le> k \<longrightarrow> sat P X p' (mainRows ! k))"
proof -
  note Mn = main_okD [OF M]
  note R = rows_okD [OF Mn(1)]
  note po = struct_okD [OF p]
  let ?m = "length mainCols" and ?k = "length mainCols - Suc n"
  let ?i = "mainRows ! ?k" and ?c = "mainCols ! ?k"
  have k: "?k < ?m" "Suc ?k = ?m - n" using n by auto
  have drop: "drop ?k mainCols = ?c # drop (?m - n) mainCols"
    using Cons_nth_drop_Suc [OF k(1), symmetric] by (simp only: k(2))
  have i: "?i < mNumItems P" and c: "?c < mSparseSize P" using k(1) by (rule Mn(6), rule Mn(5))
  have cs: "?c < paxos_size P" using c by (simp add: paxos_size_def)
  have "distinct (drop ?k mainCols)" using Mn(4) by simp
  then have "?c \<notin> set (drop (?m - n) mainCols)" unfolding drop by simp
  with same zero cs k(1) have z: "crd t (p ! ?c) = 0" if "t \<in> I" for t using that by simp
  have dense: "p ! (mSparseSize P + j) = p0 ! (mSparseSize P + j)" if "j < mDenseSize P" for j
  proof -
    have "mSparseSize P + j \<notin> set mainCols" using M by (auto simp: main_ok_def)
    then have "mSparseSize P + j \<notin> set (drop (?m - n) mainCols)" by (meson in_set_dropD)
    with same that show ?thesis by (simp add: paxos_size_def)
  qed
  obtain y1 where y1: "y1 \<in> V" "sparse ?i p = Inr y1"
    "\<forall>t\<in>I. crd t y1 = crd t (X ! ?i) + sparseSum (mRows P ! ?i) (\<lambda>c. crd t (p ! c))"
    using S i p unfolding sparseStep_def by blast
  from D i p y1(1) dense have "\<exists>y\<in>V. dense ?i p y1 = Inr y \<and>
      (\<forall>t\<in>I. crd t y = crd t y1 + denseSum P (mDense P ! ?i) (\<lambda>c. crd t (p ! c)))"
    unfolding denseStep_def by blast
  then obtain y where y: "y \<in> V" "dense ?i p y1 = Inr y"
    "\<forall>t\<in>I. crd t y = crd t y1 + denseSum P (mDense P ! ?i) (\<lambda>c. crd t (p ! c))" by blast
  let ?p = "p[?c := y]"
  have upd: "(\<lambda>e. crd t (?p ! e)) e = ((\<lambda>e. crd t (p ! e))(?c := crd t y)) e" for t e
    using po(4) [OF c] by (simp add: nth_list_update)
  have upd: "(\<lambda>e. crd t (?p ! e)) = (\<lambda>e. crd t (p ! e))(?c := crd t y)" for t by (rule ext) (rule upd)
  have dsame: "denseSum P d (\<lambda>e. crd t (?p ! e)) = denseSum P d (\<lambda>e. crd t (p ! e))" for d t
    unfolding denseSum_def using c by (intro sum.cong) simp_all
  have "sat P X ?p (mainRows ! k')" if k': "k' < ?m" "?k \<le> k'" for k'
    unfolding sat_def
  proof
    fix t assume t: "t \<in> I"
    show "rowSum P (mRows P ! (mainRows ! k')) (mDense P ! (mainRows ! k')) (\<lambda>e. crd t (?p ! e)) = crd t (X ! (mainRows ! k'))"
    proof (cases "k' = ?k")
      case True
      have "sparseSum (mRows P ! ?i) (\<lambda>e. crd t (?p ! e)) = sparseSum (mRows P ! ?i) (\<lambda>e. crd t (p ! e)) + crd t y"
        unfolding upd using sparseSum_upd [OF R(5) [OF i] Mn(7) [OF k(1)], of "\<lambda>e. crd t (p ! e)" "crd t y"] z [OF t]
        by (simp del: fun_upd_apply)
      also have "\<dots> = crd t (X ! ?i) + denseSum P (mDense P ! ?i) (\<lambda>c. crd t (p ! c))"
        using y(3) y1(3) t gf_cancel(1) by (simp add: ac_simps)
      finally show ?thesis unfolding True by (simp add: rowSum_eq dsame gf_cancel)
    next
      case False
      then have lt: "?k < k'" using k'(2) by simp
      from Mn(8) [OF lt k'(1)] have "sparseSum (mRows P ! (mainRows ! k')) (\<lambda>e. crd t (?p ! e))
          = sparseSum (mRows P ! (mainRows ! k')) (\<lambda>e. crd t (p ! e))"
        by (intro sparseSum_cong) (metis nth_list_update_neq)
      moreover have "?m - n \<le> k'" using lt k(2) by simp
      ultimately show ?thesis using sat k'(1) t by (simp add: rowSum_eq dsame sat_def)
    qed
  qed
  moreover have "backfill_row sparse dense mainRows mainCols n p = Inr ?p"
    using n Mn(3) y1(2) y(2) po(4) [OF c] by (simp add: backfill_row_def rev_nth)
  moreover have "\<forall>e<paxos_size P. e \<notin> set (drop ?k mainCols) \<longrightarrow> ?p ! e = p0 ! e"
    using same unfolding drop by auto
  ultimately show ?thesis using struct_ok_update [OF p y(1)] by blast
qed

lemma backfill_rows_ok:
  assumes M: "main_ok P mainRows mainCols"
    and S: "sparseStep P X sparse" and D: "denseStep P p0 dense" and X: "input_vec P X" and p: "struct_ok P p0"
    and zero: "\<forall>c\<in>set mainCols. \<forall>t\<in>I. crd t (p0 ! c) = 0"
  shows "\<exists>p'. foldr_res (backfill_row sparse dense mainRows mainCols) [0..<length mainRows] p0 = Inr p' \<and> struct_ok P p' \<and>
    (\<forall>c<paxos_size P. c \<notin> set mainCols \<longrightarrow> p' ! c = p0 ! c) \<and> (\<forall>r\<in>set mainRows. sat P X p' r)"
proof -
  let ?m = "length mainCols"
  have "n \<le> ?m \<Longrightarrow> \<exists>p'. foldr_res (backfill_row sparse dense mainRows mainCols) [0..<n] p0 = Inr p' \<and> struct_ok P p' \<and>
    (\<forall>c<paxos_size P. c \<notin> set (drop (?m - n) mainCols) \<longrightarrow> p' ! c = p0 ! c) \<and>
    (\<forall>k<?m. ?m - n \<le> k \<longrightarrow> sat P X p' (mainRows ! k))" for n
  proof (induction n)
    case (Suc n)
    then obtain p1 where IH: "foldr_res (backfill_row sparse dense mainRows mainCols) [0..<n] p0 = Inr p1" "struct_ok P p1"
      "\<forall>c<paxos_size P. c \<notin> set (drop (?m - n) mainCols) \<longrightarrow> p1 ! c = p0 ! c"
      "\<forall>k<?m. ?m - n \<le> k \<longrightarrow> sat P X p1 (mainRows ! k)" by auto
    have "n < ?m" using Suc.prems by simp
    from backfill_row_ok [OF M this S D X IH(2,3) zero IH(4)] IH(1) show ?case
      by (auto simp: foldr_res_append)
  qed (use p in simp)
  from this [of ?m] obtain p' where p': "foldr_res (backfill_row sparse dense mainRows mainCols) [0..<?m] p0 = Inr p'" "struct_ok P p'"
    "\<forall>c<paxos_size P. c \<notin> set mainCols \<longrightarrow> p' ! c = p0 ! c" "\<forall>k<?m. sat P X p' (mainRows ! k)" by auto
  with main_okD(3) [OF M] show ?thesis by (auto simp: in_set_conv_nth)
qed

text \<open>The dense halves of the steps.\<close>

lemma dense_skip:
  assumes "\<forall>k<mDenseSize P. \<forall>t\<in>I. crd t (p0 ! (mSparseSize P + k)) = 0"
  shows "denseStep P p0 (\<lambda>i p y. Inr y)"
  using assms by (auto simp: denseStep_def denseSum_def)

lemma gf128_dense_ok:
  assumes rows: "rows_ok P" and dt: "dt = GF128" "mDt P = GF128" and D: "0 < mDenseSize P"
  shows "denseStep P p0 (gf128_dense h P True)"
  unfolding denseStep_def
proof (intro allI impI)
  fix i p y assume i: "i < mNumItems P" and p: "struct_ok P p" and y: "y \<in> V"
  note po = struct_okD [OF p]
  let ?d = "mDense P ! i" and ?n = "mSparseSize P"
  have l: "?n < length p" "?n + mDenseSize P \<le> length p" using D po(1) by (simp_all add: paxos_size_def)
  have "p ! ?n \<in> V" using l(1) po(1,2) by simp
  with multAdd [OF dt(1) y] obtain v1 where v1: "hMultAdd h y (p ! ?n) ?d = Inr v1" by blast
  have sub: "set p \<subseteq> V" using p by (simp add: struct_ok_def)
  from gf128_loop [OF dt(1) y sub l(2) D refl v1] v1 l(1) i rows_okD(2) [OF rows]
  show "\<exists>y'\<in>V. gf128_dense h P True i p y = Inr y' \<and> (\<forall>t\<in>I. crd t y' = crd t y + denseSum P ?d (\<lambda>c. crd t (p ! c)))"
    by (auto simp: gf128_dense_def denseSum_def denseCoef_def dt(2))
qed

lemma binary_bits_loop:
  assumes p: "struct_ok P p" and y: "y \<in> V" and n: "n \<le> mDenseSize P" "mDenseSize P \<le> 64"
  shows "\<exists>y'\<in>V. foldr_res (\<lambda>j (d, y).
           rbind (if d AND 1 \<noteq> 0 then rbind (at p (j + mSparseSize P)) (\<lambda>e. Inr (hAdd h y e)) else Inr y) (\<lambda>y.
           Inr (drop_bit 1 d, y))) [0..<n] (lo64 d, y) = Inr (drop_bit n (lo64 d), y') \<and>
    (\<forall>t\<in>I. crd t y' = crd t y + (\<Sum>k<n. bitGF (bit d k) * crd t (p ! (mSparseSize P + k))))"
  using n(1)
proof (induction n)
  case (Suc n)
  then obtain y1 where IH: "y1 \<in> V" "foldr_res (\<lambda>j (d, y).
           rbind (if d AND 1 \<noteq> 0 then rbind (at p (j + mSparseSize P)) (\<lambda>e. Inr (hAdd h y e)) else Inr y) (\<lambda>y.
           Inr (drop_bit 1 d, y))) [0..<n] (lo64 d, y) = Inr (drop_bit n (lo64 d), y1)"
    "\<forall>t\<in>I. crd t y1 = crd t y + (\<Sum>k<n. bitGF (bit d k) * crd t (p ! (mSparseSize P + k)))" by auto
  have b: "drop_bit n (lo64 d) AND 1 \<noteq> 0 \<longleftrightarrow> bit d n"
    using lo64_bit [of n d] Suc.prems n(2) by (simp add: and_one_eq mod_2_eq_odd bit_iff_odd_drop_bit)
  have e: "mSparseSize P + n < length p" "p ! (mSparseSize P + n) \<in> V"
    using struct_okD(1,2,3) [OF p] Suc.prems by (simp_all add: paxos_size_def)
  let ?y = "if bit d n then hAdd h y1 (p ! (mSparseSize P + n)) else y1"
  have "?y \<in> V" using IH(1) e by (simp add: add_V)
  moreover have "\<forall>t\<in>I. crd t ?y = crd t y + (\<Sum>k<Suc n. bitGF (bit d k) * crd t (p ! (mSparseSize P + k)))"
    using IH(1,3) e by (simp add: crd_add bitGF_def add.assoc)
  moreover have "drop_bit 1 (drop_bit n (lo64 d)) = drop_bit (Suc n) (lo64 d)" by (simp add: drop_bit_drop_bit)
  ultimately show ?case using IH(2) b e(1)
    by (intro bexI [of _ ?y]) (simp_all add: foldr_res_append add.commute [of n])
qed (use y in simp)

lemma binary_dense_prng_ok:
  assumes rows: "rows_ok P" and dt: "mDt P = Binary" and D: "mDenseSize P \<le> 64"
  shows "denseStep P p0 (binary_dense h P True masks gapCols)"
  unfolding denseStep_def
proof (intro allI impI)
  fix i p y assume i: "i < mNumItems P" and p: "struct_ok P p" and y: "y \<in> V"
  from binary_bits_loop [OF p y order_refl D, of "mDense P ! i"] i rows_okD(2) [OF rows] D
  show "\<exists>y'\<in>V. binary_dense h P True masks gapCols i p y = Inr y' \<and>
      (\<forall>t\<in>I. crd t y' = crd t y + denseSum P (mDense P ! i) (\<lambda>c. crd t (p ! c)))"
    by (fastforce simp: binary_dense_def denseSum_def denseCoef_def dt)
qed

lemma binary_dense_masks_ok:
  assumes rows: "rows_ok P" and dt: "mDt P = Binary" and D: "mDenseSize P \<le> 64"
    and cols: "distinct gapCols" "\<forall>c\<in>set gapCols. c < mDenseSize P"
    and zero: "\<forall>k<mDenseSize P. k \<notin> set gapCols \<longrightarrow> (\<forall>t\<in>I. crd t (p0 ! (mSparseSize P + k)) = 0)"
  shows "denseStep P p0 (binary_dense h P False (map (\<lambda>c. push_bit c 1) gapCols) gapCols)"
  unfolding denseStep_def
proof (intro allI impI)
  fix i p y assume i: "i < mNumItems P" and p: "struct_ok P p" and y: "y \<in> V"
    and same: "\<forall>k<mDenseSize P. p ! (mSparseSize P + k) = p0 ! (mSparseSize P + k)"
  let ?d = "mDense P ! i" and ?n = "mSparseSize P"
  let ?f = "\<lambda>c y. if bit ?d c then rbind (at p (c + ?n)) (\<lambda>e. Inr (hAdd h y e)) else Inr y"
  have loop: "\<exists>y'\<in>V. foldr_res ?f cs y = Inr y' \<and>
      (\<forall>t\<in>I. crd t y' = crd t y + (\<Sum>c\<leftarrow>cs. bitGF (bit ?d c) * crd t (p ! (?n + c))))"
    if "set cs \<subseteq> {..<mDenseSize P}" "y \<in> V" for cs y
    using that
  proof (induction cs arbitrary: y)
    case (Cons c cs)
    have e: "?n + c < length p" "p ! (?n + c) \<in> V" using struct_okD(1,2,3) [OF p] Cons.prems(1) by (simp_all add: paxos_size_def)
    let ?y = "if bit ?d c then hAdd h y (p ! (?n + c)) else y"
    have "?y \<in> V" using Cons.prems(2) e by (simp add: add_V)
    with Cons obtain y' where "y' \<in> V" "foldr_res ?f cs ?y = Inr y'"
      "\<forall>t\<in>I. crd t y' = crd t ?y + (\<Sum>c\<leftarrow>cs. bitGF (bit ?d c) * crd t (p ! (?n + c)))" by fastforce
    with e Cons.prems(2) show ?case
      by (intro bexI [of _ y']) (auto simp: add.commute [of c] crd_add bitGF_def add.assoc)
  qed simp
  have sum: "(\<Sum>c\<leftarrow>gapCols. bitGF (bit ?d c) * crd t (p ! (?n + c))) = denseSum P ?d (\<lambda>c. crd t (p ! c))" if t: "t \<in> I" for t
  proof -
    have "(\<Sum>c\<leftarrow>gapCols. bitGF (bit ?d c) * crd t (p ! (?n + c))) = (\<Sum>c\<in>set gapCols. bitGF (bit ?d c) * crd t (p ! (?n + c)))"
      using cols(1) by (rule sum_list_distinct_conv_sum_set)
    also have "\<dots> = (\<Sum>c<mDenseSize P. bitGF (bit ?d c) * crd t (p ! (?n + c)))"
      using cols(2) zero same t by (intro sum.mono_neutral_left) auto
    finally show ?thesis by (simp add: denseSum_def denseCoef_def dt)
  qed
  have "foldr_res (\<lambda>j y. rbind (at (map (\<lambda>c. push_bit c 1) gapCols) j) (\<lambda>m.
           if lo64 ?d AND m \<noteq> 0
           then rbind (at gapCols j) (\<lambda>c. rbind (at p (c + ?n)) (\<lambda>e. Inr (hAdd h y e)))
           else Inr y)) [0..<length gapCols] y = foldr_res ?f gapCols y"
    unfolding foldr_res_upt_nth [of ?f gapCols]
  proof (intro foldr_res_cong refl)
    fix j y assume "j \<in> set [0..<length gapCols]"
    then have j: "j < length gapCols" by simp
    with cols(2) D have j: "j < length gapCols" "gapCols ! j < 64" using nth_mem [OF j] by (simp, fastforce)
    then show "rbind (at (map (\<lambda>c. push_bit c 1) gapCols) j) (\<lambda>m.
           if lo64 ?d AND m \<noteq> 0
           then rbind (at gapCols j) (\<lambda>c. rbind (at p (c + ?n)) (\<lambda>e. Inr (hAdd h y e)))
           else Inr y) = ?f (gapCols ! j) y"
      using mask_bit [OF j(2), of ?d] by (simp del: push_bit_of_1)
  qed
  moreover have "set gapCols \<subseteq> {..<mDenseSize P}" using cols(2) by blast
  from loop [OF this y] sum obtain y' where "y' \<in> V" "foldr_res ?f gapCols y = Inr y'"
    "\<forall>t\<in>I. crd t y' = crd t y + denseSum P ?d (\<lambda>c. crd t (p ! c))" by auto
  ultimately show "\<exists>y'\<in>V. binary_dense h P False (map (\<lambda>c. push_bit c 1) gapCols) gapCols i p y = Inr y' \<and>
      (\<forall>t\<in>I. crd t y' = crd t y + denseSum P ?d (\<lambda>c. crd t (p ! c)))"
    using i rows_okD(2) [OF rows] D by (intro bexI [of _ y']) (simp_all add: binary_dense_def del: push_bit_of_1)
qed

text \<open>Adding multiples of the elements of \<open>xx\<close> to the positions \<open>pos i\<close>.\<close>

lemma accum_ok:
  assumes pos: "inj_on pos {..<n}" "\<And>i. i < n \<Longrightarrow> pos i < paxos_size P"
    and step: "\<And>i j p. i < n \<Longrightarrow> j < n \<Longrightarrow> struct_ok P p \<Longrightarrow>
      \<exists>z\<in>V. F i j p = Inr (p[pos i := z]) \<and> (\<forall>t\<in>I. crd t z = crd t (p ! pos i) + a i j * b t j)"
    and p: "struct_ok P p"
  shows "\<exists>p'. foldr_res (\<lambda>i. foldr_res (F i) [0..<n]) [0..<n] p = Inr p' \<and> struct_ok P p' \<and>
    (\<forall>c<paxos_size P. c \<notin> pos ` {..<n} \<longrightarrow> p' ! c = p ! c) \<and>
    (\<forall>i<n. \<forall>t\<in>I. crd t (p' ! pos i) = crd t (p ! pos i) + (\<Sum>j<n. a i j * b t j))"
proof -
  have inner: "m \<le> n \<Longrightarrow> \<exists>z\<in>V. foldr_res (F i) [0..<m] q = Inr (q[pos i := z]) \<and>
      (\<forall>t\<in>I. crd t z = crd t (q ! pos i) + (\<Sum>j<m. a i j * b t j))" if i: "i < n" and q: "struct_ok P q" for i m q
  proof (induction m)
    case 0
    have "q ! pos i \<in> V" using struct_okD(2) [OF q] pos(2) [OF i] by blast
    then show ?case by (auto intro: bexI [of _ "q ! pos i"])
  next
    case (Suc m)
    then obtain z where z: "z \<in> V" "foldr_res (F i) [0..<m] q = Inr (q[pos i := z])"
      "\<forall>t\<in>I. crd t z = crd t (q ! pos i) + (\<Sum>j<m. a i j * b t j)" by auto
    have "m < n" using Suc.prems by simp
    from step [OF i this struct_ok_update [OF q z(1), of "pos i"]] obtain z' where "z' \<in> V"
      "F i m (q[pos i := z]) = Inr (q[pos i := z'])" "\<forall>t\<in>I. crd t z' = crd t (q[pos i := z] ! pos i) + a i m * b t m" by auto
    moreover have "pos i < length q" using struct_okD(1) [OF q] pos(2) [OF i] by simp
    ultimately show ?case using z by (auto simp: foldr_res_append add.assoc)
  qed
  have "m \<le> n \<Longrightarrow> \<exists>p'. foldr_res (\<lambda>i. foldr_res (F i) [0..<n]) [0..<m] p = Inr p' \<and> struct_ok P p' \<and>
    (\<forall>c<paxos_size P. c \<notin> pos ` {..<m} \<longrightarrow> p' ! c = p ! c) \<and>
    (\<forall>i<m. \<forall>t\<in>I. crd t (p' ! pos i) = crd t (p ! pos i) + (\<Sum>j<n. a i j * b t j))" for m
  proof (induction m)
    case (Suc m)
    then obtain q where IH: "foldr_res (\<lambda>i. foldr_res (F i) [0..<n]) [0..<m] p = Inr q" "struct_ok P q"
      "\<forall>c<paxos_size P. c \<notin> pos ` {..<m} \<longrightarrow> q ! c = p ! c"
      "\<forall>i<m. \<forall>t\<in>I. crd t (q ! pos i) = crd t (p ! pos i) + (\<Sum>j<n. a i j * b t j)" by auto
    have m: "m < n" using Suc.prems by simp
    from inner [OF m IH(2) order_refl] obtain z where z: "z \<in> V" "foldr_res (F m) [0..<n] q = Inr (q[pos m := z])"
      "\<forall>t\<in>I. crd t z = crd t (q ! pos m) + (\<Sum>j<n. a m j * b t j)" by blast
    have ne: "pos i \<noteq> pos m" "pos m \<noteq> pos i" if "i < m" for i using inj_onD [OF pos(1), of i m] that m by auto
    then have "pos m \<notin> pos ` {..<m}" by fastforce
    then have "q ! pos m = p ! pos m" using IH(3) pos(2) [OF m] by blast
    moreover have "pos m < length q" using struct_okD(1) [OF IH(2)] pos(2) [OF m] by simp
    moreover have "foldr_res (\<lambda>i. foldr_res (F i) [0..<n]) [0..<Suc m] p = Inr (q[pos m := z])"
      using IH(1) z(2) by (simp add: foldr_res_append)
    moreover have "\<forall>c<paxos_size P. c \<notin> pos ` {..<Suc m} \<longrightarrow> q[pos m := z] ! c = p ! c"
      using IH(3) by (auto simp: lessThan_Suc)
    ultimately show ?case using IH(4) z(3) ne struct_ok_update [OF IH(2) z(1)]
      by (intro exI [of _ "q[pos m := z]"]) (auto simp: less_Suc_eq)
  qed (simp add: p)
  from this [OF order_refl] show ?thesis .
qed

lemma gapRowGf128_ok:
  assumes rows: "rows_ok P" and X: "input_vec P X" and n: "0 < n" and r: "r < mNumItems P" and js: "\<forall>j\<in>set js. j < mNumItems P"
  shows "\<exists>row x. gapRowGf128 h P n X r js = Inr (row, x) \<and> length row = n \<and> x \<in> V \<and>
    (\<forall>k<n. GF (row ! k) = GF (mDense P ! r) ^ Suc k + (\<Sum>j\<leftarrow>js. GF (mDense P ! j) ^ Suc k)) \<and>
    (\<forall>t\<in>I. crd t x = crd t (X ! r) + (\<Sum>j\<leftarrow>js. crd t (X ! j)))"
proof -
  have len: "length (mDense P) = mNumItems P" "length X = mNumItems P" and xV: "X ! j \<in> V" if "j < mNumItems P" for j
    using rows_okD(2) [OF rows] X that by (auto simp: input_vec_def subset_iff)
  let ?f = "\<lambda>j (row, x). rbind (at X j) (\<lambda>y. rbind (at (mDense P) j) (\<lambda>fcb. Inr (addPowers n fcb row, hAdd h x y)))"
  have "\<exists>row' x'. foldr_res ?f js (row, x) = Inr (row', x') \<and> length row' = n \<and> x' \<in> V \<and>
    (\<forall>k<n. GF (row' ! k) = GF (row ! k) + (\<Sum>j\<leftarrow>js. GF (mDense P ! j) ^ Suc k)) \<and>
    (\<forall>t\<in>I. crd t x' = crd t x + (\<Sum>j\<leftarrow>js. crd t (X ! j)))" if "length row = n" "x \<in> V" for row x
    using js that
  proof (induction js arbitrary: row x)
    case (Cons j js)
    then have j: "j < mNumItems P" "\<forall>j\<in>set js. j < mNumItems P" by auto
    note a = addPowers_ok [OF n Cons.prems(2), of "mDense P ! j"]
    have x1: "hAdd h x (X ! j) \<in> V" "\<forall>t\<in>I. crd t (hAdd h x (X ! j)) = crd t x + crd t (X ! j)"
      using Cons.prems(3) xV [OF j(1)] by (auto simp: add_V crd_add)
    from Cons.IH [OF j(2) a(1) x1(1)] a(2) x1(2) len [OF j(1)] j(1) show ?case by (auto simp: add.assoc)
  qed auto
  note loop = this
  from loop [OF gfPowers_ok(1) [OF n] xV [OF r]] gfPowers_ok(2) [OF n] len [OF r] r show ?thesis
    by (simp add: gapRowGf128_def)
qed

lemma gapSolveGf128_ok:
  assumes dt: "dt = GF128" and E: "is_mtx n n EE" and xx: "length xx = n" "set xx \<subseteq> V" and p: "struct_ok P p" and n: "n \<le> mDenseSize P"
  shows "\<exists>p'. gapSolveGf128 h P EE xx p = Inr p' \<and> struct_ok P p' \<and>
    (\<forall>c<paxos_size P. c < mSparseSize P \<or> mSparseSize P + n \<le> c \<longrightarrow> p' ! c = p ! c) \<and>
    (\<forall>i<n. \<forall>t\<in>I. crd t (p' ! (mSparseSize P + i)) = crd t (p ! (mSparseSize P + i)) + dotl (EE ! i) (\<lambda>j. crd t (xx ! j)))"
proof -
  let ?F = "\<lambda>i j p. rbind (at EE i) (\<lambda>r. rbind (at r j) (\<lambda>m.
         rbind (at p (i + mSparseSize P)) (\<lambda>pp. rbind (at xx j) (\<lambda>x.
         rbind (hMultAdd h pp x m) (\<lambda>v. Inr (p[i + mSparseSize P := v]))))))"
  have "\<exists>z\<in>V. ?F i j q = Inr (q[i + mSparseSize P := z]) \<and>
      (\<forall>t\<in>I. crd t z = crd t (q ! (i + mSparseSize P)) + GF (EE ! i ! j) * crd t (xx ! j))"
    if ij: "i < n" "j < n" and q: "struct_ok P q" for i j q
  proof -
    have "i + mSparseSize P < length q" "q ! (i + mSparseSize P) \<in> V" "xx ! j \<in> V"
      using struct_okD(1,2) [OF q] ij n xx by (auto simp: paxos_size_def subset_iff)
    moreover from multAdd [OF dt this(2,3), of "EE ! i ! j"] obtain z where "z \<in> V"
      "hMultAdd h (q ! (i + mSparseSize P)) (xx ! j) (EE ! i ! j) = Inr z"
      "\<forall>t\<in>I. crd t z = crd t (q ! (i + mSparseSize P)) + crd t (xx ! j) * GF (EE ! i ! j)" by blast
    ultimately show ?thesis using ij is_mtxD [OF E] xx(1) by (auto simp: mult.commute)
  qed
  note step = this
  have "inj_on (\<lambda>i. i + mSparseSize P) {..<n}" "\<And>i. i < n \<Longrightarrow> i + mSparseSize P < paxos_size P"
    using n by (auto simp: inj_on_def paxos_size_def)
  from accum_ok [OF this, where F = ?F and a = "\<lambda>i j. GF (EE ! i ! j)" and b = "\<lambda>t j. crd t (xx ! j)", OF _ step p]
  obtain p' where p': "gapSolveGf128 h P EE xx p = Inr p'" "struct_ok P p'"
    "\<forall>c<paxos_size P. c \<notin> (\<lambda>i. i + mSparseSize P) ` {..<n} \<longrightarrow> p' ! c = p ! c"
    "\<forall>i<n. \<forall>t\<in>I. crd t (p' ! (i + mSparseSize P)) = crd t (p ! (i + mSparseSize P)) + (\<Sum>j<n. GF (EE ! i ! j) * crd t (xx ! j))"
    unfolding gapSolveGf128_def xx(1) by blast
  have "(\<lambda>i. i + mSparseSize P) ` {..<n} = {mSparseSize P..<mSparseSize P + n}"
    using image_add_atLeastLessThan' [of "mSparseSize P" 0 n] by (simp add: lessThan_atLeast0 add.commute)
  with p' is_mtxD [OF E] show ?thesis by (simp add: dotl_def add.commute [of "mSparseSize P"])
qed

lemma randomRows_ok:
  assumes rnd: "draws_ok rndBlocks" and "g \<le> n"
  shows "\<exists>EE' xx' s'. randomRows h rndBlocks g n (EE, xx, s) = (EE @ EE', xx @ xx', s') \<and> length EE' = n - g \<and>
    (\<forall>r\<in>set EE'. length r = n) \<and> length xx' = n - g \<and> set xx' \<subseteq> V"
proof -
  have "g + k \<le> n \<Longrightarrow> \<exists>EE' xx' s'. fold (\<lambda>i (EE, xx, s). let (row, s) = rndBlocks n s; (v, s) = hRandomize h s in (EE @ [row], xx @ [v], s))
      [g..<g + k] (EE, xx, s) = (EE @ EE', xx @ xx', s') \<and> length EE' = k \<and> (\<forall>r\<in>set EE'. length r = n) \<and> length xx' = k \<and> set xx' \<subseteq> V" for k
  proof (induction k)
    case (Suc k)
    then obtain EE' xx' s' where IH: "fold (\<lambda>i (EE, xx, s). let (row, s) = rndBlocks n s; (v, s) = hRandomize h s in (EE @ [row], xx @ [v], s))
      [g..<g + k] (EE, xx, s) = (EE @ EE', xx @ xx', s')" "length EE' = k" "\<forall>r\<in>set EE'. length r = n" "length xx' = k" "set xx' \<subseteq> V" by auto
    obtain row s1 where r: "rndBlocks n s' = (row, s1)" by fastforce
    obtain v s2 where v: "hRandomize h s1 = (v, s2)" by fastforce
    have "length row = n" "v \<in> V" using rnd r randomize_V [of s1] v by (metis draws_ok_def fst_conv, simp)
    with IH r v show ?case
      by (intro exI [of _ "EE' @ [row]"] exI [of _ "xx' @ [v]"] exI [of _ s2]) simp
  qed simp
  from this [of "n - g"] assms(2) show ?thesis by (simp add: randomRows_def)
qed

text \<open>The dense part solves the equation that is left of the gap row.\<close>

definition gapSolved :: "'e paxos_scheme \<Rightarrow> 'a list \<Rightarrow> 'a list \<Rightarrow> nat \<times> nat \<Rightarrow> nat list \<Rightarrow> bool" where
  "gapSolved P X p gap js \<longleftrightarrow> (\<forall>t\<in>I.
     denseSum P (mDense P ! fst gap) (\<lambda>c. crd t (p ! c)) + (\<Sum>j\<leftarrow>js. denseSum P (mDense P ! j) (\<lambda>c. crd t (p ! c))) =
     crd t (X ! fst gap) + (\<Sum>j\<leftarrow>js. crd t (X ! j)))"

definition denseZero :: "'e paxos_scheme \<Rightarrow> 'a list \<Rightarrow> bool" where
  "denseZero P p \<longleftrightarrow> (\<forall>k<mDenseSize P. \<forall>t\<in>I. crd t (p ! (mSparseSize P + k)) = 0)"

definition gapStep :: "'e paxos_scheme \<Rightarrow> nat list \<Rightarrow> nat list \<Rightarrow> (nat \<times> nat) list \<Rightarrow> 'a list \<Rightarrow> 'a list \<Rightarrow> 'a list \<Rightarrow> bool" where
  "gapStep P mainRows mainCols gapRows X p p' \<longleftrightarrow> struct_ok P p' \<and> (\<forall>c<mSparseSize P. p' ! c = p ! c) \<and>
     list_all2 (gapSolved P X p') gapRows (projr (getFCInv P mainRows mainCols gapRows))"

lemma gapGf128_ok:
  assumes M: "main_ok P mainRows mainCols" and G: "gaps_ok P mainRows gapRows" and dt: "dt = GF128" "mDt P = GF128"
    and g: "gapRows \<noteq> []" "length gapRows \<le> mDenseSize P" and X: "input_vec P X" and p: "struct_ok P p" "denseZero P p"
    and rnd: "draws_ok rndBlocks"
  shows "gapGf128 h rndBlocks P mainRows mainCols gapRows X p prng = Inl (RuntimeError ''E' not invertable. '') \<or>
    (\<exists>p' prng'. gapGf128 h rndBlocks P mainRows mainCols gapRows X p prng = Inr (p', prng') \<and> (prng' = None \<longleftrightarrow> prng = None) \<and>
      gapStep P mainRows mainCols gapRows X p p')"
proof -
  let ?g = "length gapRows" and ?n = "if prng = None then length gapRows else mDenseSize P"
  have "0 < ?g" using g(1) by (simp only: length_greater_0_conv simp_thms)
  moreover from this g(2) have "0 < mDenseSize P" by (rule less_le_trans)
  ultimately have n: "0 < ?n" "?g \<le> ?n" "?n \<le> mDenseSize P" "0 < ?g" using g(2) by simp_all
  obtain fcinv where fc: "getFCInv P mainRows mainCols gapRows = Inr fcinv" "list_all2 (fcRow_ok P mainRows mainCols) gapRows fcinv"
    using getFCInv_ok [OF M G] by blast
  have F: "fcinv_ok P fcinv gapRows" using fc(2) M G by (rule fcinv_okI)
  then have lf: "length fcinv = ?g" by (simp add: fcinv_ok_def)
  note rows = main_okD(1) [OF M]
  let ?row = "\<lambda>i. projr (gapRowGf128 h P ?n X (fst (gapRows ! i)) (fcinv ! i))"
  have gr: "gapRowGf128 h P ?n X (fst (gapRows ! i)) (fcinv ! i) = Inr (?row i) \<and> length (fst (?row i)) = ?n \<and> snd (?row i) \<in> V \<and>
      (\<forall>k<?n. GF (fst (?row i) ! k) = GF (mDense P ! fst (gapRows ! i)) ^ Suc k + (\<Sum>j\<leftarrow>fcinv ! i. GF (mDense P ! j) ^ Suc k)) \<and>
      (\<forall>t\<in>I. crd t (snd (?row i)) = crd t (X ! fst (gapRows ! i)) + (\<Sum>j\<leftarrow>fcinv ! i. crd t (X ! j)))" if i: "i < ?g" for i
  proof -
    have "fst (gapRows ! i) < mNumItems P" "\<forall>j\<in>set (fcinv ! i). j < mNumItems P" using F i lf by (auto simp: fcinv_ok_def)
    from gapRowGf128_ok [OF rows X n(1) this] show ?thesis by force
  qed
  define rs where "rs = map ?row [0..<?g]"
  have rs: "mapr (\<lambda>i. rbind (at gapRows i) (\<lambda>gap. rbind (at fcinv i) (\<lambda>js. gapRowGf128 h P ?n X (fst gap) js))) [0..<?g] = Inr rs"
    unfolding rs_def using gr lf by (intro mapr_pure) simp
  obtain EE xx prng' where E: "(case prng of None \<Rightarrow> (map fst rs, map snd rs, None)
           | Some s \<Rightarrow> (let (EE, xx, s) = randomRows h rndBlocks ?g ?n (map fst rs, map snd rs, s) in (EE, xx, Some s))) = (EE, xx, prng')"
    by (metis prod_cases3)
  have "is_mtx ?n ?n EE \<and> length xx = ?n \<and> set xx \<subseteq> V \<and> (prng' = None \<longleftrightarrow> prng = None) \<and>
      (\<forall>i<?g. EE ! i = fst (?row i) \<and> xx ! i = snd (?row i))"
  proof (cases prng)
    case None
    with E have "EE = map fst rs" "xx = map snd rs" "prng' = None" by auto
    then show ?thesis using None gr by (auto simp: rs_def is_mtx_iff)
  next
    case (Some s)
    from randomRows_ok [OF rnd n(2), of "map fst rs" "map snd rs" s] obtain EE' xx' s' where
      r: "randomRows h rndBlocks ?g ?n (map fst rs, map snd rs, s) = (map fst rs @ EE', map snd rs @ xx', s')" "length EE' = ?n - ?g"
        "\<forall>r\<in>set EE'. length r = ?n" "length xx' = ?n - ?g" "set xx' \<subseteq> V" by blast
    with E Some have e: "EE = map fst rs @ EE'" "xx = map snd rs @ xx'" "prng' = Some s'" by auto
    have "length r = ?n" if "r \<in> set EE" for r using that gr r(3) by (auto simp: e rs_def)
    moreover have "length EE = ?n" "length xx = ?n" using r(2,4) n(2) by (simp_all add: e rs_def)
    moreover have "set xx \<subseteq> V" using gr r(5) by (auto simp: e rs_def)
    ultimately show ?thesis using Some gr by (auto simp: e rs_def is_mtx_def nth_append)
  qed
  then have EX: "is_mtx ?n ?n EE" "length xx = ?n" "set xx \<subseteq> V" "prng' = None \<longleftrightarrow> prng = None"
    "\<And>i. i < ?g \<Longrightarrow> EE ! i = fst (?row i)" "\<And>i. i < ?g \<Longrightarrow> xx ! i = snd (?row i)" by blast+
  have len: "length EE = mtx_cols EE" using is_mtx_cols [OF EX(1) n(1)] is_mtx_length [OF EX(1)] by simp
  have "\<exists>Inv. gf128InvMtx EE = Inr Inv"
    by (cases "gf128InvMtx_loop (length EE) [0..<length EE] (EE, gf128_eye (length EE))")
      (auto simp: gf128InvMtx_def Let_def len [symmetric])
  then obtain Inv where Inv: "gf128InvMtx EE = Inr Inv" by blast
  have eq: "gapGf128 h rndBlocks P mainRows mainCols gapRows X p prng =
      (if Inv = [] then Inl (RuntimeError ''E' not invertable. '') else rbind (gapSolveGf128 h P Inv xx p) (\<lambda>p. Inr (p, prng')))"
    unfolding gapGf128_def Let_def fc(1) rbind_simps rs E [unfolded Let_def] prod.case Inv ..
  show ?thesis
  proof (cases "Inv = []")
    case False
    note sol = gf128InvMtx_solves [OF Inv EX(1) False]
    from gapSolveGf128_ok [OF dt(1) sol(1) EX(2,3) p(1) n(3)] obtain p' where
      p': "gapSolveGf128 h P Inv xx p = Inr p'" "struct_ok P p'"
      "\<forall>c<paxos_size P. c < mSparseSize P \<or> mSparseSize P + ?n \<le> c \<longrightarrow> p' ! c = p ! c"
      "\<forall>i<?n. \<forall>t\<in>I. crd t (p' ! (mSparseSize P + i)) = crd t (p ! (mSparseSize P + i)) + dotl (Inv ! i) (\<lambda>j. crd t (xx ! j))" by blast
    have same: "p' ! c = p ! c" if "c < mSparseSize P" for c using p'(3) that by (simp add: paxos_size_def)
    have hi: "crd t (p' ! (mSparseSize P + k)) = 0" if "t \<in> I" "?n \<le> k" "k < mDenseSize P" for t k
      using p'(3) p(2) that by (simp add: paxos_size_def denseZero_def)
    have "gapSolved P X p' (gapRows ! i) (fcinv ! i)" if i: "i < ?g" for i
      unfolding gapSolved_def
    proof
      have E1: "length (EE ! i) = ?n"
        "\<And>k. k < ?n \<Longrightarrow> GF (EE ! i ! k) = GF (mDense P ! fst (gapRows ! i)) ^ Suc k + (\<Sum>j\<leftarrow>fcinv ! i. GF (mDense P ! j) ^ Suc k)"
        using gr [OF i] unfolding EX(5) [OF i] by blast+
      fix t assume t: "t \<in> I"
      let ?x = "\<lambda>c. crd t (p' ! c)" and ?v = "\<lambda>k. crd t (p' ! (mSparseSize P + k))"
      have "\<forall>r<?n. ?v r = dotl (Inv ! r) (\<lambda>j. crd t (xx ! j))" using p'(4) t p(2) n(3) by (simp add: denseZero_def)
      with sol(2) [of ?v "\<lambda>j. crd t (xx ! j)"] i n(2) have solved: "dotl (EE ! i) ?v = crd t (xx ! i)" by simp
      have ds: "denseSum P d ?x = (\<Sum>k<?n. GF d ^ Suc k * ?v k)" for d
        unfolding denseSum_def denseCoef_def dt(2) DenseType.case
        using hi [OF t] n(3) by (intro sum.mono_neutral_right) auto
      have "dotl (EE ! i) ?v = (\<Sum>k<?n. (GF (mDense P ! fst (gapRows ! i)) ^ Suc k + (\<Sum>j\<leftarrow>fcinv ! i. GF (mDense P ! j) ^ Suc k)) * ?v k)"
        unfolding dotl_def E1(1) by (intro sum.cong refl) (simp only: E1(2) lessThan_iff)
      also have "\<dots> = denseSum P (mDense P ! fst (gapRows ! i)) ?x + (\<Sum>j\<leftarrow>fcinv ! i. denseSum P (mDense P ! j) ?x)"
        unfolding ds by (simp only: distrib_right sum.distrib sum_list_mult sum_sum_list finite_lessThan)
      finally have "denseSum P (mDense P ! fst (gapRows ! i)) ?x + (\<Sum>j\<leftarrow>fcinv ! i. denseSum P (mDense P ! j) ?x) = crd t (xx ! i)"
        using solved by simp
      moreover have "crd t (xx ! i) = crd t (X ! fst (gapRows ! i)) + (\<Sum>j\<leftarrow>fcinv ! i. crd t (X ! j))"
        using gr [OF i] EX(6) [OF i] t by simp
      ultimately show "denseSum P (mDense P ! fst (gapRows ! i)) ?x + (\<Sum>j\<leftarrow>fcinv ! i. denseSum P (mDense P ! j) ?x) =
        crd t (X ! fst (gapRows ! i)) + (\<Sum>j\<leftarrow>fcinv ! i. crd t (X ! j))" by simp
    qed
    then have "list_all2 (gapSolved P X p') gapRows fcinv" using lf by (simp add: list_all2_conv_all_nth)
    then have "gapStep P mainRows mainCols gapRows X p p'" using p'(2) same fc(1) by (simp add: gapStep_def)
    with False eq p'(1) EX(4) show ?thesis by auto
  qed (simp add: eq)
qed

end

subsection \<open>The gap of the binary encoding\<close>

lemma gapBlock_bit: "bitGF (bit (gapBlock P js r) k) = bitGF (bit (mDense P ! r) k) + (\<Sum>j\<leftarrow>js. bitGF (bit (mDense P ! j) k))"
proof -
  have "bitGF (bit (fold (\<lambda>j d. d XOR mDense P ! j) js d) k) = bitGF (bit d k) + (\<Sum>j\<leftarrow>js. bitGF (bit (mDense P ! j) k))" for d
    by (induction js arbitrary: d) (simp_all add: bit_xor_iff bitGF_xor_iff add.assoc)
  then show ?thesis by (simp add: gapBlock_def)
qed

lemma denseSum_gapBlock:
  assumes "mDt P = Binary"
  shows "denseSum P (gapBlock P js r) x = denseSum P (mDense P ! r) x + (\<Sum>j\<leftarrow>js. denseSum P (mDense P ! j) x)"
  unfolding denseSum_def denseCoef_def assms DenseType.case gapBlock_bit
  by (simp only: distrib_right sum.distrib sum_list_mult sum_sum_list finite_lessThan)

lemma dotb_bitGF: "length r = n \<Longrightarrow> dotb r v = (\<Sum>k<n. bitGF (r ! k) * v k)"
  unfolding dotb_def by (intro sum.cong) (simp_all add: bitGF_def)

context px_values
begin

lemma randomizeDenseCols_ok:
  assumes p: "struct_ok P p"
  shows "\<exists>p' s'. randomizeDenseCols h P gapCols (p, s) = Inr (p', s') \<and> struct_ok P p' \<and>
    (\<forall>c<mSparseSize P. p' ! c = p ! c) \<and> (\<forall>k\<in>set gapCols. p' ! (k + mSparseSize P) = p ! (k + mSparseSize P))"
proof -
  let ?f = "\<lambda>i (p, s). if i \<notin> set gapCols
         then rbind (at p (i + mSparseSize P)) (\<lambda>_. let (v, s) = hRandomize h s in Inr (p[i + mSparseSize P := v], s))
         else Inr (p, s)"
  have "n \<le> mDenseSize P \<Longrightarrow> \<exists>p' s'. foldr_res ?f [0..<n] (p, s) = Inr (p', s') \<and> struct_ok P p' \<and>
    (\<forall>c<mSparseSize P. p' ! c = p ! c) \<and> (\<forall>k\<in>set gapCols. p' ! (k + mSparseSize P) = p ! (k + mSparseSize P))" for n
  proof (induction n)
    case (Suc n)
    then obtain p1 s1 where IH: "foldr_res ?f [0..<n] (p, s) = Inr (p1, s1)" "struct_ok P p1"
      "\<forall>c<mSparseSize P. p1 ! c = p ! c" "\<forall>k\<in>set gapCols. p1 ! (k + mSparseSize P) = p ! (k + mSparseSize P)" by auto
    show ?case
    proof (cases "n \<in> set gapCols")
      case True
      with IH show ?thesis by (simp add: foldr_res_append)
    next
      case False
      obtain v s2 where v: "hRandomize h s1 = (v, s2)" by fastforce
      then have "v \<in> V" using randomize_V [of s1] by simp
      note so = struct_ok_update [OF IH(2) this, of "n + mSparseSize P"]
      have "n + mSparseSize P < length p1" using struct_okD(1) [OF IH(2)] Suc.prems by (simp add: paxos_size_def)
      then have "foldr_res ?f [0..<Suc n] (p, s) = Inr (p1[n + mSparseSize P := v], s2)"
        using IH(1) False v by (simp add: foldr_res_append)
      moreover have "n \<noteq> k" if "k \<in> set gapCols" for k using False that by auto
      ultimately show ?thesis using so IH(3,4)
        by (intro exI [of _ "p1[n + mSparseSize P := v]"] exI [of _ s2]) simp
    qed
  qed (use p in simp)
  from this [OF order_refl] show ?thesis by (simp add: randomizeDenseCols_def)
qed

lemma x2Dense_ok:
  assumes F: "fcinv_ok P fcinv gapRows" and p: "struct_ok P p" and k: "k < mDenseSize P" "mDenseSize P \<le> 128"
    and "n \<le> length gapRows" "length xx = length gapRows" "set xx \<subseteq> V"
  shows "\<exists>xx'. foldr_res (x2Dense h P fcinv gapRows p k) [0..<n] xx = Inr xx' \<and> length xx' = length gapRows \<and> set xx' \<subseteq> V \<and>
    (\<forall>j<length gapRows. \<forall>t\<in>I. crd t (xx' ! j) = crd t (xx ! j) +
       (if j < n then bitGF (bit (gapBlock P (fcinv ! j) (fst (gapRows ! j))) k) * crd t (p ! (mSparseSize P + k)) else 0))"
  using assms(5)
proof (induction n)
  case (Suc n)
  then obtain xx1 where IH: "foldr_res (x2Dense h P fcinv gapRows p k) [0..<n] xx = Inr xx1" "length xx1 = length gapRows" "set xx1 \<subseteq> V"
    "\<forall>j<length gapRows. \<forall>t\<in>I. crd t (xx1 ! j) = crd t (xx ! j) +
       (if j < n then bitGF (bit (gapBlock P (fcinv ! j) (fst (gapRows ! j))) k) * crd t (p ! (mSparseSize P + k)) else 0)" by auto
  have n: "n < length gapRows" using Suc.prems by simp
  let ?gb = "gapBlock P (fcinv ! n) (fst (gapRows ! n))" and ?e = "p ! (mSparseSize P + k)"
  have e: "mSparseSize P + k < length p" "?e \<in> V" using struct_okD(1,2,3) [OF p] k(1) by (simp_all add: paxos_size_def)
  have xn: "xx1 ! n \<in> V" using IH(2,3) n by auto
  have f: "fst (gapRows ! n) < length (mDense P)" "\<forall>j\<in>set (fcinv ! n). j < length (mDense P)" "n < length fcinv"
    using F n by (auto simp: fcinv_ok_def)
  let ?v = "if bit ?gb k then hAdd h (xx1 ! n) ?e else xx1 ! n"
  have v: "?v \<in> V" "\<forall>t\<in>I. crd t ?v = crd t (xx1 ! n) + bitGF (bit ?gb k) * crd t ?e"
    using xn e(2) by (auto simp: add_V crd_add bitGF_def)
  have "x2Dense h P fcinv gapRows p k n xx1 = Inr (xx1[n := ?v])"
    using n f e(1) k IH(2) denseXor_ok [OF f(2), of "mDense P ! fst (gapRows ! n)"]
    by (simp add: x2Dense_def bitIterator_def gapBlock_def add.commute [of k])
  with IH(1) have "foldr_res (x2Dense h P fcinv gapRows p k) [0..<Suc n] xx = Inr (xx1[n := ?v])"
    by (simp add: foldr_res_append del: if_split)
  moreover have "set (xx1[n := ?v]) \<subseteq> V" using set_update_subset_insert [of xx1 n ?v] IH(3) v(1) by blast
  moreover have "\<forall>j<length gapRows. \<forall>t\<in>I. crd t (xx1[n := ?v] ! j) = crd t (xx ! j) +
       (if j < Suc n then bitGF (bit (gapBlock P (fcinv ! j) (fst (gapRows ! j))) k) * crd t ?e else 0)"
  proof (intro allI impI ballI)
    fix j t assume j: "j < length gapRows" and t: "t \<in> I"
    show "crd t (xx1[n := ?v] ! j) = crd t (xx ! j) +
       (if j < Suc n then bitGF (bit (gapBlock P (fcinv ! j) (fst (gapRows ! j))) k) * crd t ?e else 0)"
      using IH(2,4) v(2) j t by (cases "j = n") (simp_all add: less_Suc_eq del: if_split)
  qed
  ultimately show ?case using IH(2) by (intro exI [of _ "xx1[n := ?v]"]) simp
qed (use assms in simp)

lemma getX2Prime_ok:
  assumes F: "fcinv_ok P fcinv gapRows" and X: "input_vec P X" and D: "mDenseSize P \<le> 128"
    and p: "p \<noteq> [] \<Longrightarrow> struct_ok P p"
  shows "\<exists>xx. getX2Prime h P fcinv gapRows gapCols X p = Inr xx \<and> length xx = length gapRows \<and> set xx \<subseteq> V \<and>
    (\<forall>i<length gapRows. \<forall>t\<in>I. crd t (xx ! i) = crd t (X ! fst (gapRows ! i)) + (\<Sum>j\<leftarrow>fcinv ! i. crd t (X ! j)) +
      (if p = [] then 0 else \<Sum>k | k < mDenseSize P \<and> k \<notin> set gapCols.
         bitGF (bit (gapBlock P (fcinv ! i) (fst (gapRows ! i))) k) * crd t (p ! (mSparseSize P + k))))"
proof -
  have X': "length X = mNumItems P" "\<And>j. j < mNumItems P \<Longrightarrow> X ! j \<in> V" using X by (auto simp: input_vec_def subset_iff)
  let ?x = "\<lambda>i. projr (x2Row h X (fcinv ! i) (fst (gapRows ! i)))"
  have f: "fst (gapRows ! i) < mNumItems P" "\<forall>j\<in>set (fcinv ! i). j < mNumItems P" "i < length fcinv" if "i < length gapRows" for i
    using F that by (auto simp: fcinv_ok_def)
  have row: "x2Row h X (fcinv ! i) (fst (gapRows ! i)) = Inr (?x i) \<and> ?x i \<in> V \<and>
      (\<forall>t\<in>I. crd t (?x i) = crd t (X ! fst (gapRows ! i)) + (\<Sum>j\<leftarrow>fcinv ! i. crd t (X ! j)))" if i: "i < length gapRows" for i
  proof -
    have "at X j = Inr (X ! j) \<and> X ! j \<in> V" if "j \<in> set (fcinv ! i)" for j using f(2) [OF i] X' that by auto
    from addAll [OF X'(2) [OF f(1) [OF i]] this, of "fcinv ! i" "\<lambda>j. j"] f(1) [OF i] X'(1) show ?thesis
      by (auto simp: x2Row_def)
  qed
  let ?xx = "map ?x [0..<length gapRows]"
  have m: "mapr (\<lambda>i. rbind (at gapRows i) (\<lambda>gap. rbind (at fcinv i) (\<lambda>js. x2Row h X js (fst gap)))) [0..<length gapRows] = Inr ?xx"
    using row f(3) by (intro mapr_pure) simp
  have V: "set ?xx \<subseteq> V" using row by auto
  show ?thesis
  proof (cases "p = []")
    case True
    with m V row X'(1) show ?thesis by (intro exI [of _ ?xx]) (simp add: getX2Prime_def)
  next
    case False
    note so = p [OF False]
    let ?f = "\<lambda>i xx2. if i \<notin> set gapCols then foldr_res (x2Dense h P fcinv gapRows p i) [0..<length gapRows] xx2 else Inr xx2"
    let ?c = "\<lambda>i t k. bitGF (bit (gapBlock P (fcinv ! i) (fst (gapRows ! i))) k) * crd t (p ! (mSparseSize P + k))"
    have "n \<le> mDenseSize P \<Longrightarrow> \<exists>xx'. foldr_res ?f [0..<n] ?xx = Inr xx' \<and> length xx' = length gapRows \<and> set xx' \<subseteq> V \<and>
      (\<forall>i<length gapRows. \<forall>t\<in>I. crd t (xx' ! i) = crd t (?xx ! i) + (\<Sum>k | k < n \<and> k \<notin> set gapCols. ?c i t k))" for n
    proof (induction n)
      case (Suc n)
      then obtain xx1 where IH: "foldr_res ?f [0..<n] ?xx = Inr xx1" "length xx1 = length gapRows" "set xx1 \<subseteq> V"
        "\<forall>i<length gapRows. \<forall>t\<in>I. crd t (xx1 ! i) = crd t (?xx ! i) + (\<Sum>k | k < n \<and> k \<notin> set gapCols. ?c i t k)" by auto
      have n: "n < mDenseSize P" using Suc.prems by simp
      show ?case
      proof (cases "n \<in> set gapCols")
        case True
        then have "{k. k < Suc n \<and> k \<notin> set gapCols} = {k. k < n \<and> k \<notin> set gapCols}" by (auto simp: less_Suc_eq)
        with True IH show ?thesis by (simp add: foldr_res_append)
      next
        case False
        then have ins: "{k. k < Suc n \<and> k \<notin> set gapCols} = insert n {k. k < n \<and> k \<notin> set gapCols}" by (auto simp: less_Suc_eq)
        from x2Dense_ok [OF F so n D order_refl IH(2,3)] obtain xx2 where
          x2: "foldr_res (x2Dense h P fcinv gapRows p n) [0..<length gapRows] xx1 = Inr xx2" "length xx2 = length gapRows" "set xx2 \<subseteq> V"
          "\<forall>j<length gapRows. \<forall>t\<in>I. crd t (xx2 ! j) = crd t (xx1 ! j) + (if j < length gapRows then ?c j t n else 0)" by blast
        have "foldr_res ?f [0..<Suc n] ?xx = Inr xx2"
          using IH(1) x2(1) False by (simp only: upt_Suc_append le0 foldr_res_append rbind_simps foldr_res_single if_True not_False_eq_True)
        with x2 IH(4) show ?thesis unfolding ins by (intro exI [of _ xx2]) (simp add: add.assoc add.commute)
      qed
    qed (use V in simp)
    from this [OF order_refl] obtain xx' where xx': "foldr_res ?f [0..<mDenseSize P] ?xx = Inr xx'" "length xx' = length gapRows" "set xx' \<subseteq> V"
      "\<forall>i<length gapRows. \<forall>t\<in>I. crd t (xx' ! i) = crd t (?xx ! i) + (\<Sum>k | k < mDenseSize P \<and> k \<notin> set gapCols. ?c i t k)" by blast
    have "getX2Prime h P fcinv gapRows gapCols X p = Inr xx'"
      using False X'(1) m xx'(1) struct_okD(1) [OF so] by (simp add: getX2Prime_def paxos_size_def add.commute)
    with xx' row False show ?thesis by (intro exI [of _ xx']) simp
  qed
qed

lemma gapSolveBinary_ok:
  assumes E: "is_mtx n n Inv" and xx: "length xx = n" "set xx \<subseteq> V" and p: "struct_ok P p"
    and cols: "length gapCols = n" "distinct gapCols" "\<forall>c\<in>set gapCols. c < mDenseSize P"
  shows "\<exists>p'. gapSolveBinary h P gapCols Inv xx p = Inr p' \<and> struct_ok P p' \<and>
    (\<forall>c<mSparseSize P. p' ! c = p ! c) \<and> (\<forall>k<mDenseSize P. k \<notin> set gapCols \<longrightarrow> p' ! (mSparseSize P + k) = p ! (mSparseSize P + k)) \<and>
    (\<forall>i<n. \<forall>t\<in>I. crd t (p' ! (mSparseSize P + gapCols ! i)) =
       crd t (p ! (mSparseSize P + gapCols ! i)) + dotb (Inv ! i) (\<lambda>j. crd t (xx ! j)))"
proof -
  let ?pos = "\<lambda>i. gapCols ! i + mSparseSize P"
  let ?F = "\<lambda>i j p. rbind (at Inv i) (\<lambda>r. rbind (at r j) (\<lambda>b.
            if b then rbind (at p (gapCols ! i + mSparseSize P)) (\<lambda>pp. rbind (at xx j) (\<lambda>x.
              Inr (p[gapCols ! i + mSparseSize P := hAdd h pp x])))
            else Inr p))"
  have gc: "gapCols ! i < mDenseSize P" if "i < n" for i using cols that by auto
  have step: "\<exists>z\<in>V. ?F i j q = Inr (q[?pos i := z]) \<and>
      (\<forall>t\<in>I. crd t z = crd t (q ! ?pos i) + bitGF (Inv ! i ! j) * crd t (xx ! j))"
    if ij: "i < n" "j < n" and q: "struct_ok P q" for i j q
  proof -
    have "?pos i < length q" "q ! ?pos i \<in> V" "xx ! j \<in> V"
      using struct_okD(1,2) [OF q] gc [OF ij(1)] ij xx by (auto simp: paxos_size_def subset_iff)
    then show ?thesis using ij is_mtxD [OF E] xx(1)
      by (intro bexI [of _ "if Inv ! i ! j then hAdd h (q ! ?pos i) (xx ! j) else q ! ?pos i"])
        (auto simp: add_V crd_add bitGF_def)
  qed
  have inj: "inj_on ?pos {..<n}" using cols(1,2) by (auto simp: inj_on_def nth_eq_iff_index_eq)
  have "\<And>i. i < n \<Longrightarrow> ?pos i < paxos_size P" using gc by (simp add: paxos_size_def)
  from accum_ok [OF inj this, where F = ?F and a = "\<lambda>i j. bitGF (Inv ! i ! j)" and b = "\<lambda>t j. crd t (xx ! j)", OF _ step p]
  obtain p' where p': "foldr_res (\<lambda>i. foldr_res (?F i) [0..<n]) [0..<n] p = Inr p'" "struct_ok P p'"
    "\<forall>c<paxos_size P. c \<notin> ?pos ` {..<n} \<longrightarrow> p' ! c = p ! c"
    "\<forall>i<n. \<forall>t\<in>I. crd t (p' ! ?pos i) = crd t (p ! ?pos i) + (\<Sum>j<n. bitGF (Inv ! i ! j) * crd t (xx ! j))" by blast
  have "gapSolveBinary h P gapCols Inv xx p = foldr_res (\<lambda>i. foldr_res (?F i) [0..<n]) [0..<n] p"
    unfolding gapSolveBinary_def xx(1) cols(1) using cols(1) by (intro foldr_res_cong refl) simp
  moreover have "?pos ` {..<n} = (\<lambda>k. k + mSparseSize P) ` set gapCols"
    using cols(1) by (auto simp: in_set_conv_nth image_iff)
  with p'(3) have fr: "p' ! c = p ! c" if "c < paxos_size P" "\<forall>k\<in>set gapCols. c \<noteq> k + mSparseSize P" for c
    using that by blast
  have "p' ! c = p ! c" if "c < mSparseSize P" for c using that by (intro fr) (auto simp: paxos_size_def)
  moreover have "p' ! (mSparseSize P + k) = p ! (mSparseSize P + k)" if "k < mDenseSize P" "k \<notin> set gapCols" for k
    using that by (intro fr) (auto simp: paxos_size_def)
  moreover have "dotb (Inv ! i) v = (\<Sum>j<n. bitGF (Inv ! i ! j) * v j)" if "i < n" for i v
    using is_mtxD(2) [OF E that] by (rule dotb_bitGF)
  ultimately show ?thesis using p'(1,2,4) by (intro exI [of _ p']) (simp add: add.commute [of "mSparseSize P"])
qed

text \<open>What the binary gap leaves for the back substitution.\<close>

definition maskedCols :: "'e paxos_scheme \<Rightarrow> 'f option \<Rightarrow> nat list \<Rightarrow> 'a list \<Rightarrow> bool" where
  "maskedCols P prng gapCols p \<longleftrightarrow> distinct gapCols \<and> (\<forall>c\<in>set gapCols. c < mDenseSize P) \<and>
     (prng = None \<longrightarrow> (\<forall>k<mDenseSize P. k \<notin> set gapCols \<longrightarrow> (\<forall>t\<in>I. crd t (p ! (mSparseSize P + k)) = 0)))"

lemma gapBinary_solved:
  assumes F: "fcinv_ok P fcinv gapRows" and dt: "mDt P = Binary" and X: "input_vec P X" and D: "mDenseSize P \<le> 128"
    and cols: "gapChoice P gapRows gapCols" and Inv: "DenseMtx_invert (gapE P fcinv gapRows gapCols) = Inr Inv" "Inv \<noteq> []"
    and p: "struct_ok P p" "\<forall>k\<in>set gapCols. \<forall>t\<in>I. crd t (p ! (k + mSparseSize P)) = 0"
    and off: "q = p \<or> q = [] \<and> (\<forall>k<mDenseSize P. k \<notin> set gapCols \<longrightarrow> (\<forall>t\<in>I. crd t (p ! (mSparseSize P + k)) = 0))"
    and nz: "0 < paxos_size P"
  shows "\<exists>xx p'. getX2Prime h P fcinv gapRows gapCols X q = Inr xx \<and> gapSolveBinary h P gapCols Inv xx p = Inr p' \<and>
    struct_ok P p' \<and> (\<forall>c<mSparseSize P. p' ! c = p ! c) \<and>
    (\<forall>k<mDenseSize P. k \<notin> set gapCols \<longrightarrow> p' ! (mSparseSize P + k) = p ! (mSparseSize P + k)) \<and>
    list_all2 (gapSolved P X p') gapRows fcinv"
proof -
  let ?g = "length gapRows" and ?gb = "\<lambda>i. gapBlock P (fcinv ! i) (fst (gapRows ! i))"
  have gc: "length gapCols = ?g" "distinct gapCols" "\<forall>c\<in>set gapCols. c < mDenseSize P"
    using cols strict_sorted_iff by (auto simp: gapChoice_def)
  have "q \<noteq> [] \<Longrightarrow> struct_ok P q" using off p(1) by auto
  from getX2Prime_ok [OF F X D this] obtain xx where xx: "getX2Prime h P fcinv gapRows gapCols X q = Inr xx" "length xx = ?g" "set xx \<subseteq> V"
    "\<forall>i<?g. \<forall>t\<in>I. crd t (xx ! i) = crd t (X ! fst (gapRows ! i)) + (\<Sum>j\<leftarrow>fcinv ! i. crd t (X ! j)) +
      (if q = [] then 0 else \<Sum>k | k < mDenseSize P \<and> k \<notin> set gapCols. bitGF (bit (?gb i) k) * crd t (q ! (mSparseSize P + k)))" by blast
  note sol = DenseMtx_invert_solves [OF Inv(1) is_mtx_gapE [OF gc(1)] Inv(2)]
  from gapSolveBinary_ok [OF sol(1) xx(2,3) p(1) gc] obtain p' where p': "gapSolveBinary h P gapCols Inv xx p = Inr p'" "struct_ok P p'"
    "\<forall>c<mSparseSize P. p' ! c = p ! c" "\<forall>k<mDenseSize P. k \<notin> set gapCols \<longrightarrow> p' ! (mSparseSize P + k) = p ! (mSparseSize P + k)"
    "\<forall>i<?g. \<forall>t\<in>I. crd t (p' ! (mSparseSize P + gapCols ! i)) =
       crd t (p ! (mSparseSize P + gapCols ! i)) + dotb (Inv ! i) (\<lambda>j. crd t (xx ! j))" by blast
  have "gapSolved P X p' (gapRows ! i) (fcinv ! i)" if i: "i < ?g" for i
    unfolding gapSolved_def
  proof
    fix t assume t: "t \<in> I"
    let ?x = "\<lambda>c. crd t (p' ! c)" and ?v = "\<lambda>k. crd t (p' ! (mSparseSize P + gapCols ! k))"
    let ?c = "\<lambda>k. bitGF (bit (?gb i) k) * crd t (p' ! (mSparseSize P + k))"
    have "crd t (p ! (mSparseSize P + gapCols ! r)) = 0" if "r < ?g" for r
    proof -
      have "gapCols ! r \<in> set gapCols" using gc(1) that by simp
      from p(2) [rule_format, OF this t] show ?thesis by (simp only: add.commute)
    qed
    then have "\<forall>r<?g. ?v r = dotb (Inv ! r) (\<lambda>j. crd t (xx ! j))" using p'(5) t by simp
    with sol(2) [of ?v "\<lambda>j. crd t (xx ! j)"] i have solved: "dotb (gapE P fcinv gapRows gapCols ! i) ?v = crd t (xx ! i)" by simp
    have row: "gapE P fcinv gapRows gapCols ! i = map (bit (?gb i)) gapCols" using i by (simp add: gapE_def)
    have "dotb (map (bit (?gb i)) gapCols) ?v = (\<Sum>k<length gapCols. ?c (gapCols ! k))"
      unfolding dotb_bitGF [OF length_map] by (intro sum.cong refl) simp
    also have "\<dots> = (\<Sum>c\<leftarrow>gapCols. ?c c)" by (simp add: sum_list_sum_nth atLeast0LessThan)
    also have "\<dots> = (\<Sum>c\<in>set gapCols. ?c c)" using gc(2) by (rule sum_list_distinct_conv_sum_set)
    finally have on: "(\<Sum>c\<in>set gapCols. ?c c) = crd t (xx ! i)" using solved row by simp
    have rest: "(\<Sum>k | k < mDenseSize P \<and> k \<notin> set gapCols. ?c k) =
        (if q = [] then 0 else \<Sum>k | k < mDenseSize P \<and> k \<notin> set gapCols. bitGF (bit (?gb i) k) * crd t (q ! (mSparseSize P + k)))"
      using off
    proof
      assume "q = p"
      moreover have "q \<noteq> []" if "q = p" using struct_okD(1) [OF p(1)] nz that by auto
      ultimately show ?thesis using p'(4) by (auto intro: sum.cong)
    next
      assume "q = [] \<and> (\<forall>k<mDenseSize P. k \<notin> set gapCols \<longrightarrow> (\<forall>t\<in>I. crd t (p ! (mSparseSize P + k)) = 0))"
      with p'(4) t show ?thesis by (simp add: sum.neutral)
    qed
    have "{..<mDenseSize P} = set gapCols \<union> {k. k < mDenseSize P \<and> k \<notin> set gapCols}" using gc(3) by auto
    then have "denseSum P (?gb i) ?x = (\<Sum>c\<in>set gapCols. ?c c) + (\<Sum>k | k < mDenseSize P \<and> k \<notin> set gapCols. ?c k)"
      unfolding denseSum_def denseCoef_def dt DenseType.case by (simp only:) (rule sum.union_disjoint, auto)
    also have "\<dots> = crd t (X ! fst (gapRows ! i)) + (\<Sum>j\<leftarrow>fcinv ! i. crd t (X ! j))"
      using xx(4) i t unfolding on rest by (simp only: gf_cancel)
    finally show "denseSum P (mDense P ! fst (gapRows ! i)) ?x + (\<Sum>j\<leftarrow>fcinv ! i. denseSum P (mDense P ! j) ?x) =
        crd t (X ! fst (gapRows ! i)) + (\<Sum>j\<leftarrow>fcinv ! i. crd t (X ! j))"
      unfolding denseSum_gapBlock [OF dt] .
  qed
  then have "list_all2 (gapSolved P X p') gapRows fcinv" using F by (simp add: list_all2_conv_all_nth fcinv_ok_def)
  with xx(1) p' show ?thesis by blast
qed

lemma gapBinary_ok:
  assumes M: "main_ok P mainRows mainCols" and G: "gaps_ok P mainRows gapRows" and dt: "mDt P = Binary"
    and g: "gapRows \<noteq> []" "comb_ok (mDenseSize P) (length gapRows)" "mDenseSize P \<le> 128"
    and X: "input_vec P X" and p: "struct_ok P p" "denseZero P p"
  shows "gapBinary h P mainRows mainCols gapRows X p prng = Inl (RuntimeError ''failed to find invertible matrix. '') \<and>
      (\<exists>fcinv. getFCInv P mainRows mainCols gapRows = Inr fcinv \<and>
        (\<forall>cols. gapChoice P gapRows cols \<longrightarrow> \<not> gapInvertible P fcinv gapRows cols)) \<or>
    (\<exists>gapCols p' prng'. gapBinary h P mainRows mainCols gapRows X p prng = Inr (gapCols, p', prng') \<and>
      (prng' = None \<longleftrightarrow> prng = None) \<and> gapStep P mainRows mainCols gapRows X p p' \<and> maskedCols P prng gapCols p')"
proof -
  obtain fcinv where fc: "getFCInv P mainRows mainCols gapRows = Inr fcinv" "list_all2 (fcRow_ok P mainRows mainCols) gapRows fcinv"
    using getFCInv_ok [OF M G] by blast
  have F: "fcinv_ok P fcinv gapRows" using fc(2) M G by (rule fcinv_okI)
  from getGapCols_ok [OF F g(2,3,1)] show ?thesis
  proof (elim disjE exE conjE)
    fix gapCols assume gc: "getGapCols P fcinv gapRows = Inr gapCols" "gapChoice P gapRows gapCols" "gapInvertible P fcinv gapRows gapCols"
    obtain Inv where Inv: "DenseMtx_invert (gapE P fcinv gapRows gapCols) = Inr Inv" "Inv \<noteq> []"
      using gc(3) by (auto simp: gapInvertible_def)
    have cols: "distinct gapCols" "\<forall>c\<in>set gapCols. c < mDenseSize P" "\<forall>c\<in>set gapCols. c < 128"
      using gc(2) g(3) strict_sorted_iff by (auto simp: gapChoice_def)
    have E: "getEPrime P fcinv gapRows gapCols = Inr (gapE P fcinv gapRows gapCols)" using F cols(3) by (rule gapMtx_ok(2))
    have nz: "0 < paxos_size P" using main_okD(2) [OF M] by (simp add: size_ok_def paxos_size_def)
    obtain p1 prng1 where r: "(case prng of None \<Rightarrow> Inr (p, None)
            | Some s \<Rightarrow> rbind (randomizeDenseCols h P gapCols (p, s)) (\<lambda>(p, s). Inr (p, Some s))) = Inr (p1, prng1)"
      "struct_ok P p1" "\<forall>c<mSparseSize P. p1 ! c = p ! c" "\<forall>k\<in>set gapCols. p1 ! (k + mSparseSize P) = p ! (k + mSparseSize P)"
      "prng1 = None \<longleftrightarrow> prng = None" "prng = None \<longrightarrow> p1 = p"
    proof (cases prng)
      case None
      then show thesis using that [of p None] p(1) by simp
    next
      case (Some s)
      obtain p' s' where "randomizeDenseCols h P gapCols (p, s) = Inr (p', s')" "struct_ok P p'"
        "\<forall>c<mSparseSize P. p' ! c = p ! c" "\<forall>k\<in>set gapCols. p' ! (k + mSparseSize P) = p ! (k + mSparseSize P)"
        using randomizeDenseCols_ok [OF p(1)] by blast
      then show thesis using that [of p' "Some s'"] Some by simp
    qed
    have z: "\<forall>k\<in>set gapCols. \<forall>t\<in>I. crd t (p1 ! (k + mSparseSize P)) = 0"
      using r(4) p(2) cols(2) by (simp add: denseZero_def add.commute)
    let ?q = "if prng1 = None then [] else p1"
    have "?q = p1 \<or> ?q = [] \<and> (\<forall>k<mDenseSize P. k \<notin> set gapCols \<longrightarrow> (\<forall>t\<in>I. crd t (p1 ! (mSparseSize P + k)) = 0))"
      using r(5,6) p(2) by (auto simp: denseZero_def)
    from gapBinary_solved [OF F dt X g(3) gc(2) Inv r(2) z this nz] obtain xx p' where
      s: "getX2Prime h P fcinv gapRows gapCols X ?q = Inr xx" "gapSolveBinary h P gapCols Inv xx p1 = Inr p'"
      "struct_ok P p'" "\<forall>c<mSparseSize P. p' ! c = p1 ! c"
      "\<forall>k<mDenseSize P. k \<notin> set gapCols \<longrightarrow> p' ! (mSparseSize P + k) = p1 ! (mSparseSize P + k)"
      "list_all2 (gapSolved P X p') gapRows fcinv" by blast
    have "gapBinary h P mainRows mainCols gapRows X p prng = Inr (gapCols, p', prng1)"
      unfolding gapBinary_def fc(1) gc(1) rbind_simps r(1) prod.case s(1) E Inv(1) s(2) ..
    moreover have "gapStep P mainRows mainCols gapRows X p p'" using s(3,4,6) r(3) fc(1) by (simp add: gapStep_def)
    moreover have "maskedCols P prng gapCols p'" using cols(1,2) s(5) r(6) p(2) by (auto simp: maskedCols_def denseZero_def)
    ultimately show ?thesis using r(5) by blast
  qed (use fc(1) in \<open>simp add: gapBinary_def\<close>)
qed

lemma randomizeDense_ok:
  assumes p: "struct_ok P p"
  shows "\<exists>p' s'. randomizeDense h P (p, s) = (p', s') \<and> struct_ok P p' \<and> (\<forall>c<mSparseSize P. p' ! c = p ! c)"
proof -
  let ?f = "\<lambda>i (p, s). let (v, s) = hRandomize h s in (p[mSparseSize P + i := v], s)"
  have "\<exists>p' s'. fold ?f [0..<n] (p, s) = (p', s') \<and> struct_ok P p' \<and> (\<forall>c<mSparseSize P. p' ! c = p ! c)" for n
  proof (induction n)
    case (Suc n)
    then obtain p1 s1 where IH: "fold ?f [0..<n] (p, s) = (p1, s1)" "struct_ok P p1" "\<forall>c<mSparseSize P. p1 ! c = p ! c" by auto
    obtain v s2 where v: "hRandomize h s1 = (v, s2)" by fastforce
    then have "v \<in> V" using randomize_V [of s1] by simp
    from struct_ok_update [OF IH(2) this, of "mSparseSize P + n"] IH v show ?case
      by (intro exI [of _ "p1[mSparseSize P + n := v]"] exI [of _ s2]) simp
  qed (use p in simp)
  then show ?thesis by (simp add: randomizeDense_def)
qed

text \<open>The result of the back substitution: every diagonal row holds, and every gap row holds up
  to its part off the diagonal.\<close>

definition backfilled :: "'e paxos_scheme \<Rightarrow> nat list \<Rightarrow> nat list \<Rightarrow> (nat \<times> nat) list \<Rightarrow> 'a list \<Rightarrow> 'a list \<Rightarrow> 'a list \<Rightarrow> bool" where
  "backfilled P mainRows mainCols gapRows X p p' \<longleftrightarrow> struct_ok P p' \<and> (\<forall>c<mSparseSize P. c \<notin> set mainCols \<longrightarrow> p' ! c = p ! c) \<and>
     (\<forall>r\<in>set mainRows. sat P X p' r) \<and>
     list_all2 (\<lambda>gap js. fcRow_ok P mainRows mainCols gap js \<and>
       (\<forall>t\<in>I. rowSum P (mRows P ! fst gap) (mDense P ! fst gap) (\<lambda>c. crd t (p' ! c)) =
          crd t (X ! fst gap) + freeSum P mainCols (fst gap) js (\<lambda>c. crd t (p' ! c))))
       gapRows (projr (getFCInv P mainRows mainCols gapRows))"

lemma backfilledI:
  assumes M: "main_ok P mainRows mainCols" and G: "gaps_ok P mainRows gapRows" and gap: "gapStep P mainRows mainCols gapRows X p p1"
    and p2: "struct_ok P p2" "\<forall>c<paxos_size P. c \<notin> set mainCols \<longrightarrow> p2 ! c = p1 ! c" "\<forall>r\<in>set mainRows. sat P X p2 r"
  shows "backfilled P mainRows mainCols gapRows X p p2"
proof -
  obtain fcinv where fc: "getFCInv P mainRows mainCols gapRows = Inr fcinv" "list_all2 (fcRow_ok P mainRows mainCols) gapRows fcinv"
    using getFCInv_ok [OF M G] by blast
  have g: "list_all2 (gapSolved P X p1) gapRows fcinv" "\<forall>c<mSparseSize P. p1 ! c = p ! c"
    using gap fc(1) by (auto simp: gapStep_def)
  have "mSparseSize P + k \<notin> set mainCols" for k using M by (auto simp: main_ok_def)
  then have ds: "denseSum P d (\<lambda>c. crd t (p2 ! c)) = denseSum P d (\<lambda>c. crd t (p1 ! c))" for d t
    unfolding denseSum_def using p2(2) by (intro sum.cong) (simp_all add: paxos_size_def)
  have "rowSum P (mRows P ! fst gap) (mDense P ! fst gap) (\<lambda>c. crd t (p2 ! c)) =
      crd t (X ! fst gap) + freeSum P mainCols (fst gap) js (\<lambda>c. crd t (p2 ! c))"
    if f: "fcRow_ok P mainRows mainCols gap js" and s: "gapSolved P X p1 gap js" and t: "t \<in> I" for gap js t
    using f
  proof (rule gap_residual)
    fix j assume "j \<in> set js"
    then have "j \<in> set mainRows" using f by (auto simp: fcRow_ok_def)
    then show "rowSum P (mRows P ! j) (mDense P ! j) (\<lambda>c. crd t (p2 ! c)) = crd t (X ! j)" using p2(3) t by (simp add: sat_def)
  next
    show "denseSum P (mDense P ! fst gap) (\<lambda>c. crd t (p2 ! c)) + (\<Sum>j\<leftarrow>js. denseSum P (mDense P ! j) (\<lambda>c. crd t (p2 ! c))) =
        crd t (X ! fst gap) + (\<Sum>j\<leftarrow>js. crd t (X ! j))" using s t unfolding ds by (simp add: gapSolved_def)
  qed
  then have "list_all2 (\<lambda>gap js. fcRow_ok P mainRows mainCols gap js \<and>
       (\<forall>t\<in>I. rowSum P (mRows P ! fst gap) (mDense P ! fst gap) (\<lambda>c. crd t (p2 ! c)) =
          crd t (X ! fst gap) + freeSum P mainCols (fst gap) js (\<lambda>c. crd t (p2 ! c)))) gapRows fcinv"
    using fc(2) g(1) by (auto simp: list_all2_conv_all_nth)
  moreover have "\<forall>c<mSparseSize P. c \<notin> set mainCols \<longrightarrow> p2 ! c = p ! c" using p2(2) g(2) by (simp add: paxos_size_def)
  ultimately show ?thesis using p2(1,3) fc(1) by (simp add: backfilled_def)
qed

text \<open>No gap: nothing has to be solved.\<close>

lemma gapStep_Nil: "struct_ok P p' \<Longrightarrow> \<forall>c<mSparseSize P. p' ! c = p ! c \<Longrightarrow> gapStep P mainRows mainCols [] X p p'"
  by (simp add: gapStep_def getFCInv_def)

lemma noGap_ok:
  assumes p: "struct_ok P p"
  shows "\<exists>p' prng'. (case prng of None \<Rightarrow> (p, None) | Some s \<Rightarrow> (let (p, s) = randomizeDense h P (p, s) in (p, Some s))) = (p', prng') \<and>
    gapStep P mainRows mainCols [] X p p' \<and> (prng' = None \<longleftrightarrow> prng = None) \<and> (prng = None \<longrightarrow> p' = p)"
proof (cases prng)
  case None
  with p show ?thesis by (simp add: gapStep_Nil)
next
  case (Some s)
  from randomizeDense_ok [OF p, of s] obtain p' s' where "randomizeDense h P (p, s) = (p', s')" "struct_ok P p'"
    "\<forall>c<mSparseSize P. p' ! c = p ! c" by blast
  with Some show ?thesis by (simp add: gapStep_Nil)
qed

definition start_ok :: "'e paxos_scheme \<Rightarrow> nat list \<Rightarrow> 'a list \<Rightarrow> bool" where
  "start_ok P mainCols p \<longleftrightarrow> struct_ok P p \<and> denseZero P p \<and> (\<forall>c\<in>set mainCols. \<forall>t\<in>I. crd t (p ! c) = 0)"

lemma backfillGf128_ok:
  assumes M: "main_ok P mainRows mainCols" and G: "gaps_ok P mainRows gapRows" and dt: "dt = GF128" "mDt P = GF128"
    and D: "0 < mDenseSize P" and X: "input_vec P X" and p: "start_ok P mainCols p" and rnd: "draws_ok rndBlocks"
  shows "(if mDenseSize P < length gapRows then backfillGf128 h rndBlocks P mainRows mainCols gapRows X p prng = Inl RTE_LOC
    else gapRows \<noteq> [] \<and> backfillGf128 h rndBlocks P mainRows mainCols gapRows X p prng = Inl (RuntimeError ''E' not invertable. '') \<or>
      (\<exists>p' prng'. backfillGf128 h rndBlocks P mainRows mainCols gapRows X p prng = Inr (p', prng') \<and>
        backfilled P mainRows mainCols gapRows X p p'))"
proof (cases "mDenseSize P < length gapRows")
  case True
  then show ?thesis using dt by (simp add: backfillGf128_def)
next
  case False
  have P: "struct_ok P p" "denseZero P p" "\<forall>c\<in>set mainCols. \<forall>t\<in>I. crd t (p ! c) = 0" using p by (auto simp: start_ok_def)
  note rows = main_okD(1) [OF M]
  let ?gap = "if gapRows \<noteq> [] then gapGf128 h rndBlocks P mainRows mainCols gapRows X p prng
              else Inr (case prng of None \<Rightarrow> (p, None)
                        | Some s \<Rightarrow> (let (p, s) = randomizeDense h P (p, s) in (p, Some s)))"
  have "gapRows \<noteq> [] \<and> ?gap = Inl (RuntimeError ''E' not invertable. '') \<or>
    (\<exists>p1 prng1. ?gap = Inr (p1, prng1) \<and> gapStep P mainRows mainCols gapRows X p p1 \<and> (prng1 = None \<longleftrightarrow> prng = None) \<and>
      (gapRows = [] \<and> prng = None \<longrightarrow> p1 = p))"
  proof (cases "gapRows = []")
    case True
    with noGap_ok [OF P(1), of prng mainRows mainCols X] show ?thesis by auto
  next
    case gap: False
    have "length gapRows \<le> mDenseSize P" using False by simp
    from gapGf128_ok [OF M G dt gap this X P(1,2) rnd, of prng] gap show ?thesis by auto
  qed
  then show ?thesis
  proof (elim disjE exE conjE)
    assume "gapRows \<noteq> []" "?gap = Inl (RuntimeError ''E' not invertable. '')"
    with False dt show ?thesis by (simp add: backfillGf128_def)
  next
    fix p1 prng1 assume g: "?gap = Inr (p1, prng1)" "gapStep P mainRows mainCols gapRows X p p1" "prng1 = None \<longleftrightarrow> prng = None"
      "gapRows = [] \<and> prng = None \<longrightarrow> p1 = p"
    have p1: "struct_ok P p1" "\<forall>c<mSparseSize P. p1 ! c = p ! c" using g(2) by (auto simp: gapStep_def)
    let ?sparse = "if mWeight P = 3 then backfill_sparse3 h P X else backfill_sparse h P X"
    let ?dense = "gf128_dense h P (gapRows \<noteq> [] \<or> prng1 \<noteq> None)"
    have S: "sparseStep P X ?sparse" using backfill_sparse_ok [OF rows X] by simp
    have Dn: "denseStep P p1 ?dense"
    proof (cases "gapRows \<noteq> [] \<or> prng1 \<noteq> None")
      case True
      with gf128_dense_ok [OF rows dt D] show ?thesis by simp
    next
      case False
      with g(3,4) P(2) have "\<forall>k<mDenseSize P. \<forall>t\<in>I. crd t (p1 ! (mSparseSize P + k)) = 0" by (simp add: denseZero_def)
      moreover have "?dense = (\<lambda>i p y. Inr y)" using False by (intro ext) (simp add: gf128_dense_def)
      ultimately show ?thesis using dense_skip by simp
    qed
    have "\<forall>c\<in>set mainCols. \<forall>t\<in>I. crd t (p1 ! c) = 0" using P(3) p1(2) M by (auto simp: main_ok_def subset_iff)
    from backfill_rows_ok [OF M S Dn X p1(1) this] obtain p2 where
      p2: "foldr_res (backfill_row ?sparse ?dense mainRows mainCols) [0..<length mainRows] p1 = Inr p2" "struct_ok P p2"
      "\<forall>c<paxos_size P. c \<notin> set mainCols \<longrightarrow> p2 ! c = p1 ! c" "\<forall>r\<in>set mainRows. sat P X p2 r" by blast
    have "\<not> length gapRows > mDenseSize P" using False .
    then have "backfillGf128 h rndBlocks P mainRows mainCols gapRows X p prng = Inr (p2, prng1)"
      unfolding backfillGf128_def g(1) rbind_simps prod.case p2(1) using dt(2) by simp
    with backfilledI [OF M G g(2) p2(2-4)] False show ?thesis by auto
  qed
qed

lemma denseMasks_ok: "\<forall>c\<in>set cols. c < 64 \<Longrightarrow> mapr denseMask cols = Inr (map (\<lambda>c. push_bit c 1) cols)"
  by (rule mapr_pure) (simp add: denseMask_def)

lemma backfillBinary_ok:
  assumes M: "main_ok P mainRows mainCols" and G: "gaps_ok P mainRows gapRows" and dt: "mDt P = Binary"
    and D: "mDenseSize P \<le> 64" "\<And>g. 0 < g \<Longrightarrow> g \<le> mG P \<Longrightarrow> comb_ok (mDenseSize P) g"
    and X: "input_vec P X" and p: "start_ok P mainCols p"
  shows "(if mG P < length gapRows then backfillBinary h P mainRows mainCols gapRows X p prng = Inl RTE_LOC
    else gapRows \<noteq> [] \<and> backfillBinary h P mainRows mainCols gapRows X p prng = Inl (RuntimeError ''failed to find invertible matrix. '') \<and>
        (\<forall>cols. gapChoice P gapRows cols \<longrightarrow> \<not> gapInvertible P (projr (getFCInv P mainRows mainCols gapRows)) gapRows cols) \<or>
      (\<exists>p' prng'. backfillBinary h P mainRows mainCols gapRows X p prng = Inr (p', prng') \<and>
        backfilled P mainRows mainCols gapRows X p p'))"
proof (cases "mG P < length gapRows")
  case True
  then show ?thesis by (simp add: backfillBinary_def)
next
  case False
  have P: "struct_ok P p" "denseZero P p" "\<forall>c\<in>set mainCols. \<forall>t\<in>I. crd t (p ! c) = 0" using p by (auto simp: start_ok_def)
  note rows = main_okD(1) [OF M]
  let ?gap = "if gapRows \<noteq> [] then gapBinary h P mainRows mainCols gapRows X p prng
               else Inr (case prng of None \<Rightarrow> ([], p, None)
                         | Some s \<Rightarrow> (let (p, s) = randomizeDense h P (p, s) in ([], p, Some s)))"
  have "gapRows \<noteq> [] \<and> ?gap = Inl (RuntimeError ''failed to find invertible matrix. '') \<and>
      (\<forall>cols. gapChoice P gapRows cols \<longrightarrow> \<not> gapInvertible P (projr (getFCInv P mainRows mainCols gapRows)) gapRows cols) \<or>
    (\<exists>gapCols p1 prng1. ?gap = Inr (gapCols, p1, prng1) \<and> gapStep P mainRows mainCols gapRows X p p1 \<and> (prng1 = None \<longleftrightarrow> prng = None) \<and>
      maskedCols P prng gapCols p1)"
  proof (cases "gapRows = []")
    case True
    from noGap_ok [OF P(1), of prng mainRows mainCols X] obtain p1 prng1 where
      n: "(case prng of None \<Rightarrow> (p, None) | Some s \<Rightarrow> (let (p, s) = randomizeDense h P (p, s) in (p, Some s))) = (p1, prng1)"
      "gapStep P mainRows mainCols [] X p p1" "prng1 = None \<longleftrightarrow> prng = None" "prng = None \<longrightarrow> p1 = p" by blast
    have "?gap = Inr ([], p1, prng1)" using True n(1) by (auto split: option.splits prod.splits)
    moreover have "maskedCols P prng [] p1" using n(4) P(2) by (auto simp: maskedCols_def denseZero_def)
    ultimately show ?thesis using True n(2,3) by blast
  next
    case gap: False
    have "comb_ok (mDenseSize P) (length gapRows)" using False gap by (intro D(2)) simp_all
    from gapBinary_ok [OF M G dt gap this _ X P(1,2), of prng] D(1) gap show ?thesis by auto
  qed
  then show ?thesis
  proof (elim disjE exE conjE)
    assume "gapRows \<noteq> []" "?gap = Inl (RuntimeError ''failed to find invertible matrix. '')"
      "\<forall>cols. gapChoice P gapRows cols \<longrightarrow> \<not> gapInvertible P (projr (getFCInv P mainRows mainCols gapRows)) gapRows cols"
    with False show ?thesis by (simp add: backfillBinary_def)
  next
    fix gapCols p1 prng1 assume g: "?gap = Inr (gapCols, p1, prng1)" "gapStep P mainRows mainCols gapRows X p p1"
      "prng1 = None \<longleftrightarrow> prng = None" "maskedCols P prng gapCols p1"
    have p1: "struct_ok P p1" "\<forall>c<mSparseSize P. p1 ! c = p ! c" using g(2) by (auto simp: gapStep_def)
    have cols: "distinct gapCols" "\<forall>c\<in>set gapCols. c < mDenseSize P" using g(4) by (auto simp: maskedCols_def)
    let ?masks = "map (\<lambda>c. push_bit c 1) gapCols"
    let ?dense = "binary_dense h P (prng1 \<noteq> None) ?masks gapCols"
    have Dn: "denseStep P p1 ?dense"
    proof (cases "prng1 = None")
      case True
      then have "\<forall>k<mDenseSize P. k \<notin> set gapCols \<longrightarrow> (\<forall>t\<in>I. crd t (p1 ! (mSparseSize P + k)) = 0)"
        using g(3,4) by (simp add: maskedCols_def)
      from binary_dense_masks_ok [OF rows dt D(1) cols this] show ?thesis using True by (simp only: simp_thms)
    next
      case False
      with binary_dense_prng_ok [OF rows dt D(1)] show ?thesis by simp
    qed
    have "\<forall>c\<in>set mainCols. \<forall>t\<in>I. crd t (p1 ! c) = 0" using P(3) p1(2) M by (auto simp: main_ok_def subset_iff)
    from backfill_rows_ok [OF M backfill_sparse_ok(1) [OF rows X] Dn X p1(1) this] obtain p2 where
      p2: "foldr_res (backfill_row (backfill_sparse h P X) ?dense mainRows mainCols) [0..<length mainRows] p1 = Inr p2" "struct_ok P p2"
      "\<forall>c<paxos_size P. c \<notin> set mainCols \<longrightarrow> p2 ! c = p1 ! c" "\<forall>r\<in>set mainRows. sat P X p2 r" by blast
    have "\<forall>c\<in>set gapCols. c < 64" using cols(2) D(1) by fastforce
    note masks = denseMasks_ok [OF this]
    have "backfillBinary h P mainRows mainCols gapRows X p prng = Inr (p2, prng1)"
      unfolding backfillBinary_def g(1) rbind_simps prod.case masks p2(1) using False by simp
    with backfilledI [OF M G g(2) p2(2-4)] False show ?thesis by auto
  qed
qed

lemma randomizeFree_ok:
  assumes r: "wd_rel (mIdxBits P) (mSparseSize P) L wd" and ne: "L 0 \<noteq> []" and p: "struct_ok P p"
  shows "\<exists>p' s'. randomizeFree h P wd (p, s) = Inr (p', s') \<and> struct_ok P p' \<and> (\<forall>c. c \<notin> set (L 0) \<longrightarrow> p' ! c = p ! c)"
proof -
  have inv: "wd_inv (mIdxBits P) (mSparseSize P) L wd" using r by (simp add: wd_rel_def)
  have l: "0 < length (mWeightSets wd)" using wd_invD(8) [OF inv, of 0] ne by (metis gr_zeroI le_refl)
  then have hd: "mWeightSets wd ! 0 = hd_opt (L 0)" by (rule wd_invD(7) [OF inv])
  let ?f = "\<lambda>c (p, s). rbind (at p c) (\<lambda>_. let (v, s) = hRandomize h s in Inr (p[c := v], s))"
  have "\<exists>p' s'. foldr_res ?f cs (p, s) = Inr (p', s') \<and> struct_ok P p' \<and> (\<forall>c. c \<notin> set cs \<longrightarrow> p' ! c = p ! c)"
    if "\<forall>c\<in>set cs. c < mSparseSize P" "struct_ok P p" for cs p s
    using that
  proof (induction cs arbitrary: p s)
    case (Cons c cs)
    obtain v s1 where v: "hRandomize h s = (v, s1)" by fastforce
    then have "v \<in> V" using randomize_V [of s] by simp
    from struct_ok_update [OF Cons.prems(2) this, of c] have "struct_ok P (p[c := v])" .
    from Cons.IH [OF _ this, of s1] Cons.prems(1) obtain p' s' where
      "foldr_res ?f cs (p[c := v], s1) = Inr (p', s')" "struct_ok P p'" "\<forall>e. e \<notin> set cs \<longrightarrow> p' ! e = p[c := v] ! e" by auto
    moreover have "c < length p" using struct_okD(4) [OF Cons.prems(2)] Cons.prems(1) by simp
    ultimately show ?case using v by auto
  qed simp
  note loop = this
  have "\<forall>c\<in>set (L 0). c < mSparseSize P" using wd_invD(5) [OF inv] by blast
  from loop [OF this p, of s] show ?thesis
    using l hd walk_bucket [OF inv, of 0] by (simp add: randomizeFree_def)
qed

text \<open>The state in which \<open>encode\<close> calls \<open>backfill\<close>.\<close>

lemma rowSum_wd [simp]: "rowSum (P\<lparr>mWeightData := wd\<rparr>) row d x = rowSum P row d x"
  by (simp add: rowSum_def)

lemma sat_wd [simp]: "sat (P\<lparr>mWeightData := wd\<rparr>) X p r \<longleftrightarrow> sat P X p r"
  by (simp add: sat_def)

lemma main_ok_wd:
  assumes "rows_ok P" "size_ok P" "tri_shape P t"
  shows "main_ok (P\<lparr>mWeightData := wd\<rparr>) (tMainRows t) (tMainCols t)" and "gaps_ok (P\<lparr>mWeightData := wd\<rparr>) (tMainRows t) (tGapRows t)"
proof -
  have "rows_ok (P\<lparr>mWeightData := wd\<rparr>)" "size_ok (P\<lparr>mWeightData := wd\<rparr>)" "tri_shape (P\<lparr>mWeightData := wd\<rparr>) t"
    using assms by (auto simp: rows_ok_def size_ok_def tri_shape_def)
  then show "main_ok (P\<lparr>mWeightData := wd\<rparr>) (tMainRows t) (tMainCols t)" by (rule main_okI)
  show "gaps_ok (P\<lparr>mWeightData := wd\<rparr>) (tMainRows t) (tGapRows t)" using tri_shape_gap [OF assms(3)] by (auto simp: gaps_ok_def)
qed

definition encode_ready :: "'e paxos_scheme \<Rightarrow> 'a list \<Rightarrow> bool" where
  "encode_ready P X \<longleftrightarrow> tri_ready P \<and> dt = mDt P \<and> 0 < mDenseSize P \<and> input_vec P X \<and>
     (dt = Binary \<longrightarrow> mDenseSize P \<le> 64 \<and> (\<forall>g. 0 < g \<longrightarrow> g \<le> mG P \<longrightarrow> comb_ok (mDenseSize P) g))"

text \<open>A finished encoding: the diagonal rows hold, the gap rows hold up to the random part, and
  every row holds without a random part or when all gap rows are duplicates.\<close>

definition encoded :: "'e paxos_scheme \<Rightarrow> 'a list \<Rightarrow> 'f option \<Rightarrow> tri_state \<Rightarrow> 'a list \<Rightarrow> bool" where
  "encoded P X prng t p \<longleftrightarrow> struct_ok P p \<and> (\<forall>i\<in>set (tMainRows t). sat P X p i) \<and>
     (\<forall>(r, q)\<in>set (tGapRows t). prng = None \<or> mRows P ! r = mRows P ! q \<longrightarrow> sat P X p r)"

lemma backfilled_encoded:
  assumes rows: "rows_ok P" and b: "backfilled (P\<lparr>mWeightData := wd\<rparr>) (tMainRows t) (tMainCols t) (tGapRows t) X p0 p"
    and zero: "prng = None \<longrightarrow> (\<forall>c<mSparseSize P. \<forall>u\<in>I. crd u (p0 ! c) = 0)" and sh: "tri_shape P t"
  shows "encoded P X prng t p"
proof -
  let ?P = "P\<lparr>mWeightData := wd\<rparr>"
  let ?fc = "projr (getFCInv ?P (tMainRows t) (tMainCols t) (tGapRows t))"
  have B: "struct_ok P p" "\<forall>c<mSparseSize P. c \<notin> set (tMainCols t) \<longrightarrow> p ! c = p0 ! c" "\<forall>i\<in>set (tMainRows t). sat P X p i"
    using b by (auto simp: backfilled_def struct_ok_def paxos_size_def)
  have g: "sat P X p r" if rq: "(r, q) \<in> set (tGapRows t)" and c: "prng = None \<or> mRows P ! r = mRows P ! q" for r q
  proof -
    obtain k where k: "k < length (tGapRows t)" "tGapRows t ! k = (r, q)" using rq by (auto simp: in_set_conv_nth)
    let ?js = "?fc ! k"
    have fr: "fcRow_ok ?P (tMainRows t) (tMainCols t) (r, q) ?js"
      "\<forall>u\<in>I. rowSum P (mRows P ! r) (mDense P ! r) (\<lambda>c. crd u (p ! c)) =
          crd u (X ! r) + freeSum ?P (tMainCols t) r ?js (\<lambda>c. crd u (p ! c))"
      using b k by (auto simp: backfilled_def list_all2_conv_all_nth)
    have N: "i < mNumItems P" if "i \<in> set (tMainRows t) \<or> i = r" for i
      using tri_shape_gap [OF sh rq] tri_shape_main [OF sh] that by blast
    have "freeSum ?P (tMainCols t) r ?js (\<lambda>c. crd u (p ! c)) = 0" if u: "u \<in> I" for u
    proof (cases "mRows P ! r = mRows P ! q")
      case True
      with freeSum_dup [OF fr(1)] show ?thesis by simp
    next
      case False
      have "rows_ok ?P" using rows by (simp add: rows_ok_def)
      moreover have "\<forall>j\<in>set ?js. j < mNumItems ?P" using fr(1) N by (auto simp: fcRow_ok_def)
      ultimately show ?thesis using False c zero u B(2) N by (intro freeSum_zero) simp_all
    qed
    with fr(2) show ?thesis by (simp add: sat_def)
  qed
  with B show ?thesis by (auto simp: encoded_def)
qed

lemma encode_ok:
  assumes ready: "encode_ready P X" and out: "length output = paxos_size P" and rnd: "draws_ok rndBlocks"
  shows "case triangulate P of
      Inl e \<Rightarrow> e = RTE_LOC \<and> encode h rndBlocks P X output prng = Inl RTE_LOC \<and> \<not> distinct (mDense P)
    | Inr t \<Rightarrow> tri_final P t \<and>
        (if gapLimit P < length (tGapRows t) then encode h rndBlocks P X output prng = Inl RTE_LOC
         else (\<exists>msg. tGapRows t \<noteq> [] \<and> encode h rndBlocks P X output prng = Inl (RuntimeError msg)) \<or>
           (\<exists>p prng'. encode h rndBlocks P X output prng = Inr (P\<lparr>mWeightData := tWD t\<rparr>, p, prng') \<and> encoded P X prng t p))"
proof -
  have E: "tri_ready P" "dt = mDt P" "0 < mDenseSize P" "input_vec P X"
    and bin: "dt = Binary \<longrightarrow> mDenseSize P \<le> 64 \<and> (\<forall>g. 0 < g \<longrightarrow> g \<le> mG P \<longrightarrow> comb_ok (mDenseSize P) g)"
    using ready unfolding encode_ready_def by blast+
  have rows: "rows_ok P" "size_ok P" "mNumItems P + 2 \<le> mSparseSize P" using E(1) by (auto simp: tri_ready_def)
  from triangulate_ok [OF E(1)] show ?thesis
  proof (elim disjE exE conjE)
    assume t: "triangulate P = Inl RTE_LOC" and "\<not> distinct (mDense P)"
    with out show ?thesis by (simp add: encode_def)
  next
    fix t assume t: "triangulate P = Inr t" and fin: "tri_final P t"
    let ?P = "P\<lparr>mWeightData := tWD t\<rparr>" and ?out = "map (\<lambda>_. hZero h) output"
    have sh: "tri_shape P t" using fin by (simp add: tri_final_def)
    note M = main_ok_wd [OF rows(1,2) sh, of "tWD t"]
    obtain L where L: "wd_rel (mIdxBits P) (mSparseSize P) L (tWD t)" "set (L 0) = {..<mSparseSize P} - set (tMainCols t)"
      using fin by (auto simp: tri_final_def)
    have o: "struct_ok ?P ?out" using out zero_V by (auto simp: struct_ok_def paxos_size_def)
    have oz: "crd u (?out ! c) = 0" if "c < paxos_size P" "u \<in> I" for c u using that out crd_zero by simp
    obtain p0 prng0 where r: "(case prng of None \<Rightarrow> Inr (?out, None)
        | Some s \<Rightarrow> rbind (randomizeFree h ?P (tWD t) (?out, s)) (\<lambda>(p, s). Inr (p, Some s))) = Inr (p0, prng0)"
      "struct_ok ?P p0" "\<forall>c. c \<notin> set (L 0) \<longrightarrow> p0 ! c = ?out ! c" "prng = None \<longrightarrow> p0 = ?out"
    proof (cases prng)
      case None
      then show thesis using that [of ?out None] o by simp
    next
      case (Some s)
      have "length (tMainCols t) \<le> mNumItems P" using shape_bound [OF sh] by simp
      then have small: "card (set (tMainCols t)) < card {..<mSparseSize P}" using rows(3) card_length [of "tMainCols t"] by simp
      have "\<not> {..<mSparseSize P} \<subseteq> set (tMainCols t)"
      proof
        assume "{..<mSparseSize P} \<subseteq> set (tMainCols t)"
        then have "card {..<mSparseSize P} \<le> card (set (tMainCols t))" by (intro card_mono) simp_all
        with small show False by linarith
      qed
      then have "set (L 0) \<noteq> {}" unfolding L(2) Diff_eq_empty_iff .
      then have "L 0 \<noteq> []" unfolding set_empty .
      moreover have "wd_rel (mIdxBits ?P) (mSparseSize ?P) L (tWD t)" using L(1) by simp
      ultimately obtain p0 s' where "randomizeFree h ?P (tWD t) (?out, s) = Inr (p0, s')" "struct_ok ?P p0"
        "\<forall>c. c \<notin> set (L 0) \<longrightarrow> p0 ! c = ?out ! c" using randomizeFree_ok [OF _ _ o] by blast
      then show thesis using that [of p0 "Some s'"] Some by simp
    qed
    have "c < paxos_size P \<and> c \<notin> set (L 0)" if "c \<in> set (tMainCols t)" for c
      using M(1) L(2) that by (auto simp: main_ok_def paxos_size_def)
    then have "\<forall>c\<in>set (tMainCols t). \<forall>u\<in>I. crd u (p0 ! c) = 0" using r(3) oz by simp
    moreover have "denseZero ?P p0" using r(3) oz L(2) by (simp add: denseZero_def paxos_size_def)
    ultimately have S: "start_ok ?P (tMainCols t) p0" using r(2) by (simp add: start_ok_def)
    have X: "input_vec ?P X" using E(4) by (simp add: input_vec_def)
    let ?b = "backfill h rndBlocks ?P (tMainRows t) (tMainCols t) (tGapRows t) X p0 prng0"
    have eq: "encode h rndBlocks P X output prng = rbind ?b (\<lambda>(output, prng). Inr (?P, output, prng))"
      unfolding encode_def t rbind_simps Let_def r(1) prod.case using out by simp
    have B: "if gapLimit P < length (tGapRows t) then ?b = Inl RTE_LOC
      else (\<exists>msg. tGapRows t \<noteq> [] \<and> ?b = Inl (RuntimeError msg)) \<or>
        (\<exists>p' prng'. ?b = Inr (p', prng') \<and> backfilled ?P (tMainRows t) (tMainCols t) (tGapRows t) X p0 p')"
    proof (cases "mDt P")
      case GF128
      have d: "dt = GF128" "mDt ?P = GF128" "0 < mDenseSize ?P" using GF128 E(2,3) by simp_all
      from backfillGf128_ok [OF M d X S rnd, of prng0] GF128 show ?thesis
        by (cases "mDenseSize P < length (tGapRows t)") (auto simp: backfill_def gapLimit_def)
    next
      case Binary
      have d: "mDt ?P = Binary" "mDenseSize ?P \<le> 64" "\<And>g. 0 < g \<Longrightarrow> g \<le> mG ?P \<Longrightarrow> comb_ok (mDenseSize ?P) g"
        using Binary E(2) bin by simp_all
      from backfillBinary_ok [OF M d X S, of prng0] Binary show ?thesis
        by (cases "mG P < length (tGapRows t)") (auto simp: backfill_def gapLimit_def)
    qed
    have zero: "prng = None \<longrightarrow> (\<forall>c<mSparseSize P. \<forall>u\<in>I. crd u (p0 ! c) = 0)"
      using r(4) oz by (simp add: paxos_size_def)
    show ?thesis
    proof (cases "gapLimit P < length (tGapRows t)")
      case True
      with B eq t fin show ?thesis by simp
    next
      case False
      with B have "(\<exists>msg. tGapRows t \<noteq> [] \<and> ?b = Inl (RuntimeError msg)) \<or>
        (\<exists>p' prng'. ?b = Inr (p', prng') \<and> backfilled ?P (tMainRows t) (tMainCols t) (tGapRows t) X p0 p')" by simp
      then show ?thesis
      proof (elim disjE exE conjE)
        fix msg assume "tGapRows t \<noteq> []" "?b = Inl (RuntimeError msg)"
        with False eq t fin show ?thesis by simp
      next
        fix p' prng' assume b: "?b = Inr (p', prng')" "backfilled ?P (tMainRows t) (tMainCols t) (tGapRows t) X p0 p'"
        from backfilled_encoded [OF rows(1) b(2) zero sh] False eq t fin b(1) show ?thesis by simp
      qed
    qed
  qed
qed

end

end
