(* ===== verification/Roundtrip.thy ===== *)
theory Roundtrip
  imports Encode
begin

section \<open>Encoding and decoding together\<close>

text \<open>
  What \<open>setInput\<close>, \<open>encode\<close> and \<open>decode\<close> of \<open>src/volePSI/PaxosImpl.h\<close> promise together: the encoded
  structure decodes every key to its value, for every element type the vectors support, an encoded
  object can encode again, and every way in which \<open>encode\<close> can fail is one of the documented
  exceptions.
\<close>

lemma decode1_wd [simp]: "decode1 h (P\<lparr>mWeightData := wd\<rparr>) row d p = decode1 h P row d p"
  by (cases "mDt P") (simp_all add: decode1_def cong: if_cong)

lemma keyRow_wd [simp]: "keyRow aesHash (P\<lparr>mWeightData := wd\<rparr>) x = keyRow aesHash P x"
  by (simp add: keyRow_def)

context px_values
begin

lemma sat_decode1:
  assumes "dt = mDt P" "rows_ok P" "i < mNumItems P" "0 < mWeight P" "0 < mDenseSize P" "dt = Binary \<Longrightarrow> mDenseSize P \<le> 128"
    and "struct_ok P p" "input_vec P X" "sat P X p i"
  shows "decode1 h P (mRows P ! i) (mDense P ! i) p = Inr (X ! i)"
proof -
  have p: "length p = paxos_size P" "set p \<subseteq> V" using assms(7) by (auto simp: struct_ok_def)
  from decode1_ok [OF assms(1) rows_okD(3) [OF assms(2,3)] assms(4) p assms(5,6), of "mDense P ! i"] obtain v where
    v: "v \<in> V" "decode1 h P (mRows P ! i) (mDense P ! i) p = Inr v"
    "\<forall>t\<in>I. crd t v = rowSum P (mRows P ! i) (mDense P ! i) (\<lambda>c. crd t (p ! c))" by blast
  have "X ! i \<in> V" using assms(3,8) by (auto simp: input_vec_def subset_iff)
  moreover have "crd t v = crd t (X ! i)" if "t \<in> I" for t using v(3) assms(9) that by (simp add: sat_def)
  ultimately have "v = X ! i" using crd_eq v(1) by blast
  with v(2) show ?thesis by simp
qed

text \<open>An encoding that decodes: always the diagonal rows, and all rows without a random part or
  with duplicated gap rows only.\<close>

definition decodes :: "'e paxos_scheme \<Rightarrow> 'a list \<Rightarrow> 'f option \<Rightarrow> tri_state \<Rightarrow> 'a list \<Rightarrow> bool" where
  "decodes P X prng t p \<longleftrightarrow> length p = paxos_size P \<and> set p \<subseteq> V \<and>
     (\<forall>i\<in>set (tMainRows t). decode1 h P (mRows P ! i) (mDense P ! i) p = Inr (X ! i)) \<and>
     (prng = None \<or> (\<forall>(r, q)\<in>set (tGapRows t). mRows P ! r = mRows P ! q) \<longrightarrow>
        (\<forall>i<mNumItems P. decode1 h P (mRows P ! i) (mDense P ! i) p = Inr (X ! i)))"

lemma encoded_decodes:
  assumes ready: "encode_ready P X" and fin: "tri_final P t" and e: "encoded P X prng t p"
  shows "decodes P X prng t p"
proof -
  have R: "rows_ok P" "0 < mWeight P" "dt = mDt P" "0 < mDenseSize P" "input_vec P X" and D: "dt = Binary \<Longrightarrow> mDenseSize P \<le> 128"
    using ready unfolding encode_ready_def tri_ready_def by auto
  have E: "struct_ok P p" "\<And>i. i \<in> set (tMainRows t) \<Longrightarrow> sat P X p i"
    "\<And>r q. (r, q) \<in> set (tGapRows t) \<Longrightarrow> prng = None \<or> mRows P ! r = mRows P ! q \<Longrightarrow> sat P X p r"
    using e by (auto simp: encoded_def)
  have sh: "tri_shape P t" and all: "set (tMainRows t @ map fst (tGapRows t)) = {..<mNumItems P}"
    using fin by (auto simp: tri_final_def)
  have dec: "decode1 h P (mRows P ! i) (mDense P ! i) p = Inr (X ! i)" if "i < mNumItems P" "sat P X p i" for i
    using sat_decode1 [OF R(3,1) that(1) R(2,4) D E(1) R(5) that(2)] .
  have "sat P X p i" if i: "i < mNumItems P" and c: "prng = None \<or> (\<forall>(r, q)\<in>set (tGapRows t). mRows P ! r = mRows P ! q)" for i
  proof -
    have "i \<in> set (tMainRows t) \<or> i \<in> fst ` set (tGapRows t)" using all i by auto
    then show ?thesis
    proof
      assume "i \<in> fst ` set (tGapRows t)"
      then obtain q where "(i, q) \<in> set (tGapRows t)" by auto
      with E(3) c show ?thesis by blast
    qed (rule E(2))
  qed
  with dec have "\<forall>i<mNumItems P. decode1 h P (mRows P ! i) (mDense P ! i) p = Inr (X ! i)"
    if "prng = None \<or> (\<forall>(r, q)\<in>set (tGapRows t). mRows P ! r = mRows P ! q)" using that by blast
  moreover have "\<forall>i\<in>set (tMainRows t). decode1 h P (mRows P ! i) (mDense P ! i) p = Inr (X ! i)"
    using dec E(2) tri_shape_main [OF sh] by blast
  moreover have "length p = paxos_size P" "set p \<subseteq> V" using E(1) by (auto simp: struct_ok_def)
  ultimately show ?thesis by (simp add: decodes_def)
qed

definition encode_outcome :: "(nat \<Rightarrow> 'b \<Rightarrow> block list \<times> 'b) \<Rightarrow> 'e paxos_scheme \<Rightarrow> 'a list \<Rightarrow> 'a list \<Rightarrow> 'b option \<Rightarrow> bool" where
  "encode_outcome rndBlocks P X output prng \<longleftrightarrow> (case triangulate P of
      Inl e \<Rightarrow> encode h rndBlocks P X output prng = Inl RTE_LOC \<and> \<not> distinct (mDense P)
    | Inr t \<Rightarrow>
        if gapLimit P < length (tGapRows t) then encode h rndBlocks P X output prng = Inl RTE_LOC
        else (\<exists>msg. tGapRows t \<noteq> [] \<and> encode h rndBlocks P X output prng = Inl (RuntimeError msg)) \<or>
          (\<exists>p prng'. encode h rndBlocks P X output prng = Inr (P\<lparr>mWeightData := tWD t\<rparr>, p, prng') \<and> decodes P X prng t p))"

lemma encode_outcome_ok:
  assumes "encode_ready P X" "length output = paxos_size P" "draws_ok rndBlocks"
  shows "encode_outcome rndBlocks P X output prng"
  using encode_ok [OF assms, of prng] encoded_decodes [OF assms(1)]
  by (fastforce simp: encode_outcome_def split: sum.splits if_splits)

text \<open>The key level: \<open>decode\<close> on the keys whose rows the structure was encoded for.\<close>

lemma decode_of_keys:
  assumes "decode_ok P p" "length X = length inputs" "length values = length inputs"
    and dec: "\<forall>l<length inputs. decodeKey aesHash h P p (inputs ! l) = Inr (X ! l)"
  shows "decode aesHash h P inputs values p = Inr (map2 (putValue h P) values X)"
proof -
  from decode_each [OF assms(1,3)] obtain out where out: "decode aesHash h P inputs values p = Inr out" "length out = length inputs"
    "\<forall>l<length inputs. \<exists>y. decodeKey aesHash h P p (inputs ! l) = Inr y \<and> out ! l = putValue h P (values ! l) y" by blast
  have "out = map2 (putValue h P) values X"
    using out(2,3) dec assms(2,3) by (intro nth_equalityI) auto
  with out(1) show ?thesis by simp
qed

definition roundtrips :: "(block \<Rightarrow> block \<Rightarrow> block) \<Rightarrow> (nat \<Rightarrow> 'b \<Rightarrow> block list \<times> 'b) \<Rightarrow> paxos \<Rightarrow> block list \<Rightarrow>
    'a list \<Rightarrow> 'a list \<Rightarrow> 'a list \<Rightarrow> bool" where
  "roundtrips aesHash rndBlocks P inputs X output vals \<longleftrightarrow> (\<exists>P'. setInput aesHash inputs P = Inr P' \<and>
     (case encode h rndBlocks P' X output (None :: 'b option) of
        Inl e \<Rightarrow> e = RTE_LOC \<or> (\<exists>msg. e = RuntimeError msg)
      | Inr (P'', p, prng') \<Rightarrow> decode aesHash h P'' inputs vals p = Inr (map2 (putValue h P) vals X)))"

lemma roundtrips_ok:
  assumes P: "hasher_ok P" "size_ok P" "0 < mWeight P" "mNumItems P + 2 \<le> mSparseSize P" "8 \<le> mIdxBits P" "length (mNodes (mWeightData P)) \<le> mSparseSize P"
    and dt: "dt = mDt P" "0 < mDenseSize P" "dt = Binary \<longrightarrow> mDenseSize P \<le> 64 \<and> (\<forall>g. 0 < g \<longrightarrow> g \<le> mG P \<longrightarrow> comb_ok (mDenseSize P) g)"
    and inp: "length inputs = mNumItems P" "distinct inputs" "\<forall>c<mSparseSize P. length (filter (\<lambda>x. c \<in> set (fst (keyRow aesHash P x))) inputs) < 200"
    and len: "input_vec P X" "length output = paxos_size P" "length vals = length inputs" and rnd: "draws_ok rndBlocks"
  shows "roundtrips aesHash rndBlocks P inputs X output vals"
proof -
  from setInput_ok [OF P(1,2) inp(1,2) P(6) inp(3)] obtain P' where
    P': "setInput aesHash inputs P = Inr P'" "input_ok P'" "mRows P' = map (\<lambda>x. fst (keyRow aesHash P x)) inputs"
      "mDense P' = map (\<lambda>x. snd (keyRow aesHash P x)) inputs"
    and same: "paxos_param.truncate P' = paxos_param.truncate P" "mNumItems P' = mNumItems P" "mIdxBits P' = mIdxBits P"
      "mHasher P' = mHasher P" "mSeed P' = mSeed P" "mAddToDecode P' = mAddToDecode P" by blast
  have prm: "mSparseSize P' = mSparseSize P" "mDenseSize P' = mDenseSize P" "mWeight P' = mWeight P" "mG P' = mG P" "mDt P' = mDt P"
    using same(1) by (auto simp: paxos_param.truncate_def)
  have hasher: "hasher_ok P'" using P(1) prm same(2-6) by (simp add: hasher_ok_def)
  have key: "keyRow aesHash P' = keyRow aesHash P" using same(3,4) by (simp add: keyRow_def)
  have ready: "tri_ready P'"
    using P'(2,3) P(3-5) prm same(2,3) inp(3) by (simp add: tri_ready_def input_ok_def colRows_keys)
  then have eready: "encode_ready P' X" using dt len(1) prm same(2) unfolding encode_ready_def input_vec_def by simp
  have out: "length output = paxos_size P'" using len(2) prm by (simp add: paxos_size_def)
  have "decode aesHash h P'' inputs vals p = Inr (map2 (putValue h P) vals X)"
    if e: "encode h rndBlocks P' X output (None :: 'b option) = Inr (P'', p, prng')" for P'' p prng'
  proof -
    have "\<exists>t. P'' = P'\<lparr>mWeightData := tWD t\<rparr> \<and> tri_final P' t \<and> encoded P' X (None :: 'b option) t p"
      using encode_ok [OF eready out rnd, of None] e by (cases "triangulate P'") (fastforce split: if_splits)+
    then obtain t where t: "P'' = P'\<lparr>mWeightData := tWD t\<rparr>" "tri_final P' t" "encoded P' X (None :: 'b option) t p" by blast
    from encoded_decodes [OF eready t(2,3)] have d: "length p = paxos_size P'" "set p \<subseteq> V"
      "\<forall>i<mNumItems P'. decode1 h P' (mRows P' ! i) (mDense P' ! i) p = Inr (X ! i)" by (auto simp: decodes_def)
    have k: "decodeKey aesHash h P'' p (inputs ! l) = Inr (X ! l)" if "l < length inputs" for l
      using d(3) that P'(3,4) inp(1) same(2) key by (simp add: decodeKey_def t(1) case_prod_beta)
    have "decode_ok P'' p" using hasher d(1,2) dt P(3) prm unfolding decode_ok_def t(1) hasher_ok_def paxos_size_def by simp
    from decode_of_keys [OF this _ len(3), of X aesHash] k len(1) inp(1) have "decode aesHash h P'' inputs vals p = Inr (map2 (putValue h P'') vals X)"
      by (simp add: input_vec_def)
    moreover have "putValue h P'' = putValue h P" using same(6) by (simp add: putValue_def fun_eq_iff t(1) same(6))
    ultimately show ?thesis by simp
  qed
  moreover have "e = RTE_LOC \<or> (\<exists>msg. e = RuntimeError msg)"
    if "encode h rndBlocks P' X output (None :: 'b option) = Inl e" for e
    using encode_ok [OF eready out rnd, of None] that by (auto split: sum.splits if_splits)
  ultimately show ?thesis unfolding roundtrips_def using P'(1) by (auto split: sum.splits)
qed

end

subsection \<open>The properties\<close>

text \<open>When the combinations of the binary encoder stay within 64 bits.\<close>

definition combs_ok :: "'a paxos_param_scheme \<Rightarrow> bool" where
  "combs_ok P \<longleftrightarrow> mDenseSize P \<le> 64 \<and> (\<forall>g. 0 < g \<and> g \<le> mG P \<longrightarrow> comb_ok (mDenseSize P) g)"

lemma combs_ok_small: "mDenseSize P \<le> 64 \<Longrightarrow> mG P \<le> 9 \<Longrightarrow> mG P \<le> mDenseSize P \<Longrightarrow> combs_ok P"
  by (auto simp: combs_ok_def intro: comb_ok_small)


abbreviation noRnd :: "nat \<Rightarrow> unit \<Rightarrow> block list \<times> unit" where "noRnd \<equiv> \<lambda>n s. (replicate n 0, s)"

lemma encode_sample:
  "case setInput_rows [[0, 1], [1, 2]] [5, 7] (triSample\<lparr>mNumItems := 2\<rparr>) of Inl _ \<Rightarrow> False
   | Inr P \<Rightarrow> (case encode (PxVector_blocks noRnd) noRnd P [1, 2] (replicate 7 0) None of Inl _ \<Rightarrow> False | Inr _ \<Rightarrow> True)"
  by code_simp

lemma encode_sample_ready:
  "\<exists>P. setInput_rows [[0, 1], [1, 2]] [5, 7] (triSample\<lparr>mNumItems := 2\<rparr>) = Inr P \<and> tri_ready P \<and> mDt P = GF128 \<and>
     mDenseSize P = 2 \<and> mNumItems P = 2 \<and> mSparseSize P = 5"
proof -
  let ?T = "triSample\<lparr>mNumItems := 2\<rparr>"
  have "\<exists>P. setInput_rows [[0, 1], [1, 2]] [5, 7] ?T = Inr P \<and> tri_ready P \<and> mRows P = [[0, 1], [1, 2]] \<and> mDense P = [5, 7] \<and>
      paxos_param.truncate P = paxos_param.truncate ?T \<and> mNumItems P = mNumItems ?T"
    by (rule setInput_rows_ready) (auto simp: triSample_def freshPaxos_def valid_row_def)
  then show ?thesis by (auto simp: triSample_def freshPaxos_def paxos_param.truncate_def)
qed


text \<open>C2: from keys to keys. After init with parameters that leave at least two sparse columns more
  than items, setInput of distinct keys succeeds (no column being hit 200 times), and then encode of
  a vector of blocks without randomness either throws one of the two documented exceptions or
  returns a structure from which decode recovers the value of every key.\<close>

theorem encode_decode_roundtrip:
  assumes "Paxos_init numItems prm seed (freshPaxos ib) = Inr P" and "2 \<le> mWeight prm" and "mWeight prm \<le> mSparseSize prm"
    and "numItems + 2 \<le> mSparseSize prm" and "0 < mDenseSize prm" and "mDt prm = Binary \<longrightarrow> combs_ok prm"
    and "8 \<le> ib" and "ib \<le> 64" and "length inputs = numItems" and "distinct inputs"
    and "\<forall>c<mSparseSize prm. length (filter (\<lambda>x. c \<in> set (buildRow ib (mHasher P) (aesHash seed x))) inputs) < 200"
    and "length X = numItems" and "length output = paxos_size prm" and "length vals = numItems"
    and "\<forall>n s. length (fst (rndBlocks n s)) = n"
  shows "\<exists>P'. setInput aesHash inputs P = Inr P' \<and>
    (case encode (PxVector_blocks rnd) rndBlocks P' X output None of
       Inl e \<Rightarrow> e = RTE_LOC \<or> (\<exists>msg. e = RuntimeError msg)
     | Inr (P'', p, _) \<Rightarrow> decode aesHash (PxVector_blocks rnd) P'' inputs vals p = Inr X)"
proof -
  have f: "mIdxBits (freshPaxos ib) = ib" "mNodes (mWeightData (freshPaxos ib)) = []" "mAddToDecode (freshPaxos ib) = False"
    by (simp_all add: freshPaxos_def)
  have small: "numItems < 2 ^ ib" using assms(1,4) f(1) by (auto simp: Paxos_init_def maxIdx_def split: if_splits)
  note I = Paxos_init_ok [OF assms(1-3), unfolded f(1), OF assms(8) small]
  have add: "mAddToDecode P = False"
    using assms(1) f(3) by (auto simp: Paxos_init_def Let_def rbind_Inr_iff split: if_splits)
  have key: "fst (keyRow aesHash P x) = buildRow ib (mHasher P) (aesHash seed x)" for x
    using I(1,6,8) by (simp add: keyRow_def hashBuildRow1_def Let_def hasher_ok_def)
  have prm: "mSparseSize P = mSparseSize prm" "mDenseSize P = mDenseSize prm" "mWeight P = mWeight prm" "mG P = mG prm" "mDt P = mDt prm"
    using I(4) by (auto simp: paxos_param.truncate_def)
  have "pxv.both.roundtrips rnd aesHash rndBlocks P inputs X output vals"
    using assms prm I f(2) small
    by (intro pxv.both.roundtrips_ok [where dt = "mDt P"]) (simp_all add: key combs_ok_def pxv.both.input_vec_def paxos_size_def draws_ok_def)
  moreover have "putValue (PxVector_blocks rnd) P = (\<lambda>_ y. y)" using add by (simp add: putValue_def fun_eq_iff)
  moreover have "map2 (\<lambda>_ y. y) vals X = X" using assms(12,14) by (intro nth_equalityI) auto
  ultimately show ?thesis unfolding pxv.both.roundtrips_def by (simp only:)
qed

lemma roundtrip_sample:
  "case Paxos_init 2 sampleParam 9 (freshPaxos 8) of Inl _ \<Rightarrow> False | Inr P \<Rightarrow>
   (case setInput (\<lambda>k x. k XOR x) [1, 2] P of Inl _ \<Rightarrow> False | Inr P' \<Rightarrow>
   (case encode (PxVector_blocks noRnd) noRnd P' [7, 8] (replicate 8 0) None of Inl _ \<Rightarrow> False | Inr _ \<Rightarrow> True))"
  by code_simp

theorem encode_decode_roundtrip_witness:
  "\<exists>P P' P'' p u. Paxos_init 2 sampleParam 9 (freshPaxos 8) = Inr P \<and> setInput (\<lambda>k x. k XOR x) [1, 2] P = Inr P' \<and>
    encode (PxVector_blocks noRnd) noRnd P' [7, 8] (replicate 8 0) None = Inr (P'', p, u) \<and>
    decode (\<lambda>k x. k XOR x) (PxVector_blocks noRnd) P'' [1, 2] [0, 0] p = Inr [7, 8]"
proof -
  obtain P P' P'' p u where s: "Paxos_init 2 sampleParam 9 (freshPaxos 8) = Inr P" "setInput (\<lambda>k x. k XOR x) [1, 2] P = Inr P'"
    "encode (PxVector_blocks noRnd) noRnd P' [7, 8] (replicate 8 0) None = Inr (P'', p, u)"
    using roundtrip_sample by (auto split: sum.splits)
  have "length (filter Q [1 :: block, 2]) < 200" for Q using length_filter_le [of Q "[1, 2]"] by simp
  with encode_decode_roundtrip [OF s(1), of "[1, 2]" "\<lambda>k x. k XOR x" "[7, 8]" "replicate 8 0" "[0, 0]" noRnd noRnd] s(2,3)
  have "decode (\<lambda>k x. k XOR x) (PxVector_blocks noRnd) P'' [1, 2] [0, 0] p = Inr [7, 8]"
    by (simp add: sampleParam_def paxos_size_def)
  with s show ?thesis by blast
qed


text \<open>The specification of encode for any element type, with the values compared by decode1.\<close>

definition encodeSpec :: "('v, 's) px_helper \<Rightarrow> (nat \<Rightarrow> 's \<Rightarrow> block list \<times> 's) \<Rightarrow> 'a paxos_scheme \<Rightarrow> 'v list \<Rightarrow> 'v list \<Rightarrow> 's option \<Rightarrow> bool" where
  "encodeSpec h rndBlocks P X output prng \<longleftrightarrow> (case triangulate P of
      Inl e \<Rightarrow> encode h rndBlocks P X output prng = Inl RTE_LOC \<and> \<not> distinct (mDense P)
    | Inr t \<Rightarrow>
        if gapLimit P < length (tGapRows t) then encode h rndBlocks P X output prng = Inl RTE_LOC
        else (\<exists>msg. tGapRows t \<noteq> [] \<and> encode h rndBlocks P X output prng = Inl (RuntimeError msg)) \<or>
          (\<exists>p prng'. encode h rndBlocks P X output prng = Inr (P\<lparr>mWeightData := tWD t\<rparr>, p, prng') \<and> length p = paxos_size P \<and>
             (\<forall>i\<in>set (tMainRows t). decode1 h P (mRows P ! i) (mDense P ! i) p = Inr (X ! i)) \<and>
             (prng = None \<or> (\<forall>(r, q)\<in>set (tGapRows t). mRows P ! r = mRows P ! q) \<longrightarrow>
                (\<forall>i<mNumItems P. decode1 h P (mRows P ! i) (mDense P ! i) p = Inr (X ! i)))))"

lemma encodeSpecI: "px_values h V I crd dt \<Longrightarrow> px_values.encode_outcome h V rndBlocks P X output prng \<Longrightarrow>
  encodeSpec h rndBlocks P X output prng"
  by (auto simp: px_values.encode_outcome_def px_values.decodes_def encodeSpec_def split: sum.splits if_splits)

lemma px_valuesI: "px_module h V I crd \<Longrightarrow> px_values h V I crd dt"
  by (intro px_values.intro px_values_axioms.intro px_module.axioms(1) px_module.multAdd)

text \<open>C17: encode keeps this promise for the other element types too: for vectors of words of any
  width with a binary dense part, and for matrices of blocks, whose elements are rows of cols
  blocks, with either dense part.\<close>

theorem encode_types_correct:
  fixes Y out1 :: "'w::len word list"
  assumes "tri_ready P" and "0 < mDenseSize P" and "mDt P = Binary \<longrightarrow> combs_ok P" and "\<forall>n s. length (fst (rndBlocks n s)) = n"
    and "length out1 = paxos_size P" and "length out2 = paxos_size P" and "length Y = mNumItems P" and "length Z = mNumItems P"
    and "\<forall>z\<in>set Z. length z = cols" and "\<forall>n s. length (fst (rnd n s)) = n"
  shows "(mDt P = Binary \<longrightarrow> encodeSpec (PxVector_words rndW) rndBlocks P Y out1 prng) \<and>
    encodeSpec (PxMatrix_blocks cols rnd) rndBlocks P Z out2 prng"
proof
  have draws: "draws_ok rndBlocks" using assms(4) by (simp add: draws_ok_def)
  show "mDt P = Binary \<longrightarrow> encodeSpec (PxVector_words rndW) rndBlocks P Y out1 prng"
  proof
    assume "mDt P = Binary"
    then have "pxw.bin.encode_ready P Y" using assms by (simp add: pxw.bin.encode_ready_def combs_ok_def pxw.bin.input_vec_def)
    then have "pxw.bin.encode_outcome rndW rndBlocks P Y out1 prng" using assms(5) draws by (rule pxw.bin.encode_outcome_ok)
    then show "encodeSpec (PxVector_words rndW) rndBlocks P Y out1 prng"
      by (rule encodeSpecI [OF pxw.bin.px_values_axioms])
  qed
  have "px_module (PxMatrix_blocks cols rnd) {x. length x = cols} {..<cols} (\<lambda>i x. GF (x ! i))"
    using assms(10) by (intro PxMatrix_space) simp
  note M = px_valuesI [OF this, of "mDt P"]
  have "px_values.encode_ready {x. length x = cols} (mDt P) P Z"
    using assms unfolding px_values.encode_ready_def [OF M] px_values.input_vec_def [OF M] combs_ok_def by auto
  from px_values.encode_outcome_ok [OF M this assms(6) draws]
  show "encodeSpec (PxMatrix_blocks cols rnd) rndBlocks P Z out2 prng" by (rule encodeSpecI [OF M])
qed

theorem encode_types_correct_witness:
  "\<exists>P. setInput_rows [[0, 1], [1, 2]] [5, 7] (triSample\<lparr>mNumItems := 2\<rparr>) = Inr P \<and>
    encodeSpec (PxMatrix_blocks 2 noRnd) noRnd P [[1, 2], [3, 4]] (replicate 7 [0, 0]) None"
proof -
  obtain P where P: "setInput_rows [[0, 1], [1, 2]] [5, 7] (triSample\<lparr>mNumItems := 2\<rparr>) = Inr P" "tri_ready P" "mDt P = GF128"
    "mDenseSize P = 2" "mNumItems P = 2" "mSparseSize P = 5" using encode_sample_ready by blast
  with encode_types_correct [of P noRnd "replicate 7 0" "replicate 7 [0, 0]" "[1, 2] :: u8 list" "[[1, 2], [3, 4]]" 2 noRnd
      "\<lambda>n s. (replicate n 0, s)" None]
  show ?thesis by (simp add: paxos_size_def)
qed

text \<open>C18: encode leaves the object ready to encode again: the rows, the dense part and the parameters
  are unchanged, and the weights are in the state that the next triangulate reinitialises, so a
  further encode, of other values, is covered by the same theorems.\<close>

theorem encode_reusable:
  assumes "tri_ready P" and "0 < mDenseSize P" and "mDt P = Binary \<longrightarrow> combs_ok P"
    and "length X = mNumItems P" and "length output = paxos_size P" and "\<forall>n s. length (fst (rndBlocks n s)) = n"
    and "encode (PxVector_blocks rnd) rndBlocks P X output prng = Inr (P', p, prng')"
  shows "tri_ready P' \<and> (\<exists>wd. P' = P\<lparr>mWeightData := wd\<rparr>)"
proof -
  have ready: "pxv.both.encode_ready (mDt P) P X"
    using assms unfolding pxv.both.encode_ready_def combs_ok_def pxv.both.input_vec_def by auto
  have "draws_ok rndBlocks" using assms(6) by (simp add: draws_ok_def)
  from pxv.both.encode_ok [OF ready assms(5) this, of rnd prng] assms(7)
  have "\<exists>t. P' = P\<lparr>mWeightData := tWD t\<rparr> \<and> tri_final P t" by (auto split: sum.splits if_splits)
  then obtain t where t: "P' = P\<lparr>mWeightData := tWD t\<rparr>" "tri_final P t" by blast
  then have "length (mWeightSets (tWD t)) \<le> 1" "length (mNodes (tWD t)) = mSparseSize P"
    by (simp_all add: tri_final_def)
  moreover have "rows_ok P' = rows_ok P" "cols_ok P' = cols_ok P" "size_ok P' = size_ok P"
    by (simp_all add: t(1) rows_ok_def cols_ok_def size_ok_def)
  ultimately have "tri_ready P'" using assms(1) unfolding tri_ready_def by (simp add: t(1))
  with t(1) show ?thesis by blast
qed

theorem encode_reusable_witness:
  "\<exists>P P' p u. setInput_rows [[0, 1], [1, 2]] [5, 7] (triSample\<lparr>mNumItems := 2\<rparr>) = Inr P \<and>
    encode (PxVector_blocks noRnd) noRnd P [1, 2] (replicate 7 0) None = Inr (P', p, u) \<and> tri_ready P'"
proof -
  obtain P where P: "setInput_rows [[0, 1], [1, 2]] [5, 7] (triSample\<lparr>mNumItems := 2\<rparr>) = Inr P" "tri_ready P" "mDt P = GF128"
    "mDenseSize P = 2" "mNumItems P = 2" "mSparseSize P = 5" using encode_sample_ready by blast
  with encode_sample obtain P' p u where e: "encode (PxVector_blocks noRnd) noRnd P [1, 2] (replicate 7 0) None = Inr (P', p, u)"
    by (auto split: sum.splits)
  with encode_reusable [OF P(2) _ _ _ _ _ e] P have "tri_ready P'" by (simp add: paxos_size_def)
  with P(1) e show ?thesis by blast
qed

end
