(* ===== verification/Schedule.thy ===== *)
theory Schedule
  imports Prelude "HOL-Library.Multiset"
begin

section \<open>Interleavings of threads\<close>

text \<open>
  The worker threads of \<open>Baxos\<close> (\<open>src/volePSI/PaxosImpl.h\<close>) run at the same time. What thread t
  does is the list \<open>ts ! t\<close> of its actions, and a schedule is a list of thread numbers: each entry
  lets that thread make its next step, entries of finished threads are skipped, and what is left at
  the end runs thread by thread. So every list of numbers is a schedule, and every interleaving is
  the result of one.
\<close>

fun interleave :: "nat list \<Rightarrow> 'a list list \<Rightarrow> 'a list" where
  "interleave [] ts = concat ts"
| "interleave (t # s) ts =
     (case if t < length ts then ts ! t else [] of
        [] \<Rightarrow> interleave s ts
      | x # xs \<Rightarrow> x # interleave s (ts[t := xs]))"

lemma mset_concat_update:
  assumes "t < length ts" "ts ! t = x # xs"
  shows "mset (concat ts) = add_mset x (mset (concat (ts[t := xs])))"
  using assms
proof (induction ts arbitrary: t)
  case (Cons y ys)
  then show ?case by (cases t) auto
qed simp

lemma mset_interleave: "mset (interleave s ts) = mset (concat ts)"
proof (induction s arbitrary: ts)
  case (Cons t s)
  then show ?case using mset_concat_update [of t ts] by (auto split: list.splits)
qed simp

lemma set_interleave [simp]: "set (interleave s ts) = (\<Union>xs\<in>set ts. set xs)"
  using mset_interleave [of s ts, THEN arg_cong, of set_mset] by simp

lemma distinct_interleave: "distinct (interleave s ts) \<longleftrightarrow> distinct (concat ts)"
  using mset_interleave [of s ts] by (metis mset_eq_imp_distinct_iff)

text \<open>Each thread's own steps stay in order.\<close>

definition owned :: "('a \<Rightarrow> nat) \<Rightarrow> 'a list list \<Rightarrow> bool" where
  "owned own ts \<longleftrightarrow> (\<forall>t<length ts. \<forall>x\<in>set (ts ! t). own x = t)"

lemma filter_concat_owned:
  assumes "\<forall>t<length ts. \<forall>x\<in>set (ts ! t). own x = t + k" "t < length ts"
  shows "filter (\<lambda>x. own x = t + k) (concat ts) = ts ! t"
  using assms
proof (induction ts arbitrary: t k)
  case (Cons y ys)
  have y: "\<forall>x\<in>set y. own x = k" using Cons.prems(1) by fastforce
  have ys: "\<forall>t<length ys. \<forall>x\<in>set (ys ! t). own x = t + Suc k" using Cons.prems(1) by fastforce
  have none: "filter (\<lambda>x. own x = k) (concat ys) = []"
    using ys by (auto simp: filter_empty_conv in_set_conv_nth) (metis add_Suc_right less_add_Suc2 less_irrefl nth_mem)
  show ?case
  proof (cases t)
    case 0
    with y none show ?thesis by (simp add: filter_id_conv)
  next
    case (Suc u)
    then have "filter (\<lambda>x. own x = t + k) y = []" using y by (simp add: filter_empty_conv)
    moreover have "filter (\<lambda>x. own x = t + k) (concat ys) = ys ! u"
      using Cons.IH [OF ys, of u] Cons.prems(2) Suc by simp
    ultimately show ?thesis using Suc by simp
  qed
qed simp

lemma filter_interleave:
  assumes "owned own ts" "t < length ts"
  shows "filter (\<lambda>x. own x = t) (interleave s ts) = ts ! t"
  using assms
proof (induction s arbitrary: ts)
  case Nil
  then show ?case using filter_concat_owned [of ts own 0 t] by (simp add: owned_def)
next
  case (Cons u s)
  show ?case
  proof (cases "if u < length ts then ts ! u else []")
    case Nil
    with Cons show ?thesis by simp
  next
    case (Cons x xs)
    then have u: "u < length ts" "ts ! u = x # xs" by (auto split: if_splits)
    then have "owned own (ts[u := xs])" and x: "own x = u"
      using Cons.prems(1) by (auto simp: owned_def nth_list_update)
    then have "filter (\<lambda>x. own x = t) (interleave s (ts[u := xs])) = ts[u := xs] ! t"
      using Cons.prems(2) Cons.IH [of "ts[u := xs]"] by simp
    with u x Cons.prems(2) show ?thesis by (auto simp: nth_list_update)
  qed
qed

text \<open>Every order that keeps the steps of each thread in order has a schedule.\<close>

lemma interleave_complete:
  assumes "\<forall>x\<in>set xs. own x < T"
  shows "interleave (map own xs) (map (\<lambda>t. filter (\<lambda>x. own x = t) xs) [0..<T]) = xs"
  using assms
proof (induction xs)
  case Nil
  then show ?case by (simp add: map_replicate_const)
next
  case (Cons x xs)
  let ?ts = "map (\<lambda>t. filter (\<lambda>y. own y = t) (x # xs)) [0..<T]"
  have "?ts[own x := filter (\<lambda>y. own y = own x) xs] = map (\<lambda>t. filter (\<lambda>y. own y = t) xs) [0..<T]"
    using Cons.prems by (intro nth_equalityI) (auto simp: nth_list_update)
  with Cons show ?case by simp
qed

end
