(* ===== verification/Baxos.thy ===== *)
theory Baxos
  imports Roundtrip Schedule
begin

section \<open>The binned PaXoS\<close>

text \<open>
  \<open>Baxos\<close> of \<open>src/volePSI/Paxos.h\<close> and \<open>src/volePSI/PaxosImpl.h\<close>: the keys are hashed into
  \<open>mNumBins\<close> bins, every bin is encoded by a PaXoS of its own, and the structure is the
  concatenation of the structures of the bins.

  Solving and decoding are spread over \<open>numThreads\<close> threads. In the first phase of solving each
  thread copies its share of the items into its own part of the bins; after a barrier it merges
  and encodes every \<open>numThreads\<close>-th bin. Both phases take a schedule (theory \<open>Schedule\<close>), one step
  being the placement of one item, or the encoding of one bin.

  \<open>binSize\<close> is \<open>getBinSize\<close>, which computes in floating point: (bins, balls, security) to the size.
  An exception that leaves a worker thread, or that unwinds a vector of running threads, ends the
  process: \<open>Terminated\<close>.
\<close>

record baxos =
  bNumItems :: nat
  bNumBins :: nat
  bItemsPerBin :: nat
  bWeight :: nat
  bSsp :: nat
  bParam :: paxos_param
  bSeed :: block
  bDebug :: bool
  bAddToDecode :: bool

definition baxos_size :: "baxos \<Rightarrow> nat" where
  "baxos_size B = bNumBins B * (mSparseSize (bParam B) + mDenseSize (bParam B))"

definition binIdxCompress :: "block \<Rightarrow> u64" where
  "binIdxCompress h = lo64 h XOR hi64 h XOR ucast (ucast (drop_bit 96 h) :: u32)"

definition modNumBins :: "baxos \<Rightarrow> block \<Rightarrow> u64" where
  "modNumBins B h = binIdxCompress h mod of_nat (bNumBins B)"

text \<open>The smallest index type that \<open>solve\<close> and \<open>decode\<close> consider large enough.\<close>

definition idxTypeBits :: "baxos \<Rightarrow> nat" where
  "idxTypeBits B =
     (let bitLength = roundUpTo (log2ceil (mSparseSize (bParam B) + 1)) 8
      in if bitLength \<le> 8 then 8 else if bitLength \<le> 16 then 16 else if bitLength \<le> 32 then 32 else 64)"

text \<open>\<open>Paxos<IdxType> paxos;\<close>\<close>

definition newPaxos :: "nat \<Rightarrow> paxos" where
  "newPaxos ib = \<lparr>mSparseSize = 0, mDenseSize = 0, mWeight = 0, mG = 0, mSsp = 40, mDt = GF128,
     mIdxBits = ib, mNumItems = 0, mSeed = 0, mAddToDecode = False,
     mHasher = \<lparr>phWeight = 0, phSparseSize = 0, phIdxSize = 0, phSeed = 0, phMods = [], phModVals = []\<rparr>,
     mDense = [], mRows = [], mCols = [], mColBacking = [], mWeightData = \<lparr>mWeightSets = [], mNodes = []\<rparr>\<rparr>"

subsection \<open>Placing the items\<close>

record hash_task =
  tThrd :: nat
  tTail :: bool
  tIdx :: nat
  tBin :: nat
  tHash :: block

text \<open>The shared arrays: \<open>thrdBinSizes\<close>, \<open>inputMapping\<close>, \<open>valBacking\<close> and \<open>hashBacking\<close>.\<close>

record 'v bins =
  thrdBinSizes :: "nat list list"
  inputMapping :: "nat list"
  valBacking :: "'v list"
  hashBacking :: "block list"

text \<open>\<open>binBegin + thrdBegin\<close>, where thread t's part of bin b starts.\<close>

definition binStart :: "nat \<Rightarrow> nat \<Rightarrow> nat \<Rightarrow> nat \<Rightarrow> nat" where
  "binStart T per t b = per * T * b + per * t"

definition putItem :: "nat \<Rightarrow> nat \<Rightarrow> 'v list \<Rightarrow> hash_task \<Rightarrow> 'v bins \<Rightarrow> 'v bins res" where
  "putItem T per vals k st =
     rbind (at (thrdBinSizes st) (tThrd k)) (\<lambda>sizes.
     rbind (at sizes (tBin k)) (\<lambda>bs.
     rbind (guardr (tTail k \<longrightarrow> bs < per) AssertFail) (\<lambda>_.
     rbind (guardr (bs < per \<and> binStart T per (tThrd k) (tBin k) + per \<le> length (inputMapping st)) UB) (\<lambda>_.
     rbind (at vals (tIdx k)) (\<lambda>v.
     let i = binStart T per (tThrd k) (tBin k) + bs in
     Inr \<lparr>thrdBinSizes = (thrdBinSizes st)[tThrd k := sizes[tBin k := bs + 1]],
          inputMapping = (inputMapping st)[i := tIdx k],
          valBacking = (valBacking st)[i := v],
          hashBacking = (hashBacking st)[i := tHash k]\<rparr>)))))"

text \<open>The items of thread t in the order it places them, hashed in batches of 32.\<close>

definition hashBatch :: "(block \<Rightarrow> block \<Rightarrow> block) \<Rightarrow> baxos \<Rightarrow> libdivide_u64_t \<Rightarrow> nat \<Rightarrow> nat \<Rightarrow> block list \<Rightarrow> hash_task list" where
  "hashBatch aesHash B divider t begin inputs =
     (let hashes = map (aesHash (bSeed B)) (take 32 inputs);
          binIdxs = doMod32 (map binIdxCompress hashes) divider (of_nat (bNumBins B))
      in map (\<lambda>k. \<lparr>tThrd = t, tTail = False, tIdx = begin + k, tBin = unat (binIdxs ! k), tHash = hashes ! k\<rparr>) [0..<32])"

definition hashTail :: "(block \<Rightarrow> block \<Rightarrow> block) \<Rightarrow> baxos \<Rightarrow> nat \<Rightarrow> nat \<Rightarrow> block \<Rightarrow> hash_task" where
  "hashTail aesHash B t inIdx input =
     (let hash = aesHash (bSeed B) input
      in \<lparr>tThrd = t, tTail = True, tIdx = inIdx, tBin = unat (modNumBins B hash), tHash = hash\<rparr>)"

definition thrdBegin :: "nat \<Rightarrow> nat \<Rightarrow> nat \<Rightarrow> nat" where
  "thrdBegin n T t = n * t div T"

definition hashTasks ::
    "(block \<Rightarrow> block \<Rightarrow> block) \<Rightarrow> baxos \<Rightarrow> libdivide_u64_t \<Rightarrow> nat \<Rightarrow> block list \<Rightarrow> nat \<Rightarrow> hash_task list" where
  "hashTasks aesHash B divider T inputs t =
     (let begin = thrdBegin (length inputs) T t;
          n = thrdBegin (length inputs) T (t + 1) - begin;
          mine = take n (drop begin inputs);
          main = n div 32
      in concat (map (\<lambda>k. hashBatch aesHash B divider t (begin + 32 * k) (drop (32 * k) mine)) [0..<main]) @
         map (\<lambda>i. hashTail aesHash B t (begin + i) (mine ! i)) [32 * main..<n])"

subsection \<open>Encoding the bins\<close>

text \<open>Thread i's part of bin b is moved behind the parts of the threads before it.\<close>

definition mergeThrd :: "nat \<Rightarrow> nat \<Rightarrow> nat list list \<Rightarrow> nat \<Rightarrow> nat \<Rightarrow> nat \<Rightarrow> nat \<times> block list \<times> 'v list \<Rightarrow>
    (nat \<times> block list \<times> 'v list) res" where
  "mergeThrd T per sizes b binSize i st =
     (let (binPos, hashes, vals) = st; bin = binStart T per 0 b; src = binStart T per i b in
      rbind (at sizes i) (\<lambda>s. rbind (at s b) (\<lambda>n.
      rbind (guardr (n \<le> per) AssertFail) (\<lambda>_.
      let hashes = storeAt (bin + binPos) (take n (drop src hashes)) hashes in
      rbind (foldr_res (\<lambda>j vals.
               rbind (at vals (src + j)) (\<lambda>v.
               rbind (guardr (binPos + j < binSize) UB) (\<lambda>_. Inr (vals[bin + binPos + j := v])))) [0..<n] vals) (\<lambda>vals.
      Inr (binPos + n, hashes, vals))))))"

definition mergeBin :: "nat \<Rightarrow> nat \<Rightarrow> nat list list \<Rightarrow> nat \<Rightarrow> nat \<Rightarrow> block list \<Rightarrow> 'v list \<Rightarrow> (block list \<times> 'v list) res" where
  "mergeBin T per sizes b binSize hashes vals =
     rbind (at sizes 0) (\<lambda>s. rbind (at s b) (\<lambda>binPos.
     rbind (guardr (binPos \<le> per) AssertFail) (\<lambda>_.
     rbind (foldr_res (mergeThrd T per sizes b binSize) [1..<T] (binPos, hashes, vals)) (\<lambda>(_, hashes, vals).
     Inr (hashes, vals)))))"

definition binRows :: "nat \<Rightarrow> baxos \<Rightarrow> paxos_hash \<Rightarrow> block list \<Rightarrow> nat list list" where
  "binRows ib B hasher hashes =
     (if bWeight B = 3 then
        let main = length hashes div 32
        in concat (map (\<lambda>k. buildRow32 ib hasher (take 32 (drop (32 * k) hashes))) [0..<main]) @
           map (buildRow ib hasher) (drop (32 * main) hashes)
      else map (buildRow ib hasher) hashes)"

definition binWeights :: "baxos \<Rightarrow> nat list list \<Rightarrow> nat list res" where
  "binWeights B rows =
     foldr_res (\<lambda>row ws. foldr_res (\<lambda>k ws. rbind (at row k) (\<lambda>v. rbind (at ws v) (\<lambda>w. Inr (ws[v := w + 1])))) [0..<bWeight B] ws)
       rows (replicate (mSparseSize (bParam B)) 0)"

text \<open>The memory of one thread for the rows, columns and column weights of a bin, reused for every bin.\<close>

definition binAlloc :: "nat \<Rightarrow> baxos \<Rightarrow> nat \<Rightarrow> (nat list list \<times> nat list \<times> nat list \<times> (nat \<times> nat) list) res" where
  "binAlloc ib B binSize =
     (let idx = ib div 8;
          allocSize = idx * (bItemsPerBin B * bWeight B * 2 + mSparseSize (bParam B)) + sizeofSpan * mSparseSize (bParam B);
          (rows, iter) = initMV idx binSize (bWeight B) 0 0;
          (colBacking, iter) = initSpan idx (binSize * bWeight B) 0 iter;
          (colWeights, iter) = initSpan idx (mSparseSize (bParam B)) 0 iter;
          (cols, iter) = initSpan sizeofSpan (mSparseSize (bParam B)) (0, 0) iter
      in if iter > allocSize then Inl RTE_LOC else Inr (rows, colBacking, colWeights, cols))"

record ('v, 's) solver =
  sBins :: "'v bins"
  sPaxos :: "paxos list"
  sOut :: "'v list"
  sPrng :: "'s option"

definition binCount :: "nat \<Rightarrow> nat list list \<Rightarrow> nat \<Rightarrow> nat res" where
  "binCount T sizes b =
     foldr_res (\<lambda>i n. rbind (at sizes i) (\<lambda>s. rbind (at s b) (\<lambda>k. Inr (n + k)))) [0..<T] 0"

text \<open>One round of the loop over the bins of a thread.\<close>

definition solveBin :: "nat \<Rightarrow> ('v, 's) px_helper \<Rightarrow> (nat \<Rightarrow> 's \<Rightarrow> block list \<times> 's) \<Rightarrow> baxos \<Rightarrow> nat \<Rightarrow> nat \<Rightarrow>
    nat \<times> nat \<Rightarrow> ('v, 's) solver \<Rightarrow> ('v, 's) solver res" where
  "solveBin ib h rndBlocks B T per tb st =
     (let (t, b) = tb; sz = paxos_size (bParam B); bins = sBins st; bin = binStart T per 0 b in
      rbind (binCount T (thrdBinSizes bins) b) (\<lambda>binSize.
      if binSize > bItemsPerBin B then Inl RTE_LOC
      else
        rbind (at (sPaxos st) t) (\<lambda>P.
        rbind (Paxos_init binSize (bParam B) (bSeed B) P) (\<lambda>P.
        rbind (binAlloc ib B binSize) (\<lambda>(_, colBacking, _, cols).
        rbind (px_subspan bin binSize (valBacking bins)) (\<lambda>_.
        rbind (px_subspan (sz * b) sz (sOut st)) (\<lambda>out.
        rbind (mergeBin T per (thrdBinSizes bins) b binSize (hashBacking bins) (valBacking bins)) (\<lambda>(hs, vs).
        let hashes = take binSize (drop bin hs);
            vals = take binSize (drop bin vs);
            rows = binRows ib B (mHasher P) hashes
        in rbind (binWeights B rows) (\<lambda>colWeights.
           rbind (setInput_cols rows hashes cols colBacking colWeights P) (\<lambda>P.
           rbind (encode h rndBlocks P vals out (sPrng st)) (\<lambda>(P, out, prng).
           Inr \<lparr>sBins = bins\<lparr>valBacking := vs, hashBacking := hs\<rparr>, sPaxos = (sPaxos st)[t := P],
                sOut = storeAt (sz * b) out (sOut st), sPrng = prng\<rparr>)))))))))))"

definition thrdBins :: "nat \<Rightarrow> nat \<Rightarrow> nat \<Rightarrow> (nat \<times> nat) list" where
  "thrdBins T numBins t = map (\<lambda>j. (t, t + j * T)) [0..<divCeil (numBins - t) T]"

text \<open>What becomes of an error in one of the threads.\<close>

definition threadErr :: "nat \<Rightarrow> exn \<Rightarrow> exn" where
  "threadErr T e = (if T = 1 then e else case e of RTE_LOC \<Rightarrow> Terminated | RuntimeError _ \<Rightarrow> Terminated | _ \<Rightarrow> e)"

text \<open>The generator is one object: threads that draw from it at the same time race.\<close>

definition implParSolve :: "nat \<Rightarrow> (nat \<Rightarrow> nat \<Rightarrow> nat \<Rightarrow> nat) \<Rightarrow> nat list \<Rightarrow> nat list \<Rightarrow> (block \<Rightarrow> block \<Rightarrow> block) \<Rightarrow>
    ('v, 's) px_helper \<Rightarrow> (nat \<Rightarrow> 's \<Rightarrow> block list \<times> 's) \<Rightarrow> baxos \<Rightarrow> block list \<Rightarrow> 'v list \<Rightarrow> 'v list \<Rightarrow> 's option \<Rightarrow> nat \<Rightarrow>
    ('v list \<times> 's option) res" where
  "implParSolve ib binSize sched1 sched2 aesHash h rndBlocks B inputs vals p prng numThreads =
     rbind (guardr (distinct inputs) AssertFail) (\<lambda>_.
     if length p \<noteq> baxos_size B then Inl RTE_LOC
     else if bNumBins B = 1 then
       rbind (Paxos_init (bNumItems B) (bParam B) (bSeed B) (newPaxos ib)) (\<lambda>P.
       rbind (setInput aesHash inputs P) (\<lambda>P.
       rbind (encode h rndBlocks P vals p prng) (\<lambda>(_, p, prng). Inr (p, prng))))
     else
       let T = max 1 numThreads;
           itemsPerThrd = (bNumItems B + T - 1) div T;
           per = binSize (bNumBins B) itemsPerThrd (bSsp B);
           total = bNumBins B * T * per
       in rbind (libdivide_u64_gen (of_nat (bNumBins B))) (\<lambda>divider.
          rbind (foldr_res (putItem T per vals) (interleave sched1 (map (hashTasks aesHash B divider T inputs) [0..<T]))
             \<lparr>thrdBinSizes = replicate T (replicate (bNumBins B) 0), inputMapping = replicate total 0,
              valBacking = replicate total (hNew h), hashBacking = replicate total 0\<rparr>) (\<lambda>bins.
          if 1 < T \<and> prng \<noteq> None then Inl UB
          else case foldr_res (solveBin ib h rndBlocks B T per) (interleave sched2 (map (thrdBins T (bNumBins B)) [0..<T]))
                 \<lparr>sBins = bins, sPaxos = replicate T (newPaxos ib), sOut = p, sPrng = prng\<rparr> of
                 Inl e \<Rightarrow> Inl (threadErr T e)
               | Inr st \<Rightarrow> Inr (sOut st, sPrng st))))"

subsection \<open>Decoding\<close>

text \<open>A batch of one bin; the state is the values and the buffer of 32 values.\<close>

definition storeValue :: "('v, 's) px_helper \<Rightarrow> baxos \<Rightarrow> nat \<Rightarrow> 'v \<Rightarrow> 'v list \<Rightarrow> 'v list res" where
  "storeValue h B i y vals =
     rbind (at vals i) (\<lambda>x. Inr (vals[i := if bAddToDecode B then hAdd h x y else y]))"

definition decodeBin32 :: "nat \<Rightarrow> ('v, 's) px_helper \<Rightarrow> baxos \<Rightarrow> paxos \<Rightarrow> block list \<Rightarrow> nat list \<Rightarrow> 'v list \<Rightarrow> nat \<Rightarrow>
    'v list \<times> 'v list \<Rightarrow> ('v list \<times> 'v list) res" where
  "decodeBin32 ib h B P hashes inIdxs p i st =
     (let (vals, buff) = st; dense = take 32 (drop i hashes) in
      rbind (decode32 h P (buildRow32 ib (mHasher P) dense) dense p buff) (\<lambda>buff.
      rbind (foldr_res (\<lambda>k vals. rbind (at inIdxs (i + k)) (\<lambda>j. rbind (at buff k) (\<lambda>y. storeValue h B j y vals))) [0..<32] vals) (\<lambda>vals.
      Inr (vals, buff))))"

definition decodeBin1 :: "nat \<Rightarrow> ('v, 's) px_helper \<Rightarrow> baxos \<Rightarrow> paxos \<Rightarrow> block list \<Rightarrow> nat list \<Rightarrow> 'v list \<Rightarrow> nat \<Rightarrow>
    'v list \<times> 'v list \<Rightarrow> ('v list \<times> 'v list) res" where
  "decodeBin1 ib h B P hashes inIdxs p i st =
     (let (vals, buff) = st in
      rbind (at hashes i) (\<lambda>hash. rbind (at inIdxs i) (\<lambda>j.
      rbind (decode1 h P (buildRow ib (mHasher P) hash) hash p) (\<lambda>y.
      rbind (storeValue h B j y vals) (\<lambda>vals.
      Inr (vals, if bAddToDecode B then buff[0 := y] else buff))))))"

definition implDecodeBin :: "nat \<Rightarrow> ('v, 's) px_helper \<Rightarrow> baxos \<Rightarrow> paxos \<Rightarrow> block list \<Rightarrow> nat list \<Rightarrow> 'v list \<Rightarrow>
    'v list \<times> 'v list \<Rightarrow> ('v list \<times> 'v list) res" where
  "implDecodeBin ib h B P hashes inIdxs p st =
     (let main = length hashes div 32 in
      rbind (guardr (bWeight B \<le> 20) AssertFail) (\<lambda>_.
      rbind (guardr (32 \<le> length (snd st)) AssertFail) (\<lambda>_.
      rbind (foldr_res (\<lambda>k. decodeBin32 ib h B P hashes inIdxs p (32 * k)) [0..<main] st)
        (foldr_res (decodeBin1 ib h B P hashes inIdxs p) [32 * main..<length hashes]))))"

record 'v decoder =
  dBatches :: "block list list"
  dIdxs :: "nat list list"
  dSizes :: "nat list"
  dVals :: "'v list"
  dBuff :: "'v list"

text \<open>Decode the first n entries of the batch of bin b.\<close>

definition flushBin :: "nat \<Rightarrow> ('v, 's) px_helper \<Rightarrow> baxos \<Rightarrow> paxos \<Rightarrow> 'v list \<Rightarrow> nat \<Rightarrow> nat \<Rightarrow> 'v decoder \<Rightarrow> 'v decoder res" where
  "flushBin ib h B P pp n b st =
     (let sizePer = baxos_size B div bNumBins B in
      rbind (px_subspan (b * sizePer) sizePer pp) (\<lambda>p.
      rbind (at (dBatches st) b) (\<lambda>hashes. rbind (at (dIdxs st) b) (\<lambda>idxs.
      rbind (implDecodeBin ib h B P (take n hashes) idxs p (dVals st, dBuff st)) (\<lambda>(vals, buff).
      Inr (st\<lparr>dVals := vals, dBuff := buff\<rparr>))))))"

definition decodePut :: "nat \<Rightarrow> ('v, 's) px_helper \<Rightarrow> baxos \<Rightarrow> paxos \<Rightarrow> 'v list \<Rightarrow> nat \<Rightarrow> nat \<times> nat \<times> block \<Rightarrow>
    'v decoder \<Rightarrow> 'v decoder res" where
  "decodePut ib h B P pp decodeSize k st =
     (let (i, b, hash) = k in
      rbind (at (dSizes st) b) (\<lambda>n. rbind (at (dBatches st) b) (\<lambda>hashes. rbind (at (dIdxs st) b) (\<lambda>idxs.
      rbind (guardr (n < decodeSize) UB) (\<lambda>_.
      let st = st\<lparr>dBatches := (dBatches st)[b := hashes[n := hash]], dIdxs := (dIdxs st)[b := idxs[n := i]],
                  dSizes := (dSizes st)[b := n + 1]\<rparr>
      in if n + 1 = decodeSize then
           rbind (flushBin ib h B P pp decodeSize b st) (\<lambda>st. Inr (st\<lparr>dSizes := (dSizes st)[b := 0]\<rparr>))
         else Inr st)))))"

text \<open>The input position, bin and hash of every input, computed in batches of 32.\<close>

definition decodeTasks :: "(block \<Rightarrow> block \<Rightarrow> block) \<Rightarrow> baxos \<Rightarrow> libdivide_u64_t \<Rightarrow> block list \<Rightarrow> (nat \<times> nat \<times> block) list" where
  "decodeTasks aesHash B divider inputs =
     (let main = length inputs div 32;
          batch = (\<lambda>k. let buffer = map (aesHash (bSeed B)) (take 32 (drop (32 * k) inputs));
                          binIdxs = doMod32 (map binIdxCompress buffer) divider (of_nat (bNumBins B))
                      in map (\<lambda>j. (32 * k + j, unat (binIdxs ! j), buffer ! j)) [0..<32])
      in concat (map batch [0..<main]) @
         map (\<lambda>i. let hash = aesHash (bSeed B) (inputs ! i) in (i, unat (modNumBins B hash), hash)) [32 * main..<length inputs])"

definition implDecodeBatch :: "nat \<Rightarrow> (block \<Rightarrow> block \<Rightarrow> block) \<Rightarrow> ('v, 's) px_helper \<Rightarrow> baxos \<Rightarrow> block list \<Rightarrow> 'v list \<Rightarrow>
    'v list \<Rightarrow> 'v list res" where
  "implDecodeBatch ib aesHash h B inputs vals pp =
     (let decodeSize = min 512 (length inputs) in
      rbind (Paxos_init 1 (bParam B) (bSeed B) (newPaxos ib)) (\<lambda>P.
      rbind (libdivide_u64_gen (of_nat (bNumBins B))) (\<lambda>divider.
      rbind (foldr_res (decodePut ib h B P pp decodeSize) (decodeTasks aesHash B divider inputs)
               \<lparr>dBatches = replicate (bNumBins B) (replicate decodeSize 0), dIdxs = replicate (bNumBins B) (replicate decodeSize 0),
                dSizes = replicate (bNumBins B) 0, dVals = vals, dBuff = replicate 32 (hNew h)\<rparr>) (\<lambda>st.
      rbind (foldr_res (\<lambda>b st. rbind (at (dSizes st) b) (\<lambda>n. if n \<noteq> 0 then flushBin ib h B P pp n b st else Inr st))
               [0..<bNumBins B] st) (\<lambda>st. Inr (dVals st))))))"

text \<open>Every thread works on the part of \<open>values\<close> that belongs to its part of the inputs, and only
  reads the structure; the schedule is the order in which the threads run.\<close>

definition implParDecode :: "nat \<Rightarrow> nat list \<Rightarrow> (block \<Rightarrow> block \<Rightarrow> block) \<Rightarrow> ('v, 's) px_helper \<Rightarrow> baxos \<Rightarrow> block list \<Rightarrow>
    'v list \<Rightarrow> 'v list \<Rightarrow> nat \<Rightarrow> 'v list res" where
  "implParDecode ib sched aesHash h B inputs vals pp numThreads =
     (if bNumBins B = 1 then
        rbind (Paxos_init 1 (bParam B) (bSeed B) (newPaxos ib)) (\<lambda>P.
        decode aesHash h (P\<lparr>mAddToDecode := bAddToDecode B\<rparr>) inputs vals pp)
      else
        let T = max numThreads 1 in
        case foldr_res (\<lambda>i vals.
               let begin = thrdBegin (length inputs) T i; n = thrdBegin (length inputs) T (i + 1) - begin in
               rbind (px_subspan begin n vals) (\<lambda>va.
               rbind (implDecodeBatch ib aesHash h B (take n (drop begin inputs)) va pp) (\<lambda>va.
               Inr (storeAt begin va vals)))) (interleave sched (map (\<lambda>i. [i]) [0..<T])) vals of
          Inl e \<Rightarrow> Inl (threadErr T e)
        | Inr vals \<Rightarrow> Inr vals)"

definition Baxos_decode :: "nat list \<Rightarrow> (block \<Rightarrow> block \<Rightarrow> block) \<Rightarrow> ('v, 's) px_helper \<Rightarrow> baxos \<Rightarrow> block list \<Rightarrow>
    'v list \<Rightarrow> 'v list \<Rightarrow> nat \<Rightarrow> 'v list res" where
  "Baxos_decode sched aesHash h B inputs vals pp numThreads =
     implParDecode (idxTypeBits B) sched aesHash h B inputs vals pp numThreads"

text \<open>\<open>check\<close>, which a debugging object runs after solving.\<close>

definition Baxos_check :: "nat list \<Rightarrow> (block \<Rightarrow> block \<Rightarrow> block) \<Rightarrow> ('v, 's) px_helper \<Rightarrow> baxos \<Rightarrow> block list \<Rightarrow>
    'v list \<Rightarrow> 'v list \<Rightarrow> unit res" where
  "Baxos_check sched aesHash h B inputs vals pp =
     rbind (Baxos_decode sched aesHash h B inputs (replicate (length vals) (hNew h)) pp 1) (\<lambda>v2.
     guardr (list_all2 (hEq h) v2 vals) RTE_LOC)"

definition Baxos_solve :: "(nat \<Rightarrow> nat \<Rightarrow> nat \<Rightarrow> nat) \<Rightarrow> nat list \<Rightarrow> nat list \<Rightarrow> (block \<Rightarrow> block \<Rightarrow> block) \<Rightarrow>
    ('v, 's) px_helper \<Rightarrow> (nat \<Rightarrow> 's \<Rightarrow> block list \<times> 's) \<Rightarrow> baxos \<Rightarrow> block list \<Rightarrow> 'v list \<Rightarrow> 'v list \<Rightarrow> 's option \<Rightarrow> nat \<Rightarrow>
    ('v list \<times> 's option) res" where
  "Baxos_solve binSize sched1 sched2 aesHash h rndBlocks B inputs vals p prng numThreads =
     rbind (implParSolve (idxTypeBits B) binSize sched1 sched2 aesHash h rndBlocks B inputs vals p prng numThreads) (\<lambda>(p, prng).
     if bDebug B then rbind (Baxos_check [] aesHash h B inputs vals p) (\<lambda>_. Inr (p, prng)) else Inr (p, prng))"

end
