(* ===== verification/BaxosBins.thy ===== *)
theory BaxosBins
  imports Baxos
begin

section \<open>The bins of Baxos\<close>

text \<open>
  The first half of \<open>implParSolve\<close> (\<open>src/volePSI/PaxosImpl.h\<close>): every item ends up exactly once in
  the part of its bin that belongs to the thread that owns it, whatever the schedule, and merging
  puts the parts of one bin next to each other.
\<close>

subsection \<open>What the threads compute\<close>

definition itemBin :: "(block \<Rightarrow> block \<Rightarrow> block) \<Rightarrow> baxos \<Rightarrow> block \<Rightarrow> nat" where
  "itemBin aesHash B x = unat (modNumBins B (aesHash (bSeed B) x))"

lemma itemBin_less: "0 < bNumBins B \<Longrightarrow> bNumBins B < 2 ^ 64 \<Longrightarrow> itemBin aesHash B x < bNumBins B"
  unfolding itemBin_def modNumBins_def unat_mod by (simp add: unat_of_nat)

lemma map_shift_upt: "map g [b..<b + n] = map (\<lambda>i. g (b + i)) [0..<n]"
  by (intro nth_equalityI) simp_all

lemma concat_map_upt: "concat (map (\<lambda>k. map (\<lambda>j. g (m * k + j)) [0..<m]) [0..<n]) = map g [0..<m * n]"
proof (induction n)
  case (Suc n)
  have "[0..<m * Suc n] = [0..<m * n] @ [m * n..<m * n + m]"
    using upt_add_eq_append [of 0 "m * n" m] by (simp add: add.commute)
  with Suc show ?case by (simp add: map_shift_upt)
qed simp

lemma binIdxs_eq:
  assumes "libdivide_u64_gen (of_nat (bNumBins B)) = Inr D" "0 < bNumBins B" "bNumBins B < 2 ^ 64" "length xs = 32" "j < 32"
  shows "unat (doMod32 (map binIdxCompress (map (aesHash (bSeed B)) xs)) D (of_nat (bNumBins B)) ! j) = itemBin aesHash B (xs ! j)"
proof -
  have "unat (of_nat (bNumBins B) :: u64) \<noteq> 0" using assms(2,3) by (simp add: unat_of_nat)
  then have "(of_nat (bNumBins B) :: u64) \<noteq> 0" by auto
  with assms(1,4,5) show ?thesis by (simp add: doMod32_eq itemBin_def modNumBins_def)
qed

text \<open>The batches of 32 and the remainder loop place the same items one after the other.\<close>

definition itemTask :: "(block \<Rightarrow> block \<Rightarrow> block) \<Rightarrow> baxos \<Rightarrow> block list \<Rightarrow> nat \<Rightarrow> nat \<Rightarrow> nat \<Rightarrow> hash_task" where
  "itemTask aesHash B inputs t m i =
     \<lparr>tThrd = t, tTail = (m \<le> i), tIdx = i, tBin = itemBin aesHash B (inputs ! i), tHash = aesHash (bSeed B) (inputs ! i)\<rparr>"

lemma thrdBegin_mono: "t \<le> u \<Longrightarrow> thrdBegin n T t \<le> thrdBegin n T u"
  by (simp add: thrdBegin_def div_le_mono)

lemma thrdBegin_bounds: "thrdBegin n T 0 = 0" "0 < T \<Longrightarrow> thrdBegin n T T = n" "0 < T \<Longrightarrow> t \<le> T \<Longrightarrow> thrdBegin n T t \<le> n"
  using thrdBegin_mono [of t T n T] by (simp_all add: thrdBegin_def)

lemma hashTasks_eq:
  assumes D: "libdivide_u64_gen (of_nat (bNumBins B)) = Inr D" "0 < bNumBins B" "bNumBins B < 2 ^ 64" and t: "t < T"
  shows "\<exists>m. hashTasks aesHash B D T inputs t =
    map (itemTask aesHash B inputs t m) [thrdBegin (length inputs) T t..<thrdBegin (length inputs) T (Suc t)]"
proof -
  define b where "b = thrdBegin (length inputs) T t"
  define n where "n = thrdBegin (length inputs) T (Suc t) - b"
  define m where "m = b + 32 * (n div 32)"
  let ?mine = "take n (drop b inputs)"
  have e: "thrdBegin (length inputs) T (Suc t) = b + n"
    using thrdBegin_mono [of t "Suc t" "length inputs" T] by (simp add: n_def b_def)
  have len: "b + n \<le> length inputs" using thrdBegin_bounds(3) [of T "Suc t" "length inputs"] t e by simp
  then have lmine: "length ?mine = n" by simp
  have batch: "hashBatch aesHash B D t (b + 32 * k) (drop (32 * k) ?mine) =
      map (\<lambda>j. itemTask aesHash B inputs t m (b + (32 * k + j))) [0..<32]" if k: "k < n div 32" for k
  proof -
    have k32: "32 * k + 32 \<le> n" using k by (simp add: less_eq_div_iff_mult_less_eq)
    then have l: "length (take 32 (drop (32 * k) ?mine)) = 32" using lmine by simp
    have nth: "take 32 (drop (32 * k) ?mine) ! j = inputs ! (b + (32 * k + j))" if "j < 32" for j
      using that k32 len lmine by simp
    have "\<not> m \<le> b + (32 * k + j)" if "j < 32" for j using that k by (simp add: m_def)
    with binIdxs_eq [OF D l, where aesHash = aesHash] nth l show ?thesis
      unfolding hashBatch_def itemTask_def Let_def by (intro map_cong refl) (simp add: add.assoc)
  qed
  have tail: "hashTail aesHash B t (b + i) (?mine ! i) = itemTask aesHash B inputs t m (b + i)"
    if "i \<in> set [32 * (n div 32)..<n]" for i
    using that len by (simp add: hashTail_def itemTask_def itemBin_def Let_def m_def)
  have "hashTasks aesHash B D T inputs t =
      concat (map (\<lambda>k. map (\<lambda>j. itemTask aesHash B inputs t m (b + (32 * k + j))) [0..<32]) [0..<n div 32]) @
      map (\<lambda>i. itemTask aesHash B inputs t m (b + i)) [32 * (n div 32)..<n]"
    unfolding hashTasks_def Let_def b_def [symmetric] Suc_eq_plus1 [symmetric] n_def [symmetric]
    using batch tail by (intro arg_cong2 [of _ _ _ _ append] arg_cong [of _ _ concat] map_cong refl) auto
  also have "\<dots> = map (\<lambda>i. itemTask aesHash B inputs t m (b + i)) [0..<32 * (n div 32)] @
      map (\<lambda>i. itemTask aesHash B inputs t m (b + i)) [32 * (n div 32)..<n]"
    using concat_map_upt [of "\<lambda>i. itemTask aesHash B inputs t m (b + i)" 32 "n div 32"] by (simp only: mult.commute)
  also have "\<dots> = map (\<lambda>i. itemTask aesHash B inputs t m (b + i)) [0..<n]"
    using upt_add_eq_append [of 0 "32 * (n div 32)" "n - 32 * (n div 32)"] by (simp only: map_append [symmetric]) simp
  also have "\<dots> = map (itemTask aesHash B inputs t m) [b..<b + n]"
    by (simp only: map_shift_upt [of "itemTask aesHash B inputs t m" b n])
  finally show ?thesis unfolding e b_def by blast
qed

subsection \<open>Placing\<close>

text \<open>The tasks that put an item into thread t's part of bin b.\<close>

definition sel :: "nat \<Rightarrow> nat \<Rightarrow> hash_task list \<Rightarrow> hash_task list" where
  "sel t b xs = filter (\<lambda>k. tThrd k = t \<and> tBin k = b) xs"

lemma sel_simps [simp]: "sel t b [] = []" "sel t b (xs @ ys) = sel t b xs @ sel t b ys"
  "sel t b [k] = (if tThrd k = t \<and> tBin k = b then [k] else [])"
  by (simp_all add: sel_def)

lemma binStart_eq: "binStart T per t b + j = per * (T * b + t) + j"
  by (simp add: binStart_def algebra_simps)

lemma binStart_inj:
  assumes "t < T" "u < T" "i < per" "j < per"
  shows "binStart T per t b + i = binStart T per u c + j \<longleftrightarrow> t = u \<and> b = c \<and> i = j"
proof
  assume "binStart T per t b + i = binStart T per u c + j"
  then have "per * (T * b + t) + i = per * (T * c + u) + j" by (simp only: binStart_eq)
  then have 1: "T * b + t = T * c + u" "i = j" using assms(3,4)
    by (metis add.commute add_left_imp_eq div_mult_self4 div_less gr_implies_not0 mult.commute add_0) +
  from 1(1) have "b = c" "t = u" using assms(1,2)
    by (metis add.commute add_left_imp_eq div_mult_self4 div_less gr_implies_not0 mult.commute add_0)+
  with 1(2) show "t = u \<and> b = c \<and> i = j" by simp
qed simp

lemma binStart_bound:
  assumes "t < T" "b < nb"
  shows "binStart T per t b + per \<le> nb * T * per"
proof -
  have "T * b + t + 1 \<le> T * b + T" using assms(1) by simp
  also have "\<dots> = T * (b + 1)" by simp
  also have "\<dots> \<le> T * nb" using assms(2) by (intro mult_le_mono) simp_all
  finally have "per * (T * b + t + 1) \<le> per * (T * nb)" by (rule mult_le_mono2)
  then show ?thesis using binStart_eq [of T per t b per] by (simp add: algebra_simps)
qed

text \<open>The state after the tasks xs.\<close>

definition regions :: "nat \<Rightarrow> nat \<Rightarrow> nat \<Rightarrow> 'v list \<Rightarrow> hash_task list \<Rightarrow> block list \<Rightarrow> 'v list \<Rightarrow> nat \<Rightarrow> bool" where
  "regions T per nb vals xs hs vs b \<longleftrightarrow> length hs = nb * T * per \<and> length vs = nb * T * per \<and>
     (\<forall>t<T. \<forall>j<length (sel t b xs). hs ! (binStart T per t b + j) = tHash (sel t b xs ! j) \<and>
        vs ! (binStart T per t b + j) = vals ! tIdx (sel t b xs ! j))"

definition sizes_ok :: "nat \<Rightarrow> nat \<Rightarrow> hash_task list \<Rightarrow> nat list list \<Rightarrow> bool" where
  "sizes_ok T nb xs sizes \<longleftrightarrow> length sizes = T \<and>
     (\<forall>t<T. length (sizes ! t) = nb \<and> (\<forall>b<nb. sizes ! t ! b = length (sel t b xs)))"

definition placed :: "nat \<Rightarrow> nat \<Rightarrow> nat \<Rightarrow> 'v list \<Rightarrow> hash_task list \<Rightarrow> 'v bins \<Rightarrow> bool" where
  "placed T per nb vals xs st \<longleftrightarrow> sizes_ok T nb xs (thrdBinSizes st) \<and> length (inputMapping st) = nb * T * per \<and>
     (\<forall>b<nb. regions T per nb vals xs (hashBacking st) (valBacking st) b)"

definition task_ok :: "nat \<Rightarrow> nat \<Rightarrow> nat \<Rightarrow> hash_task \<Rightarrow> bool" where
  "task_ok T nb n k \<longleftrightarrow> tThrd k < T \<and> tBin k < nb \<and> tIdx k < n"

lemma putItem_ok:
  assumes p: "placed T per nb vals xs st" and k: "task_ok T nb (length vals) k" and room: "length (sel (tThrd k) (tBin k) xs) < per"
    and fit: "\<forall>t<T. \<forall>b<nb. length (sel t b xs) \<le> per"
  shows "\<exists>st'. putItem T per vals k st = Inr st' \<and> placed T per nb vals (xs @ [k]) st'"
proof -
  let ?t = "tThrd k" and ?b = "tBin k"
  let ?bs = "length (sel ?t ?b xs)" and ?i = "binStart T per ?t ?b + length (sel ?t ?b xs)"
  have K: "?t < T" "?b < nb" "tIdx k < length vals" using k by (auto simp: task_ok_def)
  have S: "length (thrdBinSizes st) = T" "\<And>t. t < T \<Longrightarrow> length (thrdBinSizes st ! t) = nb"
    "\<And>t b. t < T \<Longrightarrow> b < nb \<Longrightarrow> thrdBinSizes st ! t ! b = length (sel t b xs)" "length (inputMapping st) = nb * T * per"
    using p by (auto simp: placed_def sizes_ok_def)
  have L: "length (hashBacking st) = nb * T * per" "length (valBacking st) = nb * T * per"
    using p K(2) by (auto simp: placed_def regions_def)
  have R: "hashBacking st ! (binStart T per t b + j) = tHash (sel t b xs ! j)"
    "valBacking st ! (binStart T per t b + j) = vals ! tIdx (sel t b xs ! j)" if "t < T" "b < nb" "j < length (sel t b xs)" for t b j
    using p that by (auto simp: placed_def regions_def)
  note bound = binStart_bound [OF K(1,2), of per]
  let ?st = "\<lparr>thrdBinSizes = (thrdBinSizes st)[?t := (thrdBinSizes st ! ?t)[?b := ?bs + 1]],
          inputMapping = (inputMapping st)[?i := tIdx k],
          valBacking = (valBacking st)[?i := vals ! tIdx k], hashBacking = (hashBacking st)[?i := tHash k]\<rparr>"
  have i: "?i < nb * T * per" using room bound by simp
  have "putItem T per vals k st = Inr ?st"
    using K S room bound by (simp add: putItem_def Let_def)
  moreover have "sizes_ok T nb (xs @ [k]) (thrdBinSizes ?st)"
    using K(1,2) S by (auto simp: sizes_ok_def nth_list_update)
  moreover have "regions T per nb vals (xs @ [k]) (hashBacking ?st) (valBacking ?st) b" if b: "b < nb" for b
  proof -
    have "(hashBacking st)[?i := tHash k] ! (binStart T per t b + j) = tHash (sel t b (xs @ [k]) ! j) \<and>
        (valBacking st)[?i := vals ! tIdx k] ! (binStart T per t b + j) = vals ! tIdx (sel t b (xs @ [k]) ! j)"
      if t: "t < T" and j: "j < length (sel t b (xs @ [k]))" for t j
    proof (cases "?t = t \<and> ?b = b \<and> j = ?bs")
      case True
      with i L show ?thesis by (simp add: nth_append)
    next
      case False
      then have j': "j < length (sel t b xs)" using j by (auto split: if_splits)
      then have "j < per" using fit t b by (meson less_le_trans)
      then have "?i \<noteq> binStart T per t b + j" using binStart_inj [OF K(1) t room, of j ?b b] False by auto
      with R [OF t b j'] j' show ?thesis by (simp add: nth_append)
    qed
    with L show ?thesis by (simp add: regions_def)
  qed
  ultimately show ?thesis using S(4) by (auto simp: placed_def)
qed

lemma putItems_ok:
  assumes "placed T per nb vals xs st" "\<forall>k\<in>set ys. task_ok T nb (length vals) k"
    and "\<forall>t<T. \<forall>b<nb. length (sel t b (xs @ ys)) \<le> per"
  shows "\<exists>st'. foldr_res (putItem T per vals) ys st = Inr st' \<and> placed T per nb vals (xs @ ys) st'"
  using assms
proof (induction ys arbitrary: xs st)
  case (Cons k ys)
  have k: "task_ok T nb (length vals) k" using Cons.prems(2) by simp
  have fit: "\<forall>t<T. \<forall>b<nb. length (sel t b xs) \<le> per"
    using Cons.prems(3) by (metis add_leE length_append sel_simps(2))
  have "length (sel (tThrd k) (tBin k) (xs @ k # ys)) \<le> per" using Cons.prems(3) k by (auto simp: task_ok_def)
  then have "length (sel (tThrd k) (tBin k) xs) < per" by (simp add: sel_def)
  from putItem_ok [OF Cons.prems(1) k this fit] obtain st1 where
    "putItem T per vals k st = Inr st1" "placed T per nb vals (xs @ [k]) st1" by blast
  with Cons.IH [of "xs @ [k]" st1] Cons.prems(2,3) show ?case by simp
qed simp

lemma placed_start:
  "placed T per nb vals [] \<lparr>thrdBinSizes = replicate T (replicate nb 0), inputMapping = replicate (nb * T * per) 0,
     valBacking = replicate (nb * T * per) v, hashBacking = replicate (nb * T * per) 0\<rparr>"
  by (simp add: placed_def sizes_ok_def regions_def)

lemma sel_interleave:
  assumes "owned tThrd ts" "t < length ts"
  shows "sel t b (interleave s ts) = sel t b (ts ! t)"
proof -
  have "sel t b (interleave s ts) = filter (\<lambda>k. tBin k = b) (filter (\<lambda>k. tThrd k = t) (interleave s ts))"
    by (simp add: sel_def conj_commute)
  also have "\<dots> = filter (\<lambda>k. tBin k = b) (ts ! t)" by (simp only: filter_interleave [OF assms])
  also have "\<dots> = sel t b (ts ! t)" using assms by (auto simp: sel_def owned_def intro!: filter_cong)
  finally show ?thesis .
qed

subsection \<open>Merging\<close>

lemma copy_loop:
  assumes "d \<le> s" "s + n \<le> length a" "\<And>j. j < n \<Longrightarrow> Q j"
  shows "foldr_res (\<lambda>j a. rbind (at a (s + j)) (\<lambda>v. rbind (guardr (Q j) UB) (\<lambda>_. Inr (a[d + j := v])))) [0..<n] a =
    Inr (storeAt d (take n (drop s a)) a)"
  using assms(2,3)
proof (induction n)
  case 0
  then show ?case by (simp add: storeAt_def)
next
  case (Suc n)
  let ?a = "storeAt d (take n (drop s a)) a"
  have l: "length ?a = length a" "length (take n (drop s a)) = n" using Suc.prems assms(1) by (simp_all add: length_storeAt)
  have "?a ! (s + n) = a ! (s + n)" using Suc.prems assms(1) l by (simp add: storeAt_nth)
  moreover have "?a[d + n := a ! (s + n)] = storeAt d (take (Suc n) (drop s a)) a"
    using Suc.prems assms(1) l by (intro nth_equalityI) (auto simp: storeAt_nth length_storeAt nth_list_update)
  ultimately show ?case using Suc l by (simp add: foldr_res_append)
qed

text \<open>Merging in one array: the parts of the threads before i are next to each other, and the rest
  of the array is as it was.\<close>

definition merged :: "nat \<Rightarrow> nat \<Rightarrow> (nat \<Rightarrow> 'x list) \<Rightarrow> 'x list \<Rightarrow> nat \<Rightarrow> 'x list \<Rightarrow> bool" where
  "merged bin per parts a i a' \<longleftrightarrow> length a' = length a \<and>
     (\<forall>x<length a. x < bin \<or> bin + per * i \<le> x \<longrightarrow> a' ! x = a ! x) \<and>
     take (length (concat (map parts [0..<i]))) (drop bin a') = concat (map parts [0..<i])"

lemma length_parts: "(\<And>t. t < i \<Longrightarrow> length (parts t) \<le> per) \<Longrightarrow> length (concat (map parts [0..<i])) \<le> per * i"
proof (induction i)
  case (Suc i)
  then have "length (concat (map parts [0..<i])) \<le> per * i" "length (parts i) \<le> per" by simp_all
  then show ?case by simp
qed simp

lemma merge_step:
  assumes m: "merged bin per parts a i a'" and i: "i < T" and len: "bin + per * T \<le> length a"
    and parts: "\<And>t. t < T \<Longrightarrow> length (parts t) \<le> per" "\<And>t j. t < T \<Longrightarrow> j < length (parts t) \<Longrightarrow> a ! (bin + per * t + j) = parts t ! j"
  shows "take (length (parts i)) (drop (bin + per * i) a') = parts i"
    and "merged bin per parts a (Suc i) (storeAt (bin + length (concat (map parts [0..<i]))) (parts i) a')"
proof -
  let ?C = "concat (map parts [0..<i])"
  have C: "length ?C \<le> per * i" using parts(1) i by (intro length_parts) simp
  have pi: "length (parts i) \<le> per" using parts(1) i .
  have "per * Suc i \<le> per * T" using i by (intro mult_le_mono2) simp
  then have room: "bin + per * i + per \<le> length a" using len by simp
  have l: "length a' = length a" and M: "take (length ?C) (drop bin a') = ?C"
    "\<And>x. x < length a \<Longrightarrow> x < bin \<or> bin + per * i \<le> x \<Longrightarrow> a' ! x = a ! x" using m by (auto simp: merged_def)
  show "take (length (parts i)) (drop (bin + per * i) a') = parts i"
    using l room pi M(2) parts(2) [OF i] by (intro nth_equalityI) simp_all
  let ?a = "storeAt (bin + length ?C) (parts i) a'"
  have la: "length ?a = length a" using l room C pi by (simp add: length_storeAt)
  have "?a ! x = a ! x" if "x < length a" "x < bin \<or> bin + per * Suc i \<le> x" for x
    using that l C pi room M(2) [of x] by (auto simp: storeAt_nth)
  moreover have "take (length (?C @ parts i)) (drop bin ?a) = ?C @ parts i"
  proof (rule nth_equalityI)
    show l2: "length (take (length (?C @ parts i)) (drop bin ?a)) = length (?C @ parts i)" using la C pi room by simp
    fix x assume "x < length (take (length (?C @ parts i)) (drop bin ?a))"
    then have x: "x < length ?C + length (parts i)" using l2 by simp
    have "?C ! x = a' ! (bin + x)" if "x < length ?C"
    proof -
      have "?C ! x = take (length ?C) (drop bin a') ! x" by (simp only: M(1))
      also have "\<dots> = a' ! (bin + x)" using that l C room by simp
      finally show ?thesis .
    qed
    then show "take (length (?C @ parts i)) (drop bin ?a) ! x = (?C @ parts i) ! x"
      using x la l C pi room by (auto simp: storeAt_nth nth_append)
  qed
  ultimately show "merged bin per parts a (Suc i) ?a" using la by (simp add: merged_def)
qed

text \<open>All items of bin b, those of thread 0 first.\<close>

definition binItems :: "nat \<Rightarrow> nat \<Rightarrow> hash_task list \<Rightarrow> hash_task list" where
  "binItems T b xs = concat (map (\<lambda>t. sel t b xs) [0..<T])"

lemma map_binItems: "map f (binItems T b xs) = concat (map (\<lambda>t. map f (sel t b xs)) [0..<T])"
  by (simp add: binItems_def map_concat comp_def)

lemma binCount_ok:
  assumes "sizes_ok T nb xs sizes" "b < nb"
  shows "binCount T sizes b = Inr (length (binItems T b xs))"
proof -
  have "i \<le> T \<Longrightarrow> foldr_res (\<lambda>i n. rbind (at sizes i) (\<lambda>s. rbind (at s b) (\<lambda>k. Inr (n + k)))) [0..<i] 0 =
      Inr (length (concat (map (\<lambda>t. sel t b xs) [0..<i])))" for i
    using assms by (induction i) (auto simp: foldr_res_append sizes_ok_def)
  then show ?thesis by (simp add: binCount_def binItems_def)
qed

lemma mergeThrd_ok:
  fixes vals :: "'v list"
  defines "H \<equiv> \<lambda>xs b t. map tHash (sel t b xs)" and "Y \<equiv> \<lambda>xs b t. map (\<lambda>k. vals ! tIdx k) (sel t b xs)"
  assumes sz: "sizes_ok T nb xs sizes" and b: "b < nb" and r: "regions T per nb vals xs hs vs b"
    and fit: "\<forall>t<T. length (sel t b xs) \<le> per" and i: "i < T"
    and mh: "merged (binStart T per 0 b) per (H xs b) hs i hs'" and mv: "merged (binStart T per 0 b) per (Y xs b) vs i vs'"
  shows "\<exists>hs'' vs''. mergeThrd T per sizes b (length (binItems T b xs)) i (length (concat (map (H xs b) [0..<i])), hs', vs') =
      Inr (length (concat (map (H xs b) [0..<Suc i])), hs'', vs'') \<and>
    merged (binStart T per 0 b) per (H xs b) hs (Suc i) hs'' \<and> merged (binStart T per 0 b) per (Y xs b) vs (Suc i) vs''"
proof -
  let ?bin = "binStart T per 0 b" and ?n = "length (sel i b xs)" and ?pos = "length (concat (map (H xs b) [0..<i]))"
  have T: "0 < T" using i by simp
  have len: "?bin + per * T \<le> length hs" "?bin + per * T \<le> length vs"
  proof -
    have "T - 1 < T" using T by simp
    from binStart_bound [OF this b, of per] have "?bin + per * T \<le> nb * T * per"
      using T by (cases T) (auto simp: binStart_def algebra_simps)
    then show "?bin + per * T \<le> length hs" "?bin + per * T \<le> length vs" using r by (simp_all add: regions_def)
  qed
  have start: "binStart T per t b = ?bin + per * t" for t by (simp add: binStart_def)
  have ph: "length (H xs b t) \<le> per" "length (Y xs b t) \<le> per" if "t < T" for t using fit that by (simp_all add: H_def Y_def)
  have eh: "hs ! (?bin + per * t + j) = H xs b t ! j" if "t < T" "j < length (H xs b t)" for t j
    using r that unfolding regions_def H_def start [of t, symmetric] by simp
  have ey: "vs ! (?bin + per * t + j) = Y xs b t ! j" if "t < T" "j < length (Y xs b t)" for t j
    using r that unfolding regions_def Y_def start [of t, symmetric] by simp
  note SH = merge_step [OF mh i len(1) ph(1) eh] and SY = merge_step [OF mv i len(2) ph(2) ey]
  have pos: "length (concat (map (Y xs b) [0..<i])) = ?pos" by (simp add: H_def Y_def length_concat comp_def)
  have ps: "?pos \<le> per * i" using ph(1) i by (intro length_parts) simp
  have total: "?pos + ?n \<le> length (binItems T b xs)"
  proof -
    have "[0..<T] = [0..<i] @ i # [Suc i..<T]" using i upt_add_eq_append [of 0 i "T - i"] by (simp add: upt_conv_Cons)
    then show ?thesis by (simp add: binItems_def H_def length_concat comp_def)
  qed
  have szs: "i < length sizes" "b < length (sizes ! i)" "sizes ! i ! b = ?n" "?n \<le> per"
    using sz b i fit by (auto simp: sizes_ok_def)
  have "per * Suc i \<le> per * T" using i by (intro mult_le_mono2) simp
  then have room: "?bin + per * i + ?n \<le> length vs'" using len(2) mv szs(4) by (simp add: merged_def)
  have copy: "foldr_res (\<lambda>j vals. rbind (at vals (binStart T per i b + j)) (\<lambda>v.
      rbind (guardr (?pos + j < length (binItems T b xs)) UB) (\<lambda>_. Inr (vals[?bin + ?pos + j := v])))) [0..<?n] vs' =
    Inr (storeAt (?bin + ?pos) (Y xs b i) vs')"
    using copy_loop [of "?bin + ?pos" "binStart T per i b" ?n vs' "\<lambda>j. ?pos + j < length (binItems T b xs)"] ps room total SY(1)
    by (simp add: start [of i] Y_def)
  have "mergeThrd T per sizes b (length (binItems T b xs)) i (?pos, hs', vs') =
      Inr (?pos + ?n, storeAt (?bin + ?pos) (H xs b i) hs', storeAt (?bin + ?pos) (Y xs b i) vs')"
    using szs copy SH(1) by (simp add: mergeThrd_def Let_def start [of i] H_def)
  moreover have "?pos + ?n = length (concat (map (H xs b) [0..<Suc i]))" by (simp add: H_def)
  ultimately show ?thesis using SH(2) SY(2) unfolding pos by auto
qed

lemma mergeBin_ok:
  assumes sz: "sizes_ok T nb xs sizes" and b: "b < nb" and r: "regions T per nb vals xs hs vs b"
    and fit: "\<forall>t<T. length (sel t b xs) \<le> per" and T: "0 < T"
  shows "\<exists>hs' vs'. mergeBin T per sizes b (length (binItems T b xs)) hs vs = Inr (hs', vs') \<and>
    take (length (binItems T b xs)) (drop (binStart T per 0 b) hs') = map tHash (binItems T b xs) \<and>
    take (length (binItems T b xs)) (drop (binStart T per 0 b) vs') = map (\<lambda>k. vals ! tIdx k) (binItems T b xs) \<and>
    length hs' = length hs \<and> length vs' = length vs \<and>
    (\<forall>x<length hs. x < binStart T per 0 b \<or> binStart T per 0 b + per * T \<le> x \<longrightarrow> hs' ! x = hs ! x \<and> vs' ! x = vs ! x)"
proof -
  let ?bin = "binStart T per 0 b"
  let ?H = "\<lambda>t. map tHash (sel t b xs)" and ?Y = "\<lambda>t. map (\<lambda>k. vals ! tIdx k) (sel t b xs)"
  let ?len = "\<lambda>i. length (concat (map ?H [0..<i]))"
  have start: "merged ?bin per ?H hs 1 hs" "merged ?bin per ?Y vs 1 vs"
  proof -
    have "binStart T per 0 b + per \<le> nb * T * per" using T b by (rule binStart_bound)
    then have l: "?bin + per \<le> length hs" "?bin + per \<le> length vs" using r by (simp_all add: regions_def)
    have n: "length (sel 0 b xs) \<le> per" using fit T by simp
    have "take (length (sel 0 b xs)) (drop ?bin hs) = ?H 0" "take (length (sel 0 b xs)) (drop ?bin vs) = ?Y 0"
      using r T l n by (auto simp: regions_def intro!: nth_equalityI)
    then show "merged ?bin per ?H hs 1 hs" "merged ?bin per ?Y vs 1 vs" by (simp_all add: merged_def)
  qed
  have loop: "i < T \<Longrightarrow> \<exists>hs' vs'. foldr_res (mergeThrd T per sizes b (length (binItems T b xs))) [1..<Suc i] (?len 1, hs, vs) =
      Inr (?len (Suc i), hs', vs') \<and> merged ?bin per ?H hs (Suc i) hs' \<and> merged ?bin per ?Y vs (Suc i) vs'" for i
  proof (induction i)
    case 0
    with start show ?case by simp
  next
    case (Suc i)
    then obtain hs1 vs1 where IH: "foldr_res (mergeThrd T per sizes b (length (binItems T b xs))) [1..<Suc i] (?len 1, hs, vs) =
      Inr (?len (Suc i), hs1, vs1)" "merged ?bin per ?H hs (Suc i) hs1" "merged ?bin per ?Y vs (Suc i) vs1" by auto
    from mergeThrd_ok [OF sz b r fit Suc.prems IH(2,3)] IH(1) show ?case
      by (simp add: foldr_res_append del: upt_Suc add: upt_Suc_append)
  qed
  from loop [of "T - 1"] T obtain hs' vs' where
    L: "foldr_res (mergeThrd T per sizes b (length (binItems T b xs))) [1..<T] (?len 1, hs, vs) = Inr (?len T, hs', vs')"
      "merged ?bin per ?H hs T hs'" "merged ?bin per ?Y vs T vs'" by auto
  have n: "?len T = length (binItems T b xs)" "length (concat (map ?Y [0..<T])) = length (binItems T b xs)"
    by (simp_all add: binItems_def length_concat comp_def)
  have "sizes ! 0 ! b = ?len 1" "0 < length sizes" "b < length (sizes ! 0)" "?len 1 \<le> per"
    using sz b T fit by (auto simp: sizes_ok_def)
  with L(1) have "mergeBin T per sizes b (length (binItems T b xs)) hs vs = Inr (hs', vs')" by (simp add: mergeBin_def)
  moreover have "length hs = length vs" using r by (simp add: regions_def)
  ultimately show ?thesis using L(2,3) unfolding merged_def map_binItems n by auto
qed

end
