(* ===== verification/BaxosSolve.thy ===== *)
theory BaxosSolve
  imports BaxosBins
begin

section \<open>Solving the bins\<close>

text \<open>
  The second half of \<open>implParSolve\<close> (\<open>src/volePSI/PaxosImpl.h\<close>): each bin is encoded into its own
  part of the structure, by the PaXoS object of its thread, in any schedule of the threads.
\<close>

subsection \<open>One PaXoS, many bins\<close>

lemma encode_prng_None: "encode h rndBlocks P X out None = Inr (P', p, s) \<Longrightarrow> s = None"
  by (auto simp: encode_def backfill_def backfillGf128_def backfillBinary_def gapGf128_def gapBinary_def Let_def rbind_Inr_iff
      split: if_splits)

lemma decode1_truncate:
  assumes "paxos_param.truncate P = paxos_param.truncate Q"
  shows "decode1 h P row d p = decode1 h Q row d p"
proof -
  have "mSparseSize P = mSparseSize Q" "mDenseSize P = mDenseSize Q" "mWeight P = mWeight Q" "mDt P = mDt Q"
    using assms by (auto simp: paxos_param.truncate_def)
  note eqs = this
  show ?thesis unfolding decode1_def eqs by (rule refl)
qed

lemma setInput_cols_ready:
  assumes "length rows = mNumItems P" "length dense = mNumItems P" "\<forall>r\<in>set rows. valid_row (mSparseSize P) (mWeight P) r"
    and "length cols = mSparseSize P" "length backing = mNumItems P * mWeight P"
    and "0 < mWeight P" "mNumItems P + 2 \<le> mSparseSize P" "mSparseSize P < 2 ^ mIdxBits P" "8 \<le> mIdxBits P"
    and "length (mNodes (mWeightData P)) \<le> mSparseSize P" "\<forall>c<mSparseSize P. length (colRows rows c) < 200"
  shows "\<exists>P'. setInput_cols rows dense cols backing (rowWeights (mSparseSize P) rows) P = Inr P' \<and> tri_ready P' \<and> mRows P' = rows \<and>
    mDense P' = dense \<and> paxos_param.truncate P' = paxos_param.truncate P \<and> mNumItems P' = mNumItems P \<and> mIdxBits P' = mIdxBits P"
proof -
  let ?P = "P\<lparr>mRows := rows, mDense := dense, mCols := cols, mColBacking := backing\<rparr>"
  have ok: "rows_ok ?P" "size_ok ?P" using assms by (auto simp: rows_ok_def size_ok_def NullNode_def)
  have "list_all (\<lambda>r. length r = mWeight P) rows" using assms(3) by (simp add: list_all_iff valid_row_def)
  then have eq: "setInput_cols rows dense cols backing (rowWeights (mSparseSize P) rows) P = setInput_finish (rowWeights (mSparseSize P) rows) ?P"
    using assms by (simp add: setInput_cols_def rowWeights_def)
  from setInput_finish_ok [OF ok] assms obtain cs bk wd where
    F: "setInput_finish (rowWeights (mSparseSize P) rows) ?P = Inr (?P\<lparr>mCols := cs, mColBacking := bk, mWeightData := wd\<rparr>)"
    "cols_ok (?P\<lparr>mCols := cs, mColBacking := bk, mWeightData := wd\<rparr>)" "weights_ok (?P\<lparr>mCols := cs, mColBacking := bk, mWeightData := wd\<rparr>)"
    by auto
  let ?P' = "?P\<lparr>mCols := cs, mColBacking := bk, mWeightData := wd\<rparr>"
  have "rows_ok ?P'" "size_ok ?P'" using ok by (simp_all add: rows_ok_def size_ok_def)
  then have "tri_ready ?P'" using F(2,3) assms(6,7,9,11) by (simp add: tri_ready_def)
  with F(1) show ?thesis unfolding eq by (auto simp: paxos_param.truncate_def)
qed

text \<open>A hasher and parameters that fit an index type.\<close>

definition hash_prm_ok :: "nat \<Rightarrow> paxos_param \<Rightarrow> block \<Rightarrow> paxos_hash \<Rightarrow> bool" where
  "hash_prm_ok ib prm seed hh \<longleftrightarrow> PaxosHash_init ib seed (mWeight prm) (mSparseSize prm) = Inr hh \<and> hash_ok ib hh \<and>
     phWeight hh = mWeight prm \<and> phSparseSize hh = mSparseSize prm \<and> phSeed hh = seed \<and>
     mSparseSize prm < 2 ^ ib - 1 \<and> 8 \<le> ib \<and> ib \<le> 64"

lemma hash_prm_exists:
  assumes "2 \<le> mWeight prm" "mWeight prm \<le> mSparseSize prm" "mSparseSize prm < 2 ^ ib - 1" "8 \<le> ib" "ib \<le> 64"
  shows "\<exists>hh. hash_prm_ok ib prm seed hh"
proof -
  have "(2 :: nat) ^ ib \<le> 2 ^ 64" using assms(5) by (intro power_increasing) auto
  then have "mSparseSize prm < 2 ^ ib" "mSparseSize prm < 2 ^ 64" using assms(3) by linarith+
  from PaxosHash_init_ok [OF assms(1,2) this] assms show ?thesis by (auto simp: hash_prm_ok_def)
qed

lemma Paxos_init_eq:
  assumes "hash_prm_ok (mIdxBits P) prm seed hh" "n \<le> mSparseSize prm"
  shows "Paxos_init n prm seed P = Inr (P\<lparr>mSparseSize := mSparseSize prm, mDenseSize := mDenseSize prm, mWeight := mWeight prm,
    mG := mG prm, mSsp := mSsp prm, mDt := mDt prm, mNumItems := n, mSeed := seed, mHasher := hh\<rparr>)"
proof -
  have "n < 2 ^ mIdxBits P" using assms by (auto simp: hash_prm_ok_def)
  with assms show ?thesis by (simp add: Paxos_init_def maxIdx_def hash_prm_ok_def Let_def not_le)
qed

lemma buildRow_prm: "hash_prm_ok ib prm seed hh \<Longrightarrow> valid_row (mSparseSize prm) (mWeight prm) (buildRow ib hh x)"
  using buildRow_ok [of ib hh x] by (simp add: hash_prm_ok_def)

lemma binRows_eq:
  assumes "hash_ok ib hh"
  shows "binRows ib B hh hashes = map (buildRow ib hh) hashes"
proof -
  let ?m = "length hashes div 32"
  have "concat (map (\<lambda>k. buildRow32 ib hh (take 32 (drop (32 * k) hashes))) [0..<?m]) =
      concat (map (\<lambda>k. map (buildRow ib hh) (take 32 (drop (32 * k) hashes))) [0..<?m])"
  proof (intro arg_cong [of _ _ concat] map_cong refl)
    fix k assume "k \<in> set [0..<?m]"
    then have "32 * k + 32 \<le> length hashes" by (simp add: less_eq_div_iff_mult_less_eq)
    then show "buildRow32 ib hh (take 32 (drop (32 * k) hashes)) = map (buildRow ib hh) (take 32 (drop (32 * k) hashes))"
      using assms by (intro buildRow32_eq) simp_all
  qed
  also have "\<dots> = map (buildRow ib hh) (concat (map (\<lambda>k. take 32 (drop (32 * k) hashes)) [0..<?m]))"
    by (simp add: map_concat comp_def)
  also have "\<dots> = map (buildRow ib hh) (take (32 * ?m) hashes)" by (simp only: concat_take_drop)
  finally show ?thesis by (simp add: binRows_def Let_def flip: map_append)
qed

lemma binWeights_eq:
  assumes "\<forall>r\<in>set rows. valid_row (mSparseSize (bParam B)) (bWeight B) r"
  shows "binWeights B rows = Inr (rowWeights (mSparseSize (bParam B)) rows)"
proof -
  have "foldr_res (\<lambda>k ws. rbind (at row k) (\<lambda>v. rbind (at ws v) (\<lambda>w. Inr (ws[v := w + 1])))) [0..<bWeight B] ws =
      foldr_res (\<lambda>v ws. rbind (at ws v) (\<lambda>w. Inr (ws[v := w + 1]))) row ws" if "row \<in> set rows" for row ws
  proof -
    have "length row = bWeight B" using assms that by (simp add: valid_row_def)
    then have "foldr_res (\<lambda>k ws. rbind (at row k) (\<lambda>v. rbind (at ws v) (\<lambda>w. Inr (ws[v := w + 1])))) [0..<bWeight B] ws =
        foldr_res (\<lambda>k ws. rbind (at ws (row ! k)) (\<lambda>w. Inr (ws[row ! k := w + 1]))) [0..<length row] ws"
      by (intro foldr_res_cong) simp_all
    also have "\<dots> = foldr_res (\<lambda>v ws. rbind (at ws v) (\<lambda>w. Inr (ws[v := w + 1]))) row ws"
      by (rule foldr_res_upt_nth [symmetric])
    finally show ?thesis .
  qed
  then have "binWeights B rows = foldr_res (\<lambda>row ws. foldr_res (\<lambda>v ws. rbind (at ws v) (\<lambda>w. Inr (ws[v := w + 1]))) row ws)
      rows (replicate (mSparseSize (bParam B)) 0)"
    unfolding binWeights_def by (rule foldr_res_cong [OF refl refl])
  then show ?thesis using count_rows(1) [of rows "mSparseSize (bParam B)"] assms by (auto simp: valid_row_def)
qed

lemma binAlloc_eq:
  assumes "binSize \<le> bItemsPerBin B"
  shows "binAlloc ib B binSize = Inr (replicate binSize (replicate (bWeight B) 0), replicate (binSize * bWeight B) 0,
    replicate (mSparseSize (bParam B)) 0, replicate (mSparseSize (bParam B)) (0, 0))"
proof -
  define x where "x = ib div 8"
  have "x * (binSize * bWeight B) \<le> x * (bItemsPerBin B * bWeight B)" using assms by (intro mult_le_mono) simp_all
  then have "x * binSize * bWeight B + x * (binSize * bWeight B) \<le> x * (bItemsPerBin B * bWeight B * 2)"
    unfolding mult.assoc [of x binSize] mult.assoc [of x _ 2, symmetric] by linarith
  then have "\<not> 0 + x * binSize * bWeight B + x * (binSize * bWeight B) + x * mSparseSize (bParam B) + sizeofSpan * mSparseSize (bParam B)
      > x * (bItemsPerBin B * bWeight B * 2 + mSparseSize (bParam B)) + sizeofSpan * mSparseSize (bParam B)"
    by (simp add: distrib_left)
  then show ?thesis unfolding binAlloc_def initMV_def initSpan_def Let_def prod.case x_def [symmetric] by (simp only: if_False)
qed

text \<open>The parameters of a solver that can be used.\<close>

definition baxos_ok :: "nat \<Rightarrow> baxos \<Rightarrow> paxos_hash \<Rightarrow> bool" where
  "baxos_ok ib B hh \<longleftrightarrow> hash_prm_ok ib (bParam B) (bSeed B) hh \<and> bWeight B = mWeight (bParam B) \<and> 0 < mWeight (bParam B) \<and>
     bItemsPerBin B + 2 \<le> mSparseSize (bParam B) \<and> 0 < mDenseSize (bParam B) \<and> (mDt (bParam B) = Binary \<longrightarrow> combs_ok (bParam B))"

text \<open>A PaXoS object between two bins.\<close>

definition idle :: "nat \<Rightarrow> baxos \<Rightarrow> paxos \<Rightarrow> bool" where
  "idle ib B P \<longleftrightarrow> mIdxBits P = ib \<and> length (mNodes (mWeightData P)) \<le> mSparseSize (bParam B)"

text \<open>The column weights of the rows of a list of hashes.\<close>

definition lightRows :: "nat \<Rightarrow> baxos \<Rightarrow> paxos_hash \<Rightarrow> block list \<Rightarrow> bool" where
  "lightRows ib B hh hashes \<longleftrightarrow>
     (\<forall>c<mSparseSize (bParam B). length (filter (\<lambda>x. c \<in> set (buildRow ib hh x)) hashes) < 200)"

lemma colRows_map: "length (colRows (map f xs) c) = length (filter (\<lambda>x. c \<in> set (f x)) xs)"
proof -
  have "filter (\<lambda>i. c \<in> set (map f xs ! i)) [0..<length xs] = filter (\<lambda>i. c \<in> set (f (xs ! i))) [0..<length xs]"
    by (rule filter_cong) auto
  then show ?thesis
    using length_map [of "(!) xs" "filter (\<lambda>i. c \<in> set (f (xs ! i))) [0..<length xs]"]
      filter_map [of "\<lambda>x. c \<in> set (f x)" "(!) xs" "[0..<length xs]"]
    by (simp add: colRows_def map_nth comp_def)
qed

definition benign :: "exn \<Rightarrow> bool" where
  "benign e \<longleftrightarrow> e = RTE_LOC \<or> (\<exists>msg. e = RuntimeError msg)"

lemma bin_apart:
  assumes "t < T" "j < per" "c \<noteq> b" "x = binStart T per t c + j"
  shows "x < binStart T per 0 b \<or> binStart T per 0 b + per * T \<le> x"
proof -
  have "per * t + j < per * (t + 1)" using assms(2) by simp
  also have "\<dots> \<le> per * T" using assms(1) by (intro mult_le_mono2) simp
  finally have lt: "per * t + j < per * T" .
  have x: "x = per * T * c + (per * t + j)" using assms(4) by (simp add: binStart_def)
  show ?thesis
  proof (cases "c < b")
    case True
    then have "per * T * (c + 1) \<le> per * T * b" by (intro mult_le_mono2) simp
    with x lt show ?thesis by (simp add: binStart_def)
  next
    case False
    then have "per * T * (b + 1) \<le> per * T * c" using assms(3) by (intro mult_le_mono2) simp
    with x show ?thesis by (simp add: binStart_def)
  qed
qed

lemma take_drop_storeAt:
  assumes "length p = n" "n * b + n \<le> length out" "n * c + n \<le> length out"
  shows "take n (drop (n * c) (storeAt (n * b) p out)) = (if c = b then p else take n (drop (n * c) out))"
proof (cases "c = b")
  case True
  with assms show ?thesis by (simp add: storeAt_def)
next
  case False
  have "n * c + j < n * b \<or> n * b + n \<le> n * c + j" if "j < n" for j
  proof (cases "c < b")
    case True
    then have "n * (c + 1) \<le> n * b" by (intro mult_le_mono2) simp
    with that show ?thesis by simp
  next
    case False
    then have "n * (b + 1) \<le> n * c" using \<open>c \<noteq> b\<close> by (intro mult_le_mono2) simp
    then show ?thesis by simp
  qed
  then have apart: "\<not> (n * b \<le> n * c + j \<and> n * c + j < n * b + n)" if "j < n" for j using that by fastforce
  have l: "length (storeAt (n * b) p out) = length out" using assms by (simp add: length_storeAt)
  have "take n (drop (n * c) (storeAt (n * b) p out)) ! j = take n (drop (n * c) out) ! j" if "j < n" for j
    using that assms l apart [OF that] by (auto simp: storeAt_nth)
  moreover have "length (take n (drop (n * c) (storeAt (n * b) p out))) = length (take n (drop (n * c) out))" using l by simp
  ultimately have "take n (drop (n * c) (storeAt (n * b) p out)) = take n (drop (n * c) out)" by (intro nth_equalityI) simp_all
  with False show ?thesis by simp
qed

context px_values
begin

text \<open>A part of the structure that decodes the given hashes to the given values.\<close>

definition bin_decodes :: "nat \<Rightarrow> baxos \<Rightarrow> paxos_hash \<Rightarrow> block list \<Rightarrow> 'a list \<Rightarrow> 'a list \<Rightarrow> bool" where
  "bin_decodes ib B hh hashes X p \<longleftrightarrow> length p = paxos_size (bParam B) \<and> set p \<subseteq> V \<and>
     (\<forall>P :: paxos. \<forall>j<length hashes. paxos_param.truncate P = bParam B \<longrightarrow>
        decode1 h P (buildRow ib hh (hashes ! j)) (hashes ! j) p = Inr (X ! j))"

lemma binEncode_ok:
  assumes B: "baxos_ok ib B hh" "dt = mDt (bParam B)" and P: "idle ib B P" and n: "length hashes \<le> bItemsPerBin B"
    and X: "length X = length hashes" "set X \<subseteq> V" and out: "length out = paxos_size (bParam B)" and rnd: "draws_ok rndBlocks"
    and light: "lightRows ib B hh hashes"
  shows "\<exists>P1 a b c cols P2. Paxos_init (length hashes) (bParam B) (bSeed B) P = Inr P1 \<and> mHasher P1 = hh \<and>
    binAlloc ib B (length hashes) = Inr (a, b, c, cols) \<and>
    binWeights B (binRows ib B hh hashes) = Inr (rowWeights (mSparseSize (bParam B)) (map (buildRow ib hh) hashes)) \<and>
    setInput_cols (binRows ib B hh hashes) hashes cols b (rowWeights (mSparseSize (bParam B)) (map (buildRow ib hh) hashes)) P1 = Inr P2 \<and>
    (case encode h rndBlocks P2 X out prng of
       Inl e \<Rightarrow> benign e
     | Inr (P', p, prng') \<Rightarrow> idle ib B P' \<and> length p = paxos_size (bParam B) \<and> set p \<subseteq> V \<and>
         (prng = None \<longrightarrow> prng' = None \<and> bin_decodes ib B hh hashes X p))"
proof -
  have hp: "hash_prm_ok ib (bParam B) (bSeed B) hh" "hash_ok ib hh" and w: "bWeight B = mWeight (bParam B)" "0 < mWeight (bParam B)"
    and sp: "bItemsPerBin B + 2 \<le> mSparseSize (bParam B)" "0 < mDenseSize (bParam B)" "mDt (bParam B) = Binary \<longrightarrow> combs_ok (bParam B)"
    using B(1) by (auto simp: baxos_ok_def hash_prm_ok_def)
  have ib: "mIdxBits P = ib" "8 \<le> ib" "mSparseSize (bParam B) < 2 ^ ib" and nodes: "length (mNodes (mWeightData P)) \<le> mSparseSize (bParam B)"
    using P hp(1) by (auto simp: idle_def hash_prm_ok_def)
  define P1 where "P1 = P\<lparr>mSparseSize := mSparseSize (bParam B), mDenseSize := mDenseSize (bParam B), mWeight := mWeight (bParam B),
    mG := mG (bParam B), mSsp := mSsp (bParam B), mDt := mDt (bParam B), mNumItems := length hashes, mSeed := bSeed B, mHasher := hh\<rparr>"
  have init: "Paxos_init (length hashes) (bParam B) (bSeed B) P = Inr P1"
    unfolding P1_def using hp(1) n sp(1) ib(1) by (intro Paxos_init_eq) simp_all
  have P1: "paxos_param.truncate P1 = bParam B" "mNumItems P1 = length hashes" "mIdxBits P1 = ib"
    unfolding P1_def using ib(1) by (cases "bParam B"; simp add: paxos_param.truncate_def)+
  let ?rows = "map (buildRow ib hh) hashes"
  have valid: "\<forall>r\<in>set ?rows. valid_row (mSparseSize (bParam B)) (mWeight (bParam B)) r" using buildRow_prm [OF hp(1)] by auto
  have rows: "binRows ib B hh hashes = ?rows" by (rule binRows_eq [OF hp(2)])
  have weights: "binWeights B (binRows ib B hh hashes) = Inr (rowWeights (mSparseSize (bParam B)) ?rows)"
    unfolding rows using valid w(1) by (intro binWeights_eq) simp
  note alloc = binAlloc_eq [OF n, of ib]
  let ?b = "replicate (length hashes * bWeight B) 0" and ?cols = "replicate (mSparseSize (bParam B)) (0, 0)"
  have "\<exists>P2. setInput_cols ?rows hashes ?cols ?b (rowWeights (mSparseSize P1) ?rows) P1 = Inr P2 \<and> tri_ready P2 \<and> mRows P2 = ?rows \<and>
    mDense P2 = hashes \<and> paxos_param.truncate P2 = paxos_param.truncate P1 \<and> mNumItems P2 = mNumItems P1 \<and> mIdxBits P2 = mIdxBits P1"
    using valid w sp n ib nodes light by (intro setInput_cols_ready) (simp_all add: P1_def colRows_map lightRows_def)
  then obtain P2 where P2: "setInput_cols ?rows hashes ?cols ?b (rowWeights (mSparseSize P1) ?rows) P1 = Inr P2" "tri_ready P2" "mRows P2 = ?rows"
    "mDense P2 = hashes" "paxos_param.truncate P2 = bParam B" "mNumItems P2 = length hashes" "mIdxBits P2 = ib"
    using P1 by (simp only: P1) blast
  have prm: "mSparseSize P2 = mSparseSize (bParam B)" "mDenseSize P2 = mDenseSize (bParam B)" "mDt P2 = mDt (bParam B)" "mG P2 = mG (bParam B)"
    using arg_cong [OF P2(5), of mSparseSize] arg_cong [OF P2(5), of mDenseSize] arg_cong [OF P2(5), of mDt] arg_cong [OF P2(5), of mG]
    by (simp_all add: paxos_param.truncate_def)
  have ready: "encode_ready P2 X" using P2(2,6) B(2) sp(2,3) X prm unfolding encode_ready_def input_vec_def combs_ok_def by simp
  have lout: "length out = paxos_size P2" using out prm by (simp add: paxos_size_def)
  have res: "case encode h rndBlocks P2 X out prng of
       Inl e \<Rightarrow> benign e
     | Inr (P', p, prng') \<Rightarrow> idle ib B P' \<and> length p = paxos_size (bParam B) \<and> set p \<subseteq> V \<and>
         (prng = None \<longrightarrow> prng' = None \<and> bin_decodes ib B hh hashes X p)"
  proof (cases "encode h rndBlocks P2 X out prng")
    case (Inl e)
    with encode_ok [OF ready lout rnd, of prng] show ?thesis by (auto simp: benign_def split: sum.splits if_splits)
  next
    case (Inr r)
    obtain P' p prng' where r: "r = (P', p, prng')" by (cases r)
    have "\<exists>t. P' = P2\<lparr>mWeightData := tWD t\<rparr> \<and> tri_final P2 t \<and> encoded P2 X prng t p"
      using encode_ok [OF ready lout rnd, of prng] Inr r by (cases "triangulate P2") (fastforce split: if_splits)+
    then obtain t where t: "P' = P2\<lparr>mWeightData := tWD t\<rparr>" "tri_final P2 t" "encoded P2 X prng t p" by blast
    from encoded_decodes [OF ready t(2,3)] have d: "length p = paxos_size P2" "set p \<subseteq> V"
      "prng = None \<Longrightarrow> \<forall>i<length hashes. decode1 h P2 (buildRow ib hh (hashes ! i)) (hashes ! i) p = Inr (X ! i)"
      by (auto simp: decodes_def P2)
    have "decode1 h Q (buildRow ib hh (hashes ! j)) (hashes ! j) p = Inr (X ! j)"
      if "prng = None" "paxos_param.truncate Q = bParam B" "j < length hashes" for Q :: paxos and j
      using d(3) [OF that(1)] that(2,3) decode1_truncate [of Q P2 h] P2(5) by simp
    moreover have "idle ib B P'" using t(1,2) P2(7) prm by (simp add: idle_def tri_final_def)
    moreover have "prng = None \<longrightarrow> prng' = None" using encode_prng_None Inr r by blast
    moreover have "paxos_size P2 = paxos_size (bParam B)" using prm by (simp add: paxos_size_def)
    ultimately show ?thesis using d(1,2) Inr r by (simp add: bin_decodes_def)
  qed
  have "mSparseSize P1 = mSparseSize (bParam B)" "mHasher P1 = hh" by (simp_all add: P1_def)
  with P2(1) rows have "setInput_cols (binRows ib B hh hashes) hashes ?cols ?b
      (rowWeights (mSparseSize (bParam B)) (map (buildRow ib hh) hashes)) P1 = Inr P2" by simp
  with init alloc weights res show ?thesis using P1_def by (intro exI conjI) (assumption | simp)+
qed

text \<open>The state when the bins in \<open>fin\<close> have been encoded; \<open>q\<close> says that no generator is used.\<close>

definition solving :: "nat \<Rightarrow> baxos \<Rightarrow> paxos_hash \<Rightarrow> nat \<Rightarrow> nat \<Rightarrow> 'a list \<Rightarrow> hash_task list \<Rightarrow> bool \<Rightarrow> nat set \<Rightarrow> ('a, 'b) solver \<Rightarrow> bool" where
  "solving ib B hh T per vals xs q fin st \<longleftrightarrow>
     sizes_ok T (bNumBins B) xs (thrdBinSizes (sBins st)) \<and>
     length (hashBacking (sBins st)) = bNumBins B * T * per \<and> length (valBacking (sBins st)) = bNumBins B * T * per \<and>
     (\<forall>b<bNumBins B. b \<notin> fin \<longrightarrow> regions T per (bNumBins B) vals xs (hashBacking (sBins st)) (valBacking (sBins st)) b) \<and>
     length (sPaxos st) = T \<and> (\<forall>P\<in>set (sPaxos st). idle ib B P) \<and> length (sOut st) = bNumBins B * paxos_size (bParam B) \<and>
     (q \<longrightarrow> sPrng st = None \<and> (\<forall>b\<in>fin. bin_decodes ib B hh (map tHash (binItems T b xs)) (map (\<lambda>k. vals ! tIdx k) (binItems T b xs))
        (take (paxos_size (bParam B)) (drop (paxos_size (bParam B) * b) (sOut st)))))"

lemma solveBin_ok:
  assumes B: "baxos_ok ib B hh" "dt = mDt (bParam B)" and st: "solving ib B hh T per vals xs q fin st"
    and t: "t < T" and b: "b < bNumBins B" "b \<notin> fin" "\<forall>c\<in>fin. c < bNumBins B"
    and fit: "\<forall>t<T. \<forall>c<bNumBins B. length (sel t c xs) \<le> per" and vals: "\<forall>k\<in>set xs. tIdx k < length vals" "set vals \<subseteq> V"
    and rnd: "draws_ok rndBlocks" and light: "lightRows ib B hh (map tHash (binItems T b xs))"
  shows "case solveBin ib h rndBlocks B T per (t, b) st of Inl e \<Rightarrow> benign e
    | Inr st' \<Rightarrow> solving ib B hh T per vals xs q (insert b fin) st'"
proof (cases "length (binItems T b xs) \<le> bItemsPerBin B")
  case False
  have "binCount T (thrdBinSizes (sBins st)) b = Inr (length (binItems T b xs))"
    using st b(1) by (intro binCount_ok) (auto simp: solving_def)
  with False show ?thesis by (simp add: solveBin_def benign_def)
next
  case n: True
  let ?sz = "paxos_size (bParam B)" and ?nb = "bNumBins B" and ?bin = "binStart T per 0 b" and ?n = "length (binItems T b xs)"
  let ?hs = "hashBacking (sBins st)" and ?vs = "valBacking (sBins st)"
  let ?H = "map tHash (binItems T b xs)" and ?X = "map (\<lambda>k. vals ! tIdx k) (binItems T b xs)"
  have T: "0 < T" using t by simp
  have S: "sizes_ok T ?nb xs (thrdBinSizes (sBins st))" "length ?hs = ?nb * T * per" "length ?vs = ?nb * T * per"
    "length (sPaxos st) = T" "\<forall>P\<in>set (sPaxos st). idle ib B P" "length (sOut st) = ?nb * ?sz"
    "regions T per ?nb vals xs ?hs ?vs b" using st b(1,2) by (auto simp: solving_def)
  note count = binCount_ok [OF S(1) b(1)]
  have "\<forall>t<T. length (sel t b xs) \<le> per" using fit b(1) by blast
  from mergeBin_ok [OF S(1) b(1) S(7) this T] obtain hs' vs' where
    M: "mergeBin T per (thrdBinSizes (sBins st)) b ?n ?hs ?vs = Inr (hs', vs')" "take ?n (drop ?bin hs') = ?H" "take ?n (drop ?bin vs') = ?X"
    "length hs' = length ?hs" "length vs' = length ?vs"
    "\<forall>x<length ?hs. x < ?bin \<or> ?bin + per * T \<le> x \<longrightarrow> hs' ! x = ?hs ! x \<and> vs' ! x = ?vs ! x" by blast
  have out: "?sz * b + ?sz \<le> length (sOut st)"
  proof -
    have "?sz * (b + 1) \<le> ?sz * ?nb" using b(1) by (intro mult_le_mono2) simp
    then show ?thesis using S(6) by (simp add: mult.commute)
  qed
  have span: "px_subspan (?sz * b) ?sz (sOut st) = Inr (take ?sz (drop (?sz * b) (sOut st)))" using out by (simp add: px_subspan_def)
  have "length (take ?n (drop ?bin vs')) = ?n" by (simp only: M(3) length_map)
  then have "?n \<le> length vs' - ?bin" by simp
  moreover have "?bin + per \<le> ?nb * T * per" using T b(1) by (rule binStart_bound)
  ultimately have "?bin + ?n \<le> length ?vs" using M(5) S(3) by auto
  then have vspan: "px_subspan ?bin ?n ?vs = Inr (take ?n (drop ?bin ?vs))" by (simp add: px_subspan_def)
  have P: "idle ib B (sPaxos st ! t)" using S(4,5) t by simp
  have "\<forall>k\<in>set (binItems T b xs). tIdx k < length vals" using vals(1) by (auto simp: binItems_def sel_def)
  then have X: "length ?X = length ?H" "set ?X \<subseteq> V" using vals(2) by (auto simp: subset_iff)
  have lo: "length (take ?sz (drop (?sz * b) (sOut st))) = ?sz" using out by simp
  have ln: "length ?H \<le> bItemsPerBin B" using n by simp
  from binEncode_ok [OF B P ln X lo rnd light, of "sPrng st"] obtain P1 a0 b0 c0 cols P2 where
    E: "Paxos_init ?n (bParam B) (bSeed B) (sPaxos st ! t) = Inr P1" "mHasher P1 = hh" "binAlloc ib B ?n = Inr (a0, b0, c0, cols)"
    "binWeights B (binRows ib B hh ?H) = Inr (rowWeights (mSparseSize (bParam B)) (map (buildRow ib hh) ?H))"
    "setInput_cols (binRows ib B hh ?H) ?H cols b0 (rowWeights (mSparseSize (bParam B)) (map (buildRow ib hh) ?H)) P1 = Inr P2"
    and enc: "case encode h rndBlocks P2 ?X (take ?sz (drop (?sz * b) (sOut st))) (sPrng st) of
       Inl e \<Rightarrow> benign e
     | Inr (P', p, prng') \<Rightarrow> idle ib B P' \<and> length p = ?sz \<and> set p \<subseteq> V \<and>
         (sPrng st = None \<longrightarrow> prng' = None \<and> bin_decodes ib B hh ?H ?X p)" by (auto simp only: length_map)
  let ?enc = "encode h rndBlocks P2 ?X (take ?sz (drop (?sz * b) (sOut st))) (sPrng st)"
  have eq: "solveBin ib h rndBlocks B T per (t, b) st = rbind ?enc (\<lambda>(P, out, prng).
      Inr \<lparr>sBins = (sBins st)\<lparr>valBacking := vs', hashBacking := hs'\<rparr>, sPaxos = (sPaxos st)[t := P],
           sOut = storeAt (?sz * b) out (sOut st), sPrng = prng\<rparr>)"
    unfolding solveBin_def Let_def prod.case count rbind_simps using n S(4) t E span vspan M(1,2,3) by simp
  show ?thesis
  proof (cases ?enc)
    case (Inl e)
    with enc eq show ?thesis by simp
  next
    case (Inr r)
    obtain P' p prng' where r: "r = (P', p, prng')" by (cases r)
    have R: "idle ib B P'" "length p = ?sz" "sPrng st = None \<Longrightarrow> prng' = None \<and> bin_decodes ib B hh ?H ?X p"
      using enc Inr r by simp_all
    let ?st = "\<lparr>sBins = (sBins st)\<lparr>valBacking := vs', hashBacking := hs'\<rparr>, sPaxos = (sPaxos st)[t := P'],
           sOut = storeAt (?sz * b) p (sOut st), sPrng = prng'\<rparr>"
    have reg: "regions T per ?nb vals xs hs' vs' c" if c: "c < ?nb" "c \<notin> insert b fin" for c
    proof -
      have old: "regions T per ?nb vals xs ?hs ?vs c" using st c by (simp add: solving_def)
      have same: "hs' ! (binStart T per u c + j) = ?hs ! (binStart T per u c + j) \<and> vs' ! (binStart T per u c + j) = ?vs ! (binStart T per u c + j)"
        if "u < T" "j < length (sel u c xs)" for u j
      proof -
        have "length (sel u c xs) \<le> per" using fit that(1) c(1) by blast
        then have j: "j < per" using that(2) by simp
        have "c \<noteq> b" using c(2) by simp
        moreover have "binStart T per u c + j < length ?hs" using binStart_bound [OF that(1) c(1), of per] j S(2) by simp
        ultimately show ?thesis using bin_apart [OF that(1) j _ refl, of c b] M(6) by blast
      qed
      show ?thesis using old same M(4,5) by (simp add: regions_def)
    qed
    have cout: "take ?sz (drop (?sz * c) (storeAt (?sz * b) p (sOut st))) = (if c = b then p else take ?sz (drop (?sz * c) (sOut st)))"
      if "c < ?nb" for c
    proof -
      have "?sz * (c + 1) \<le> ?sz * ?nb" using that by (intro mult_le_mono2) simp
      then show ?thesis using out R(2) S(6) by (intro take_drop_storeAt) (simp_all add: mult.commute)
    qed
    have dec: "sPrng ?st = None \<and> (\<forall>c\<in>insert b fin. bin_decodes ib B hh (map tHash (binItems T c xs))
        (map (\<lambda>k. vals ! tIdx k) (binItems T c xs)) (take ?sz (drop (?sz * c) (sOut ?st))))" if q
    proof (intro conjI ballI)
      have q: "sPrng st = None" using st that by (simp add: solving_def)
      then show "sPrng ?st = None" using R(3) by simp
      fix c assume c: "c \<in> insert b fin"
      then have cn: "c < ?nb" using b(1,3) by blast
      show "bin_decodes ib B hh (map tHash (binItems T c xs)) (map (\<lambda>k. vals ! tIdx k) (binItems T c xs))
          (take ?sz (drop (?sz * c) (sOut ?st)))"
      proof (cases "c = b")
        case True
        with cout [OF cn] R(3) [OF q] show ?thesis by simp
      next
        case False
        with c st that have "bin_decodes ib B hh (map tHash (binItems T c xs)) (map (\<lambda>k. vals ! tIdx k) (binItems T c xs))
          (take ?sz (drop (?sz * c) (sOut st)))" by (simp add: solving_def)
        with cout [OF cn] False show ?thesis by simp
      qed
    qed
    have "set ((sPaxos st)[t := P']) \<subseteq> insert P' (set (sPaxos st))" by (rule set_update_subset_insert)
    then have "\<forall>P\<in>set ((sPaxos st)[t := P']). idle ib B P" using S(5) R(1) by blast
    moreover have "length (storeAt (?sz * b) p (sOut st)) = ?nb * ?sz" using out R(2) S(6) by (simp add: length_storeAt)
    ultimately have "solving ib B hh T per vals xs q (insert b fin) ?st"
      unfolding solving_def using S(1-4) M(4,5) reg dec by simp
    with eq Inr r show ?thesis by simp
  qed
qed

lemma solveBins_ok:
  assumes B: "baxos_ok ib B hh" "dt = mDt (bParam B)"
    and fit: "\<forall>t<T. \<forall>c<bNumBins B. length (sel t c xs) \<le> per" and vals: "\<forall>k\<in>set xs. tIdx k < length vals" "set vals \<subseteq> V"
    and rnd: "draws_ok rndBlocks" and light: "\<forall>b<bNumBins B. lightRows ib B hh (map tHash (binItems T b xs))"
    and st: "solving ib B hh T per vals xs q fin st" "\<forall>c\<in>fin. c < bNumBins B"
    and tbs: "\<forall>(t, b)\<in>set tbs. t < T \<and> b < bNumBins B \<and> b \<notin> fin" "distinct (map snd tbs)"
  shows "case foldr_res (solveBin ib h rndBlocks B T per) tbs st of Inl e \<Rightarrow> benign e
    | Inr st' \<Rightarrow> solving ib B hh T per vals xs q (fin \<union> snd ` set tbs) st'"
  using st tbs
proof (induction tbs arbitrary: fin st)
  case (Cons tb tbs)
  obtain t b where tb: "tb = (t, b)" by (cases tb)
  with Cons.prems have b: "t < T" "b < bNumBins B" "b \<notin> fin" by auto
  note one = solveBin_ok [OF B Cons.prems(1) b(1-3) Cons.prems(2) fit vals rnd]
  show ?case
  proof (cases "solveBin ib h rndBlocks B T per (t, b) st")
    case (Inl e)
    with one light b(2) tb show ?thesis by simp
  next
    case (Inr st1)
    with one light b(2) have s1: "solving ib B hh T per vals xs q (insert b fin) st1" by simp
    have "case foldr_res (solveBin ib h rndBlocks B T per) tbs st1 of Inl e \<Rightarrow> benign e
      | Inr st' \<Rightarrow> solving ib B hh T per vals xs q (insert b fin \<union> snd ` set tbs) st'"
      using Cons.prems(2-4) b(2) tb by (intro Cons.IH [OF s1]) (force, force, simp)
    moreover have "insert b fin \<union> snd ` set tbs = fin \<union> snd ` set (tb # tbs)" using tb by auto
    ultimately have "case foldr_res (solveBin ib h rndBlocks B T per) tbs st1 of Inl e \<Rightarrow> benign e
      | Inr st' \<Rightarrow> solving ib B hh T per vals xs q (fin \<union> snd ` set (tb # tbs)) st'" by (simp only:)
    with Inr tb show ?thesis by simp
  qed
qed simp

end

subsection \<open>The shares of the threads\<close>

lemma less_ceil_iff: "0 < T \<Longrightarrow> j < (m + T - 1) div T \<longleftrightarrow> j * T < m" for j m T :: nat
proof -
  assume T: "0 < T"
  have "j < (m + T - 1) div T \<longleftrightarrow> Suc j * T \<le> m + T - 1" using T less_eq_div_iff_mult_less_eq [of T "Suc j" "m + T - 1"] by auto
  also have "\<dots> \<longleftrightarrow> j * T < m" using T by auto
  finally show ?thesis .
qed

lemma thrdBins_set:
  assumes "t < T"
  shows "set (thrdBins T nb t) = {(t, b) | b. b < nb \<and> b mod T = t}"
proof -
  have T: "0 < T" using assms by simp
  have j: "j < divCeil (nb - t) T \<longleftrightarrow> t + j * T < nb \<or> j * T < nb - t" for j
    using less_ceil_iff [OF T, of j "nb - t"] by (auto simp: divCeil_def)
  have "\<exists>j<divCeil (nb - t) T. b = t + j * T" if "b < nb" "b mod T = t" for b
  proof -
    have b: "b = t + b div T * T" using that(2) by (metis add.commute div_mult_mod_eq)
    with that(1) have "b div T < divCeil (nb - t) T" unfolding j by metis
    with b show ?thesis by blast
  qed
  moreover have "t + j * T < nb \<and> (t + j * T) mod T = t" if "j < divCeil (nb - t) T" for j
    using that assms unfolding j by auto
  ultimately show ?thesis unfolding thrdBins_def set_map by fastforce
qed

lemma thrdBins_all:
  assumes "0 < T"
  shows "distinct (map snd (concat (map (thrdBins T nb) [0..<T])))"
    and "snd ` set (concat (map (thrdBins T nb) [0..<T])) = {..<nb}"
    and "\<forall>(t, b)\<in>set (concat (map (thrdBins T nb) [0..<T])). t < T \<and> b < nb"
proof -
  have d: "distinct (map snd (thrdBins T nb t))" for t
    using assms by (simp add: thrdBins_def comp_def distinct_map inj_on_def)
  have s: "set (map snd (thrdBins T nb t)) = {b. b < nb \<and> b mod T = t}" if "t < T" for t
    using thrdBins_set [OF that, of nb] by force
  have "n \<le> T \<Longrightarrow> distinct (concat (map (\<lambda>t. map snd (thrdBins T nb t)) [0..<n])) \<and>
      set (concat (map (\<lambda>t. map snd (thrdBins T nb t)) [0..<n])) \<subseteq> {b. b mod T < n}" for n
  proof (induction n)
    case (Suc n)
    then have n: "n < T" "distinct (concat (map (\<lambda>t. map snd (thrdBins T nb t)) [0..<n]))"
      "set (concat (map (\<lambda>t. map snd (thrdBins T nb t)) [0..<n])) \<subseteq> {b. b mod T < n}" by simp_all
    have "set (concat (map (\<lambda>t. map snd (thrdBins T nb t)) [0..<Suc n])) \<subseteq> {b. b mod T < Suc n}"
      using n(3) s [OF n(1)] by (auto simp: less_Suc_eq)
    moreover have "set (concat (map (\<lambda>t. map snd (thrdBins T nb t)) [0..<n])) \<inter> set (map snd (thrdBins T nb n)) = {}"
      using n(3) s [OF n(1)] by fastforce
    ultimately show ?case using n(2) d [of n] by simp
  qed simp
  then show "distinct (map snd (concat (map (thrdBins T nb) [0..<T])))" by (simp add: map_concat comp_def)
  show "\<forall>(t, b)\<in>set (concat (map (thrdBins T nb) [0..<T])). t < T \<and> b < nb" using thrdBins_set [of _ T nb] by fastforce
  show "snd ` set (concat (map (thrdBins T nb) [0..<T])) = {..<nb}"
  proof
    show "{..<nb} \<subseteq> snd ` set (concat (map (thrdBins T nb) [0..<T]))"
    proof
      fix b assume "b \<in> {..<nb}"
      then have "(b mod T, b) \<in> set (thrdBins T nb (b mod T))" using assms thrdBins_set [of "b mod T" T nb] by simp
      moreover have "b mod T < T" using assms by simp
      ultimately show "b \<in> snd ` set (concat (map (thrdBins T nb) [0..<T]))" by force
    qed
  qed (use thrdBins_set [of _ T nb] in fastforce)
qed

text \<open>Thread after thread, the shares of the items are all items in order.\<close>

lemma concat_shares: "0 < T \<Longrightarrow> concat (map (\<lambda>t. [thrdBegin n T t..<thrdBegin n T (Suc t)]) [0..<T]) = [0..<n]"
proof -
  assume T: "0 < T"
  have "concat (map (\<lambda>t. [thrdBegin n T t..<thrdBegin n T (Suc t)]) [0..<u]) = [0..<thrdBegin n T u]" for u
  proof (induction u)
    case (Suc u)
    have "thrdBegin n T u \<le> thrdBegin n T (Suc u)" by (rule thrdBegin_mono) simp
    then have "[0..<thrdBegin n T u] @ [thrdBegin n T u..<thrdBegin n T (Suc u)] = [0..<thrdBegin n T (Suc u)]"
      using upt_add_eq_append [of 0 "thrdBegin n T u" "thrdBegin n T (Suc u) - thrdBegin n T u"] by simp
    with Suc show ?case by simp
  qed (simp add: thrdBegin_bounds)
  from this [of T] show ?thesis using thrdBegin_bounds(2) [OF T, of n] by simp
qed

definition binIdxs :: "(block \<Rightarrow> block \<Rightarrow> block) \<Rightarrow> baxos \<Rightarrow> block list \<Rightarrow> nat \<Rightarrow> nat list" where
  "binIdxs aesHash B inputs b = filter (\<lambda>i. itemBin aesHash B (inputs ! i) = b) [0..<length inputs]"

text \<open>What ends up in bin b does not depend on the schedule, nor on the number of threads.\<close>

lemma binItems_interleave:
  assumes D: "libdivide_u64_gen (of_nat (bNumBins B)) = Inr D" "0 < bNumBins B" "bNumBins B < 2 ^ 64" and T: "0 < T"
    and xs_def: "xs = interleave s (map (hashTasks aesHash B D T inputs) [0..<T])"
  shows "map tIdx (binItems T b xs) = binIdxs aesHash B inputs b"
    and "map tHash (binItems T b xs) = map (\<lambda>i. aesHash (bSeed B) (inputs ! i)) (binIdxs aesHash B inputs b)"
    and "t < T \<Longrightarrow> length (sel t b xs) =
      length (filter (\<lambda>i. itemBin aesHash B (inputs ! i) = b) [thrdBegin (length inputs) T t..<thrdBegin (length inputs) T (Suc t)])"
    and "\<forall>k\<in>set xs. task_ok T (bNumBins B) (length inputs) k"
proof -
  let ?ts = "map (hashTasks aesHash B D T inputs) [0..<T]" and ?n = "length inputs"
  let ?I = "\<lambda>t. [thrdBegin ?n T t..<thrdBegin ?n T (Suc t)]"
  have "\<forall>t. \<exists>m. t < T \<longrightarrow> hashTasks aesHash B D T inputs t = map (itemTask aesHash B inputs t m) (?I t)"
    using hashTasks_eq [OF D] by blast
  from choice [OF this] obtain m where
    m: "\<And>t. t < T \<Longrightarrow> hashTasks aesHash B D T inputs t = map (itemTask aesHash B inputs t (m t)) (?I t)" by blast
  have own: "owned tThrd ?ts" by (auto simp: owned_def m itemTask_def)
  have sel: "sel t b xs = map (itemTask aesHash B inputs t (m t)) (filter (\<lambda>i. itemBin aesHash B (inputs ! i) = b) (?I t))" if "t < T" for t b
  proof -
    have "sel t b xs = sel t b (?ts ! t)" unfolding xs_def using that by (intro sel_interleave [OF own]) simp
    with that show ?thesis by (simp add: m sel_def filter_map comp_def itemTask_def)
  qed
  have "map tIdx (binItems T b xs) = concat (map (\<lambda>t. filter (\<lambda>i. itemBin aesHash B (inputs ! i) = b) (?I t)) [0..<T])"
    unfolding map_binItems by (intro arg_cong [of _ _ concat] map_cong refl) (simp add: sel comp_def itemTask_def)
  also have "\<dots> = filter (\<lambda>i. itemBin aesHash B (inputs ! i) = b) (concat (map ?I [0..<T]))" by (simp add: filter_concat comp_def)
  finally show idx: "map tIdx (binItems T b xs) = binIdxs aesHash B inputs b" unfolding concat_shares [OF T] binIdxs_def .
  have "map tHash (binItems T b xs) = map (\<lambda>i. aesHash (bSeed B) (inputs ! i)) (map tIdx (binItems T b xs))"
    unfolding map_binItems map_concat map_map
    by (intro arg_cong [of _ _ concat] map_cong refl) (simp add: sel comp_def itemTask_def)
  then show "map tHash (binItems T b xs) = map (\<lambda>i. aesHash (bSeed B) (inputs ! i)) (binIdxs aesHash B inputs b)" unfolding idx .
  show "t < T \<Longrightarrow> length (sel t b xs) = length (filter (\<lambda>i. itemBin aesHash B (inputs ! i) = b) (?I t))" by (simp add: sel)
  show "\<forall>k\<in>set xs. task_ok T (bNumBins B) ?n k"
  proof
    fix k assume "k \<in> set xs"
    then obtain u where u: "u < T" "k \<in> set (hashTasks aesHash B D T inputs u)" unfolding xs_def set_interleave by auto
    then obtain i where i: "k = itemTask aesHash B inputs u (m u) i" "i < thrdBegin ?n T (Suc u)" using m by auto
    have "thrdBegin ?n T (Suc u) \<le> ?n" using u(1) T by (intro thrdBegin_bounds(3)) simp_all
    with i(2) have "i < ?n" by simp
    with u(1) i(1) itemBin_less [OF D(2,3)] show "task_ok T (bNumBins B) ?n k" by (simp add: task_ok_def itemTask_def)
  qed
qed

subsection \<open>Solving\<close>

text \<open>No part of a bin overflows, and no column of a bin is hit 200 times.\<close>

definition loads_ok :: "(block \<Rightarrow> block \<Rightarrow> block) \<Rightarrow> baxos \<Rightarrow> block list \<Rightarrow> nat \<Rightarrow> nat \<Rightarrow> bool" where
  "loads_ok aesHash B inputs T per \<longleftrightarrow> (\<forall>t<T. \<forall>b<bNumBins B.
     length (filter (\<lambda>i. itemBin aesHash B (inputs ! i) = b) [thrdBegin (length inputs) T t..<thrdBegin (length inputs) T (Suc t)]) \<le> per)"

definition light_bins :: "nat \<Rightarrow> (block \<Rightarrow> block \<Rightarrow> block) \<Rightarrow> baxos \<Rightarrow> paxos_hash \<Rightarrow> block list \<Rightarrow> bool" where
  "light_bins ib aesHash B hh inputs \<longleftrightarrow>
     (\<forall>b<bNumBins B. lightRows ib B hh (map (\<lambda>i. aesHash (bSeed B) (inputs ! i)) (binIdxs aesHash B inputs b)))"

definition partOf :: "baxos \<Rightarrow> nat \<Rightarrow> 'v list \<Rightarrow> 'v list" where
  "partOf B b p = take (paxos_size (bParam B)) (drop (paxos_size (bParam B) * b) p)"

lemma threadErr_benign: "benign e \<Longrightarrow> if T = 1 then benign (threadErr T e) else threadErr T e = Terminated"
  by (auto simp: benign_def threadErr_def)

context px_values
begin

text \<open>A structure that decodes every input to its value.\<close>

definition struct_decodes :: "nat \<Rightarrow> (block \<Rightarrow> block \<Rightarrow> block) \<Rightarrow> baxos \<Rightarrow> paxos_hash \<Rightarrow> block list \<Rightarrow> 'a list \<Rightarrow> 'a list \<Rightarrow> bool" where
  "struct_decodes ib aesHash B hh inputs X p \<longleftrightarrow> (\<forall>b<bNumBins B. set (partOf B b p) \<subseteq> V) \<and>
     (\<forall>l<length inputs. \<forall>P :: paxos. paxos_param.truncate P = bParam B \<longrightarrow>
        decode1 h P (buildRow ib hh (aesHash (bSeed B) (inputs ! l))) (aesHash (bSeed B) (inputs ! l))
          (partOf B (itemBin aesHash B (inputs ! l)) p) = Inr (X ! l))"

lemma struct_decodesI:
  assumes nb: "0 < bNumBins B" "bNumBins B < 2 ^ 64"
    and bins: "\<forall>b<bNumBins B. bin_decodes ib B hh (map (\<lambda>i. aesHash (bSeed B) (inputs ! i)) (binIdxs aesHash B inputs b))
      (map (\<lambda>i. X ! i) (binIdxs aesHash B inputs b)) (partOf B b p)"
  shows "struct_decodes ib aesHash B hh inputs X p"
proof -
  have "decode1 h P (buildRow ib hh (aesHash (bSeed B) (inputs ! l))) (aesHash (bSeed B) (inputs ! l))
      (partOf B (itemBin aesHash B (inputs ! l)) p) = Inr (X ! l)"
    if l: "l < length inputs" and P: "paxos_param.truncate P = bParam B" for l and P :: paxos
  proof -
    let ?b = "itemBin aesHash B (inputs ! l)"
    have "l \<in> set (binIdxs aesHash B inputs ?b)" using l by (simp add: binIdxs_def)
    then obtain j where j: "j < length (binIdxs aesHash B inputs ?b)" "binIdxs aesHash B inputs ?b ! j = l"
      by (auto simp: in_set_conv_nth)
    have "?b < bNumBins B" by (rule itemBin_less [OF nb])
    with bins P j show ?thesis unfolding bin_decodes_def by fastforce
  qed
  moreover have "set (partOf B b p) \<subseteq> V" if "b < bNumBins B" for b using bins that by (simp add: bin_decodes_def)
  ultimately show ?thesis by (simp add: struct_decodes_def)
qed

lemma implParSolve_bins_ok:
  assumes B: "baxos_ok ib B hh" "dt = mDt (bParam B)" and nb: "0 < bNumBins B" "bNumBins B \<noteq> 1" "bNumBins B < 2 ^ 64"
    and dist: "distinct inputs" and X: "length X = length inputs" "set X \<subseteq> V" and out: "length p = baxos_size B" and rnd: "draws_ok rndBlocks"
    and T: "T = max 1 numThreads" and per: "per = binSize (bNumBins B) ((bNumItems B + T - 1) div T) (bSsp B)"
    and loads: "loads_ok aesHash B inputs T per" and light: "light_bins ib aesHash B hh inputs" and prng: "prng = None \<or> T = 1"
  shows "case implParSolve ib binSize s1 s2 aesHash h rndBlocks B inputs X p prng numThreads of
      Inl e \<Rightarrow> if T = 1 then benign e else e = Terminated
    | Inr (p', prng') \<Rightarrow> length p' = baxos_size B \<and> (prng = None \<longrightarrow> struct_decodes ib aesHash B hh inputs X p')"
proof -
  let ?nb = "bNumBins B" and ?n = "length inputs" and ?sz = "paxos_size (bParam B)"
  have T0: "0 < T" using T by simp
  have "unat (of_nat ?nb :: u64) \<noteq> 0" using nb(1,3) by (simp add: unat_of_nat)
  then have "(of_nat ?nb :: u64) \<noteq> 0" by auto
  then obtain D where D: "libdivide_u64_gen (of_nat ?nb) = Inr D" using libdivide_u64_gen_ok by blast
  define xs where "xs = interleave s1 (map (hashTasks aesHash B D T inputs) [0..<T])"
  note I = binItems_interleave [OF D nb(1,3) T0 xs_def]
  have task: "\<forall>k\<in>set xs. task_ok T ?nb (length X) k" using I(4) X(1) by simp
  have fit: "\<forall>t<T. \<forall>b<?nb. length (sel t b xs) \<le> per" using loads I(3) by (simp add: loads_ok_def)
  let ?start = "\<lparr>thrdBinSizes = replicate T (replicate ?nb 0), inputMapping = replicate (?nb * T * per) 0,
     valBacking = replicate (?nb * T * per) (hNew h), hashBacking = replicate (?nb * T * per) 0\<rparr>"
  from putItems_ok [OF placed_start task, of per "hNew h"] fit obtain bins where
    bins: "foldr_res (putItem T per X) xs ?start = Inr bins" "placed T per ?nb X xs bins" by auto
  have vals: "\<forall>k\<in>set xs. tIdx k < length X" using task by (simp add: task_ok_def)
  have light': "\<forall>b<?nb. lightRows ib B hh (map tHash (binItems T b xs))" using light I(2) by (simp add: light_bins_def)
  let ?st = "\<lparr>sBins = bins, sPaxos = replicate T (newPaxos ib), sOut = p, sPrng = prng\<rparr>"
  have "idle ib B (newPaxos ib)" by (simp add: idle_def newPaxos_def)
  then have st: "solving ib B hh T per X xs (prng = None) {} ?st"
    using bins(2) out nb(1) by (auto simp: solving_def placed_def regions_def baxos_size_def paxos_size_def)
  define tbs where "tbs = interleave s2 (map (thrdBins T ?nb) [0..<T])"
  note A = thrdBins_all [OF T0, of ?nb]
  have m: "mset tbs = mset (concat (map (thrdBins T ?nb) [0..<T]))" by (simp add: tbs_def mset_interleave)
  have "mset (map snd tbs) = mset (map snd (concat (map (thrdBins T ?nb) [0..<T])))" using m by simp
  then have d: "distinct (map snd tbs)" using A(1) mset_eq_imp_distinct_iff by blast
  have s: "set tbs = set (concat (map (thrdBins T ?nb) [0..<T]))" using m mset_eq_setD by blast
  have all: "snd ` set tbs = {..<?nb}" using A(2) s by simp
  have tb: "\<forall>(t, b)\<in>set tbs. t < T \<and> b < ?nb \<and> b \<notin> {}" using A(3) s by auto
  note loop = solveBins_ok [OF B fit vals X(2) rnd light' st _ tb d]
  have eq: "implParSolve ib binSize s1 s2 aesHash h rndBlocks B inputs X p prng numThreads =
      (case foldr_res (solveBin ib h rndBlocks B T per) tbs ?st of Inl e \<Rightarrow> Inl (threadErr T e) | Inr st \<Rightarrow> Inr (sOut st, sPrng st))"
    unfolding implParSolve_def Let_def T [symmetric] per [symmetric] D rbind_simps xs_def [symmetric] tbs_def [symmetric]
    using dist out nb(2) bins(1) prng by auto
  show ?thesis
  proof (cases "foldr_res (solveBin ib h rndBlocks B T per) tbs ?st")
    case (Inl e)
    with loop have "benign e" by simp
    from threadErr_benign [OF this] show ?thesis unfolding eq Inl by simp
  next
    case (Inr st')
    with loop have S: "solving ib B hh T per X xs (prng = None) {..<?nb} st'" unfolding all by simp
    then have len: "length (sOut st') = baxos_size B" by (simp add: solving_def baxos_size_def paxos_size_def)
    have "struct_decodes ib aesHash B hh inputs X (sOut st')" if "prng = None"
    proof (rule struct_decodesI [OF nb(1,3)], intro allI impI)
      fix b assume "b < ?nb"
      with S that have "bin_decodes ib B hh (map tHash (binItems T b xs)) (map (\<lambda>k. X ! tIdx k) (binItems T b xs)) (partOf B b (sOut st'))"
        by (simp add: solving_def partOf_def)
      moreover have "map (\<lambda>k. X ! tIdx k) (binItems T b xs) = map (\<lambda>i. X ! i) (map tIdx (binItems T b xs))" by simp
      ultimately show "bin_decodes ib B hh (map (\<lambda>i. aesHash (bSeed B) (inputs ! i)) (binIdxs aesHash B inputs b))
        (map (\<lambda>i. X ! i) (binIdxs aesHash B inputs b)) (partOf B b (sOut st'))" by (simp only: I(1,2))
    qed
    with len show ?thesis unfolding eq Inr by simp
  qed
qed

text \<open>A single bin is an ordinary PaXoS.\<close>

lemma binIdxs_one: "bNumBins B = 1 \<Longrightarrow> itemBin aesHash B x = 0" "bNumBins B = 1 \<Longrightarrow> binIdxs aesHash B inputs 0 = [0..<length inputs]"
  by (simp_all add: binIdxs_def itemBin_def modNumBins_def)

lemma implParSolve_one_ok:
  assumes B: "baxos_ok ib B hh" "dt = mDt (bParam B)" and nb: "bNumBins B = 1"
    and n: "bNumItems B = length inputs" "length inputs \<le> bItemsPerBin B"
    and dist: "distinct inputs" and X: "length X = length inputs" "set X \<subseteq> V" and out: "length p = baxos_size B" and rnd: "draws_ok rndBlocks"
    and light: "light_bins ib aesHash B hh inputs"
  shows "case implParSolve ib binSize s1 s2 aesHash h rndBlocks B inputs X p prng numThreads of
      Inl e \<Rightarrow> benign e
    | Inr (p', prng') \<Rightarrow> length p' = baxos_size B \<and> (prng = None \<longrightarrow> struct_decodes ib aesHash B hh inputs X p')"
proof -
  have hp: "hash_prm_ok ib (bParam B) (bSeed B) hh" "hash_ok ib hh" and w: "0 < mWeight (bParam B)"
    and sp: "bItemsPerBin B + 2 \<le> mSparseSize (bParam B)" "0 < mDenseSize (bParam B)" "mDt (bParam B) = Binary \<longrightarrow> combs_ok (bParam B)"
    using B(1) by (auto simp: baxos_ok_def hash_prm_ok_def)
  have ib: "8 \<le> ib" "mSparseSize (bParam B) < 2 ^ ib - 1" "phSeed hh = bSeed B" "phWeight hh = mWeight (bParam B)"
    "phSparseSize hh = mSparseSize (bParam B)" using hp(1) by (auto simp: hash_prm_ok_def)
  let ?P0 = "newPaxos ib"
  define P1 where "P1 = ?P0\<lparr>mSparseSize := mSparseSize (bParam B), mDenseSize := mDenseSize (bParam B), mWeight := mWeight (bParam B),
    mG := mG (bParam B), mSsp := mSsp (bParam B), mDt := mDt (bParam B), mNumItems := bNumItems B, mSeed := bSeed B, mHasher := hh\<rparr>"
  have init: "Paxos_init (bNumItems B) (bParam B) (bSeed B) ?P0 = Inr P1"
    unfolding P1_def using hp(1) n sp(1) by (intro Paxos_init_eq) (simp_all add: newPaxos_def)
  have P1: "paxos_param.truncate P1 = bParam B" "mNumItems P1 = length inputs" "mIdxBits P1 = ib" "mHasher P1 = hh" "mSeed P1 = bSeed B"
    "mNodes (mWeightData P1) = []" "mSparseSize P1 = mSparseSize (bParam B)" "mWeight P1 = mWeight (bParam B)"
    unfolding P1_def using n(1) by (cases "bParam B"; simp add: paxos_param.truncate_def newPaxos_def)+
  have key: "fst (keyRow aesHash P1 x) = buildRow ib hh (aesHash (bSeed B) x)" "snd (keyRow aesHash P1 x) = aesHash (bSeed B) x" for x
    by (simp_all add: keyRow_def hashBuildRow1_def Let_def P1(3,4) ib(3))
  have "length (filter (\<lambda>x. c \<in> set (fst (keyRow aesHash P1 x))) inputs) < 200" if "c < mSparseSize P1" for c
  proof -
    have "map (\<lambda>i. aesHash (bSeed B) (inputs ! i)) [0..<length inputs] = map (aesHash (bSeed B)) inputs"
      by (intro nth_equalityI) simp_all
    then have "length (filter (\<lambda>x. c \<in> set (buildRow ib hh x)) (map (aesHash (bSeed B)) inputs)) < 200"
      using light that nb by (simp add: light_bins_def lightRows_def binIdxs_one(2) P1(7))
    then show ?thesis by (simp add: key filter_map comp_def)
  qed
  moreover have "hasher_ok P1" using hp(2) ib P1 by (simp add: hasher_ok_def)
  moreover have "size_ok P1" using ib(2) sp(1) P1 by (simp add: size_ok_def NullNode_def)
  ultimately obtain P2 where P2: "setInput aesHash inputs P1 = Inr P2" "input_ok P2" "mRows P2 = map (\<lambda>x. buildRow ib hh (aesHash (bSeed B) x)) inputs"
    "mDense P2 = map (aesHash (bSeed B)) inputs" "paxos_param.truncate P2 = bParam B" "mNumItems P2 = length inputs" "mIdxBits P2 = ib"
    using setInput_ok [of P1 inputs aesHash] P1 dist unfolding key by auto
  have prm: "mSparseSize P2 = mSparseSize (bParam B)" "mDenseSize P2 = mDenseSize (bParam B)" "mDt P2 = mDt (bParam B)" "mG P2 = mG (bParam B)"
    "mWeight P2 = mWeight (bParam B)"
    using arg_cong [OF P2(5), of mSparseSize] arg_cong [OF P2(5), of mDenseSize] arg_cong [OF P2(5), of mDt] arg_cong [OF P2(5), of mG]
      arg_cong [OF P2(5), of mWeight] by (simp_all add: paxos_param.truncate_def)
  have "length (colRows (mRows P2) c) < 200" if "c < mSparseSize P2" for c
  proof -
    have "map (\<lambda>i. aesHash (bSeed B) (inputs ! i)) [0..<length inputs] = map (aesHash (bSeed B)) inputs"
      by (intro nth_equalityI) simp_all
    then show ?thesis using light that nb prm(1) unfolding P2(3) colRows_map
      by (simp add: light_bins_def lightRows_def binIdxs_one(2) filter_map comp_def)
  qed
  then have "tri_ready P2" using P2(2,6,7) ib(1) w sp(1) n(2) prm by (simp add: tri_ready_def input_ok_def)
  then have ready: "encode_ready P2 X" using P2(6) B(2) sp(2,3) X prm unfolding encode_ready_def input_vec_def combs_ok_def by simp
  have lout: "length p = paxos_size P2" using out prm nb by (simp add: paxos_size_def baxos_size_def)
  have eq: "implParSolve ib binSize s1 s2 aesHash h rndBlocks B inputs X p prng numThreads =
      rbind (encode h rndBlocks P2 X p prng) (\<lambda>(_, p, prng). Inr (p, prng))"
    using dist out nb init P2(1) by (simp add: implParSolve_def)
  show ?thesis
  proof (cases "encode h rndBlocks P2 X p prng")
    case (Inl e)
    with encode_ok [OF ready lout rnd, of prng] show ?thesis unfolding eq by (auto simp: benign_def split: sum.splits if_splits)
  next
    case (Inr r)
    obtain P' p' prng' where r: "r = (P', p', prng')" by (cases r)
    have "\<exists>t. tri_final P2 t \<and> encoded P2 X prng t p'"
      using encode_ok [OF ready lout rnd, of prng] Inr r by (cases "triangulate P2") (fastforce split: if_splits)+
    then obtain t where t: "tri_final P2 t" "encoded P2 X prng t p'" by blast
    from encoded_decodes [OF ready t] have d: "length p' = paxos_size P2" "set p' \<subseteq> V"
      "prng = None \<Longrightarrow> \<forall>i<length inputs. decode1 h P2 (buildRow ib hh (aesHash (bSeed B) (inputs ! i))) (aesHash (bSeed B) (inputs ! i)) p' = Inr (X ! i)"
      by (auto simp: decodes_def P2)
    have part: "partOf B 0 p' = p'" using d(1) prm by (simp add: partOf_def paxos_size_def)
    have "struct_decodes ib aesHash B hh inputs X p'" if "prng = None"
    proof -
      have "decode1 h P (buildRow ib hh (aesHash (bSeed B) (inputs ! l))) (aesHash (bSeed B) (inputs ! l)) p' = Inr (X ! l)"
        if "l < length inputs" "paxos_param.truncate P = bParam B" for l and P :: paxos
        using d(3) [OF \<open>prng = None\<close>] that decode1_truncate [of P P2 h] P2(5) by simp
      then show ?thesis using d(2) nb by (simp add: struct_decodes_def binIdxs_one(1) part)
    qed
    then show ?thesis unfolding eq Inr r using d(1) prm nb by (simp add: paxos_size_def baxos_size_def)
  qed
qed

end

end
