(* ===== verification/BaxosDecode.thy ===== *)
theory BaxosDecode
  imports BaxosSolve
begin

section \<open>Decoding the bins\<close>

text \<open>
  \<open>implDecodeBin\<close>, \<open>implDecodeBatch\<close> and \<open>implParDecode\<close> (\<open>src/volePSI/PaxosImpl.h\<close>): the items of a
  thread are collected per bin and decoded whenever a bin has 512 of them, so they are decoded out of
  order; every item is nevertheless written exactly once, at its own position.
\<close>

subsection \<open>One batch of one bin\<close>

definition putVal :: "('v, 's) px_helper \<Rightarrow> baxos \<Rightarrow> 'v \<Rightarrow> 'v \<Rightarrow> 'v" where
  "putVal h B x y = (if bAddToDecode B then hAdd h x y else y)"

definition putAt :: "('v, 's) px_helper \<Rightarrow> baxos \<Rightarrow> nat list \<Rightarrow> (nat \<Rightarrow> 'v) \<Rightarrow> nat \<Rightarrow> 'v list \<Rightarrow> 'v list" where
  "putAt h B idxs Y j vals = vals[idxs ! j := putVal h B (vals ! (idxs ! j)) (Y j)]"

lemma length_putAts [simp]: "length (fold (putAt h B idxs Y) js vals) = length vals"
  by (rule fold_length) (simp add: putAt_def)

lemma storeValues_ok:
  assumes "\<forall>j\<in>set js. j < length idxs \<and> idxs ! j < length vals \<and> g j = Inr (Y j)"
  shows "foldr_res (\<lambda>j vals. rbind (at idxs j) (\<lambda>i. rbind (g j) (\<lambda>y. storeValue h B i y vals))) js vals =
    Inr (fold (putAt h B idxs Y) js vals)"
  using assms by (induction js arbitrary: vals) (simp_all add: storeValue_def putAt_def putVal_def)

lemma putAts_other: "i \<notin> (\<lambda>j. idxs ! j) ` set js \<Longrightarrow> fold (putAt h B idxs Y) js vals ! i = vals ! i"
  by (induction js arbitrary: vals) (simp_all add: putAt_def)

lemma putAts_nth:
  assumes "distinct (map ((!) idxs) js)" "j \<in> set js" "idxs ! j < length vals"
  shows "fold (putAt h B idxs Y) js vals ! (idxs ! j) = putVal h B (vals ! (idxs ! j)) (Y j)"
  using assms
proof (induction js arbitrary: vals)
  case (Cons k js)
  show ?case
  proof (cases "j = k")
    case True
    then have "idxs ! j \<notin> (\<lambda>j. idxs ! j) ` set js" using Cons.prems(1) by auto
    from putAts_other [OF this, of h B Y "putAt h B idxs Y k vals"] True Cons.prems(3) show ?thesis
      by (simp add: putAt_def [of h B idxs Y k vals])
  next
    case False
    then have "idxs ! j \<in> (!) idxs ` set js" using Cons.prems(2) by auto
    then have "idxs ! j \<noteq> idxs ! k" using Cons.prems(1) by auto
    with False Cons show ?thesis by (simp add: putAt_def)
  qed
qed simp

text \<open>The value that a structure holds for a hash.\<close>

definition hashVal :: "('v, 's) px_helper \<Rightarrow> paxos \<Rightarrow> 'v list \<Rightarrow> block \<Rightarrow> 'v" where
  "hashVal h P p x = projr (decode1 h P (buildRow (mIdxBits P) (mHasher P) x) x p)"

context px_values
begin

lemma bin_decode_ready:
  assumes B: "baxos_ok ib B hh" "dt = mDt (bParam B)" and P: "paxos_param.truncate P = bParam B"
  shows "dt = mDt P" "0 < mWeight P" "0 < mDenseSize P" "dt = Binary \<Longrightarrow> mDenseSize P \<le> 64"
    "valid_row (mSparseSize P) (mWeight P) (buildRow ib hh x)" "paxos_size P = paxos_size (bParam B)"
proof -
  have prm: "mSparseSize P = mSparseSize (bParam B)" "mDenseSize P = mDenseSize (bParam B)" "mDt P = mDt (bParam B)"
    "mWeight P = mWeight (bParam B)"
    using arg_cong [OF P, of mSparseSize] arg_cong [OF P, of mDenseSize] arg_cong [OF P, of mDt] arg_cong [OF P, of mWeight]
    by (simp_all add: paxos_param.truncate_def)
  with B show "dt = mDt P" "0 < mWeight P" "0 < mDenseSize P" "dt = Binary \<Longrightarrow> mDenseSize P \<le> 64"
    "valid_row (mSparseSize P) (mWeight P) (buildRow ib hh x)" "paxos_size P = paxos_size (bParam B)"
    using buildRow_prm [of ib "bParam B" "bSeed B" hh x] by (auto simp: baxos_ok_def combs_ok_def paxos_size_def)
qed

lemma hashVal_eq:
  assumes "baxos_ok ib B hh" "dt = mDt (bParam B)" "paxos_param.truncate P = bParam B" "mHasher P = hh" "mIdxBits P = ib"
    and "length p = paxos_size (bParam B)" "set p \<subseteq> V"
  shows "decode1 h P (buildRow ib hh x) x p = Inr (hashVal h P p x)"
proof -
  note R = bin_decode_ready [OF assms(1-3)]
  have "length p = paxos_size P" using assms(6) R(6) by simp
  moreover have "dt = Binary \<Longrightarrow> mDenseSize P \<le> 128" using R(4) by fastforce
  ultimately obtain v where "decode1 h P (buildRow ib hh x) x p = Inr v"
    using decode1_ok [OF R(1,5,2) _ assms(7) R(3)] by blast
  then show ?thesis by (simp add: hashVal_def assms(4,5))
qed

lemma decodeBin32_ok:
  assumes B: "baxos_ok ib B hh" "dt = mDt (bParam B)" and P: "paxos_param.truncate P = bParam B" "mHasher P = hh" "mIdxBits P = ib"
    and p: "length p = paxos_size (bParam B)" "set p \<subseteq> V" and i: "i + 32 \<le> length hashes" "length hashes \<le> length idxs"
    and idx: "\<forall>j<length hashes. idxs ! j < length vals" and buff: "length buff = 32"
  shows "\<exists>buff'. decodeBin32 ib h B P hashes idxs p i (vals, buff) =
    Inr (fold (putAt h B idxs (\<lambda>j. hashVal h P p (hashes ! j))) [i..<i + 32] vals, buff') \<and> length buff' = 32"
proof -
  note R = bin_decode_ready [OF B P(1)]
  let ?d = "take 32 (drop i hashes)"
  have d: "length ?d = 32" using i by simp
  have h: "hash_ok ib hh" using B(1) by (auto simp: baxos_ok_def hash_prm_ok_def)
  have rows: "buildRow32 ib (mHasher P) ?d = map (buildRow ib hh) ?d" unfolding P(2) by (rule buildRow32_eq [OF h d])
  have v: "valid_row (mSparseSize P) (mWeight P) (map (buildRow ib hh) ?d ! l)" if "l < 8 * 4" for l using R(5) that d by simp
  have lens: "length (map (buildRow ib hh) ?d) = 8 * 4" "length ?d = 8 * 4" "length buff = 8 * 4" "length p = paxos_size P"
    using d buff p(1) R(6) by simp_all
  from decodeBatch_ok [OF R(1) v R(2) lens p(2) R(3,4)] obtain b' where b': "decode32 h P (map (buildRow ib hh) ?d) ?d p buff = Inr b'"
    "length b' = 32" "\<forall>l<32. decode1 h P (map (buildRow ib hh) ?d ! l) (?d ! l) p = Inr (b' ! l)" by (auto simp: decode32_def)
  have val: "b' ! l = hashVal h P p (hashes ! (i + l))" if "l < 32" for l
    using b'(3) [rule_format, OF that] that i hashVal_eq [OF B P p, of "hashes ! (i + l)"] by simp
  let ?Y = "\<lambda>j. hashVal h P p (hashes ! j)"
  have "foldr_res (\<lambda>k vals. rbind (at idxs (i + k)) (\<lambda>j. rbind (at b' k) (\<lambda>y. storeValue h B j y vals))) [0..<32] vals =
      foldr_res (\<lambda>j vals. rbind (at idxs j) (\<lambda>i'. rbind (at b' (j - i)) (\<lambda>y. storeValue h B i' y vals))) (map (\<lambda>k. i + k) [0..<32]) vals"
    unfolding foldr_res_map by simp
  also have "\<dots> = foldr_res (\<lambda>j vals. rbind (at idxs j) (\<lambda>i'. rbind (at b' (j - i)) (\<lambda>y. storeValue h B i' y vals))) [i..<i + 32] vals"
    using map_shift_upt [of "\<lambda>j. j" i 32] by simp
  also have "\<dots> = Inr (fold (putAt h B idxs ?Y) [i..<i + 32] vals)"
    using i idx b'(2) val by (intro storeValues_ok) (auto simp: less_diff_conv2)
  finally show ?thesis using b'(1,2) rows by (simp add: decodeBin32_def)
qed

lemma decodeBin1_ok:
  assumes B: "baxos_ok ib B hh" "dt = mDt (bParam B)" and P: "paxos_param.truncate P = bParam B" "mHasher P = hh" "mIdxBits P = ib"
    and p: "length p = paxos_size (bParam B)" "set p \<subseteq> V" and i: "i < length hashes" "length hashes \<le> length idxs"
    and idx: "\<forall>j<length hashes. idxs ! j < length vals" and buff: "length buff = 32"
  shows "\<exists>buff'. decodeBin1 ib h B P hashes idxs p i (vals, buff) =
    Inr (putAt h B idxs (\<lambda>j. hashVal h P p (hashes ! j)) i vals, buff') \<and> length buff' = 32"
  using hashVal_eq [OF B P p, of "hashes ! i"] i idx buff
  by (simp add: decodeBin1_def P(2) storeValue_def putAt_def putVal_def)

lemma implDecodeBin_ok:
  assumes B: "baxos_ok ib B hh" "dt = mDt (bParam B)" "bWeight B \<le> 20"
    and P: "paxos_param.truncate P = bParam B" "mHasher P = hh" "mIdxBits P = ib"
    and p: "length p = paxos_size (bParam B)" "set p \<subseteq> V" and idxs: "length hashes \<le> length idxs"
    and idx: "\<forall>j<length hashes. idxs ! j < length vals" and buff: "length buff = 32"
  shows "\<exists>buff'. implDecodeBin ib h B P hashes idxs p (vals, buff) =
    Inr (fold (putAt h B idxs (\<lambda>j. hashVal h P p (hashes ! j))) [0..<length hashes] vals, buff') \<and> length buff' = 32"
proof -
  let ?n = "length hashes" and ?m = "length hashes div 32" and ?Y = "\<lambda>j. hashVal h P p (hashes ! j)"
  note step32 = decodeBin32_ok [OF B(1,2) P p _ idxs] and step1 = decodeBin1_ok [OF B(1,2) P p _ idxs]
  have main: "k \<le> ?m \<Longrightarrow> \<exists>b. foldr_res (\<lambda>k. decodeBin32 ib h B P hashes idxs p (32 * k)) [0..<k] (vals, buff) =
      Inr (fold (putAt h B idxs ?Y) [0..<32 * k] vals, b) \<and> length b = 32" for k
  proof (induction k)
    case 0
    with buff show ?case by simp
  next
    case (Suc k)
    then obtain b where b: "foldr_res (\<lambda>k. decodeBin32 ib h B P hashes idxs p (32 * k)) [0..<k] (vals, buff) =
      Inr (fold (putAt h B idxs ?Y) [0..<32 * k] vals, b)" "length b = 32" by auto
    have k: "32 * k + 32 \<le> ?n" using Suc.prems by (simp add: less_eq_div_iff_mult_less_eq)
    have "[0..<32 * Suc k] = [0..<32 * k] @ [32 * k..<32 * k + 32]"
      using upt_add_eq_append [of 0 "32 * k" 32] by (simp add: add.commute)
    with b step32 [OF k, where buff = b and vals = "fold (putAt h B idxs ?Y) [0..<32 * k] vals"] idx show ?case
      by (auto simp: foldr_res_append)
  qed
  from main [of ?m] obtain b where b: "foldr_res (\<lambda>k. decodeBin32 ib h B P hashes idxs p (32 * k)) [0..<?m] (vals, buff) =
      Inr (fold (putAt h B idxs ?Y) [0..<32 * ?m] vals, b)" "length b = 32" by auto
  have tail: "32 * ?m + k \<le> ?n \<Longrightarrow> \<exists>b'. foldr_res (decodeBin1 ib h B P hashes idxs p) [32 * ?m..<32 * ?m + k]
      (fold (putAt h B idxs ?Y) [0..<32 * ?m] vals, b) = Inr (fold (putAt h B idxs ?Y) [0..<32 * ?m + k] vals, b') \<and> length b' = 32" for k
  proof (induction k)
    case 0
    with b(2) show ?case by simp
  next
    case (Suc k)
    then obtain b' where b': "foldr_res (decodeBin1 ib h B P hashes idxs p) [32 * ?m..<32 * ?m + k]
      (fold (putAt h B idxs ?Y) [0..<32 * ?m] vals, b) = Inr (fold (putAt h B idxs ?Y) [0..<32 * ?m + k] vals, b')" "length b' = 32" by auto
    with step1 [where i = "32 * ?m + k" and buff = b' and vals = "fold (putAt h B idxs ?Y) [0..<32 * ?m + k] vals"] Suc.prems idx
    show ?case by (auto simp: foldr_res_append)
  qed
  have "32 * ?m + (?n - 32 * ?m) = ?n" by simp
  with tail [of "?n - 32 * ?m"] b B(3) buff show ?thesis by (simp add: implDecodeBin_def Let_def)
qed

end

subsection \<open>The batches of a thread\<close>

text \<open>The batches of 32 and the remainder loop visit the inputs in order.\<close>

definition decTask :: "(block \<Rightarrow> block \<Rightarrow> block) \<Rightarrow> baxos \<Rightarrow> block list \<Rightarrow> nat \<Rightarrow> nat \<times> nat \<times> block" where
  "decTask aesHash B inputs i = (i, itemBin aesHash B (inputs ! i), aesHash (bSeed B) (inputs ! i))"

lemma decodeTasks_eq:
  assumes D: "libdivide_u64_gen (of_nat (bNumBins B)) = Inr D" "0 < bNumBins B" "bNumBins B < 2 ^ 64"
  shows "decodeTasks aesHash B D inputs = map (decTask aesHash B inputs) [0..<length inputs]"
proof -
  let ?m = "length inputs div 32" and ?f = "decTask aesHash B inputs"
  have batch: "map (\<lambda>j. (32 * k + j, unat (doMod32 (map binIdxCompress (map (aesHash (bSeed B)) (take 32 (drop (32 * k) inputs)))) D
        (of_nat (bNumBins B)) ! j), map (aesHash (bSeed B)) (take 32 (drop (32 * k) inputs)) ! j)) [0..<32] =
      map (\<lambda>j. ?f (32 * k + j)) [0..<32]" if k: "k < ?m" for k
  proof -
    have k32: "32 * k + 32 \<le> length inputs" using k by (simp add: less_eq_div_iff_mult_less_eq)
    then have l: "length (take 32 (drop (32 * k) inputs)) = 32" by simp
    with k32 binIdxs_eq [OF D l, where aesHash = aesHash] show ?thesis by (intro map_cong refl) (simp add: decTask_def)
  qed
  have tail: "(i, unat (modNumBins B (aesHash (bSeed B) (inputs ! i))), aesHash (bSeed B) (inputs ! i)) = ?f i" for i
    by (simp add: decTask_def itemBin_def)
  have "decodeTasks aesHash B D inputs = concat (map (\<lambda>k. map (\<lambda>j. ?f (32 * k + j)) [0..<32]) [0..<?m]) @ map ?f [32 * ?m..<length inputs]"
    unfolding decodeTasks_def Let_def tail
    by (intro arg_cong2 [of _ _ _ _ append] arg_cong [of _ _ concat] map_cong [OF refl batch] refl) simp
  also have "\<dots> = map ?f [0..<32 * ?m] @ map ?f [32 * ?m..<length inputs]" by (simp only: concat_map_upt)
  also have "\<dots> = map ?f [0..<length inputs]"
    using upt_add_eq_append [of 0 "32 * ?m" "length inputs - 32 * ?m"] by (simp only: map_append [symmetric]) simp
  finally show ?thesis .
qed

text \<open>The items of bin b that wait to be decoded.\<close>

definition pending :: "nat \<Rightarrow> 'v decoder \<Rightarrow> (nat \<times> block) list" where
  "pending b st = take (dSizes st ! b) (zip (dIdxs st ! b) (dBatches st ! b))"

definition buffers_ok :: "nat \<Rightarrow> nat \<Rightarrow> 'v decoder \<Rightarrow> bool" where
  "buffers_ok nb d st \<longleftrightarrow> length (dSizes st) = nb \<and> length (dIdxs st) = nb \<and> length (dBatches st) = nb \<and> length (dBuff st) = 32 \<and>
     (\<forall>b<nb. length (dIdxs st ! b) = d \<and> length (dBatches st ! b) = d \<and> dSizes st ! b \<le> d)"

text \<open>After the first k inputs: an item is either pending in its bin or written.\<close>

definition decoding :: "('v, 's) px_helper \<Rightarrow> baxos \<Rightarrow> nat \<Rightarrow> nat \<Rightarrow> (nat \<Rightarrow> nat) \<Rightarrow> (nat \<Rightarrow> block) \<Rightarrow> (nat \<Rightarrow> 'v) \<Rightarrow> 'v list \<Rightarrow> nat \<Rightarrow>
    'v decoder \<Rightarrow> bool" where
  "decoding h B nb d bin hash Y vals k st \<longleftrightarrow> buffers_ok nb d st \<and> length (dVals st) = length vals \<and>
     (\<forall>b<nb. distinct (map fst (pending b st)) \<and> (\<forall>(i, x)\<in>set (pending b st). i < k \<and> x = hash i \<and> bin i = b)) \<and>
     (\<forall>i<length vals. dVals st ! i =
        (if i < k \<and> i \<notin> fst ` set (pending (bin i) st) then putVal h B (vals ! i) (Y i) else vals ! i))"

lemma take_zip_update: "n < length a \<Longrightarrow> length a = length b \<Longrightarrow>
  take (Suc n) (zip (a[n := i]) (b[n := x])) = take n (zip a b) @ [(i, x)]"
  by (simp add: take_Suc_conv_app_nth take_zip)

lemma decoding_start:
  "decoding h B nb d bin hash Y vals 0 \<lparr>dBatches = replicate nb (replicate d 0), dIdxs = replicate nb (replicate d 0),
     dSizes = replicate nb 0, dVals = vals, dBuff = replicate 32 (hNew h)\<rparr>"
  by (simp add: decoding_def buffers_ok_def pending_def)

text \<open>Collecting one more item.\<close>

lemma decoding_collect:
  assumes D: "decoding h B nb d bin hash Y vals k st" and b: "b < nb" "bin k = b" and n: "n = dSizes st ! b" "n < d"
  shows "decoding h B nb d bin hash Y vals (Suc k) (st\<lparr>dBatches := (dBatches st)[b := (dBatches st ! b)[n := hash k]],
    dIdxs := (dIdxs st)[b := (dIdxs st ! b)[n := k]], dSizes := (dSizes st)[b := n + 1]\<rparr>)" (is "decoding h B nb d bin hash Y vals (Suc k) ?st")
proof -
  have bufs: "buffers_ok nb d st" using D by (simp add: decoding_def)
  then have L: "length (dSizes st) = nb" "length (dIdxs st) = nb" "length (dBatches st) = nb"
    "length (dIdxs st ! b) = d" "length (dBatches st ! b) = d" using b(1) by (auto simp: buffers_ok_def)
  have same: "pending c ?st = (if c = b then pending b st @ [(k, hash k)] else pending c st)" if "c < nb" for c
    using that b(1) L n by (auto simp: pending_def take_zip_update)
  have bufs': "buffers_ok nb d ?st" using bufs b(1) n by (auto simp: buffers_ok_def nth_list_update)
  have P: "distinct (map fst (pending c st))" "\<And>i x. (i, x) \<in> set (pending c st) \<Longrightarrow> i < k \<and> x = hash i \<and> bin i = c" if "c < nb" for c
    using D that unfolding decoding_def by (simp, fastforce)
  have "distinct (map fst (pending c ?st)) \<and> (\<forall>(i, x)\<in>set (pending c ?st). i < Suc k \<and> x = hash i \<and> bin i = c)" if "c < nb" for c
  proof (cases "c = b")
    case True
    have "k \<notin> fst ` set (pending b st)" using P(2) [OF b(1)] by fastforce
    with P [OF b(1)] b show ?thesis unfolding same [OF that] by (auto simp: True less_Suc_eq dest: P(2) [OF b(1)])
  next
    case False
    with P [OF that] show ?thesis unfolding same [OF that] by (auto simp: less_Suc_eq)
  qed
  moreover have "dVals ?st ! i = (if i < Suc k \<and> i \<notin> fst ` set (pending (bin i) ?st) then putVal h B (vals ! i) (Y i) else vals ! i)"
    if "i < length vals" for i
  proof (cases "bin i < nb")
    case True
    have "dVals st ! i = (if i < k \<and> i \<notin> fst ` set (pending (bin i) st) then putVal h B (vals ! i) (Y i) else vals ! i)"
      using D that by (simp add: decoding_def)
    with b(2) show ?thesis unfolding same [OF True] by (auto simp: less_Suc_eq)
  next
    case False
    then have "i \<noteq> k" "pending (bin i) ?st = pending (bin i) st" using b L by (auto simp: pending_def)
    with D that show ?thesis by (simp add: decoding_def less_Suc_eq)
  qed
  ultimately show ?thesis using D bufs' by (simp add: decoding_def)
qed

lemma part_subspan:
  assumes "length pp = baxos_size B" "b < bNumBins B"
  shows "px_subspan (b * (baxos_size B div bNumBins B)) (baxos_size B div bNumBins B) pp = Inr (partOf B b pp)"
    and "length (partOf B b pp) = paxos_size (bParam B)"
proof -
  have sz: "baxos_size B div bNumBins B = paxos_size (bParam B)" using assms(2) by (simp add: baxos_size_def paxos_size_def)
  have "Suc b * paxos_size (bParam B) \<le> bNumBins B * paxos_size (bParam B)" using assms(2) by (intro mult_le_mono1) simp
  then have "b * paxos_size (bParam B) + paxos_size (bParam B) \<le> length pp" using assms(1) by (simp add: baxos_size_def paxos_size_def)
  then show "px_subspan (b * (baxos_size B div bNumBins B)) (baxos_size B div bNumBins B) pp = Inr (partOf B b pp)"
    "length (partOf B b pp) = paxos_size (bParam B)"
    unfolding sz by (simp_all add: px_subspan_def partOf_def mult.commute)
qed

context px_values
begin

definition decode_env :: "nat \<Rightarrow> baxos \<Rightarrow> paxos_hash \<Rightarrow> paxos \<Rightarrow> 'a list \<Rightarrow> bool" where
  "decode_env ib B hh P pp \<longleftrightarrow> baxos_ok ib B hh \<and> dt = mDt (bParam B) \<and> bWeight B \<le> 20 \<and>
     paxos_param.truncate P = bParam B \<and> mHasher P = hh \<and> mIdxBits P = ib \<and> 0 < bNumBins B \<and>
     length pp = baxos_size B \<and> (\<forall>b<bNumBins B. set (partOf B b pp) \<subseteq> V)"

text \<open>Decoding the items that are pending in one bin.\<close>

lemma flushBin_ok:
  assumes E: "decode_env ib B hh P pp" and D: "decoding h B (bNumBins B) d bin hash Y vals k (st\<lparr>dSizes := ss\<rparr>)"
    and b: "b < bNumBins B" and k: "k \<le> length vals" and Y: "\<forall>i<length vals. bin i = b \<longrightarrow> Y i = hashVal h P (partOf B b pp) (hash i)"
  shows "\<exists>v bf. flushBin ib h B P pp (ss ! b) b st = Inr (st\<lparr>dVals := v, dBuff := bf\<rparr>) \<and>
    decoding h B (bNumBins B) d bin hash Y vals k (st\<lparr>dVals := v, dBuff := bf, dSizes := ss[b := 0]\<rparr>)"
proof -
  let ?nb = "bNumBins B" and ?n = "ss ! b" and ?idxs = "dIdxs st ! b" and ?hs = "take (ss ! b) (dBatches st ! b)" and ?p = "partOf B b pp"
  have E': "baxos_ok ib B hh" "dt = mDt (bParam B)" "bWeight B \<le> 20" "paxos_param.truncate P = bParam B" "mHasher P = hh" "mIdxBits P = ib"
    "length pp = baxos_size B" "set ?p \<subseteq> V" using E b by (auto simp: decode_env_def)
  note part = part_subspan [OF E'(7) b]
  have L: "length ss = ?nb" "b < length (dIdxs st)" "b < length (dBatches st)" "length ?idxs = d" "length (dBatches st ! b) = d" "?n \<le> d"
    "length (dBuff st) = 32" "length (dVals st) = length vals" using D b by (auto simp: decoding_def buffers_ok_def)
  have pend: "pending b (st\<lparr>dSizes := ss\<rparr>) = zip (take ?n ?idxs) ?hs" by (simp add: pending_def take_zip)
  have lens: "length ?hs = ?n" "length (take ?n ?idxs) = ?n" using L by simp_all
  have "distinct (map fst (pending b (st\<lparr>dSizes := ss\<rparr>))) \<and>
      (\<forall>(i, x)\<in>set (pending b (st\<lparr>dSizes := ss\<rparr>)). i < k \<and> x = hash i \<and> bin i = b)"
    using D b unfolding decoding_def by blast
  then have P: "distinct (take ?n ?idxs)" "\<And>i x. (i, x) \<in> set (zip (take ?n ?idxs) ?hs) \<Longrightarrow> i < k \<and> x = hash i \<and> bin i = b"
    unfolding pend using lens by auto
  have item: "?idxs ! j < k \<and> ?hs ! j = hash (?idxs ! j) \<and> bin (?idxs ! j) = b" if "j < ?n" for j
    using P(2) [of "?idxs ! j" "?hs ! j"] that lens L by (force simp: set_zip)
  have idx: "\<forall>j<length ?hs. ?idxs ! j < length (dVals st)" using item k L(8) lens by fastforce
  let ?Y = "\<lambda>j. hashVal h P ?p (?hs ! j)"
  define v where "v = fold (putAt h B ?idxs ?Y) [0..<length ?hs] (dVals st)"
  have lv: "length v = length vals" by (simp add: v_def L(8))
  obtain bf where bf: "implDecodeBin ib h B P ?hs ?idxs ?p (dVals st, dBuff st) = Inr (v, bf)" "length bf = 32"
    unfolding v_def using implDecodeBin_ok [OF E'(1-6) part(2) E'(8) _ idx L(7)] lens L by auto
  have flush: "flushBin ib h B P pp ?n b st = Inr (st\<lparr>dVals := v, dBuff := bf\<rparr>)"
    using bf(1) part(1) L by (simp add: flushBin_def Let_def)
  let ?st = "st\<lparr>dVals := v, dBuff := bf, dSizes := ss[b := 0]\<rparr>"
  have bufs: "buffers_ok ?nb d ?st" using D bf(2) b by (auto simp: decoding_def buffers_ok_def nth_list_update)
  have same: "pending c ?st = (if c = b then [] else pending c (st\<lparr>dSizes := ss\<rparr>))" for c
    using L(1) b by (simp add: pending_def)
  have img: "(\<lambda>j. ?idxs ! j) ` {0..<?n} = fst ` set (pending b (st\<lparr>dSizes := ss\<rparr>))"
    using lens L nth_image [of ?n ?idxs] by (simp add: pend flip: set_map)
  have dist: "distinct (map ((!) ?idxs) [0..<length ?hs])"
  proof -
    have "map ((!) ?idxs) [0..<length ?hs] = take ?n ?idxs" using lens L by (intro nth_equalityI) simp_all
    with P(1) show ?thesis by simp
  qed
  have old: "dVals st ! i = (if i < k \<and> i \<notin> fst ` set (pending (bin i) (st\<lparr>dSizes := ss\<rparr>)) then putVal h B (vals ! i) (Y i) else vals ! i)"
    if "i < length vals" for i using D that by (simp add: decoding_def)
  have "v ! i = (if i < k \<and> i \<notin> fst ` set (pending (bin i) ?st) then putVal h B (vals ! i) (Y i) else vals ! i)" if i: "i < length vals" for i
  proof (cases "i \<in> fst ` set (pending b (st\<lparr>dSizes := ss\<rparr>))")
    case True
    then obtain j where j: "j < ?n" "i = ?idxs ! j" unfolding img [symmetric] by auto
    note it = item [OF j(1)]
    have "v ! i = putVal h B (dVals st ! i) (?Y j)" unfolding v_def using putAts_nth [OF dist, of j "dVals st" h B ?Y] j lens idx by simp
    also have "?Y j = Y i" using it Y i j by simp
    also have "dVals st ! i = vals ! i" using old [OF i] True it j by simp
    finally show ?thesis unfolding same using it j by auto
  next
    case False
    then have "v ! i = dVals st ! i" unfolding v_def using lens by (intro putAts_other) (simp add: img)
    with old [OF i] False show ?thesis unfolding same by auto
  qed
  then have "decoding h B ?nb d bin hash Y vals k ?st"
    using D bufs lv unfolding decoding_def same by simp
  with flush show ?thesis by blast
qed

text \<open>A whole thread.\<close>

definition room :: "nat \<Rightarrow> 'v decoder \<Rightarrow> bool" where
  "room d st \<longleftrightarrow> (\<forall>n\<in>set (dSizes st). n < d)"

lemma decodePut_ok:
  assumes E: "decode_env ib B hh P pp" and D: "decoding h B (bNumBins B) d bin hash Y vals k st" and r: "room d st"
    and k: "k < length vals" "bin k < bNumBins B" and Y: "\<forall>i<length vals. Y i = hashVal h P (partOf B (bin i) pp) (hash i)"
  shows "\<exists>st'. decodePut ib h B P pp d (k, bin k, hash k) st = Inr st' \<and> decoding h B (bNumBins B) d bin hash Y vals (Suc k) st' \<and> room d st'"
proof -
  let ?b = "bin k" and ?n = "dSizes st ! bin k"
  have L: "length (dSizes st) = bNumBins B" "length (dIdxs st) = bNumBins B" "length (dBatches st) = bNumBins B"
    using D by (auto simp: decoding_def buffers_ok_def)
  have n: "?n < d" using r L k(2) by (simp add: room_def)
  let ?st = "st\<lparr>dBatches := (dBatches st)[?b := (dBatches st ! ?b)[?n := hash k]],
    dIdxs := (dIdxs st)[?b := (dIdxs st ! ?b)[?n := k]], dSizes := (dSizes st)[?b := ?n + 1]\<rparr>"
  note C = decoding_collect [OF D k(2) refl refl n]
  have put: "decodePut ib h B P pp d (k, ?b, hash k) st =
      (if ?n + 1 = d then rbind (flushBin ib h B P pp d ?b ?st) (\<lambda>st. Inr (st\<lparr>dSizes := (dSizes st)[?b := 0]\<rparr>)) else Inr ?st)"
    using L k(2) n by (simp add: decodePut_def Let_def)
  have room': "room d (st'\<lparr>dSizes := (dSizes st)[?b := m]\<rparr>)" if "m < d" for m and st' :: "'a decoder"
    using r that by (auto simp: room_def dest!: set_update_subset_insert [THEN subsetD])
  show ?thesis
  proof (cases "?n + 1 = d")
    case True
    let ?ss = "(dSizes st)[?b := ?n + 1]"
    have "decoding h B (bNumBins B) d bin hash Y vals (Suc k) (?st\<lparr>dSizes := ?ss\<rparr>)" using C by simp
    from flushBin_ok [OF E this k(2)] k(1) Y obtain v bf where F: "flushBin ib h B P pp (?ss ! ?b) ?b ?st = Inr (?st\<lparr>dVals := v, dBuff := bf\<rparr>)"
      "decoding h B (bNumBins B) d bin hash Y vals (Suc k) (?st\<lparr>dVals := v, dBuff := bf, dSizes := ?ss[?b := 0]\<rparr>)" by auto
    have "?ss ! ?b = d" using True L k(2) by simp
    with F True room' [of 0] n show ?thesis unfolding put by auto
  next
    case False
    then show ?thesis unfolding put using C n room' [of "?n + 1" ?st] by auto
  qed
qed

lemma implDecodeBatch_ok:
  assumes B: "baxos_ok ib B hh" "dt = mDt (bParam B)" "bWeight B \<le> 20" and nb: "0 < bNumBins B" "bNumBins B < 2 ^ 64"
    and pp: "length pp = baxos_size B" and S: "struct_decodes ib aesHash B hh inputs X pp" and len: "length vals = length inputs"
    and lX: "length X = length inputs"
  shows "implDecodeBatch ib aesHash h B inputs vals pp = Inr (map2 (putVal h B) vals X)"
proof -
  let ?nb = "bNumBins B" and ?n = "length inputs" and ?d = "min 512 (length inputs)"
  define P where "P = (newPaxos ib)\<lparr>mSparseSize := mSparseSize (bParam B), mDenseSize := mDenseSize (bParam B), mWeight := mWeight (bParam B),
    mG := mG (bParam B), mSsp := mSsp (bParam B), mDt := mDt (bParam B), mNumItems := 1, mSeed := bSeed B, mHasher := hh\<rparr>"
  have hp: "hash_prm_ok ib (bParam B) (bSeed B) hh" "1 \<le> mSparseSize (bParam B)" using B(1) by (auto simp: baxos_ok_def)
  have init: "Paxos_init 1 (bParam B) (bSeed B) (newPaxos ib) = Inr P"
    unfolding P_def using hp by (intro Paxos_init_eq) (simp_all add: newPaxos_def)
  have P: "paxos_param.truncate P = bParam B" "mHasher P = hh" "mIdxBits P = ib"
    unfolding P_def by (cases "bParam B"; simp add: paxos_param.truncate_def newPaxos_def)+
  have parts: "\<forall>b<?nb. set (partOf B b pp) \<subseteq> V" using S by (simp add: struct_decodes_def)
  have E: "decode_env ib B hh P pp" unfolding decode_env_def using B P nb(1) pp parts by simp
  have "unat (of_nat ?nb :: u64) \<noteq> 0" using nb by (simp add: unat_of_nat)
  then have "(of_nat ?nb :: u64) \<noteq> 0" by auto
  then obtain D where D: "libdivide_u64_gen (of_nat ?nb) = Inr D" using libdivide_u64_gen_ok by blast
  define bin where "bin = (\<lambda>i. itemBin aesHash B (inputs ! i))"
  define hash where "hash = (\<lambda>i. aesHash (bSeed B) (inputs ! i))"
  define Y where "Y = (\<lambda>i. hashVal h P (partOf B (bin i) pp) (hash i))"
  have Yeq: "\<forall>i<length vals. Y i = hashVal h P (partOf B (bin i) pp) (hash i)" by (simp add: Y_def)
  have bin: "bin i < ?nb" for i unfolding bin_def by (rule itemBin_less [OF nb])
  have Yval: "Y i = X ! i" if "i < ?n" for i
    using S that P by (simp add: struct_decodes_def Y_def hashVal_def bin_def hash_def)
  let ?st = "\<lparr>dBatches = replicate ?nb (replicate ?d 0), dIdxs = replicate ?nb (replicate ?d 0),
     dSizes = replicate ?nb 0, dVals = vals, dBuff = replicate 32 (hNew h)\<rparr>"
  have tasks: "decodeTasks aesHash B D inputs = map (\<lambda>i. (i, bin i, hash i)) [0..<?n]"
    unfolding decodeTasks_eq [OF D nb] by (simp add: decTask_def bin_def hash_def)
  have collect: "k \<le> ?n \<Longrightarrow> \<exists>st. foldr_res (decodePut ib h B P pp ?d) (map (\<lambda>i. (i, bin i, hash i)) [0..<k]) ?st = Inr st \<and>
      decoding h B ?nb ?d bin hash Y vals k st \<and> (0 < k \<longrightarrow> room ?d st)" for k
  proof (induction k)
    case 0
    show ?case by (simp add: decoding_start)
  next
    case (Suc k)
    then obtain st where st: "foldr_res (decodePut ib h B P pp ?d) (map (\<lambda>i. (i, bin i, hash i)) [0..<k]) ?st = Inr st"
      "decoding h B ?nb ?d bin hash Y vals k st" "0 < k \<longrightarrow> room ?d st" by auto
    have "room ?d st" using st Suc.prems by (cases "k = 0") (auto simp: room_def)
    from decodePut_ok [OF E st(2) this _ bin Yeq] Suc.prems len st(1) show ?case by (auto simp: foldr_res_append)
  qed
  from collect [of ?n] obtain st1 where st1: "foldr_res (decodePut ib h B P pp ?d) (map (\<lambda>i. (i, bin i, hash i)) [0..<?n]) ?st = Inr st1"
    "decoding h B ?nb ?d bin hash Y vals ?n st1" by auto
  let ?f = "\<lambda>b st. rbind (at (dSizes st) b) (\<lambda>n. if n \<noteq> 0 then flushBin ib h B P pp n b st else Inr st)"
  let ?ss = "\<lambda>b. map (\<lambda>c. if c < b then 0 else dSizes st1 ! c) [0..<?nb]"
  have sz: "length (dSizes st1) = ?nb" using st1(2) by (simp add: decoding_def buffers_ok_def)
  have flush: "b \<le> ?nb \<Longrightarrow> \<exists>st. foldr_res ?f [0..<b] st1 = Inr st \<and> dSizes st = dSizes st1 \<and>
      decoding h B ?nb ?d bin hash Y vals ?n (st\<lparr>dSizes := ?ss b\<rparr>)" for b
  proof (induction b)
    case 0
    have "?ss 0 = dSizes st1" using sz by (intro nth_equalityI) simp_all
    with st1(2) show ?case by simp
  next
    case (Suc b)
    then obtain st where st: "foldr_res ?f [0..<b] st1 = Inr st" "dSizes st = dSizes st1"
      "decoding h B ?nb ?d bin hash Y vals ?n (st\<lparr>dSizes := ?ss b\<rparr>)" by auto
    have b: "b < ?nb" using Suc.prems by simp
    then have n: "?ss b ! b = dSizes st1 ! b" by simp
    have next_ss: "(?ss b)[b := 0] = ?ss (Suc b)" using b by (intro nth_equalityI) (auto simp: nth_list_update)
    show ?case
    proof (cases "dSizes st1 ! b = 0")
      case True
      then have "?ss (Suc b) = ?ss b" by (intro map_cong) (auto simp: less_Suc_eq)
      with st True sz b show ?thesis by (simp add: foldr_res_append del: map_eq_conv)
    next
      case False
      from flushBin_ok [OF E st(3) b] Yeq len obtain v bf where
        F: "flushBin ib h B P pp (?ss b ! b) b st = Inr (st\<lparr>dVals := v, dBuff := bf\<rparr>)"
        "decoding h B ?nb ?d bin hash Y vals ?n (st\<lparr>dVals := v, dBuff := bf, dSizes := (?ss b)[b := 0]\<rparr>)" by auto
      have "foldr_res ?f [0..<Suc b] st1 = Inr (st\<lparr>dVals := v, dBuff := bf\<rparr>)"
        using st(1,2) sz b False F(1) unfolding n by (simp add: foldr_res_append)
      with F(2) st(2) show ?thesis unfolding next_ss by auto
    qed
  qed
  from flush [of ?nb] obtain st2 where st2: "foldr_res ?f [0..<?nb] st1 = Inr st2"
    "decoding h B ?nb ?d bin hash Y vals ?n (st2\<lparr>dSizes := ?ss ?nb\<rparr>)" by auto
  have "pending c (st2\<lparr>dSizes := ?ss ?nb\<rparr>) = []" if "c < ?nb" for c using that by (simp add: pending_def)
  with st2(2) bin have "length (dVals st2) = ?n" "\<And>i. i < ?n \<Longrightarrow> dVals st2 ! i = putVal h B (vals ! i) (Y i)"
    by (auto simp: decoding_def len)
  then have "dVals st2 = map2 (putVal h B) vals X" using len lX Yval by (intro nth_equalityI) simp_all
  with init D st1(1) st2(1) show ?thesis by (simp add: implDecodeBatch_def tasks)
qed

end

subsection \<open>All threads\<close>

lemma thrd_covers: "l < thrdBegin n T m \<Longrightarrow> \<exists>i<m. thrdBegin n T i \<le> l \<and> l < thrdBegin n T (Suc i)"
proof (induction m)
  case (Suc m)
  then show ?case by (cases "l < thrdBegin n T m") (auto intro: less_SucI)
qed (simp add: thrdBegin_def)

lemma thrd_apart: "thrdBegin n T i \<le> l \<Longrightarrow> l < thrdBegin n T (Suc i) \<Longrightarrow> thrdBegin n T j \<le> l \<Longrightarrow> l < thrdBegin n T (Suc j) \<Longrightarrow> i = j"
  using thrdBegin_mono [of "Suc i" j n T] thrdBegin_mono [of "Suc j" i n T] by (cases i j rule: linorder_cases) auto

context px_values
begin

lemma struct_decodes_slice:
  assumes "struct_decodes ib aesHash B hh inputs X pp" "b + n \<le> length inputs" "length X = length inputs"
  shows "struct_decodes ib aesHash B hh (take n (drop b inputs)) (take n (drop b X)) pp"
  using assms unfolding struct_decodes_def by simp

lemma implParDecode_ok:
  assumes B: "baxos_ok ib B hh" "dt = mDt (bParam B)" "bWeight B \<le> 20" and nb: "0 < bNumBins B" "bNumBins B < 2 ^ 64"
    and pp: "length pp = baxos_size B" and S: "struct_decodes ib aesHash B hh inputs X pp" and len: "length vals = length inputs"
    and lX: "length X = length inputs"
  shows "implParDecode ib sched aesHash h B inputs vals pp numThreads = Inr (map2 (putVal h B) vals X)"
proof (cases "bNumBins B = 1")
  case True
  define P where "P = (newPaxos ib)\<lparr>mSparseSize := mSparseSize (bParam B), mDenseSize := mDenseSize (bParam B), mWeight := mWeight (bParam B),
    mG := mG (bParam B), mSsp := mSsp (bParam B), mDt := mDt (bParam B), mNumItems := 1, mSeed := bSeed B, mHasher := hh\<rparr>"
  have hp: "hash_prm_ok ib (bParam B) (bSeed B) hh" "1 \<le> mSparseSize (bParam B)" using B(1) by (auto simp: baxos_ok_def)
  have init: "Paxos_init 1 (bParam B) (bSeed B) (newPaxos ib) = Inr P"
    unfolding P_def using hp by (intro Paxos_init_eq) (simp_all add: newPaxos_def)
  let ?P = "P\<lparr>mAddToDecode := bAddToDecode B\<rparr>"
  have P: "paxos_param.truncate ?P = bParam B" "mHasher ?P = hh" "mIdxBits ?P = ib" "mSeed ?P = bSeed B" "mAddToDecode ?P = bAddToDecode B"
    unfolding P_def by (cases "bParam B"; simp add: paxos_param.truncate_def newPaxos_def)+
  note R = bin_decode_ready [OF B(1,2) P(1)]
  have part: "partOf B 0 pp = pp" using pp True by (simp add: partOf_def baxos_size_def paxos_size_def)
  have prm: "mWeight ?P = mWeight (bParam B)" "mSparseSize ?P = mSparseSize (bParam B)" unfolding P_def by simp_all
  have "hasher_ok ?P" unfolding hasher_ok_def P(2-4) prm using hp(1) by (simp add: hash_prm_ok_def)
  moreover have "length pp = paxos_size ?P" using pp True R(6) by (simp add: baxos_size_def paxos_size_def)
  moreover have "set pp \<subseteq> V" using S True part by (auto simp: struct_decodes_def)
  ultimately have ok: "decode_ok ?P pp" using R(1-4) unfolding decode_ok_def by blast
  have "decodeKey aesHash h ?P pp (inputs ! l) = Inr (X ! l)" if "l < length inputs" for l
  proof -
    have "decode1 h ?P (buildRow ib hh (aesHash (bSeed B) (inputs ! l))) (aesHash (bSeed B) (inputs ! l)) pp = Inr (X ! l)"
      using S that P(1) True by (simp add: struct_decodes_def binIdxs_one(1) part)
    moreover have "phSeed hh = bSeed B" using hp(1) by (simp add: hash_prm_ok_def)
    ultimately show ?thesis unfolding decodeKey_def keyRow_def hashBuildRow1_def P(2,3) by (simp add: Let_def)
  qed
  then have "decode aesHash h ?P inputs vals pp = Inr (map2 (putValue h ?P) vals X)" using ok lX len by (intro decode_of_keys) simp_all
  moreover have "putValue h ?P = putVal h B" unfolding putValue_def putVal_def P(5) by (simp add: fun_eq_iff)
  ultimately show ?thesis using True init by (simp add: implParDecode_def)
next
  case False
  let ?n = "length inputs" and ?T = "max numThreads 1"
  let ?tb = "thrdBegin ?n ?T"
  let ?step = "\<lambda>i vals. rbind (px_subspan (?tb i) (?tb (i + 1) - ?tb i) vals) (\<lambda>va.
     rbind (implDecodeBatch ib aesHash h B (take (?tb (i + 1) - ?tb i) (drop (?tb i) inputs)) va pp) (\<lambda>va. Inr (storeAt (?tb i) va vals)))"
  let ?mine = "\<lambda>l js. \<exists>i\<in>set js. ?tb i \<le> l \<and> l < ?tb (Suc i)"
  have step: "\<exists>v. ?step i vs = Inr v \<and> length v = ?n \<and>
      (\<forall>l<?n. v ! l = (if ?tb i \<le> l \<and> l < ?tb (Suc i) then putVal h B (vs ! l) (X ! l) else vs ! l))"
    if i: "i < ?T" and vs: "length vs = ?n" for i vs
  proof -
    define b m where "b = ?tb i" and "m = ?tb (Suc i) - ?tb i"
    have e: "?tb (Suc i) = b + m" using thrdBegin_mono [of i "Suc i" ?n ?T] by (simp add: b_def m_def)
    have bm: "b + m \<le> ?n" using thrdBegin_bounds(3) [of ?T "Suc i" ?n] i e by simp
    have "implDecodeBatch ib aesHash h B (take m (drop b inputs)) (take m (drop b vs)) pp =
        Inr (map2 (putVal h B) (take m (drop b vs)) (take m (drop b X)))"
      using bm vs lX by (intro implDecodeBatch_ok [OF B nb pp struct_decodes_slice [OF S bm lX]]) simp_all
    moreover have "px_subspan b m vs = Inr (take m (drop b vs))" using bm vs by (simp add: px_subspan_def)
    ultimately have "?step i vs = Inr (storeAt b (map2 (putVal h B) (take m (drop b vs)) (take m (drop b X))) vs)"
      unfolding Suc_eq_plus1 [symmetric] e b_def [symmetric] by simp
    then show ?thesis using bm vs lX unfolding e b_def [symmetric] by (auto simp: length_storeAt storeAt_nth)
  qed
  have loop: "\<exists>v. foldr_res ?step js vs = Inr v \<and> length v = ?n \<and> (\<forall>l<?n. v ! l = (if ?mine l js then putVal h B (vs ! l) (X ! l) else vs ! l))"
    if "distinct js" "set js \<subseteq> {..<?T}" "length vs = ?n" for js vs
    using that
  proof (induction js arbitrary: vs)
    case (Cons i js)
    from step [of i vs] Cons.prems obtain v where v: "?step i vs = Inr v" "length v = ?n"
      "\<forall>l<?n. v ! l = (if ?tb i \<le> l \<and> l < ?tb (Suc i) then putVal h B (vs ! l) (X ! l) else vs ! l)" by auto
    from Cons.IH [of v] Cons.prems v(2) obtain w where w: "foldr_res ?step js v = Inr w" "length w = ?n"
      "\<forall>l<?n. w ! l = (if ?mine l js then putVal h B (v ! l) (X ! l) else v ! l)" by auto
    have "w ! l = (if ?mine l (i # js) then putVal h B (vs ! l) (X ! l) else vs ! l)" if "l < ?n" for l
    proof (cases "?mine l js")
      case True
      then have "\<not> (?tb i \<le> l \<and> l < ?tb (Suc i))" using Cons.prems(1) thrd_apart by (metis distinct.simps(2))
      then have "v ! l = vs ! l" using v(3) that by auto
      with True w(3) that show ?thesis by simp
    next
      case False
      then have "w ! l = v ! l" using w(3) that by auto
      with False v(3) that show ?thesis by auto
    qed
    with v(1) w(1,2) show ?case by auto
  qed simp
  let ?js = "interleave sched (map (\<lambda>i. [i]) [0..<?T])"
  have c: "concat (map (\<lambda>i. [i]) [0..<?T]) = [0..<?T]" by (induction ?T) simp_all
  have "distinct ?js" "set ?js = {..<?T}" unfolding distinct_interleave c by auto
  with loop [of ?js vals] len obtain v where v: "foldr_res ?step ?js vals = Inr v" "length v = ?n"
    "\<forall>l<?n. v ! l = (if ?mine l ?js then putVal h B (vals ! l) (X ! l) else vals ! l)" by auto
  have "?mine l ?js" if "l < ?n" for l
    using thrd_covers [of l ?n ?T ?T] thrdBegin_bounds(2) [of ?T ?n] that \<open>set ?js = _\<close> by auto
  then have "v = map2 (putVal h B) vals X" using v(2,3) len lX by (intro nth_equalityI) simp_all
  with v(1) False show ?thesis by (simp add: implParDecode_def Let_def)
qed

end

end
