(* ===== verification/BaxosProps.thy ===== *)
theory BaxosProps
  imports BaxosDecode
begin

section \<open>Properties of Baxos\<close>

text \<open>
  What \<open>solve\<close> and \<open>decode\<close> of \<open>Baxos\<close> (\<open>src/volePSI/PaxosImpl.h\<close>) promise for every number of threads and
  every schedule.
\<close>

text \<open>Parameters for which the index type that \<open>solve\<close> and \<open>decode\<close> pick is large enough.\<close>

definition baxos_usable :: "baxos \<Rightarrow> bool" where
  "baxos_usable B \<longleftrightarrow> 0 < bNumBins B \<and> bNumBins B < 2 ^ 64 \<and> bWeight B = mWeight (bParam B) \<and> 2 \<le> bWeight B \<and> bWeight B \<le> 20 \<and>
     bWeight B \<le> mSparseSize (bParam B) \<and> bItemsPerBin B + 2 \<le> mSparseSize (bParam B) \<and>
     mSparseSize (bParam B) < 2 ^ idxTypeBits B - 1 \<and> 0 < mDenseSize (bParam B) \<and> (mDt (bParam B) = Binary \<longrightarrow> combs_ok (bParam B))"

text \<open>The inputs fit: no thread's part of a bin overflows, a single bin is not too small, and no column
  of a bin is hit 200 times.\<close>

definition baxos_fits :: "(nat \<Rightarrow> nat \<Rightarrow> nat \<Rightarrow> nat) \<Rightarrow> (block \<Rightarrow> block \<Rightarrow> block) \<Rightarrow> baxos \<Rightarrow> block list \<Rightarrow> nat \<Rightarrow> bool" where
  "baxos_fits binSize aesHash B inputs T \<longleftrightarrow>
     (if bNumBins B = 1 then bNumItems B = length inputs \<and> length inputs \<le> bItemsPerBin B
      else loads_ok aesHash B inputs T (binSize (bNumBins B) ((bNumItems B + T - 1) div T) (bSsp B))) \<and>
     (\<forall>hh. PaxosHash_init (idxTypeBits B) (bSeed B) (mWeight (bParam B)) (mSparseSize (bParam B)) = Inr hh \<longrightarrow>
        light_bins (idxTypeBits B) aesHash B hh inputs)"

definition baxos_outcome :: "('v, 's) px_helper \<Rightarrow> (block \<Rightarrow> block \<Rightarrow> block) \<Rightarrow> baxos \<Rightarrow> block list \<Rightarrow> 'v list \<Rightarrow> nat \<Rightarrow>
    ('v list \<times> 's option) res \<Rightarrow> bool" where
  "baxos_outcome h aesHash B inputs X T r \<longleftrightarrow> (case r of
     Inl e \<Rightarrow> if bNumBins B = 1 \<or> T = 1 then e = RTE_LOC \<or> (\<exists>msg. e = RuntimeError msg) else e = Terminated
   | Inr (p, _) \<Rightarrow> length p = baxos_size B \<and> (\<forall>sched numThreads vals. length vals = length inputs \<longrightarrow>
       Baxos_decode sched aesHash h B inputs vals p numThreads =
         Inr (map2 (\<lambda>x y. if bAddToDecode B then hAdd h x y else y) vals X)))"

lemma idxTypeBits_range: "8 \<le> idxTypeBits B" "idxTypeBits B \<le> 64"
  by (simp_all add: idxTypeBits_def Let_def)

lemma usable_ok:
  assumes "baxos_usable B"
  shows "\<exists>hh. PaxosHash_init (idxTypeBits B) (bSeed B) (mWeight (bParam B)) (mSparseSize (bParam B)) = Inr hh \<and> baxos_ok (idxTypeBits B) B hh"
proof -
  from hash_prm_exists [of "bParam B" "idxTypeBits B" "bSeed B"] assms idxTypeBits_range obtain hh where
    "hash_prm_ok (idxTypeBits B) (bParam B) (bSeed B) hh" by (auto simp: baxos_usable_def)
  with assms show ?thesis by (auto simp: baxos_ok_def baxos_usable_def hash_prm_ok_def)
qed

context px_values
begin

lemma Baxos_decode_ok:
  assumes "baxos_ok (idxTypeBits B) B hh" "baxos_usable B" "dt = mDt (bParam B)" "length pp = baxos_size B"
    and "struct_decodes (idxTypeBits B) aesHash B hh inputs X pp" "length vals = length inputs" "length X = length inputs"
  shows "Baxos_decode sched aesHash h B inputs vals pp numThreads = Inr (map2 (putVal h B) vals X)"
  using assms unfolding Baxos_decode_def by (intro implParDecode_ok) (auto simp: baxos_usable_def)

lemma Baxos_solve_ok:
  assumes B: "baxos_usable B" "dt = mDt (bParam B)" and fits: "baxos_fits binSize aesHash B inputs (max 1 numThreads)"
    and dist: "distinct inputs" and X: "length X = length inputs" "set X \<subseteq> V" and out: "length p = baxos_size B" and rnd: "draws_ok rndBlocks"
    and new: "bDebug B \<and> bAddToDecode B \<longrightarrow> (\<forall>y\<in>V. hAdd h (hNew h) y = y)"
  shows "baxos_outcome h aesHash B inputs X (max 1 numThreads)
    (Baxos_solve binSize s1 s2 aesHash h rndBlocks B inputs X p (None :: 'b option) numThreads)"
proof -
  let ?ib = "idxTypeBits B" and ?T = "max 1 numThreads"
  let ?par = "implParSolve ?ib binSize s1 s2 aesHash h rndBlocks B inputs X p (None :: 'b option) numThreads"
  from usable_ok [OF B(1)] obtain hh where hh: "PaxosHash_init ?ib (bSeed B) (mWeight (bParam B)) (mSparseSize (bParam B)) = Inr hh"
    "baxos_ok ?ib B hh" by blast
  have light: "light_bins ?ib aesHash B hh inputs" using fits hh(1) by (simp add: baxos_fits_def)
  have nb: "0 < bNumBins B" "bNumBins B < 2 ^ 64" using B(1) by (auto simp: baxos_usable_def)
  have par: "case ?par of Inl e \<Rightarrow> if bNumBins B = 1 \<or> ?T = 1 then benign e else e = Terminated
    | Inr (p', _) \<Rightarrow> length p' = baxos_size B \<and> struct_decodes ?ib aesHash B hh inputs X p'"
  proof (cases "bNumBins B = 1")
    case True
    have "bNumItems B = length inputs" "length inputs \<le> bItemsPerBin B" using fits True by (simp_all add: baxos_fits_def)
    from implParSolve_one_ok [OF hh(2) B(2) True this dist X out rnd light, where prng = "None :: 'b option" and binSize = binSize and ?s1.0 = s1 and ?s2.0 = s2 and numThreads = numThreads] True
    show ?thesis by (auto split: sum.splits)
  next
    case False
    then have "loads_ok aesHash B inputs ?T (binSize (bNumBins B) ((bNumItems B + ?T - 1) div ?T) (bSsp B))"
      using fits by (simp add: baxos_fits_def)
    from implParSolve_bins_ok [where ib = "idxTypeBits B" and binSize = binSize and numThreads = numThreads and T = "max 1 numThreads"
        and prng = "None :: 'b option" and ?s1.0 = s1 and ?s2.0 = s2, OF hh(2) B(2) nb(1) False nb(2) dist X out rnd refl refl this light] False
    show ?thesis by (auto split: sum.splits)
  qed
  show ?thesis
  proof (cases ?par)
    case (Inl e)
    with par have "if bNumBins B = 1 \<or> ?T = 1 then benign e else e = Terminated" by simp
    then show ?thesis by (auto simp: baxos_outcome_def Baxos_solve_def Inl benign_def split: if_splits)
  next
    case (Inr r)
    obtain p' u where r: "r = (p', u)" by (cases r)
    with par Inr have p': "length p' = baxos_size B" "struct_decodes ?ib aesHash B hh inputs X p'" by auto
    note dec = Baxos_decode_ok [OF hh(2) B p' _ X(1)]
    have "map2 (putVal h B) (replicate (length X) (hNew h)) X = X" if "bDebug B"
      using that new X(2) by (intro nth_equalityI) (auto simp: putVal_def subset_iff)
    moreover have "list_all2 (hEq h) X X" using X(2) by (auto simp: list_all2_conv_all_nth subset_iff eq_iff)
    ultimately have "bDebug B \<Longrightarrow> Baxos_check [] aesHash h B inputs X p' = Inr ()"
      using dec [of "replicate (length X) (hNew h)"] X(1) by (simp add: Baxos_check_def)
    then have "Baxos_solve binSize s1 s2 aesHash h rndBlocks B inputs X p (None :: 'b option) numThreads = Inr (p', u)"
      by (simp add: Baxos_solve_def Inr r)
    then show ?thesis using p'(1) dec unfolding baxos_outcome_def putVal_def [abs_def] by simp
  qed
qed

end

subsection \<open>The properties\<close>

text \<open>C12: Baxos from keys to keys. With usable parameters, distinct inputs that fit and no generator,
  solve either reports an error (RTE_LOC or a runtime error when it works on one thread or one bin; with
  more threads the exception of a worker thread ends the process) or returns a structure of the promised
  size from which decode recovers the value of every input (added to the old value when mAddToDecode is
  set). This holds for every number of threads, of solve and of decode, and every schedule of the threads.\<close>

theorem baxos_roundtrip:
  assumes "baxos_usable B" and "baxos_fits binSize aesHash B inputs (max 1 numThreads)" and "distinct inputs"
    and "length X = length inputs" and "length p = baxos_size B" and "\<forall>n s. length (fst (rndBlocks n s)) = n"
  shows "case Baxos_solve binSize sched1 sched2 aesHash (PxVector_blocks rnd) rndBlocks B inputs X p None numThreads of
      Inl e \<Rightarrow> if bNumBins B = 1 \<or> max 1 numThreads = 1 then e = RTE_LOC \<or> (\<exists>msg. e = RuntimeError msg) else e = Terminated
    | Inr (p', _) \<Rightarrow> length p' = baxos_size B \<and> (\<forall>sched numThreads' vals. length vals = length inputs \<longrightarrow>
        Baxos_decode sched aesHash (PxVector_blocks rnd) B inputs vals p' numThreads' =
          Inr (map2 (\<lambda>x y. if bAddToDecode B then x XOR y else y) vals X))"
proof -
  have "hAdd (PxVector_blocks rnd) (hNew (PxVector_blocks rnd)) y = y" for y by (simp add: PxVector_blocks_def PxVector_add_def)
  then have "baxos_outcome (PxVector_blocks rnd) aesHash B inputs X (max 1 numThreads)
      (Baxos_solve binSize sched1 sched2 aesHash (PxVector_blocks rnd) rndBlocks B inputs X p None numThreads)"
    using assms by (intro pxv.both.Baxos_solve_ok [where dt = "mDt (bParam B)"]) (simp_all add: draws_ok_def)
  moreover have eq: "hAdd (PxVector_blocks rnd) = (XOR)" by (simp add: PxVector_blocks_def PxVector_add_def [abs_def])
  ultimately show ?thesis unfolding baxos_outcome_def eq by blast
qed

definition baxosParam :: paxos_param where
  "baxosParam = \<lparr>mSparseSize = 4, mDenseSize = 1, mWeight = 3, mG = 1, mSsp = 40, mDt = Binary\<rparr>"

definition baxosSample :: baxos where
  "baxosSample = \<lparr>bNumItems = 2, bNumBins = 2, bItemsPerBin = 2, bWeight = 3, bSsp = 40, bParam = baxosParam,
     bSeed = 9, bDebug = False, bAddToDecode = False\<rparr>"

lemma baxosSample_usable: "baxos_usable baxosSample"
proof -
  have "idxTypeBits baxosSample = 8" by code_simp
  moreover have "combs_ok baxosParam" by (rule combs_ok_small) (simp_all add: baxosParam_def)
  ultimately show ?thesis by (simp add: baxos_usable_def baxosSample_def baxosParam_def)
qed

lemma baxosSample_fits: "baxos_fits (\<lambda>_ _ _. 2) aesHash baxosSample [x, y] T"
proof -
  have "length (filter Q [thrdBegin (length [x, y]) T t..<thrdBegin (length [x, y]) T (Suc t)]) \<le> 2" if "t < T" for Q t
  proof -
    have "thrdBegin (length [x, y]) T (Suc t) \<le> length [x, y]" using that by (intro thrdBegin_bounds) simp_all
    then show ?thesis using length_filter_le [of Q "[thrdBegin (length [x, y]) T t..<thrdBegin (length [x, y]) T (Suc t)]"] by simp
  qed
  moreover have "lightRows ib baxosSample hh (map f (binIdxs aesHash baxosSample [x, y] b))" for ib hh f b
  proof -
    have "length (binIdxs aesHash baxosSample [x, y] b) \<le> 2"
      using length_filter_le [of _ "[0..<2]"] by (simp add: binIdxs_def)
    then show ?thesis
      by (auto simp: lightRows_def intro!: le_less_trans [OF length_filter_le])
  qed
  ultimately show ?thesis unfolding baxos_fits_def loads_ok_def light_bins_def by (simp add: baxosSample_def)
qed

theorem baxos_roundtrip_witness:
  "case Baxos_solve (\<lambda>_ _ _. 2) [1, 0] [0, 1] (\<lambda>k x. x) (PxVector_blocks noRnd) noRnd baxosSample [1, 2] [7, 8] (replicate 10 0) None 2 of
      Inl e \<Rightarrow> e = Terminated
    | Inr (p', _) \<Rightarrow> Baxos_decode [1] (\<lambda>k x. x) (PxVector_blocks noRnd) baxosSample [1, 2] [0, 0] p' 2 = Inr [7, 8]"
proof -
  have "baxos_size baxosSample = 10" "bAddToDecode baxosSample = False" "bNumBins baxosSample = 2"
    by (simp_all add: baxos_size_def baxosSample_def baxosParam_def)
  then show ?thesis
    using baxos_roundtrip [OF baxosSample_usable baxosSample_fits [of "\<lambda>k x. x" 1 2 "max 1 2"], of "[7, 8]" "replicate 10 0" noRnd,
      where rnd = noRnd and ?sched1.0 = "[1, 0]" and ?sched2.0 = "[0, 1]"]
    by (auto split: sum.splits)
qed

text \<open>The PaXoS object that decodes the bins, and the value it finds for an input.\<close>

definition binDecoder :: "baxos \<Rightarrow> paxos_hash \<Rightarrow> paxos" where
  "binDecoder B hh = (newPaxos (idxTypeBits B))\<lparr>mSparseSize := mSparseSize (bParam B), mDenseSize := mDenseSize (bParam B),
     mWeight := mWeight (bParam B), mG := mG (bParam B), mSsp := mSsp (bParam B), mDt := mDt (bParam B), mHasher := hh\<rparr>"

lemma binDecoder_simps: "paxos_param.truncate (binDecoder B hh) = bParam B" "mHasher (binDecoder B hh) = hh" "mIdxBits (binDecoder B hh) = idxTypeBits B"
  "paxos_size (binDecoder B hh) = paxos_size (bParam B)"
  by (cases "bParam B"; simp add: binDecoder_def paxos_param.truncate_def newPaxos_def paxos_size_def)+

definition inputVal :: "('v, 's) px_helper \<Rightarrow> (block \<Rightarrow> block \<Rightarrow> block) \<Rightarrow> baxos \<Rightarrow> paxos_hash \<Rightarrow> 'v list \<Rightarrow> block \<Rightarrow> 'v" where
  "inputVal h aesHash B hh p x = hashVal h (binDecoder B hh) (partOf B (itemBin aesHash B x) p) (aesHash (bSeed B) x)"

lemma Baxos_decode_inputVal:
  assumes "baxos_usable B" "baxos_ok (idxTypeBits B) B hh" "length p = baxos_size B" "length vals = length inputs"
  shows "Baxos_decode sched aesHash (PxVector_blocks rnd) B inputs vals p numThreads =
    Inr (map2 (putVal (PxVector_blocks rnd) B) vals (map (inputVal (PxVector_blocks rnd) aesHash B hh p) inputs))"
proof -
  let ?h = "PxVector_blocks rnd" and ?ib = "idxTypeBits B"
  have nb: "0 < bNumBins B" "bNumBins B < 2 ^ 64" using assms(1) by (auto simp: baxos_usable_def)
  have "decode1 ?h P (buildRow ?ib hh d) d q = Inr (hashVal ?h (binDecoder B hh) q d)"
    if "paxos_param.truncate P = bParam B" "length q = paxos_size (bParam B)" for P :: paxos and q d
    using pxv.both.hashVal_eq [OF assms(2) refl binDecoder_simps(1-3) that(2)] decode1_truncate [of P "binDecoder B hh" ?h] that(1)
    by (simp add: binDecoder_simps)
  then have "px_values.struct_decodes ?h UNIV ?ib aesHash B hh inputs (map (inputVal ?h aesHash B hh p) inputs) p"
    using part_subspan(2) [OF assms(3)] itemBin_less [OF nb, of aesHash]
    by (simp add: px_values.struct_decodes_def [OF pxv.both.px_values_axioms] inputVal_def)
  from pxv.both.Baxos_decode_ok [OF assms(2,1) refl assms(3) this assms(4)] show ?thesis by simp
qed

lemma inputVal_sum:
  assumes "baxos_usable B" "baxos_ok (idxTypeBits B) B hh" "length p = baxos_size B"
  shows "GF (inputVal (PxVector_blocks rnd) aesHash B hh p x) =
    rowSum (binDecoder B hh) (buildRow (idxTypeBits B) hh (aesHash (bSeed B) x)) (aesHash (bSeed B) x)
      (\<lambda>c. GF (partOf B (itemBin aesHash B x) p ! c))"
proof -
  let ?h = "PxVector_blocks rnd" and ?d = "aesHash (bSeed B) x" and ?q = "partOf B (itemBin aesHash B x) p"
  have nb: "0 < bNumBins B" "bNumBins B < 2 ^ 64" using assms(1) by (auto simp: baxos_usable_def)
  have q: "length ?q = paxos_size (bParam B)" using part_subspan(2) [OF assms(3)] itemBin_less [OF nb] by blast
  note R = pxv.both.bin_decode_ready [OF assms(2) refl binDecoder_simps(1) [of B hh]]
  have "mDt (bParam B) = Binary \<Longrightarrow> mDenseSize (binDecoder B hh) \<le> 128" using R(4) by fastforce
  from pxv.both.decode1_ok [OF R(1) R(5) [of ?d] R(2) _ _ R(3) this, where rnd = rnd and d = ?d and p = ?q] q obtain v where
    v: "decode1 ?h (binDecoder B hh) (buildRow (idxTypeBits B) hh ?d) ?d ?q = Inr v"
      "GF v = rowSum (binDecoder B hh) (buildRow (idxTypeBits B) hh ?d) ?d (\<lambda>c. GF (?q ! c))"
    by (auto simp: binDecoder_simps(4))
  then show ?thesis by (simp add: inputVal_def hashVal_def binDecoder_simps)
qed

text \<open>C14: on any structure of the right size decode succeeds, and neither the number of threads nor
  their schedule makes a difference to the values.\<close>

theorem baxos_decode_threads:
  assumes "baxos_usable B" and "length p = baxos_size B" and "length vals = length inputs"
  shows "\<exists>out. length out = length inputs \<and>
    (\<forall>sched numThreads. Baxos_decode sched aesHash (PxVector_blocks rnd) B inputs vals p numThreads = Inr out)"
proof -
  let ?h = "PxVector_blocks rnd"
  from usable_ok [OF assms(1)] obtain hh where "baxos_ok (idxTypeBits B) B hh" by blast
  from Baxos_decode_inputVal [OF assms(1) this assms(2,3), where rnd = rnd and aesHash = aesHash] show ?thesis
    by (intro exI [of _ "map2 (putVal ?h B) vals (map (inputVal ?h aesHash B hh p) inputs)"]) (simp add: assms(3))
qed

theorem baxos_decode_threads_witness:
  "\<exists>out. length out = 2 \<and> Baxos_decode [1] (\<lambda>k x. x) (PxVector_blocks noRnd) baxosSample [5, 6] [0, 0] [1, 2, 3, 4, 5, 6, 7, 8, 9, 10] 2 = Inr out \<and>
    Baxos_decode [] (\<lambda>k x. x) (PxVector_blocks noRnd) baxosSample [5, 6] [0, 0] [1, 2, 3, 4, 5, 6, 7, 8, 9, 10] 1 = Inr out"
proof -
  have "baxos_size baxosSample = 10" by (simp add: baxos_size_def baxosSample_def baxosParam_def)
  then show ?thesis
    using baxos_decode_threads [OF baxosSample_usable, of "[1, 2, 3, 4, 5, 6, 7, 8, 9, 10]" "[0, 0]" "[5, 6]" "\<lambda>k x. x" noRnd] by auto
qed

text \<open>C13: what the worker threads hand to the encoder of a bin does not depend on the number of
  threads or on their schedule: when no part overflows, placing the items succeeds, and merging bin b
  yields the hashes and the values of exactly the items of that bin, in the order of the inputs.\<close>

theorem baxos_bins_merged:
  assumes "libdivide_u64_gen (of_nat (bNumBins B)) = Inr D" and "0 < bNumBins B" and "bNumBins B < 2 ^ 64" and "0 < T"
    and "length vals = length inputs" and "loads_ok aesHash B inputs T per" and "m = bNumBins B * T * per"
  shows "\<exists>bins. foldr_res (putItem T per vals) (interleave sched (map (hashTasks aesHash B D T inputs) [0..<T]))
      \<lparr>thrdBinSizes = replicate T (replicate (bNumBins B) 0), inputMapping = replicate m 0,
        valBacking = replicate m v, hashBacking = replicate m 0\<rparr> = Inr bins \<and>
    (\<forall>b<bNumBins B. let ids = filter (\<lambda>i. itemBin aesHash B (inputs ! i) = b) [0..<length inputs] in
       binCount T (thrdBinSizes bins) b = Inr (length ids) \<and>
       (\<exists>hs vs. mergeBin T per (thrdBinSizes bins) b (length ids) (hashBacking bins) (valBacking bins) = Inr (hs, vs) \<and>
          take (length ids) (drop (binStart T per 0 b) hs) = map (\<lambda>i. aesHash (bSeed B) (inputs ! i)) ids \<and>
          take (length ids) (drop (binStart T per 0 b) vs) = map (\<lambda>i. vals ! i) ids))"
proof -
  let ?nb = "bNumBins B"
  define xs where "xs = interleave sched (map (hashTasks aesHash B D T inputs) [0..<T])"
  note I = binItems_interleave [OF assms(1-4) xs_def]
  have task: "\<forall>k\<in>set xs. task_ok T ?nb (length vals) k" using I(4) assms(5) by simp
  have fit: "\<forall>t<T. \<forall>b<?nb. length (sel t b xs) \<le> per" using assms(6) I(3) by (simp add: loads_ok_def)
  from putItems_ok [OF placed_start task, of per v] fit obtain bins where
    bins: "foldr_res (putItem T per vals) xs \<lparr>thrdBinSizes = replicate T (replicate ?nb 0), inputMapping = replicate m 0,
        valBacking = replicate m v, hashBacking = replicate m 0\<rparr> = Inr bins" "placed T per ?nb vals xs bins"
    unfolding assms(7) by auto
  have P: "sizes_ok T ?nb xs (thrdBinSizes bins)" "\<And>b. b < ?nb \<Longrightarrow> regions T per ?nb vals xs (hashBacking bins) (valBacking bins) b"
    using bins(2) by (auto simp: placed_def)
  have "binCount T (thrdBinSizes bins) b = Inr (length (binIdxs aesHash B inputs b)) \<and>
      (\<exists>hs vs. mergeBin T per (thrdBinSizes bins) b (length (binIdxs aesHash B inputs b)) (hashBacking bins) (valBacking bins) = Inr (hs, vs) \<and>
        take (length (binIdxs aesHash B inputs b)) (drop (binStart T per 0 b) hs) = map (\<lambda>i. aesHash (bSeed B) (inputs ! i)) (binIdxs aesHash B inputs b) \<and>
        take (length (binIdxs aesHash B inputs b)) (drop (binStart T per 0 b) vs) = map (\<lambda>i. vals ! i) (binIdxs aesHash B inputs b))"
    if b: "b < ?nb" for b
  proof -
    have i: "map tIdx (binItems T b xs) = binIdxs aesHash B inputs b"
      "map tHash (binItems T b xs) = map (\<lambda>i. aesHash (bSeed B) (inputs ! i)) (binIdxs aesHash B inputs b)"
      using I(1,2) b by auto
    then have n: "length (binItems T b xs) = length (binIdxs aesHash B inputs b)" by (metis length_map)
    have v: "map (\<lambda>k. vals ! tIdx k) (binItems T b xs) = map (\<lambda>i. vals ! i) (binIdxs aesHash B inputs b)"
      unfolding i(1) [symmetric] by simp
    show ?thesis using mergeBin_ok [OF P(1) b P(2) [OF b] _ assms(4)] fit b binCount_ok [OF P(1) b] unfolding i(2) v n by auto
  qed
  with bins(1) show ?thesis unfolding xs_def [symmetric] binIdxs_def [symmetric] Let_def by blast
qed

lemma baxosSample_loads: "loads_ok (\<lambda>k x. x) baxosSample [1, 2] T 2"
  using baxosSample_fits [of "\<lambda>k x. x" 1 2 T] by (simp add: baxos_fits_def baxosSample_def)

lemma baxosSample_ids: "filter (\<lambda>i. itemBin (\<lambda>k x. x) baxosSample ([1, 2] ! i) = 1) [0..<2] = [0]"
  by code_simp

theorem baxos_bins_merged_witness:
  "\<exists>D bins hs vs. foldr_res (putItem 2 2 [7, 8 :: u8]) (interleave [1] (map (hashTasks (\<lambda>k x. x) baxosSample D 2 [1, 2]) [0..<2]))
      \<lparr>thrdBinSizes = replicate 2 (replicate 2 0), inputMapping = replicate 8 0, valBacking = replicate 8 0, hashBacking = replicate 8 0\<rparr> = Inr bins \<and>
    mergeBin 2 2 (thrdBinSizes bins) 1 1 (hashBacking bins) (valBacking bins) = Inr (hs, vs) \<and> take 1 (drop 4 vs) = [7]"
proof -
  obtain D where "libdivide_u64_gen (of_nat 2) = Inr D" using libdivide_u64_gen_ok [of "2 :: u64"] by auto
  then have D: "libdivide_u64_gen (of_nat (bNumBins baxosSample)) = Inr D" by (simp only: baxosSample_def baxos.simps)
  have nb: "bNumBins baxosSample = 2" by (simp add: baxosSample_def)
  have ids: "filter (\<lambda>i. itemBin (\<lambda>k x. x) baxosSample ([1, 2] ! i) = 1) [0..<length [1, 2 :: block]] = [0]"
    using baxosSample_ids by (simp only: list.size numeral_2_eq_2 add_0 plus_nat.simps)
  have hyps: "0 < bNumBins baxosSample" "bNumBins baxosSample < 2 ^ 64" "(0 :: nat) < 2" "length [7, 8 :: u8] = length [1, 2 :: block]"
    "8 = bNumBins baxosSample * 2 * 2" by (simp_all add: nb)
  from baxos_bins_merged [OF D hyps(1-4) baxosSample_loads hyps(5), where sched = "[1]" and v = 0, unfolded nb]
  obtain bins where b: "foldr_res (putItem 2 2 [7, 8 :: u8]) (interleave [1] (map (hashTasks (\<lambda>k x. x) baxosSample D 2 [1, 2]) [0..<2]))
      \<lparr>thrdBinSizes = replicate 2 (replicate 2 0), inputMapping = replicate 8 0, valBacking = replicate 8 0, hashBacking = replicate 8 0\<rparr> = Inr bins"
    "\<forall>b<2. let ids = filter (\<lambda>i. itemBin (\<lambda>k x. x) baxosSample ([1, 2] ! i) = b) [0..<length [1, 2 :: block]] in
       binCount 2 (thrdBinSizes bins) b = Inr (length ids) \<and>
       (\<exists>hs vs. mergeBin 2 2 (thrdBinSizes bins) b (length ids) (hashBacking bins) (valBacking bins) = Inr (hs, vs) \<and>
          take (length ids) (drop (binStart 2 2 0 b) hs) = map (\<lambda>i. [1, 2] ! i) ids \<and>
          take (length ids) (drop (binStart 2 2 0 b) vs) = map (\<lambda>i. [7, 8] ! i) ids)" by blast
  have "(1 :: nat) < 2" by simp
  from b(2) [rule_format, OF this, unfolded Let_def ids]
  have "\<exists>hs vs. mergeBin 2 2 (thrdBinSizes bins) 1 1 (hashBacking bins) (valBacking bins) = Inr (hs, vs) \<and> take 1 (drop 4 vs) = [7]"
    by (auto simp: binStart_def)
  with b(1) show ?thesis by blast
qed

subsection \<open>The index type\<close>

lemma bit_width_le: "bit_width n \<le> k \<longleftrightarrow> n < 2 ^ k"
proof (induction k arbitrary: n)
  case 0
  show ?case by (subst bit_width.simps) simp
next
  case (Suc k)
  have "bit_width n = (if n = 0 then 0 else 1 + bit_width (n div 2))" by (rule bit_width.simps)
  moreover have "n div 2 < 2 ^ k \<longleftrightarrow> n < 2 ^ Suc k" by auto
  ultimately show ?case using Suc.IH [of "n div 2"] by simp
qed

lemma roundUpTo_le: "roundUpTo w 8 \<le> 8 * m \<longleftrightarrow> w \<le> 8 * m"
proof -
  have "(w + 7) div 8 < Suc m \<longleftrightarrow> w + 7 < Suc m * 8" by (rule div_less_iff_less_mult) simp
  moreover have "roundUpTo w 8 = 8 * ((w + 7) div 8)" by (simp add: roundUpTo_def divCeil_def)
  moreover have "w + 7 < Suc m * 8 \<longleftrightarrow> w \<le> 8 * m" by auto
  ultimately show ?thesis by (simp only: mult_le_cancel1 less_Suc_eq_le) simp
qed

lemma idxTypeBits_eq: "idxTypeBits B = (if mSparseSize (bParam B) < 2 ^ 8 then 8 else if mSparseSize (bParam B) < 2 ^ 16 then 16
  else if mSparseSize (bParam B) < 2 ^ 32 then 32 else 64)"
proof -
  let ?w = "bit_width (mSparseSize (bParam B))"
  note le = roundUpTo_le [of ?w]
  have "roundUpTo ?w 8 \<le> 8 \<longleftrightarrow> ?w \<le> 8" "roundUpTo ?w 8 \<le> 16 \<longleftrightarrow> ?w \<le> 16" "roundUpTo ?w 8 \<le> 32 \<longleftrightarrow> ?w \<le> 32"
    using le [of 1] le [of 2] le [of 4] by simp_all
  then show ?thesis by (simp add: idxTypeBits_def Let_def log2ceil_def bit_width_le)
qed

lemma Paxos_init_large: "maxIdx (mIdxBits P) \<le> mSparseSize prm \<Longrightarrow> Paxos_init n prm seed P = Inl RTE_LOC"
  by (simp add: Paxos_init_def)

text \<open>C15: the index type that solve picks is too small for exactly three sparse sizes, 255, 65535 and
  2^32 - 1: init needs a value beyond the last column for its null pointer. At these sizes every solve
  of inputs that fit ends with RTE_LOC, or with the end of the process when several threads work.\<close>

theorem baxos_index_type:
  assumes "mSparseSize (bParam B) < 2 ^ 64 - 1" and "0 < bNumBins B" and "bNumBins B < 2 ^ 64" and "distinct inputs"
    and "length X = length inputs" and "length p = baxos_size B" and "max 1 numThreads = 1 \<or> prng = None"
    and "bNumBins B \<noteq> 1 \<longrightarrow> loads_ok aesHash B inputs (max 1 numThreads) (binSize (bNumBins B) ((bNumItems B + max 1 numThreads - 1) div max 1 numThreads) (bSsp B))"
  shows "(2 ^ idxTypeBits B - 1 \<le> mSparseSize (bParam B) \<longleftrightarrow> mSparseSize (bParam B) \<in> {2 ^ 8 - 1, 2 ^ 16 - 1, 2 ^ 32 - 1}) \<and>
    (2 ^ idxTypeBits B - 1 \<le> mSparseSize (bParam B) \<longrightarrow>
      Baxos_solve binSize sched1 sched2 aesHash (PxVector_blocks rnd) rndBlocks B inputs X p prng numThreads =
        Inl (if bNumBins B = 1 \<or> max 1 numThreads = 1 then RTE_LOC else Terminated))"
proof (intro conjI impI)
  show "2 ^ idxTypeBits B - 1 \<le> mSparseSize (bParam B) \<longleftrightarrow> mSparseSize (bParam B) \<in> {2 ^ 8 - 1, 2 ^ 16 - 1, 2 ^ 32 - 1}"
    using assms(1) by (auto simp: idxTypeBits_eq)
next
  let ?h = "PxVector_blocks rnd" and ?ib = "idxTypeBits B" and ?T = "max 1 numThreads" and ?nb = "bNumBins B"
  let ?per = "binSize ?nb ((bNumItems B + ?T - 1) div ?T) (bSsp B)"
  assume "2 ^ ?ib - 1 \<le> mSparseSize (bParam B)"
  then have init: "Paxos_init n (bParam B) seed P = Inl RTE_LOC" if "mIdxBits P = ?ib" for n seed P
    using that by (intro Paxos_init_large) (simp add: maxIdx_def)
  have new: "mIdxBits (newPaxos ?ib) = ?ib" by (simp add: newPaxos_def)
  have "implParSolve ?ib binSize sched1 sched2 aesHash ?h rndBlocks B inputs X p prng numThreads =
      Inl (if ?nb = 1 \<or> ?T = 1 then RTE_LOC else Terminated)"
  proof (cases "?nb = 1")
    case True
    then show ?thesis using assms(4,6) init new by (simp add: implParSolve_def)
  next
    case False
    have "unat (of_nat ?nb :: u64) \<noteq> 0" using assms(2,3) by (simp add: unat_of_nat)
    then have "(of_nat ?nb :: u64) \<noteq> 0" by auto
    then obtain D where D: "libdivide_u64_gen (of_nat ?nb) = Inr D" using libdivide_u64_gen_ok by blast
    define xs where "xs = interleave sched1 (map (hashTasks aesHash B D ?T inputs) [0..<?T])"
    have T0: "0 < ?T" by simp
    note I = binItems_interleave [OF D assms(2,3) T0 xs_def]
    have loads: "loads_ok aesHash B inputs ?T ?per" using assms(8) False by blast
    have task: "\<forall>k\<in>set xs. task_ok ?T ?nb (length X) k" using I(4) assms(5) by simp
    have fit: "\<forall>t<?T. \<forall>b<?nb. length (sel t b xs) \<le> ?per" using loads I(3) unfolding loads_ok_def by simp
    let ?start = "\<lparr>thrdBinSizes = replicate ?T (replicate ?nb 0), inputMapping = replicate (?nb * ?T * ?per) 0,
      valBacking = replicate (?nb * ?T * ?per) (hNew ?h), hashBacking = replicate (?nb * ?T * ?per) 0\<rparr>"
    from putItems_ok [OF placed_start task, of ?per "hNew ?h"] fit obtain bins where
      bins: "foldr_res (putItem ?T ?per X) xs ?start = Inr bins" "placed ?T ?per ?nb X xs bins" by auto
    define tbs where "tbs = interleave sched2 (map (thrdBins ?T ?nb) [0..<?T])"
    note A = thrdBins_all [OF T0, of ?nb]
    have s: "set tbs = set (concat (map (thrdBins ?T ?nb) [0..<?T]))" by (simp add: tbs_def)
    then have "snd ` set tbs = {..<?nb}" using A(2) by simp
    then have "tbs \<noteq> []" using assms(2) by auto
    then obtain t b rest where tbs: "tbs = (t, b) # rest" by (cases tbs) auto
    then have tb: "t < ?T" "b < ?nb" using A(3) s by fastforce+
    let ?st = "\<lparr>sBins = bins, sPaxos = replicate ?T (newPaxos ?ib), sOut = p, sPrng = prng\<rparr>"
    have "sizes_ok ?T ?nb xs (thrdBinSizes bins)" using bins(2) by (simp add: placed_def)
    from binCount_ok [OF this tb(2)] have "solveBin ?ib ?h rndBlocks B ?T ?per (t, b) ?st = Inl RTE_LOC"
      using tb(1) init [OF new] by (simp add: solveBin_def Let_def)
    then have loop: "foldr_res (solveBin ?ib ?h rndBlocks B ?T ?per) tbs ?st = Inl RTE_LOC" unfolding tbs by simp
    have "implParSolve ?ib binSize sched1 sched2 aesHash ?h rndBlocks B inputs X p prng numThreads =
        Inl (threadErr ?T RTE_LOC)"
      unfolding implParSolve_def Let_def D rbind_simps xs_def [symmetric] tbs_def [symmetric]
      using assms(4,6,7) False bins(1) loop by auto
    then show ?thesis using False by (simp add: threadErr_def)
  qed
  then show "Baxos_solve binSize sched1 sched2 aesHash ?h rndBlocks B inputs X p prng numThreads =
      Inl (if ?nb = 1 \<or> ?T = 1 then RTE_LOC else Terminated)"
    by (simp add: Baxos_solve_def)
qed

theorem baxos_index_type_witness:
  "Baxos_solve (\<lambda>_ _ _. 2) [] [] (\<lambda>k x. x) (PxVector_blocks noRnd) noRnd (baxosSample\<lparr>bParam := baxosParam\<lparr>mSparseSize := 255\<rparr>\<rparr>)
    [1, 2] [7, 8] (replicate 512 0) None 2 = Inl Terminated"
proof -
  let ?B = "baxosSample\<lparr>bParam := baxosParam\<lparr>mSparseSize := 255\<rparr>\<rparr>"
  have nb: "bNumBins ?B = 2" "mSparseSize (bParam ?B) = 255" "baxos_size ?B = 512" "bNumItems ?B = 2" "bSsp ?B = 40" "idxTypeBits ?B = 8"
    by (simp_all add: baxosSample_def baxos_size_def baxosParam_def idxTypeBits_eq)
  have "loads_ok (\<lambda>k x. x) ?B [1, 2] 2 2"
    using baxosSample_loads [of 2] by (simp add: loads_ok_def itemBin_def modNumBins_def baxosSample_def)
  moreover have "max 1 (2 :: nat) = 2" by simp
  moreover note baxos_index_type [of ?B "[1, 2]" "[7, 8]" "replicate 512 0" 2 None "\<lambda>k x. x" "\<lambda>_ _ _. 2" "[]" "[]" noRnd noRnd,
    unfolded \<open>max 1 2 = 2\<close>]
  ultimately show ?thesis using nb by simp
qed

end
