(* ===== verification/Oprf.thy ===== *)
theory Oprf
  imports BaxosProps
begin

section \<open>The oblivious PRF\<close>

text \<open>
  \<open>RsOprfSender\<close> and \<open>RsOprfReceiver\<close> of \<open>src/volePSI/RsOprf.cpp\<close> with the default structure \<open>GCT\<close>.

  The two parties are coroutines that run until they wait for a message or for the result of the
  VOLE. \<open>oprf_step\<close> is one such piece of one party; the messages between them are two queues. The
  VOLE runs on a fork of the channel and is ideal here: \<open>vole\<close> maps the sender's scalar and the size
  to the sender's vector b and the receiver's vectors a and c, and delivers them when both have
  asked for the same size.

  Parameters: \<open>aesHash k x\<close> is \<open>AES(k).hashBlock(x)\<close>; \<open>fixedKey\<close> the key of \<open>mAesFixedKey\<close>; \<open>ro\<close> the random
  oracle; \<open>next\<close> draws a block from a generator; \<open>itemsPerBin\<close> and \<open>binParam\<close> are the floating point
  computations of \<open>Baxos::init\<close>. Timers are left out.
\<close>

subsection \<open>Baxos::init\<close>

definition Baxos_init :: "(nat \<Rightarrow> nat \<Rightarrow> nat \<Rightarrow> nat) \<Rightarrow> (nat \<Rightarrow> nat \<Rightarrow> nat \<Rightarrow> DenseType \<Rightarrow> paxos_param) \<Rightarrow>
    nat \<Rightarrow> nat \<Rightarrow> nat \<Rightarrow> nat \<Rightarrow> DenseType \<Rightarrow> block \<Rightarrow> bool \<Rightarrow> baxos res" where
  "Baxos_init itemsPerBin binParam numItems binSize weight ssp dt seed debug =
     (if binSize = 0 then Inl UB
      else
        let numBins = (numItems + binSize - 1) div binSize;
            items = itemsPerBin numBins numItems ssp
        in Inr \<lparr>bNumItems = numItems, bNumBins = numBins, bItemsPerBin = items, bWeight = weight, bSsp = ssp,
             bParam = binParam items weight ssp dt, bSeed = seed, bDebug = debug, bAddToDecode = False\<rparr>)"

subsection \<open>The parties\<close>

text \<open>What both sides are configured with, and what their code calls.\<close>

record ('s, 'h) oprf_env =
  oMal :: bool
  oBinSize :: nat
  oSsp :: nat
  oDebug :: bool
  oThreads :: nat
  oSched1 :: "nat list"
  oSched2 :: "nat list"
  oSched3 :: "nat list"
  oAesHash :: "block \<Rightarrow> block \<Rightarrow> block"
  oFixedKey :: block
  oRo :: "block \<Rightarrow> 'h"
  oNext :: "'s \<Rightarrow> block \<times> 's"
  oItems :: "nat \<Rightarrow> nat \<Rightarrow> nat \<Rightarrow> nat"
  oParam :: "nat \<Rightarrow> nat \<Rightarrow> nat \<Rightarrow> DenseType \<Rightarrow> paxos_param"
  oGetBinSize :: "nat \<Rightarrow> nat \<Rightarrow> nat \<Rightarrow> nat"
  oVole :: "block \<Rightarrow> nat \<Rightarrow> block list \<times> block list \<times> block list"

text \<open>The generators draw what the helpers need; none of them draws here, because \<open>solve\<close> gets no generator.\<close>

abbreviation pxBlocks :: "(block, unit) px_helper" where "pxBlocks \<equiv> PxVector_blocks (\<lambda>n s. (replicate n 0, s))"
abbreviation noBlocks :: "nat \<Rightarrow> unit \<Rightarrow> block list \<times> unit" where "noBlocks \<equiv> \<lambda>n s. (replicate n 0, s)"

datatype 'h oprf_msg = Commit 'h | SeedMsg block | WrMsg block | WsMsg block | Chunk "block list"

datatype sphase = SStart | SSeed | SVole | SWr | SRecv nat | SDone | SFail exn

datatype rphase = RStart | RCommit | RVole | RSend nat | RReveal "block list" | RDone "block list" | RFail exn

record oprf_sender =
  osPhase :: sphase
  osPaxos :: baxos
  osD :: block
  osB :: "block list"
  osW :: block
  osWs :: block

record 'h oprf_receiver =
  orPhase :: rphase
  orPaxos :: baxos
  orSeed :: block
  orWr :: block
  orHws :: "'h option"
  orP :: "block list"
  orA :: "block list"
  orC :: "block list"

record ('s, 'h) oprf_net =
  nS :: oprf_sender
  nR :: "'h oprf_receiver"
  nSPrng :: 's
  nRPrng :: 's
  nToR :: "'h oprf_msg list"
  nToS :: "'h oprf_msg list"
  nVoleS :: "(block \<times> nat) option"
  nVoleR :: "nat option"

subsection \<open>The sender\<close>

text \<open>Everything before the sender waits for the seed.\<close>

definition sender_begin :: "('s, 'h) oprf_env \<Rightarrow> nat \<Rightarrow> 's \<Rightarrow> (oprf_sender \<times> 'h oprf_msg list) res" where
  "sender_begin E n prng =
     (let (ws, prng) = oNext E prng in
      rbind (Baxos_init (oItems E) (oParam E) n (oBinSize E) 3 (oSsp E) GF128 0 False) (\<lambda>B.
      let (d, prng) = oNext E prng in
      Inr (\<lparr>osPhase = SSeed, osPaxos = B, osD = d, osB = [], osW = 0, osWs = ws\<rparr>,
           if oMal E then [Commit (oRo E ws)] else [])))"

text \<open>The largest part of the structure that is sent at once.\<close>

definition oprfChunk :: nat where "oprfChunk = 2 ^ 28"

text \<open>The loop \<open>while (pp.size())\<close>, after k elements.\<close>

definition sender_loop :: "oprf_sender \<Rightarrow> nat \<Rightarrow> oprf_sender" where
  "sender_loop S k = S\<lparr>osPhase := (if k < baxos_size (osPaxos S) then SRecv k else SDone)\<rparr>"

text \<open>\<open>b[i] = b[i] ^ mD.gf128Mul(p[i])\<close>, in groups of eight and a remainder loop.\<close>

definition mulAdd :: "block \<Rightarrow> block list \<Rightarrow> block list \<Rightarrow> block list" where
  "mulAdd d b p = map2 (\<lambda>b p. b XOR gf128Mul d p) b p"

definition sender_chunk :: "nat \<Rightarrow> nat \<Rightarrow> block list \<Rightarrow> oprf_sender \<Rightarrow> oprf_sender" where
  "sender_chunk M k msg S =
     (let len = min (baxos_size (osPaxos S) - k) M in
      if length msg \<noteq> len then S\<lparr>osPhase := SFail (RuntimeError ''bad buffer size'')\<rparr>
      else if length (osB S) < k + len then S\<lparr>osPhase := SFail UB\<rparr>
      else sender_loop (S\<lparr>osB := storeAt k (mulAdd (osD S) (take len (drop k (osB S))) msg) (osB S)\<rparr>) (k + len))"

subsection \<open>The receiver\<close>

text \<open>After the commitment: sending the seed, and everything up to the wait for the VOLE.\<close>

definition receiver_solve :: "('s, 'h) oprf_env \<Rightarrow> block list \<Rightarrow> 'h oprf_receiver \<Rightarrow> 'h oprf_receiver" where
  "receiver_solve E inputs R =
     (let B = orPaxos R; h = map (oAesHash E (oFixedKey E)) inputs; p = replicate (baxos_size B) 0 in
      case Baxos_solve (oGetBinSize E) (oSched1 E) (oSched2 E) (oAesHash E) pxBlocks noBlocks B inputs h p None (oThreads E) of
        Inl e \<Rightarrow> R\<lparr>orPhase := RFail e\<rparr>
      | Inr (p, _) \<Rightarrow> R\<lparr>orPhase := RVole, orP := p\<rparr>)"

definition receiver_begin :: "('s, 'h) oprf_env \<Rightarrow> block list \<Rightarrow> nat \<Rightarrow> 's \<Rightarrow> 'h oprf_receiver res" where
  "receiver_begin E inputs outputsSize prng =
     (if length inputs \<noteq> outputsSize then Inl RTE_LOC
      else
        let (seed, prng) = oNext E prng; (wr, prng) = oNext E prng in
        rbind (Baxos_init (oItems E) (oParam E) (length inputs) (oBinSize E) 3 (oSsp E) GF128 seed (oDebug E)) (\<lambda>B.
        Inr \<lparr>orPhase = RCommit, orPaxos = B, orSeed = seed, orWr = wr, orHws = None, orP = [], orA = [], orC = []\<rparr>))"

text \<open>One round of \<open>while (c.size())\<close>: the part of \<open>p\<close> from k on is masked with \<open>c\<close>. \<open>p\<close> is the rest behind
  this part when there is one, and the remainder loop runs up to its size.\<close>

definition chunkXor :: "nat \<Rightarrow> nat \<Rightarrow> block list \<Rightarrow> block list \<Rightarrow> block list res" where
  "chunkXor M k p c =
     (let n = length p;
          len = min (n - k) M;
          psize = (if n - k \<noteq> len then n - k - len else len);
          main = len div 8 * 8
      in foldr_res (\<lambda>i p. rbind (at p (k + i)) (\<lambda>x. rbind (at c (k + i)) (\<lambda>y. Inr (p[k + i := x XOR y]))))
           ([0..<main] @ [main..<psize]) p)"

text \<open>After the last part: \<open>decode\<close>, and the hash of the semi-honest version.\<close>

definition receiver_decode :: "('s, 'h) oprf_env \<Rightarrow> block list \<Rightarrow> 'h oprf_receiver \<Rightarrow> 'h oprf_receiver" where
  "receiver_decode E inputs R =
     (case Baxos_decode (oSched3 E) (oAesHash E) pxBlocks (orPaxos R) inputs (replicate (length inputs) 0) (orA R) (oThreads E) of
        Inl e \<Rightarrow> R\<lparr>orPhase := RFail e\<rparr>
      | Inr out \<Rightarrow> R\<lparr>orPhase := (if oMal E then RReveal out else RDone (map (oAesHash E (oFixedKey E)) out))\<rparr>)"

definition receiver_loop :: "('s, 'h) oprf_env \<Rightarrow> block list \<Rightarrow> 'h oprf_receiver \<Rightarrow> nat \<Rightarrow> 'h oprf_receiver" where
  "receiver_loop E inputs R k =
     (if k < length (orC R) then R\<lparr>orPhase := RSend k\<rparr> else receiver_decode E inputs R)"

text \<open>The part is sent, unless the rest has the same size: the test that tells a last part from an earlier
  one by the size of \<open>p\<close> then moves \<open>p\<close> itself, the rest, into the message, and its memory with it. The next
  round reads it.\<close>

definition receiver_chunk :: "nat \<Rightarrow> ('s, 'h) oprf_env \<Rightarrow> block list \<Rightarrow> 'h oprf_receiver \<Rightarrow> nat \<Rightarrow> 'h oprf_receiver \<times> 'h oprf_msg list" where
  "receiver_chunk M E inputs R k =
     (let len = min (length (orP R) - k) M; rest = length (orP R) - k - len in
      case chunkXor M k (orP R) (orC R) of
        Inl e \<Rightarrow> (R\<lparr>orPhase := RFail e\<rparr>, [])
      | Inr p \<Rightarrow>
          if rest = len \<and> rest \<noteq> 0 then (R\<lparr>orPhase := RFail UB, orP := p\<rparr>, [Chunk (take rest (drop (k + len) p))])
          else (receiver_loop E inputs (R\<lparr>orP := p\<rparr>) (k + len), [Chunk (take len (drop k p))]))"

text \<open>The end of the malicious version: check the commitment and hash.\<close>

definition receiver_finish :: "('s, 'h) oprf_env \<Rightarrow> block list \<Rightarrow> block list \<Rightarrow> block \<Rightarrow> 'h oprf_receiver \<Rightarrow> 'h oprf_receiver" where
  "receiver_finish E inputs out ws R =
     (if orHws R \<noteq> Some (oRo E ws) then R\<lparr>orPhase := RFail RTE_LOC\<rparr>
      else
        let w = ws XOR orWr R in
        R\<lparr>orPhase := RDone (map2 (\<lambda>u v. oAesHash E (u XOR w) v) out inputs)\<rparr>)"

subsection \<open>Evaluation at the sender\<close>

definition RsOprfSender_eval :: "('s, 'h) oprf_env \<Rightarrow> oprf_sender \<Rightarrow> nat list \<Rightarrow> block list \<Rightarrow> nat \<Rightarrow> block list res" where
  "RsOprfSender_eval E S sched val numThreads =
     rbind (Baxos_decode sched (oAesHash E) pxBlocks (osPaxos S) val (replicate (length val) 0) (osB S) numThreads) (\<lambda>output.
     let mulHash = map2 (\<lambda>u v. u XOR gf128Mul (osD S) (oAesHash E (oFixedKey E) v)) output val in
     Inr (if oMal E then map2 (\<lambda>u v. oAesHash E (u XOR osW S) v) mulHash val
          else map (oAesHash E (oFixedKey E)) mulHash))"

subsection \<open>The network\<close>

definition oprf_init :: "'s \<Rightarrow> 's \<Rightarrow> ('s, 'h) oprf_net" where
  "oprf_init sp rp = \<lparr>nS = \<lparr>osPhase = SStart, osPaxos = \<lparr>bNumItems = 0, bNumBins = 0, bItemsPerBin = 0, bWeight = 0, bSsp = 0,
       bParam = \<lparr>mSparseSize = 0, mDenseSize = 0, mWeight = 0, mG = 0, mSsp = 40, mDt = GF128\<rparr>, bSeed = 0, bDebug = False,
       bAddToDecode = False\<rparr>, osD = 0, osB = [], osW = 0, osWs = 0\<rparr>,
     nR = \<lparr>orPhase = RStart, orPaxos = \<lparr>bNumItems = 0, bNumBins = 0, bItemsPerBin = 0, bWeight = 0, bSsp = 0,
       bParam = \<lparr>mSparseSize = 0, mDenseSize = 0, mWeight = 0, mG = 0, mSsp = 40, mDt = GF128\<rparr>, bSeed = 0, bDebug = False,
       bAddToDecode = False\<rparr>, orSeed = 0, orWr = 0, orHws = None, orP = [], orA = [], orC = []\<rparr>,
     nSPrng = sp, nRPrng = rp, nToR = [], nToS = [], nVoleS = None, nVoleR = None\<rparr>"

text \<open>Receiving the first message, or the result of the VOLE, and running up to the next wait.\<close>

definition receiver_continue :: "('s, 'h) oprf_env \<Rightarrow> block list \<Rightarrow> 'h oprf_receiver \<Rightarrow> ('s, 'h) oprf_net \<Rightarrow> ('s, 'h) oprf_net" where
  "receiver_continue E inputs R N =
     N\<lparr>nR := receiver_solve E inputs R, nToS := nToS N @ [SeedMsg (orSeed R)], nVoleR := Some (baxos_size (orPaxos R))\<rparr>"

inductive oprf_step :: "('s, 'h) oprf_env \<Rightarrow> nat \<Rightarrow> block list \<Rightarrow> nat \<Rightarrow> ('s, 'h) oprf_net \<Rightarrow> ('s, 'h) oprf_net \<Rightarrow> bool"
  for E :: "('s, 'h) oprf_env" and n :: nat and inputs :: "block list" and outputsSize :: nat where
  sBegin: "osPhase (nS N) = SStart \<Longrightarrow> sender_begin E n (nSPrng N) = Inr (S, ms) \<Longrightarrow>
     oprf_step E n inputs outputsSize N (N\<lparr>nS := S, nToR := nToR N @ ms, nVoleS := Some (osD S, baxos_size (osPaxos S))\<rparr>)"
| sBeginFail: "osPhase (nS N) = SStart \<Longrightarrow> sender_begin E n (nSPrng N) = Inl e \<Longrightarrow>
     oprf_step E n inputs outputsSize N (N\<lparr>nS := (nS N)\<lparr>osPhase := SFail e\<rparr>\<rparr>)"
| sSeed: "osPhase (nS N) = SSeed \<Longrightarrow> nToS N = SeedMsg seed # q \<Longrightarrow>
     oprf_step E n inputs outputsSize N (N\<lparr>nS := (nS N)\<lparr>osPhase := SVole, osPaxos := (osPaxos (nS N))\<lparr>bSeed := seed\<rparr>\<rparr>, nToS := q\<rparr>)"
| sVole: "osPhase (nS N) = SVole \<Longrightarrow> nVoleS N = Some (d, m) \<Longrightarrow> nVoleR N = Some m \<Longrightarrow> oVole E d m = (b, a, c) \<Longrightarrow>
     oprf_step E n inputs outputsSize N (N\<lparr>nS := (if oMal E then (nS N)\<lparr>osPhase := SWr, osB := b\<rparr> else sender_loop ((nS N)\<lparr>osB := b\<rparr>) 0)\<rparr>)"
| sWr: "osPhase (nS N) = SWr \<Longrightarrow> nToS N = WrMsg w # q \<Longrightarrow>
     oprf_step E n inputs outputsSize N (N\<lparr>nS := sender_loop ((nS N)\<lparr>osW := w XOR osWs (nS N)\<rparr>) 0, nToR := nToR N @ [WsMsg (osWs (nS N))], nToS := q\<rparr>)"
| sChunk: "osPhase (nS N) = SRecv k \<Longrightarrow> nToS N = Chunk msg # q \<Longrightarrow>
     oprf_step E n inputs outputsSize N (N\<lparr>nS := sender_chunk oprfChunk k msg (nS N), nToS := q\<rparr>)"
| rBegin: "orPhase (nR N) = RStart \<Longrightarrow> receiver_begin E inputs outputsSize (nRPrng N) = Inr R \<Longrightarrow>
     oprf_step E n inputs outputsSize N (if oMal E then N\<lparr>nR := R\<rparr> else receiver_continue E inputs R N)"
| rBeginFail: "orPhase (nR N) = RStart \<Longrightarrow> receiver_begin E inputs outputsSize (nRPrng N) = Inl e \<Longrightarrow>
     oprf_step E n inputs outputsSize N (N\<lparr>nR := (nR N)\<lparr>orPhase := RFail e\<rparr>\<rparr>)"
| rCommit: "orPhase (nR N) = RCommit \<Longrightarrow> nToR N = Commit hws # q \<Longrightarrow>
     oprf_step E n inputs outputsSize N (receiver_continue E inputs ((nR N)\<lparr>orHws := Some hws\<rparr>) (N\<lparr>nToR := q\<rparr>))"
| rVole: "orPhase (nR N) = RVole \<Longrightarrow> nVoleS N = Some (d, m) \<Longrightarrow> nVoleR N = Some m \<Longrightarrow> oVole E d m = (b, a, c) \<Longrightarrow>
     oprf_step E n inputs outputsSize N (N\<lparr>nR := receiver_loop E inputs ((nR N)\<lparr>orA := a, orC := c\<rparr>) 0,
       nToS := nToS N @ (if oMal E then [WrMsg (orWr (nR N))] else [])\<rparr>)"
| rChunk: "orPhase (nR N) = RSend k \<Longrightarrow> receiver_chunk oprfChunk E inputs (nR N) k = (R, ms) \<Longrightarrow>
     oprf_step E n inputs outputsSize N (N\<lparr>nR := R, nToS := nToS N @ ms\<rparr>)"
| rReveal: "orPhase (nR N) = RReveal out \<Longrightarrow> nToR N = WsMsg ws # q \<Longrightarrow>
     oprf_step E n inputs outputsSize N (N\<lparr>nR := receiver_finish E inputs out ws (nR N), nToR := q\<rparr>)"

inductive_cases oprf_stepE: "oprf_step E n inputs outputsSize N N'"

inductive oprf_reach :: "('s, 'h) oprf_env \<Rightarrow> nat \<Rightarrow> block list \<Rightarrow> nat \<Rightarrow> ('s, 'h) oprf_net \<Rightarrow> ('s, 'h) oprf_net \<Rightarrow> bool"
  for E :: "('s, 'h) oprf_env" and n :: nat and inputs :: "block list" and outputsSize :: nat and N0 :: "('s, 'h) oprf_net" where
  reach_start: "oprf_reach E n inputs outputsSize N0 N0"
| reach_step: "oprf_reach E n inputs outputsSize N0 N \<Longrightarrow> oprf_step E n inputs outputsSize N N' \<Longrightarrow> oprf_reach E n inputs outputsSize N0 N'"

end
