(* ===== verification/OprfAlgebra.thy ===== *)
theory OprfAlgebra
  imports Oprf
begin

section \<open>The algebra of the OPRF\<close>

text \<open>
  Decoding is linear in the structure, so that decoding \<open>a + d * p\<close> is decoding a and p one by one. With the
  relation of the VOLE this makes the two parties compute the same function.
\<close>

lemma rowSum_scale: "rowSum P row d (\<lambda>c. a * x c) = a * rowSum P row d x"
proof -
  have "sparseSum row (\<lambda>c. a * x c) = a * sparseSum row x" by (induction row) (simp_all add: distrib_left)
  then show ?thesis by (simp add: rowSum_def distrib_left sum_distrib_left mult.left_commute)
qed

lemma rowSum_linear: "rowSum P row d (\<lambda>c. x c + a * y c) = rowSum P row d x + a * rowSum P row d y"
  by (simp only: rowSum_add rowSum_scale)

lemma inputVal_linear:
  assumes "baxos_usable B" "baxos_ok (idxTypeBits B) B hh" "length p = baxos_size B" "length q = baxos_size B" "length r = baxos_size B"
    and lin: "\<forall>i<baxos_size B. GF (r ! i) = GF (p ! i) + a * GF (q ! i)"
  shows "GF (inputVal (PxVector_blocks rnd) aesHash B hh r x) =
    GF (inputVal (PxVector_blocks rnd) aesHash B hh p x) + a * GF (inputVal (PxVector_blocks rnd) aesHash B hh q x)"
proof -
  let ?b = "itemBin aesHash B x" and ?P = "binDecoder B hh" and ?d = "aesHash (bSeed B) x" and ?n = "paxos_size (bParam B)"
  let ?row = "buildRow (idxTypeBits B) hh ?d"
  have nb: "0 < bNumBins B" "bNumBins B < 2 ^ 64" using assms(1) by (auto simp: baxos_usable_def)
  have b: "?b < bNumBins B" by (rule itemBin_less [OF nb])
  then have "Suc ?b * ?n \<le> bNumBins B * ?n" by (intro mult_le_mono1) simp
  then have room: "?n * ?b + ?n \<le> baxos_size B" by (simp add: baxos_size_def paxos_size_def mult.commute)
  have valid: "valid_row (mSparseSize ?P) (mWeight ?P) ?row"
    by (rule pxv.both.bin_decode_ready(5) [OF assms(2) refl binDecoder_simps(1) [of B hh]])
  have "GF (partOf B ?b r ! c) = GF (partOf B ?b p ! c) + a * GF (partOf B ?b q ! c)" if "c < paxos_size ?P" for c
    using that room lin assms(3-5) unfolding binDecoder_simps(4) by (simp add: partOf_def)
  then have "rowSum ?P ?row ?d (\<lambda>c. GF (partOf B ?b r ! c)) =
      rowSum ?P ?row ?d (\<lambda>c. GF (partOf B ?b p ! c) + a * GF (partOf B ?b q ! c))"
    by (rule rowSum_cong [OF valid])
  then show ?thesis by (simp only: rowSum_linear inputVal_sum [OF assms(1,2,3)] inputVal_sum [OF assms(1,2,4)] inputVal_sum [OF assms(1,2,5)])
qed

text \<open>The debug flag plays no role in decoding.\<close>

lemma usable_debug: "baxos_usable (B\<lparr>bDebug := x\<rparr>) = baxos_usable B" "idxTypeBits (B\<lparr>bDebug := x\<rparr>) = idxTypeBits B"
  "baxos_ok ib (B\<lparr>bDebug := x\<rparr>) hh = baxos_ok ib B hh" "baxos_size (B\<lparr>bDebug := x\<rparr>) = baxos_size B"
  by (simp_all add: baxos_usable_def idxTypeBits_def baxos_ok_def baxos_size_def)

lemma inputVal_debug: "inputVal h aesHash (B\<lparr>bDebug := x\<rparr>) hh p = inputVal h aesHash B hh p"
  by (simp add: fun_eq_iff inputVal_def binDecoder_def usable_debug partOf_def itemBin_def modNumBins_def)

lemma putVals_zero: "length vals = length X \<Longrightarrow> \<not> bAddToDecode B \<Longrightarrow> map2 (putVal h B) vals X = X"
  by (intro nth_equalityI) (simp_all add: putVal_def)

text \<open>What the receiver's solve gives.\<close>

lemma Baxos_solve_inputVal:
  assumes B: "baxos_usable B" "baxos_ok (idxTypeBits B) B hh" "\<not> bAddToDecode B"
    and fits: "baxos_fits binSize aesHash B inputs (max 1 numThreads)" "distinct inputs"
    and X: "length X = length inputs" and p: "length p0 = baxos_size B"
  shows "case Baxos_solve binSize s1 s2 aesHash (PxVector_blocks rnd) noBlocks B inputs X p0 (None :: unit option) numThreads of
      Inl e \<Rightarrow> e = RTE_LOC \<or> (\<exists>msg. e = RuntimeError msg) \<or> e = Terminated
    | Inr (p, _) \<Rightarrow> length p = baxos_size B \<and> (\<forall>l<length inputs. inputVal (PxVector_blocks rnd) aesHash B hh p (inputs ! l) = X ! l)"
proof -
  let ?h = "PxVector_blocks rnd"
  have "hAdd ?h (hNew ?h) y = y" for y by (simp add: PxVector_blocks_def PxVector_add_def)
  then have "baxos_outcome ?h aesHash B inputs X (max 1 numThreads)
      (Baxos_solve binSize s1 s2 aesHash ?h noBlocks B inputs X p0 (None :: unit option) numThreads)"
    using assms by (intro pxv.both.Baxos_solve_ok [where dt = "mDt (bParam B)"]) (simp_all add: draws_ok_def)
  note O = this [unfolded baxos_outcome_def]
  show ?thesis
  proof (cases "Baxos_solve binSize s1 s2 aesHash ?h noBlocks B inputs X p0 (None :: unit option) numThreads")
    case (Inl e)
    with O show ?thesis by (auto split: if_splits)
  next
    case (Inr r)
    then obtain p u where r: "Baxos_solve binSize s1 s2 aesHash ?h noBlocks B inputs X p0 (None :: unit option) numThreads = Inr (p, u)"
      by (cases r) auto
    let ?z = "replicate (length inputs) 0"
    have p: "length p = baxos_size B" and d: "Baxos_decode [] aesHash ?h B inputs ?z p 1 = Inr (map2 (putVal ?h B) ?z X)"
      using O unfolding r putVal_def [abs_def] by simp_all
    have "map2 (putVal ?h B) ?z X = map2 (putVal ?h B) ?z (map (inputVal ?h aesHash B hh p) inputs)"
      using d Baxos_decode_inputVal [OF B(1,2) p, of ?z inputs "[]" aesHash rnd 1] by simp
    then have "X = map (inputVal ?h aesHash B hh p) inputs" using X B(3) by (simp add: putVals_zero)
    then show ?thesis unfolding r using p by auto
  qed
qed

end
