(* ===== verification/OprfRun.thy ===== *)
theory OprfRun
  imports OprfAlgebra
begin

section \<open>Runs of the OPRF\<close>

text \<open>
  The invariant of the protocol of \<open>src/volePSI/RsOprf.cpp\<close>: everything the parties compute is
  determined by their two generators and the VOLE, so that each party is, in every phase, in the one
  state of the ideal run, and each queue holds what one side has sent and the other has not read yet.
\<close>

subsection \<open>The ideal run\<close>

record oprf_ideal =
  iWs :: block
  iD :: block
  iSeed :: block
  iWr :: block
  iPaxos :: baxos
  iB :: "block list"
  iA :: "block list"
  iC :: "block list"
  iP :: "block list"

definition cfgBaxos :: "('s, 'h) oprf_env \<Rightarrow> nat \<Rightarrow> block \<Rightarrow> bool \<Rightarrow> baxos" where
  "cfgBaxos E n seed debug =
     (let numBins = (n + oBinSize E - 1) div oBinSize E; items = oItems E numBins n (oSsp E)
      in \<lparr>bNumItems = n, bNumBins = numBins, bItemsPerBin = items, bWeight = 3, bSsp = oSsp E,
           bParam = oParam E items 3 (oSsp E) GF128, bSeed = seed, bDebug = debug, bAddToDecode = False\<rparr>)"

definition oprf_solve :: "('s, 'h) oprf_env \<Rightarrow> block list \<Rightarrow> baxos \<Rightarrow> (block list \<times> unit option) res" where
  "oprf_solve E inputs B = Baxos_solve (oGetBinSize E) (oSched1 E) (oSched2 E) (oAesHash E) pxBlocks noBlocks B inputs
     (map (oAesHash E (oFixedKey E)) inputs) (replicate (baxos_size B) 0) None (oThreads E)"

definition ideal :: "('s, 'h) oprf_env \<Rightarrow> block list \<Rightarrow> 's \<Rightarrow> 's \<Rightarrow> oprf_ideal" where
  "ideal E inputs sp rp =
     (let d = fst (oNext E (snd (oNext E sp))); seed = fst (oNext E rp);
          B = cfgBaxos E (length inputs) seed (oDebug E); v = oVole E d (baxos_size B)
      in \<lparr>iWs = fst (oNext E sp), iD = d, iSeed = seed, iWr = fst (oNext E (snd (oNext E rp))), iPaxos = B,
           iB = fst v, iA = fst (snd v), iC = snd (snd v),
           iP = (case oprf_solve E inputs B of Inl e \<Rightarrow> [] | Inr (p, _) \<Rightarrow> p)\<rparr>)"

text \<open>\<open>a + b = c * d\<close>, on vectors of the size asked for.\<close>

definition vole_ok :: "(block \<Rightarrow> nat \<Rightarrow> block list \<times> block list \<times> block list) \<Rightarrow> bool" where
  "vole_ok vole \<longleftrightarrow> (\<forall>d m. case vole d m of (b, a, c) \<Rightarrow> length b = m \<and> length a = m \<and> length c = m \<and>
     (\<forall>i<m. a ! i XOR b ! i = gf128Mul d (c ! i)))"

definition oprf_ready :: "('s, 'h) oprf_env \<Rightarrow> block list \<Rightarrow> 's \<Rightarrow> 's \<Rightarrow> bool" where
  "oprf_ready E inputs sp rp \<longleftrightarrow> 0 < oBinSize E \<and> distinct inputs \<and> vole_ok (oVole E) \<and>
     (let B = iPaxos (ideal E inputs sp rp) in baxos_usable B \<and> baxos_size B < 2 * oprfChunk \<and>
        baxos_fits (oGetBinSize E) (oAesHash E) B inputs (max 1 (oThreads E)))"

lemma ideal_simps:
  "iPaxos (ideal E inputs sp rp) = cfgBaxos E (length inputs) (iSeed (ideal E inputs sp rp)) (oDebug E)"
  "oVole E (iD (ideal E inputs sp rp)) (baxos_size (iPaxos (ideal E inputs sp rp))) =
     (iB (ideal E inputs sp rp), iA (ideal E inputs sp rp), iC (ideal E inputs sp rp))"
  by (simp_all add: ideal_def Let_def)

lemma cfgBaxos_simps: "baxos_size (cfgBaxos E n s x) = baxos_size (cfgBaxos E n t y)" "(cfgBaxos E n s x)\<lparr>bSeed := t\<rparr> = cfgBaxos E n t x"
  "\<not> bAddToDecode (cfgBaxos E n s x)" "(cfgBaxos E n s x)\<lparr>bDebug := y\<rparr> = cfgBaxos E n s y" "bSeed (cfgBaxos E n s x) = s"
  by (simp_all add: cfgBaxos_def Let_def baxos_size_def)

lemma Baxos_init_cfg: "0 < oBinSize E \<Longrightarrow>
  Baxos_init (oItems E) (oParam E) n (oBinSize E) 3 (oSsp E) GF128 seed debug = Inr (cfgBaxos E n seed debug)"
  by (simp add: Baxos_init_def cfgBaxos_def Let_def)

subsection \<open>Parts of the structure\<close>

lemma xor_loop:
  assumes "k + len \<le> length p" "length p \<le> length c"
  shows "foldr_res (\<lambda>i p. rbind (at p (k + i)) (\<lambda>x. rbind (at c (k + i)) (\<lambda>y. Inr (p[k + i := x XOR y])))) [0..<len] p =
    Inr (take k p @ take len (drop k (map2 (XOR) p c)) @ drop (k + len) p)"
  using assms(1)
proof (induction len)
  case (Suc len)
  let ?m = "map2 (XOR) p c"
  let ?p = "take k p @ take len (drop k ?m) @ drop (k + len) p"
  have l: "length ?p = length p" "length ?m = length p" using Suc.prems assms(2) by auto
  have "?p ! (k + len) = p ! (k + len)" using Suc.prems l(2) by (simp add: nth_append)
  moreover have "?p[k + len := p ! (k + len) XOR c ! (k + len)] = take k p @ take (Suc len) (drop k ?m) @ drop (k + Suc len) p"
  proof -
    have "drop (k + len) p = p ! (k + len) # drop (Suc (k + len)) p" using Suc.prems by (simp add: Cons_nth_drop_Suc)
    moreover have "take (Suc len) (drop k ?m) = take len (drop k ?m) @ [p ! (k + len) XOR c ! (k + len)]"
      using Suc.prems l(2) assms(2) by (simp add: take_Suc_conv_app_nth)
    ultimately show ?thesis using Suc.prems l(2) by (simp add: list_update_append)
  qed
  ultimately show ?case using Suc assms(2) l by (simp add: foldr_res_append)
qed (use assms in simp)

lemma chunkXor_ok:
  assumes n: "length p0 = m" "length c = m" and k: "k = j * M" "k < m" and M: "m \<le> 2 * M" "8 dvd M" "0 < M"
    and mk: "mk = map2 (XOR) p0 c" and len: "len = min (m - k) M"
  shows "chunkXor M k (take k mk @ drop k p0) c = Inr (take (k + len) mk @ drop (k + len) p0)"
proof -
  let ?p = "take k mk @ drop k p0"
  have lm: "length mk = m" using n by (simp add: mk)
  have lp: "length ?p = m" using n k lm by simp
  have idx: "[0..<len div 8 * 8] @ [len div 8 * 8..<(if m - k \<noteq> len then m - k - len else len)] = [0..<len]"
  proof (cases "m - k \<le> M")
    case True
    then have "m - k = len" by (simp add: len)
    then show ?thesis using upt_add_eq_append [of 0 "len div 8 * 8" "len - len div 8 * 8"] by simp
  next
    case False
    then have l: "len = M" "m - k - M \<le> M" using M(1) by (simp_all add: len)
    then have "len div 8 * 8 = len" using M(2) by (simp add: dvd_div_mult_self)
    with l False show ?thesis by simp
  qed
  have kl: "k + len \<le> m" using k(2) by (simp add: len)
  have "drop k (map2 (XOR) ?p c) = drop k mk"
    using n lm k(2) by (intro nth_equalityI) (simp_all add: mk nth_append)
  then have "take k ?p @ take len (drop k (map2 (XOR) ?p c)) @ drop (k + len) ?p = take (k + len) mk @ drop (k + len) p0"
    using n lm k(2) by (simp add: take_add add.commute [of len k])
  then show ?thesis using xor_loop [of k len ?p c] lp kl n(2) idx unfolding chunkXor_def Let_def lp len [symmetric] by simp
qed

lemma sender_chunk_ok:
  assumes S: "osB S = take k BB @ drop k b" "osD S = d" "baxos_size (osPaxos S) = m" and l: "length b = m" "length mk = m" "BB = mulAdd d b mk"
    and k: "k < m" and len: "len = min (m - k) M"
  shows "sender_chunk M k (take len (drop k mk)) S = sender_loop (S\<lparr>osB := take (k + len) BB @ drop (k + len) b\<rparr>) (k + len)"
proof -
  have lB: "length BB = m" using l by (simp add: mulAdd_def)
  have kl: "k + len \<le> m" using k by (simp add: len)
  have "drop k (osB S) = drop k b" using lB k S(1) by simp
  then have "mulAdd d (take len (drop k (osB S))) (take len (drop k mk)) = take len (drop k BB)"
    unfolding l(3) mulAdd_def using l kl by (intro nth_equalityI) simp_all
  moreover have "storeAt k (take len (drop k BB)) (osB S) = take (k + len) BB @ drop (k + len) b"
    using S(1) lB l(1) kl by (simp add: storeAt_def take_add add.commute [of len k])
  moreover have "length (take len (drop k mk)) = len" "\<not> length (osB S) < k + len" using l lB S(1) kl by simp_all
  ultimately show ?thesis unfolding sender_chunk_def Let_def S(2,3) len [symmetric] by simp
qed

subsection \<open>The invariant\<close>

definition iSize :: "oprf_ideal \<Rightarrow> nat" where "iSize I = baxos_size (iPaxos I)"
definition iMask :: "oprf_ideal \<Rightarrow> block list" where "iMask I = map2 (XOR) (iP I) (iC I)"
definition iFinalB :: "oprf_ideal \<Rightarrow> block list" where "iFinalB I = mulAdd (iD I) (iB I) (iMask I)"
definition iRounds :: "oprf_ideal \<Rightarrow> nat" where "iRounds I = (iSize I + oprfChunk - 1) div oprfChunk"
definition iW :: "('s, 'h) oprf_env \<Rightarrow> oprf_ideal \<Rightarrow> block" where "iW E I = (if oMal E then iWr I XOR iWs I else 0)"

definition chunkMsg :: "oprf_ideal \<Rightarrow> nat \<Rightarrow> 'h oprf_msg" where
  "chunkMsg I j = Chunk (take (min (iSize I - j * oprfChunk) oprfChunk) (drop (j * oprfChunk) (iMask I)))"

text \<open>All that the sender and all that the receiver ever sends.\<close>

definition fromS :: "('s, 'h) oprf_env \<Rightarrow> oprf_ideal \<Rightarrow> 'h oprf_msg list" where
  "fromS E I = (if oMal E then [Commit (oRo E (iWs I)), WsMsg (iWs I)] else [])"

definition fromR :: "('s, 'h) oprf_env \<Rightarrow> oprf_ideal \<Rightarrow> 'h oprf_msg list" where
  "fromR E I = SeedMsg (iSeed I) # (if oMal E then [WrMsg (iWr I)] else []) @ map (chunkMsg I) [0..<iRounds I]"

definition malMsg :: "('s, 'h) oprf_env \<Rightarrow> nat" where "malMsg E = (if oMal E then 1 else 0)"

text \<open>How many of them have been sent and read in each phase.\<close>

definition sSent :: "sphase \<Rightarrow> nat" where
  "sSent ph = (case ph of SStart \<Rightarrow> 0 | SSeed \<Rightarrow> 1 | SVole \<Rightarrow> 1 | SWr \<Rightarrow> 1 | _ \<Rightarrow> 2)"

definition sRead :: "('s, 'h) oprf_env \<Rightarrow> oprf_ideal \<Rightarrow> sphase \<Rightarrow> nat" where
  "sRead E I ph = (case ph of SVole \<Rightarrow> 1 | SWr \<Rightarrow> 1 | SRecv k \<Rightarrow> 1 + malMsg E + k div oprfChunk | SDone \<Rightarrow> 1 + malMsg E + iRounds I | _ \<Rightarrow> 0)"

definition rSent :: "('s, 'h) oprf_env \<Rightarrow> oprf_ideal \<Rightarrow> rphase \<Rightarrow> nat" where
  "rSent E I ph = (case ph of RStart \<Rightarrow> 0 | RCommit \<Rightarrow> 0 | RSend k \<Rightarrow> 1 + malMsg E + k div oprfChunk |
     RReveal _ \<Rightarrow> 1 + malMsg E + iRounds I | RDone _ \<Rightarrow> 1 + malMsg E + iRounds I | _ \<Rightarrow> 1)"

definition rRead :: "rphase \<Rightarrow> nat" where
  "rRead ph = (case ph of RStart \<Rightarrow> 0 | RCommit \<Rightarrow> 0 | RDone _ \<Rightarrow> 2 | _ \<Rightarrow> 1)"

definition posOk :: "oprf_ideal \<Rightarrow> nat \<Rightarrow> bool" where
  "posOk I k \<longleftrightarrow> k < iSize I \<and> (\<exists>j. k = j * oprfChunk)"

text \<open>What the receiver decodes and returns.\<close>

definition iOut :: "('s, 'h) oprf_env \<Rightarrow> block list \<Rightarrow> oprf_ideal \<Rightarrow> block list res" where
  "iOut E inputs I = Baxos_decode (oSched3 E) (oAesHash E) pxBlocks (iPaxos I) inputs (replicate (length inputs) 0) (iA I) (oThreads E)"

definition iResult :: "('s, 'h) oprf_env \<Rightarrow> block list \<Rightarrow> oprf_ideal \<Rightarrow> block list \<Rightarrow> block list" where
  "iResult E inputs I out = (if oMal E then map2 (\<lambda>u v. oAesHash E (u XOR (iWs I XOR iWr I)) v) out inputs
     else map (oAesHash E (oFixedKey E)) out)"

definition sGood :: "('s, 'h) oprf_env \<Rightarrow> block list \<Rightarrow> oprf_ideal \<Rightarrow> oprf_sender \<Rightarrow> bool" where
  "sGood E inputs I S \<longleftrightarrow>
     (let rec = (\<lambda>ph B b w. S = \<lparr>osPhase = ph, osPaxos = B, osD = iD I, osB = b, osW = w, osWs = iWs I\<rparr>);
          B = cfgBaxos E (length inputs) (iSeed I) False
      in case osPhase S of
        SStart \<Rightarrow> True
      | SSeed \<Rightarrow> rec SSeed (cfgBaxos E (length inputs) 0 False) [] 0
      | SVole \<Rightarrow> rec SVole B [] 0
      | SWr \<Rightarrow> oMal E \<and> rec SWr B (iB I) 0
      | SRecv k \<Rightarrow> posOk I k \<and> rec (SRecv k) B (take k (iFinalB I) @ drop k (iB I)) (iW E I)
      | SDone \<Rightarrow> rec SDone B (iFinalB I) (iW E I)
      | SFail e \<Rightarrow> False)"

definition rGood :: "('s, 'h) oprf_env \<Rightarrow> block list \<Rightarrow> oprf_ideal \<Rightarrow> 'h oprf_receiver \<Rightarrow> bool" where
  "rGood E inputs I R \<longleftrightarrow>
     (let rec = (\<lambda>ph hws p a c. R = \<lparr>orPhase = ph, orPaxos = iPaxos I, orSeed = iSeed I, orWr = iWr I, orHws = hws, orP = p, orA = a, orC = c\<rparr>);
          hws = (if oMal E then Some (oRo E (iWs I)) else None); solved = (\<exists>u. oprf_solve E inputs (iPaxos I) = Inr (iP I, u))
      in case orPhase R of
        RStart \<Rightarrow> True
      | RCommit \<Rightarrow> oMal E \<and> rec RCommit None [] [] []
      | RVole \<Rightarrow> solved \<and> rec RVole hws (iP I) [] []
      | RSend k \<Rightarrow> solved \<and> posOk I k \<and> rec (RSend k) hws (take k (iMask I) @ drop k (iP I)) (iA I) (iC I)
      | RReveal out \<Rightarrow> solved \<and> oMal E \<and> iOut E inputs I = Inr out \<and> rec (RReveal out) hws (iMask I) (iA I) (iC I)
      | RDone res \<Rightarrow> solved \<and> (\<exists>out. iOut E inputs I = Inr out \<and> res = iResult E inputs I out)
      | RFail e \<Rightarrow> oprf_solve E inputs (iPaxos I) = Inl e)"

definition oprf_inv :: "('s, 'h) oprf_env \<Rightarrow> block list \<Rightarrow> 's \<Rightarrow> 's \<Rightarrow> oprf_ideal \<Rightarrow> ('s, 'h) oprf_net \<Rightarrow> bool" where
  "oprf_inv E inputs sp rp I N \<longleftrightarrow> nSPrng N = sp \<and> nRPrng N = rp \<and> sGood E inputs I (nS N) \<and> rGood E inputs I (nR N) \<and>
     nVoleS N = (if osPhase (nS N) = SStart then None else Some (iD I, iSize I)) \<and>
     nVoleR N = (if orPhase (nR N) \<in> {RStart, RCommit} then None else Some (iSize I)) \<and>
     nToR N = drop (rRead (orPhase (nR N))) (take (sSent (osPhase (nS N))) (fromS E I)) \<and>
     (oMal E \<longrightarrow> rRead (orPhase (nR N)) \<le> sSent (osPhase (nS N))) \<and>
     nToS N = drop (sRead E I (osPhase (nS N))) (take (rSent E I (orPhase (nR N))) (fromR E I)) \<and>
     sRead E I (osPhase (nS N)) \<le> rSent E I (orPhase (nR N))"

lemma oprfChunk_facts: "0 < oprfChunk" "8 dvd oprfChunk"
  by (simp_all add: oprfChunk_def)

lemma iRounds_less: "j < iRounds I \<longleftrightarrow> j * oprfChunk < iSize I"
  unfolding iRounds_def by (rule less_ceil_iff) (rule oprfChunk_facts)

text \<open>The position after position k.\<close>

lemma next_pos:
  assumes "posOk I k" "len = min (iSize I - k) oprfChunk"
  shows "k div oprfChunk < iRounds I" "k = k div oprfChunk * oprfChunk"
    and "k + len < iSize I \<Longrightarrow> posOk I (k + len) \<and> (k + len) div oprfChunk = Suc (k div oprfChunk)"
    and "\<not> k + len < iSize I \<Longrightarrow> k + len = iSize I \<and> iRounds I = Suc (k div oprfChunk)"
proof -
  from assms(1) obtain j where j: "k = j * oprfChunk" "k < iSize I" by (auto simp: posOk_def)
  have d: "k div oprfChunk = j" using j(1) oprfChunk_facts(1) by simp
  show a: "k div oprfChunk < iRounds I" "k = k div oprfChunk * oprfChunk" using j d by (simp_all add: iRounds_less)
  show "posOk I (k + len) \<and> (k + len) div oprfChunk = Suc (k div oprfChunk)" if "k + len < iSize I"
  proof -
    have "len = oprfChunk" using that assms(2) by auto
    then have e: "k + len = Suc j * oprfChunk" using j(1) by simp
    have "(k + len) div oprfChunk = Suc j" unfolding e using oprfChunk_facts(1) by (intro nonzero_mult_div_cancel_right) simp
    moreover have "posOk I (k + len)" unfolding posOk_def using that e by blast
    ultimately show ?thesis using d by simp
  qed
  show "k + len = iSize I \<and> iRounds I = Suc (k div oprfChunk)" if "\<not> k + len < iSize I"
  proof -
    have "\<not> Suc j < iRounds I" using that assms(2) j by (auto simp: iRounds_less)
    with a(1) d have "iRounds I = Suc j" by simp
    moreover have "k + len = iSize I" using that assms(2) j(2) by auto
    ultimately show ?thesis using d by simp
  qed
qed

text \<open>Reading from and adding to a queue.\<close>

lemma queue_read: "drop i (take j xs) = x # q \<Longrightarrow> x = xs ! i \<and> q = drop (Suc i) (take j xs) \<and> i < j \<and> i < length xs"
proof -
  assume a: "drop i (take j xs) = x # q"
  then have "drop i (take j xs) \<noteq> []" by simp
  then have "i < length (take j xs)" unfolding drop_eq_Nil not_le .
  with a show ?thesis using Cons_nth_drop_Suc [of i "take j xs"] by simp
qed

lemma queue_add: "i \<le> j \<Longrightarrow> j < length xs \<Longrightarrow> drop i (take j xs) @ [xs ! j] = drop i (take (Suc j) xs)"
  by (simp add: take_Suc_conv_app_nth)

lemma fromR_nth: "fromR E I ! 0 = SeedMsg (iSeed I)" "oMal E \<Longrightarrow> fromR E I ! 1 = WrMsg (iWr I)"
  "j < iRounds I \<Longrightarrow> fromR E I ! (1 + malMsg E + j) = chunkMsg I j" "length (fromR E I) = 1 + malMsg E + iRounds I"
  by (simp_all add: fromR_def malMsg_def nth_append)

lemma mal_queue: "oMal E \<longrightarrow> i = j \<Longrightarrow> drop i (take x (fromS E I)) = drop j (take x (fromS E I))"
  by (cases "oMal E") (simp_all add: fromS_def)

subsection \<open>Every step keeps the invariant\<close>

lemma ready_facts:
  assumes "oprf_ready E inputs sp rp" "I = ideal E inputs sp rp"
  shows "0 < oBinSize E" "baxos_usable (iPaxos I)" "iSize I < 2 * oprfChunk" "iPaxos I = cfgBaxos E (length inputs) (iSeed I) (oDebug E)"
    and "oVole E (iD I) (iSize I) = (iB I, iA I, iC I)"
    and "length (iB I) = iSize I" "length (iA I) = iSize I" "length (iC I) = iSize I"
    and "\<forall>i<iSize I. iA I ! i XOR iB I ! i = gf128Mul (iD I) (iC I ! i)"
    and "baxos_size (cfgBaxos E (length inputs) s x) = iSize I"
proof -
  show "0 < oBinSize E" "baxos_usable (iPaxos I)" "iSize I < 2 * oprfChunk" using assms by (auto simp: oprf_ready_def Let_def iSize_def)
  show B: "iPaxos I = cfgBaxos E (length inputs) (iSeed I) (oDebug E)" unfolding assms(2) by (rule ideal_simps(1))
  show v: "oVole E (iD I) (iSize I) = (iB I, iA I, iC I)" unfolding assms(2) iSize_def by (rule ideal_simps(2))
  have "vole_ok (oVole E)" using assms(1) by (simp add: oprf_ready_def)
  note vo = this [unfolded vole_ok_def, THEN spec [of _ "iD I"], THEN spec [of _ "iSize I"], unfolded v prod.case]
  show "length (iB I) = iSize I" "length (iA I) = iSize I" "length (iC I) = iSize I"
    "\<forall>i<iSize I. iA I ! i XOR iB I ! i = gf128Mul (iD I) (iC I ! i)"
    using vo by simp_all
  show "baxos_size (cfgBaxos E (length inputs) s x) = iSize I" unfolding iSize_def B by (rule cfgBaxos_simps(1))
qed

lemma solve_ok:
  assumes "oprf_ready E inputs sp rp" "I = ideal E inputs sp rp" "baxos_ok (idxTypeBits (iPaxos I)) (iPaxos I) hh"
  shows "case oprf_solve E inputs (iPaxos I) of
      Inl e \<Rightarrow> e = RTE_LOC \<or> (\<exists>msg. e = RuntimeError msg) \<or> e = Terminated
    | Inr (p, _) \<Rightarrow> p = iP I \<and> length (iP I) = iSize I \<and>
        (\<forall>l<length inputs. inputVal pxBlocks (oAesHash E) (iPaxos I) hh (iP I) (inputs ! l) = oAesHash E (oFixedKey E) (inputs ! l))"
proof -
  note F = ready_facts [OF assms(1,2)]
  have fits: "baxos_fits (oGetBinSize E) (oAesHash E) (iPaxos I) inputs (max 1 (oThreads E))" "distinct inputs"
    using assms(1) by (simp_all add: oprf_ready_def Let_def assms(2))
  have add: "\<not> bAddToDecode (iPaxos I)" unfolding F(4) by (rule cfgBaxos_simps(3))
  have iP: "iP I = (case oprf_solve E inputs (iPaxos I) of Inl e \<Rightarrow> [] | Inr (p, _) \<Rightarrow> p)"
    by (simp add: assms(2) ideal_def Let_def)
  have "case oprf_solve E inputs (iPaxos I) of
      Inl e \<Rightarrow> e = RTE_LOC \<or> (\<exists>msg. e = RuntimeError msg) \<or> e = Terminated
    | Inr (p, _) \<Rightarrow> length p = baxos_size (iPaxos I) \<and>
        (\<forall>l<length inputs. inputVal pxBlocks (oAesHash E) (iPaxos I) hh p (inputs ! l) = map (oAesHash E (oFixedKey E)) inputs ! l)"
    unfolding oprf_solve_def by (rule Baxos_solve_inputVal [OF F(2) assms(3) add fits]) simp_all
  then show ?thesis using iP by (auto simp: iSize_def split: sum.splits)
qed

lemma solved_length:
  assumes "oprf_ready E inputs sp rp" "I = ideal E inputs sp rp" "oprf_solve E inputs (iPaxos I) = Inr (iP I, u)"
  shows "length (iP I) = iSize I"
proof -
  from usable_ok [OF ready_facts(2) [OF assms(1,2)]] obtain hh where "baxos_ok (idxTypeBits (iPaxos I)) (iPaxos I) hh" by blast
  from solve_ok [OF assms(1,2) this] assms(3) show ?thesis by simp
qed

lemma oprf_inv_init: "oprf_inv E inputs sp rp I (oprf_init sp rp)"
  by (simp add: oprf_inv_def oprf_init_def sGood_def rGood_def sSent_def sRead_def rSent_def rRead_def)

lemmas oprf_counts = sSent_def sRead_def rSent_def rRead_def

lemma inv_sBegin:
  assumes R: "oprf_ready E inputs sp rp" "I = ideal E inputs sp rp" and N: "oprf_inv E inputs sp rp I N"
    and ph: "osPhase (nS N) = SStart" and b: "sender_begin E (length inputs) (nSPrng N) = Inr (S, ms)"
  shows "oprf_inv E inputs sp rp I (N\<lparr>nS := S, nToR := nToR N @ ms, nVoleS := Some (osD S, baxos_size (osPaxos S))\<rparr>)"
proof -
  note F = ready_facts [OF R]
  have sp: "nSPrng N = sp" using N by (simp add: oprf_inv_def)
  have I: "iWs I = fst (oNext E sp)" "iD I = fst (oNext E (snd (oNext E sp)))" by (simp_all add: R(2) ideal_def Let_def)
  have S: "S = \<lparr>osPhase = SSeed, osPaxos = cfgBaxos E (length inputs) 0 False, osD = iD I, osB = [], osW = 0, osWs = iWs I\<rparr>"
    "ms = (if oMal E then [Commit (oRo E (iWs I))] else [])"
    using b F(1) unfolding sp by (auto simp: sender_begin_def Baxos_init_cfg I case_prod_beta Let_def)
  have "oMal E \<longrightarrow> rRead (orPhase (nR N)) = 0" using N ph by (simp add: oprf_inv_def sSent_def)
  then show ?thesis using N ph F(10) unfolding S by (auto simp: oprf_inv_def sGood_def oprf_counts fromS_def Let_def)
qed

lemma no_sBeginFail:
  assumes "oprf_ready E inputs sp rp" "sender_begin E (length inputs) x = Inl e"
  shows False
  using assms ready_facts(1) [OF assms(1) refl] by (auto simp: sender_begin_def Baxos_init_cfg case_prod_beta Let_def)

lemma inv_sSeed:
  assumes R: "oprf_ready E inputs sp rp" "I = ideal E inputs sp rp" and N: "oprf_inv E inputs sp rp I N"
    and ph: "osPhase (nS N) = SSeed" and q: "nToS N = SeedMsg seed # q"
  shows "oprf_inv E inputs sp rp I (N\<lparr>nS := (nS N)\<lparr>osPhase := SVole, osPaxos := (osPaxos (nS N))\<lparr>bSeed := seed\<rparr>\<rparr>, nToS := q\<rparr>)"
proof -
  have "drop 0 (take (rSent E I (orPhase (nR N))) (fromR E I)) = SeedMsg seed # q"
    using N ph q by (simp add: oprf_inv_def sRead_def)
  from queue_read [OF this] have Q: "seed = iSeed I" "q = drop 1 (take (rSent E I (orPhase (nR N))) (fromR E I))"
    "0 < rSent E I (orPhase (nR N))" by (simp_all add: fromR_nth)
  have S: "nS N = \<lparr>osPhase = SSeed, osPaxos = cfgBaxos E (length inputs) 0 False, osD = iD I, osB = [], osW = 0, osWs = iWs I\<rparr>"
    using N ph by (auto simp: oprf_inv_def sGood_def Let_def)
  show ?thesis using N ph Q by (simp add: oprf_inv_def sGood_def S oprf_counts Let_def cfgBaxos_simps)
qed

lemma sender_loop_inv:
  assumes R: "oprf_ready E inputs sp rp" "I = ideal E inputs sp rp"
    and k: "posOk I k \<or> k = iSize I"
  shows "let S = sender_loop \<lparr>osPhase = ph, osPaxos = cfgBaxos E (length inputs) (iSeed I) False, osD = iD I,
      osB = take k (iFinalB I) @ drop k (iB I), osW = iW E I, osWs = iWs I\<rparr> k in
    sGood E inputs I S \<and> osPhase S = (if k < iSize I then SRecv k else SDone)"
proof -
  note F = ready_facts [OF R]
  have "length (iFinalB I) \<le> iSize I" using F(6) by (simp add: iFinalB_def mulAdd_def)
  then show ?thesis using k F(6,10) by (auto simp: sender_loop_def sGood_def Let_def posOk_def)
qed

lemma inv_sVole:
  assumes R: "oprf_ready E inputs sp rp" "I = ideal E inputs sp rp" and N: "oprf_inv E inputs sp rp I N"
    and ph: "osPhase (nS N) = SVole" and v: "nVoleS N = Some (d, m)" "oVole E d m = (b, a, c)"
  shows "oprf_inv E inputs sp rp I (N\<lparr>nS := (if oMal E then (nS N)\<lparr>osPhase := SWr, osB := b\<rparr> else sender_loop ((nS N)\<lparr>osB := b\<rparr>) 0)\<rparr>)"
proof -
  note F = ready_facts [OF R]
  have S: "nS N = \<lparr>osPhase = SVole, osPaxos = cfgBaxos E (length inputs) (iSeed I) False, osD = iD I, osB = [], osW = 0, osWs = iWs I\<rparr>"
    using N ph by (auto simp: oprf_inv_def sGood_def Let_def)
  have "d = iD I" "m = iSize I" using N ph v(1) by (auto simp: oprf_inv_def)
  then have b: "b = iB I" using v(2) F(5) by simp
  show ?thesis
  proof (cases "oMal E")
    case True
    then show ?thesis using N ph by (simp add: oprf_inv_def sGood_def S b oprf_counts Let_def)
  next
    case False
    have k: "posOk I 0 \<or> 0 = iSize I" by (auto simp: posOk_def)
    let ?S = "sender_loop ((nS N)\<lparr>osB := b\<rparr>) 0"
    have "?S = sender_loop \<lparr>osPhase = SVole, osPaxos = cfgBaxos E (length inputs) (iSeed I) False, osD = iD I,
        osB = take 0 (iFinalB I) @ drop 0 (iB I), osW = iW E I, osWs = iWs I\<rparr> 0"
      using False by (simp add: S b iW_def)
    then have L: "sGood E inputs I ?S" "osPhase ?S = (if 0 < iSize I then SRecv 0 else SDone)"
      using sender_loop_inv [OF R k, of SVole] by (simp_all only: Let_def)
    have z: "iSize I = 0 \<Longrightarrow> iRounds I = 0" using iRounds_less [of 0 I] by simp
    show ?thesis using N ph L False z by (auto simp: oprf_inv_def oprf_counts malMsg_def fromS_def)
  qed
qed

lemma inv_sWr:
  assumes R: "oprf_ready E inputs sp rp" "I = ideal E inputs sp rp" and N: "oprf_inv E inputs sp rp I N"
    and ph: "osPhase (nS N) = SWr" and q: "nToS N = WrMsg w # q"
  shows "oprf_inv E inputs sp rp I (N\<lparr>nS := sender_loop ((nS N)\<lparr>osW := w XOR osWs (nS N)\<rparr>) 0,
    nToR := nToR N @ [WsMsg (osWs (nS N))], nToS := q\<rparr>)"
proof -
  note F = ready_facts [OF R]
  have S: "nS N = \<lparr>osPhase = SWr, osPaxos = cfgBaxos E (length inputs) (iSeed I) False, osD = iD I, osB = iB I, osW = 0, osWs = iWs I\<rparr>"
    and mal: "oMal E" using N ph by (auto simp: oprf_inv_def sGood_def Let_def)
  have "drop 1 (take (rSent E I (orPhase (nR N))) (fromR E I)) = WrMsg w # q" using N ph q by (simp add: oprf_inv_def sRead_def)
  note q0 = queue_read [OF this]
  have "WrMsg w = fromR E I ! 1" using q0 by (rule conjunct1)
  then have Q: "w = iWr I" "q = drop 2 (take (rSent E I (orPhase (nR N))) (fromR E I))" "1 < rSent E I (orPhase (nR N))"
    using q0 unfolding fromR_nth(2) [OF mal] by (simp_all add: numeral_2_eq_2)
  have k: "posOk I 0 \<or> 0 = iSize I" by (auto simp: posOk_def)
  let ?S = "sender_loop ((nS N)\<lparr>osW := w XOR osWs (nS N)\<rparr>) 0"
  have "?S = sender_loop \<lparr>osPhase = SWr, osPaxos = cfgBaxos E (length inputs) (iSeed I) False, osD = iD I,
      osB = take 0 (iFinalB I) @ drop 0 (iB I), osW = iW E I, osWs = iWs I\<rparr> 0"
    using mal by (simp add: S Q(1) iW_def)
  then have L: "sGood E inputs I ?S" "osPhase ?S = (if 0 < iSize I then SRecv 0 else SDone)"
    using sender_loop_inv [OF R k, of SWr] by (simp_all only: Let_def)
  have z: "iSize I = 0 \<Longrightarrow> iRounds I = 0" using iRounds_less [of 0 I] by simp
  have r: "rRead (orPhase (nR N)) \<le> 1" using N ph mal by (simp add: oprf_inv_def sSent_def)
  have nr: "nToR N = drop (rRead (orPhase (nR N))) (take 1 (fromS E I))" using N ph by (simp add: oprf_inv_def sSent_def)
  have "nToR N @ [WsMsg (osWs (nS N))] = drop (rRead (orPhase (nR N))) (take 2 (fromS E I))"
    using queue_add [OF r, of "fromS E I"] mal unfolding nr by (simp add: fromS_def S numeral_2_eq_2)
  moreover have "sSent (osPhase ?S) = 2" "sRead E I (osPhase ?S) = 2" "osPhase ?S \<noteq> SStart"
    unfolding L(2) using mal z by (simp_all add: sSent_def sRead_def malMsg_def)
  ultimately show ?thesis using N ph L(1) Q r by (simp add: oprf_inv_def)
qed

lemma inv_sChunk:
  assumes R: "oprf_ready E inputs sp rp" "I = ideal E inputs sp rp" and N: "oprf_inv E inputs sp rp I N"
    and ph: "osPhase (nS N) = SRecv k" and q: "nToS N = Chunk msg # q" and lm: "length (iMask I) = iSize I"
  shows "oprf_inv E inputs sp rp I (N\<lparr>nS := sender_chunk oprfChunk k msg (nS N), nToS := q\<rparr>)"
proof -
  note F = ready_facts [OF R]
  have S: "nS N = \<lparr>osPhase = SRecv k, osPaxos = cfgBaxos E (length inputs) (iSeed I) False, osD = iD I,
      osB = take k (iFinalB I) @ drop k (iB I), osW = iW E I, osWs = iWs I\<rparr>"
    and k: "posOk I k" using N ph by (auto simp: oprf_inv_def sGood_def Let_def)
  define len where "len = min (iSize I - k) oprfChunk"
  note P = next_pos [OF k len_def]
  have kl: "k < iSize I" using k by (simp add: posOk_def)
  have "drop (1 + malMsg E + k div oprfChunk) (take (rSent E I (orPhase (nR N))) (fromR E I)) = Chunk msg # q"
    using N ph q by (simp add: oprf_inv_def sRead_def)
  note q0 = queue_read [OF this]
  have "fromR E I ! (1 + malMsg E + k div oprfChunk) = Chunk msg" using q0 by (rule conjunct1 [THEN sym])
  then have msg: "msg = take len (drop k (iMask I))"
    unfolding fromR_nth(3) [OF P(1)] chunkMsg_def P(2) [symmetric] len_def by simp
  have Q: "q = drop (Suc (1 + malMsg E + k div oprfChunk)) (take (rSent E I (orPhase (nR N))) (fromR E I))"
      "1 + malMsg E + k div oprfChunk < rSent E I (orPhase (nR N))" using q0 by blast+
  have "sender_chunk oprfChunk k msg (nS N) = sender_loop ((nS N)\<lparr>osB := take (k + len) (iFinalB I) @ drop (k + len) (iB I)\<rparr>) (k + len)"
    unfolding msg by (rule sender_chunk_ok [of _ _ _ _ "iD I" "iSize I"]) (simp_all add: S F(6,10) lm iFinalB_def kl len_def)
  also have "\<dots> = sender_loop \<lparr>osPhase = SRecv k, osPaxos = cfgBaxos E (length inputs) (iSeed I) False, osD = iD I,
      osB = take (k + len) (iFinalB I) @ drop (k + len) (iB I), osW = iW E I, osWs = iWs I\<rparr> (k + len)" by (simp add: S)
  finally have eq: "sender_chunk oprfChunk k msg (nS N) = \<dots>" .
  have k2: "posOk I (k + len) \<or> k + len = iSize I" using P(3,4) by (cases "k + len < iSize I") simp_all
  have L: "sGood E inputs I (sender_chunk oprfChunk k msg (nS N))"
    "osPhase (sender_chunk oprfChunk k msg (nS N)) = (if k + len < iSize I then SRecv (k + len) else SDone)"
    using sender_loop_inv [OF R k2, of "SRecv k"] unfolding eq by (simp_all only: Let_def)
  show ?thesis
  proof (cases "k + len < iSize I")
    case True
    with P(3) L N ph Q show ?thesis by (auto simp: oprf_inv_def oprf_counts)
  next
    case False
    with P(4) L N ph Q show ?thesis by (auto simp: oprf_inv_def oprf_counts)
  qed
qed

lemma inv_continue:
  assumes R: "oprf_ready E inputs sp rp" "I = ideal E inputs sp rp" and N: "oprf_inv E inputs sp rp I N"
    and ph: "orPhase (nR N) = RStart \<or> orPhase (nR N) = RCommit"
    and Rc: "Rc = \<lparr>orPhase = RCommit, orPaxos = iPaxos I, orSeed = iSeed I, orWr = iWr I,
      orHws = (if oMal E then Some (oRo E (iWs I)) else None), orP = [], orA = [], orC = []\<rparr>"
    and q: "q = drop 1 (take (sSent (osPhase (nS N))) (fromS E I))" "oMal E \<longrightarrow> 1 \<le> sSent (osPhase (nS N))"
  shows "oprf_inv E inputs sp rp I (receiver_continue E inputs Rc (N\<lparr>nToR := q\<rparr>))"
proof -
  have c: "rRead (orPhase (nR N)) = 0" "rSent E I (orPhase (nR N)) = 0" using ph by (auto simp: rRead_def rSent_def)
  then have s: "sRead E I (osPhase (nS N)) = 0" "nToS N = []" using N by (simp_all add: oprf_inv_def)
  let ?R = "receiver_solve E inputs Rc"
  have iP: "iP I = (case oprf_solve E inputs (iPaxos I) of Inl e \<Rightarrow> [] | Inr (p, _) \<Rightarrow> p)" by (simp add: R(2) ideal_def Let_def)
  have eq: "?R = (case oprf_solve E inputs (iPaxos I) of Inl e \<Rightarrow> Rc\<lparr>orPhase := RFail e\<rparr> | Inr (p, _) \<Rightarrow> Rc\<lparr>orPhase := RVole, orP := p\<rparr>)"
    using arg_cong [OF Rc, of orPaxos] by (simp add: receiver_solve_def oprf_solve_def Let_def)
  have R2: "rGood E inputs I ?R \<and> (orPhase ?R = RVole \<or> (\<exists>e. orPhase ?R = RFail e))"
    unfolding eq using iP by (auto simp: rGood_def Rc Let_def split: sum.splits)
  then have "rRead (orPhase ?R) = 1" "rSent E I (orPhase ?R) = 1" "orPhase ?R \<notin> {RStart, RCommit}"
    by (auto simp: rRead_def rSent_def)
  moreover have "take 1 (fromR E I) = [SeedMsg (iSeed I)]" by (simp add: fromR_def)
  moreover have "orSeed Rc = iSeed I" "orPaxos Rc = iPaxos I" by (simp_all add: Rc)
  ultimately show ?thesis using N R2 q s unfolding receiver_continue_def
    by (simp add: oprf_inv_def iSize_def)
qed

lemma receiver_begin_ok:
  assumes R: "oprf_ready E inputs sp rp" "I = ideal E inputs sp rp"
  shows "receiver_begin E inputs (length inputs) rp = Inr \<lparr>orPhase = RCommit, orPaxos = iPaxos I, orSeed = iSeed I, orWr = iWr I,
    orHws = None, orP = [], orA = [], orC = []\<rparr>"
proof -
  have I: "iSeed I = fst (oNext E rp)" "iWr I = fst (oNext E (snd (oNext E rp)))" by (simp_all add: R(2) ideal_def Let_def)
  show ?thesis using ready_facts(1,4) [OF R]
    by (simp add: receiver_begin_def Baxos_init_cfg I case_prod_beta Let_def)
qed

lemma inv_rBegin:
  assumes R: "oprf_ready E inputs sp rp" "I = ideal E inputs sp rp" and N: "oprf_inv E inputs sp rp I N"
    and ph: "orPhase (nR N) = RStart" and b: "receiver_begin E inputs (length inputs) (nRPrng N) = Inr Rc"
  shows "oprf_inv E inputs sp rp I (if oMal E then N\<lparr>nR := Rc\<rparr> else receiver_continue E inputs Rc N)"
proof (cases "oMal E")
  case True
  have "nRPrng N = rp" using N by (simp add: oprf_inv_def)
  with b receiver_begin_ok [OF R] have Rc: "Rc = \<lparr>orPhase = RCommit, orPaxos = iPaxos I, orSeed = iSeed I, orWr = iWr I,
    orHws = None, orP = [], orA = [], orC = []\<rparr>" by simp
  show ?thesis using True N ph by (auto simp: oprf_inv_def rGood_def Rc rRead_def rSent_def Let_def)
next
  case False
  have "nRPrng N = rp" using N by (simp add: oprf_inv_def)
  with b receiver_begin_ok [OF R] False have Rc: "Rc = \<lparr>orPhase = RCommit, orPaxos = iPaxos I, orSeed = iSeed I, orWr = iWr I,
    orHws = (if oMal E then Some (oRo E (iWs I)) else None), orP = [], orA = [], orC = []\<rparr>" by simp
  have "nToR N = []" using N False by (simp add: oprf_inv_def fromS_def)
  then have "N\<lparr>nToR := []\<rparr> = N" by simp
  with inv_continue [OF R N _ Rc, of "[]"] ph False show ?thesis by (simp add: fromS_def)
qed

lemma inv_rCommit:
  assumes R: "oprf_ready E inputs sp rp" "I = ideal E inputs sp rp" and N: "oprf_inv E inputs sp rp I N"
    and ph: "orPhase (nR N) = RCommit" and q: "nToR N = Commit hws # q"
  shows "oprf_inv E inputs sp rp I (receiver_continue E inputs ((nR N)\<lparr>orHws := Some hws\<rparr>) (N\<lparr>nToR := q\<rparr>))"
proof -
  have mal: "oMal E" and Rc: "nR N = \<lparr>orPhase = RCommit, orPaxos = iPaxos I, orSeed = iSeed I, orWr = iWr I,
      orHws = None, orP = [], orA = [], orC = []\<rparr>" using N ph by (auto simp: oprf_inv_def rGood_def Let_def)
  have "drop 0 (take (sSent (osPhase (nS N))) (fromS E I)) = Commit hws # q" using N ph q by (simp add: oprf_inv_def rRead_def)
  from queue_read [OF this] mal have Q: "hws = oRo E (iWs I)" "q = drop 1 (take (sSent (osPhase (nS N))) (fromS E I))"
    "1 \<le> sSent (osPhase (nS N))" by (simp_all add: fromS_def)
  show ?thesis by (rule inv_continue [OF R N]) (use ph Q mal in \<open>simp_all add: Rc\<close>)
qed

text \<open>Decoding always gives as many blocks as there are inputs.\<close>

lemma iOut_ok:
  assumes R: "oprf_ready E inputs sp rp" "I = ideal E inputs sp rp" and hh: "baxos_ok (idxTypeBits (iPaxos I)) (iPaxos I) hh"
  shows "iOut E inputs I = Inr (map (inputVal pxBlocks (oAesHash E) (iPaxos I) hh (iA I)) inputs)"
proof -
  note F = ready_facts [OF R]
  have "\<not> bAddToDecode (iPaxos I)" unfolding F(4) by (rule cfgBaxos_simps(3))
  then show ?thesis using Baxos_decode_inputVal [OF F(2) hh, of "iA I" "replicate (length inputs) 0" inputs] F(7)
    by (simp add: iOut_def iSize_def putVals_zero)
qed

lemma iOut_total:
  assumes R: "oprf_ready E inputs sp rp" "I = ideal E inputs sp rp"
  shows "\<exists>out. iOut E inputs I = Inr out \<and> length out = length inputs"
proof -
  from usable_ok [OF ready_facts(2) [OF R]] obtain hh where "baxos_ok (idxTypeBits (iPaxos I)) (iPaxos I) hh" by blast
  from iOut_ok [OF R this] show ?thesis by simp
qed

abbreviation iRcv :: "('s, 'h) oprf_env \<Rightarrow> oprf_ideal \<Rightarrow> rphase \<Rightarrow> block list \<Rightarrow> 'h oprf_receiver" where
  "iRcv E I ph p \<equiv> \<lparr>orPhase = ph, orPaxos = iPaxos I, orSeed = iSeed I, orWr = iWr I,
     orHws = (if oMal E then Some (oRo E (iWs I)) else None), orP = p, orA = iA I, orC = iC I\<rparr>"

lemma receiver_loop_inv:
  assumes R: "oprf_ready E inputs sp rp" "I = ideal E inputs sp rp" and sol: "oprf_solve E inputs (iPaxos I) = Inr (iP I, u)"
    and k: "posOk I k \<or> k = iSize I" and Rk: "Rk = receiver_loop E inputs (iRcv E I ph (take k (iMask I) @ drop k (iP I))) k"
  shows "rGood E inputs I Rk" "rSent E I (orPhase Rk) = 1 + malMsg E + (if k < iSize I then k div oprfChunk else iRounds I)"
    and "oMal E \<longrightarrow> rRead (orPhase Rk) = 1" "orPhase Rk \<notin> {RStart, RCommit}"
proof -
  note F = ready_facts [OF R]
  have lp: "length (iP I) = iSize I" by (rule solved_length [OF R sol])
  then have lm: "length (iMask I) = iSize I" using F(8) by (simp add: iMask_def)
  from iOut_total [OF R] obtain out where out: "iOut E inputs I = Inr out" by blast
  have eq: "Rk = (if k < iSize I then iRcv E I (RSend k) (take k (iMask I) @ drop k (iP I))
      else iRcv E I (if oMal E then RReveal out else RDone (map (oAesHash E (oFixedKey E)) out)) (iMask I))"
    using k lp lm F(8) out [unfolded iOut_def] unfolding Rk
    by (auto simp: receiver_loop_def receiver_decode_def posOk_def)
  have mal: "malMsg E = (if oMal E then 1 else 0)" by (rule malMsg_def)
  show "rGood E inputs I Rk" unfolding eq using sol k out by (auto simp: rGood_def iResult_def)
  show "rSent E I (orPhase Rk) = 1 + malMsg E + (if k < iSize I then k div oprfChunk else iRounds I)"
    "oMal E \<longrightarrow> rRead (orPhase Rk) = 1" "orPhase Rk \<notin> {RStart, RCommit}"
    unfolding eq by (auto simp: rSent_def rRead_def)
qed

lemma inv_rVole:
  assumes R: "oprf_ready E inputs sp rp" "I = ideal E inputs sp rp" and N: "oprf_inv E inputs sp rp I N"
    and ph: "orPhase (nR N) = RVole" and v: "nVoleR N = Some m" "nVoleS N = Some (d, m)" "oVole E d m = (b, a, c)"
  shows "oprf_inv E inputs sp rp I (N\<lparr>nR := receiver_loop E inputs ((nR N)\<lparr>orA := a, orC := c\<rparr>) 0,
    nToS := nToS N @ (if oMal E then [WrMsg (orWr (nR N))] else [])\<rparr>)"
proof -
  note F = ready_facts [OF R]
  have S: "nR N = \<lparr>orPhase = RVole, orPaxos = iPaxos I, orSeed = iSeed I, orWr = iWr I,
      orHws = (if oMal E then Some (oRo E (iWs I)) else None), orP = iP I, orA = [], orC = []\<rparr>"
    and "\<exists>u. oprf_solve E inputs (iPaxos I) = Inr (iP I, u)"
    using N ph by (auto simp: oprf_inv_def rGood_def Let_def)
  then obtain u where sol: "oprf_solve E inputs (iPaxos I) = Inr (iP I, u)" by blast
  have "d = iD I" "m = iSize I" using N ph v(1,2) by (auto simp: oprf_inv_def split: if_splits)
  then have ac: "a = iA I" "c = iC I" using v(3) F(5) by simp_all
  let ?R = "receiver_loop E inputs ((nR N)\<lparr>orA := a, orC := c\<rparr>) 0"
  have k: "posOk I 0 \<or> 0 = iSize I" by (auto simp: posOk_def)
  have "?R = receiver_loop E inputs (iRcv E I RVole (take 0 (iMask I) @ drop 0 (iP I))) 0" by (simp add: S ac)
  note L = receiver_loop_inv [OF R sol k this]
  have z: "iSize I = 0 \<Longrightarrow> iRounds I = 0" using iRounds_less [of 0 I] by simp
  then have sent: "rSent E I (orPhase ?R) = 1 + malMsg E" using L(2) by (simp split: if_splits)
  let ?sr = "sRead E I (osPhase (nS N))"
  have sr: "?sr \<le> 1" "nToS N = drop ?sr (take 1 (fromR E I))" using N ph by (simp_all add: oprf_inv_def rSent_def)
  have "nToS N @ (if oMal E then [WrMsg (orWr (nR N))] else []) = drop ?sr (take (1 + malMsg E) (fromR E I))"
  proof (cases "oMal E")
    case True
    have "[WrMsg (orWr (nR N))] = [fromR E I ! 1]" unfolding fromR_nth(2) [OF True] by (simp add: S)
    then show ?thesis using queue_add [OF sr(1), of "fromR E I"] True sr(2) by (simp add: malMsg_def fromR_nth(4))
  qed (use sr(2) in \<open>simp add: malMsg_def\<close>)
  moreover have "rRead (orPhase (nR N)) = 1" by (simp add: ph rRead_def)
  ultimately show ?thesis using N ph L(1,3,4) sent sr(1) mal_queue [OF L(3)] unfolding oprf_inv_def by simp
qed

lemma inv_rChunk:
  assumes R: "oprf_ready E inputs sp rp" "I = ideal E inputs sp rp" and N: "oprf_inv E inputs sp rp I N"
    and ph: "orPhase (nR N) = RSend k" and c: "receiver_chunk oprfChunk E inputs (nR N) k = (Rk, ms)"
  shows "oprf_inv E inputs sp rp I (N\<lparr>nR := Rk, nToS := nToS N @ ms\<rparr>)"
proof -
  note F = ready_facts [OF R]
  have S: "nR N = iRcv E I (RSend k) (take k (iMask I) @ drop k (iP I))" and k: "posOk I k"
    and "\<exists>u. oprf_solve E inputs (iPaxos I) = Inr (iP I, u)"
    using N ph by (auto simp: oprf_inv_def rGood_def Let_def)
  then obtain u where sol: "oprf_solve E inputs (iPaxos I) = Inr (iP I, u)" by blast
  have lp: "length (iP I) = iSize I" by (rule solved_length [OF R sol])
  then have lm: "length (iMask I) = iSize I" using F(8) by (simp add: iMask_def)
  define len where "len = min (iSize I - k) oprfChunk"
  note P = next_pos [OF k len_def]
  have kl: "k < iSize I" using k by (simp add: posOk_def)
  have kl2: "k + len \<le> iSize I" using kl by (simp add: len_def)
  have rest: "\<not> (iSize I - k - len = len \<and> iSize I - k - len \<noteq> 0)" using F(3) unfolding len_def by (cases "iSize I - k \<le> oprfChunk") auto
  have X: "chunkXor oprfChunk k (take k (iMask I) @ drop k (iP I)) (iC I) = Inr (take (k + len) (iMask I) @ drop (k + len) (iP I))"
    using chunkXor_ok [OF lp F(8) P(2) kl less_imp_le [OF F(3)] oprfChunk_facts(2,1) iMask_def len_def] .
  have "receiver_chunk oprfChunk E inputs (nR N) k =
      (receiver_loop E inputs (iRcv E I (RSend k) (take (k + len) (iMask I) @ drop (k + len) (iP I))) (k + len), [chunkMsg I (k div oprfChunk)])"
    using X lp lm kl kl2 rest by (auto simp: receiver_chunk_def S Let_def chunkMsg_def P(2) [symmetric] len_def [symmetric] min_absorb2 drop_take)
  then have eq: "Rk = receiver_loop E inputs (iRcv E I (RSend k) (take (k + len) (iMask I) @ drop (k + len) (iP I))) (k + len)"
    "ms = [chunkMsg I (k div oprfChunk)]" using c by simp_all
  have k2: "posOk I (k + len) \<or> k + len = iSize I" using P(3,4) by (cases "k + len < iSize I") simp_all
  note L = receiver_loop_inv [OF R sol k2 eq(1)]
  let ?j = "1 + malMsg E + k div oprfChunk" and ?sr = "sRead E I (osPhase (nS N))"
  have sent: "rSent E I (orPhase Rk) = Suc ?j" using L(2) P(3,4) by (simp split: if_splits)
  have sr: "?sr \<le> ?j" "nToS N = drop ?sr (take ?j (fromR E I))" using N ph by (simp_all add: oprf_inv_def rSent_def)
  have "?j < length (fromR E I)" using P(1) by (simp add: fromR_nth(4))
  from queue_add [OF sr(1) this] have q: "nToS N @ ms = drop ?sr (take (Suc ?j) (fromR E I))"
    unfolding sr(2) eq(2) fromR_nth(3) [OF P(1)] .
  have "rRead (orPhase (nR N)) = 1" by (simp add: ph rRead_def)
  then show ?thesis using N ph L(1,3,4) sr(1) mal_queue [OF L(3)] q unfolding oprf_inv_def by (simp add: sent)
qed

lemma inv_rReveal:
  assumes R: "oprf_ready E inputs sp rp" "I = ideal E inputs sp rp" and N: "oprf_inv E inputs sp rp I N"
    and ph: "orPhase (nR N) = RReveal out" and q: "nToR N = WsMsg ws # q"
  shows "oprf_inv E inputs sp rp I (N\<lparr>nR := receiver_finish E inputs out ws (nR N), nToR := q\<rparr>)"
proof -
  have S: "nR N = iRcv E I (RReveal out) (iMask I)" and mal: "oMal E" and out: "iOut E inputs I = Inr out"
    and sol: "\<exists>u. oprf_solve E inputs (iPaxos I) = Inr (iP I, u)"
    using N ph by (auto simp: oprf_inv_def rGood_def Let_def)
  have "drop 1 (take (sSent (osPhase (nS N))) (fromS E I)) = WsMsg ws # q" using N ph q by (simp add: oprf_inv_def rRead_def)
  from queue_read [OF this] have Q: "ws = iWs I" "q = drop 2 (take (sSent (osPhase (nS N))) (fromS E I))"
    "2 \<le> sSent (osPhase (nS N))" using mal by (simp_all add: fromS_def numeral_2_eq_2)
  have f: "receiver_finish E inputs out ws (nR N) = iRcv E I (RDone (iResult E inputs I out)) (iMask I)"
    using mal by (simp add: receiver_finish_def S Q(1) iResult_def)
  show ?thesis using N ph Q mal out sol unfolding f
    by (auto simp: oprf_inv_def rGood_def rRead_def rSent_def)
qed

end
