(* ===== verification/OprfProps.thy ===== *)
theory OprfProps
  imports OprfRun
begin

section \<open>Properties of the OPRF\<close>

text \<open>
  What runs of the protocol of \<open>src/volePSI/RsOprf.cpp\<close> compute, that they get somewhere, and that they end;
  and what happens to a structure that is too large for two parts.
\<close>

subsection \<open>Reachable states\<close>

lemma inv_solved:
  assumes "oprf_inv E inputs sp rp I N" "1 < rSent E I (orPhase (nR N)) \<or> (\<exists>out. orPhase (nR N) = RDone out)"
  shows "\<exists>u. oprf_solve E inputs (iPaxos I) = Inr (iP I, u)"
  using assms by (cases "orPhase (nR N)") (auto simp: oprf_inv_def rGood_def rSent_def Let_def)

lemma step_inv:
  assumes R: "oprf_ready E inputs sp rp" "I = ideal E inputs sp rp" and N: "oprf_inv E inputs sp rp I N"
    and step: "oprf_step E (length inputs) inputs (length inputs) N N'"
  shows "oprf_inv E inputs sp rp I N'"
  using step
proof cases
  case (sBeginFail e)
  then show ?thesis using no_sBeginFail [OF R(1)] by blast
next
  case (rBeginFail e)
  then show ?thesis using receiver_begin_ok [OF R] N by (simp add: oprf_inv_def)
next
  case (sChunk k msg q)
  have "nToS N \<noteq> []" using sChunk(3) by simp
  then have "sRead E I (SRecv k) < rSent E I (orPhase (nR N))" using N sChunk(2) by (auto simp: oprf_inv_def)
  then have "1 < rSent E I (orPhase (nR N))" by (simp add: sRead_def)
  with inv_solved [OF N] obtain u where "oprf_solve E inputs (iPaxos I) = Inr (iP I, u)" by blast
  from solved_length [OF R this] have "length (iMask I) = iSize I" using ready_facts(8) [OF R] by (simp add: iMask_def)
  then show ?thesis unfolding sChunk(1) by (rule inv_sChunk [OF R N sChunk(2,3)])
next
  case (sBegin S ms)
  show ?thesis unfolding sBegin(1) by (rule inv_sBegin [OF R N sBegin(2,3)])
next
  case (sSeed seed q)
  show ?thesis unfolding sSeed(1) by (rule inv_sSeed [OF R N sSeed(2,3)])
next
  case (sVole d m b a c)
  show ?thesis unfolding sVole(1) by (rule inv_sVole [OF R N sVole(2,3,5)])
next
  case (sWr w q)
  show ?thesis unfolding sWr(1) by (rule inv_sWr [OF R N sWr(2,3)])
next
  case (rBegin Rc)
  show ?thesis unfolding rBegin(1) by (rule inv_rBegin [OF R N rBegin(2,3)])
next
  case (rCommit hws q)
  show ?thesis unfolding rCommit(1) by (rule inv_rCommit [OF R N rCommit(2,3)])
next
  case (rVole d m b a c)
  show ?thesis unfolding rVole(1) by (rule inv_rVole [OF R N rVole(2,4,3,5)])
next
  case (rChunk k Rc ms)
  show ?thesis unfolding rChunk(1) by (rule inv_rChunk [OF R N rChunk(2,3)])
next
  case (rReveal out ws q)
  show ?thesis unfolding rReveal(1) by (rule inv_rReveal [OF R N rReveal(2,3)])
qed

lemma reach_inv:
  assumes R: "oprf_ready E inputs sp rp" "I = ideal E inputs sp rp"
    and "oprf_reach E (length inputs) inputs (length inputs) (oprf_init sp rp) N"
  shows "oprf_inv E inputs sp rp I N"
  using assms(3)
proof induction
  case (reach_step N N')
  then show ?case using step_inv [OF R] by blast
qed (rule oprf_inv_init)

subsection \<open>Every step makes progress\<close>

definition sRank :: "oprf_ideal \<Rightarrow> sphase \<Rightarrow> nat" where
  "sRank I ph = (case ph of SStart \<Rightarrow> iRounds I + 4 | SSeed \<Rightarrow> iRounds I + 3 | SVole \<Rightarrow> iRounds I + 2 | SWr \<Rightarrow> iRounds I + 1 |
     SRecv k \<Rightarrow> iRounds I - k div oprfChunk | _ \<Rightarrow> 0)"

definition rRank :: "oprf_ideal \<Rightarrow> rphase \<Rightarrow> nat" where
  "rRank I ph = (case ph of RStart \<Rightarrow> iRounds I + 4 | RCommit \<Rightarrow> iRounds I + 3 | RVole \<Rightarrow> iRounds I + 2 |
     RSend k \<Rightarrow> iRounds I - k div oprfChunk + 1 | RReveal _ \<Rightarrow> 1 | _ \<Rightarrow> 0)"

definition oprf_rank :: "oprf_ideal \<Rightarrow> ('s, 'h) oprf_net \<Rightarrow> nat" where
  "oprf_rank I N = sRank I (osPhase (nS N)) + rRank I (orPhase (nR N))"

lemma sender_loop_rank: "sRank I (osPhase (sender_loop S 0)) \<le> iRounds I"
  by (simp add: sender_loop_def sRank_def)

lemma sender_chunk_rank:
  assumes k: "posOk I k" and s: "baxos_size (osPaxos S) = iSize I"
  shows "sRank I (osPhase (sender_chunk oprfChunk k msg S)) < sRank I (SRecv k)"
proof -
  note P = next_pos [OF k refl]
  show ?thesis using P(1,3) by (auto simp: sender_chunk_def sender_loop_def sRank_def s Let_def)
qed

lemma receiver_decode_rank: "rRank I (orPhase (receiver_decode E inputs Rc)) \<le> 1"
  by (simp add: receiver_decode_def rRank_def split: sum.splits)

lemma receiver_loop_rank: "rRank I (orPhase (receiver_loop E inputs Rc 0)) \<le> iRounds I + 1"
  using receiver_decode_rank [of I E inputs Rc] by (simp add: receiver_loop_def) (simp add: rRank_def)

lemma receiver_chunk_rank:
  assumes k: "posOk I k" and s: "length (orP Rc) = iSize I" "length (orC Rc) = iSize I" and c: "receiver_chunk oprfChunk E inputs Rc k = (R', ms)"
  shows "rRank I (orPhase R') < rRank I (RSend k)"
proof -
  note P = next_pos [OF k refl]
  have d: "rRank I (orPhase (receiver_decode E inputs Q)) < rRank I (RSend k)" for Q
    using receiver_decode_rank [of I E inputs Q] P(1) by (simp add: rRank_def)
  have z: "rRank I (RFail e) < rRank I (RSend k)" for e by (simp add: rRank_def)
  have "rRank I (RSend (k + min (iSize I - k) oprfChunk)) < rRank I (RSend k)" if "k + min (iSize I - k) oprfChunk < iSize I"
    using P(1) P(3) [OF that] by (simp add: rRank_def)
  then show ?thesis using c d z s by (auto simp: receiver_chunk_def receiver_loop_def Let_def split: sum.splits if_splits)
qed

lemma receiver_solve_rank: "rRank I (orPhase (receiver_solve E inputs Rc)) \<le> iRounds I + 2"
  by (auto simp: receiver_solve_def rRank_def Let_def split: sum.splits)

lemma step_rank:
  assumes R: "oprf_ready E inputs sp rp" "I = ideal E inputs sp rp" and N: "oprf_inv E inputs sp rp I N"
    and step: "oprf_step E (length inputs) inputs (length inputs) N N'"
  shows "oprf_rank I N' < oprf_rank I N"
  using step
proof cases
  case (sBegin S ms)
  then show ?thesis by (auto simp: oprf_rank_def sRank_def sender_begin_def case_prod_beta Let_def rbind_Inr_iff)
next
  case (sVole d m b a c)
  then show ?thesis using sender_loop_rank [of I "(nS N)\<lparr>osB := b\<rparr>"] by (simp add: oprf_rank_def) (simp add: sRank_def)
next
  case (sWr w q)
  then show ?thesis using sender_loop_rank [of I "(nS N)\<lparr>osW := w XOR osWs (nS N)\<rparr>"] by (simp add: oprf_rank_def) (simp add: sRank_def)
next
  case (sChunk k msg q)
  then have "posOk I k" "baxos_size (osPaxos (nS N)) = iSize I"
    using N ready_facts(10) [OF R] by (auto simp: oprf_inv_def sGood_def Let_def)
  from sender_chunk_rank [OF this, of msg] sChunk show ?thesis by (simp add: oprf_rank_def)
next
  case (rBegin Rc)
  then show ?thesis using receiver_solve_rank [of I E inputs Rc]
    by (auto simp: oprf_rank_def receiver_continue_def receiver_begin_def case_prod_beta Let_def rRank_def rbind_Inr_iff split: if_splits)
next
  case (rCommit hws q)
  then show ?thesis using receiver_solve_rank [of I E inputs "(nR N)\<lparr>orHws := Some hws\<rparr>"]
    by (simp add: oprf_rank_def receiver_continue_def) (simp add: rRank_def)
next
  case (rVole d m b a c)
  then show ?thesis using receiver_loop_rank [of I E inputs "(nR N)\<lparr>orA := a, orC := c\<rparr>"]
    by (simp add: oprf_rank_def) (simp add: rRank_def)
next
  case (rChunk k Rc ms)
  then have k: "posOk I k" and S: "nR N = iRcv E I (RSend k) (take k (iMask I) @ drop k (iP I))" and s: "\<exists>u. oprf_solve E inputs (iPaxos I) = Inr (iP I, u)"
    using N by (auto simp: oprf_inv_def rGood_def Let_def)
  from s obtain u where "oprf_solve E inputs (iPaxos I) = Inr (iP I, u)" by blast
  from solved_length [OF R this] have "length (orP (nR N)) = iSize I" "length (orC (nR N)) = iSize I"
    using ready_facts(8) [OF R] k by (simp_all add: S iMask_def posOk_def)
  from receiver_chunk_rank [OF k this rChunk(3)] rChunk(1,2) show ?thesis by (simp add: oprf_rank_def)
next
  case (rReveal out ws q)
  then show ?thesis by (simp add: oprf_rank_def rRank_def receiver_finish_def Let_def)
qed (simp_all add: oprf_rank_def sRank_def rRank_def)

subsection \<open>A state without a step\<close>

lemma queue_head: "i < j \<Longrightarrow> i < length xs \<Longrightarrow> \<exists>q. drop i (take j xs) = xs ! i # q"
  by (metis Cons_nth_drop_Suc length_take min_less_iff_conj nth_take)

lemma rSent_mal: "rSent E I (RReveal out) = 1 + malMsg E + iRounds I" "rSent E I (RDone out) = 1 + malMsg E + iRounds I"
  by (simp_all add: rSent_def)

text \<open>The sender can go on when the receiver has sent more than it has read.\<close>

lemma sender_moves:
  assumes R: "oprf_ready E inputs sp rp" "I = ideal E inputs sp rp" and N: "oprf_inv E inputs sp rp I N"
    and r: "orPhase (nR N) \<notin> {RStart, RCommit}"
    and s: "osPhase (nS N) \<in> {SStart, SSeed, SVole} \<or>
      (\<exists>out. orPhase (nR N) = RReveal out \<or> orPhase (nR N) = RDone out) \<and> osPhase (nS N) \<noteq> SDone"
  shows "\<exists>N'. oprf_step E (length inputs) inputs (length inputs) N N'"
proof (cases "osPhase (nS N)")
  case SStart
  then show ?thesis by (cases "sender_begin E (length inputs) (nSPrng N)") (auto dest: sBegin sBeginFail)
next
  case SSeed
  have "0 < rSent E I (orPhase (nR N))" using r by (auto simp: rSent_def split: rphase.splits)
  with queue_head [of 0 "rSent E I (orPhase (nR N))" "fromR E I"] obtain q where "nToS N = SeedMsg (iSeed I) # q"
    using N SSeed by (auto simp: oprf_inv_def sRead_def fromR_nth(1,4))
  from sSeed [OF SSeed this] show ?thesis by blast
next
  case SVole
  have "nVoleS N = Some (iD I, iSize I)" "nVoleR N = Some (iSize I)" using N r SVole by (auto simp: oprf_inv_def)
  from sVole [OF SVole this ready_facts(5) [OF R]] show ?thesis by blast
next
  case SWr
  with s obtain out where o: "orPhase (nR N) = RReveal out \<or> orPhase (nR N) = RDone out" by auto
  have mal: "oMal E" using N SWr by (auto simp: oprf_inv_def sGood_def Let_def)
  have "1 < rSent E I (orPhase (nR N))" "1 < length (fromR E I)" using o mal by (auto simp: rSent_def fromR_nth(4) malMsg_def)
  from queue_head [OF this] have "\<exists>q. nToS N = fromR E I ! 1 # q" using N SWr by (simp add: oprf_inv_def sRead_def)
  then obtain q where "nToS N = WrMsg (iWr I) # q" unfolding fromR_nth(2) [OF mal] by blast
  from sWr [OF SWr this] show ?thesis by blast
next
  case (SRecv k)
  with s obtain out where o: "orPhase (nR N) = RReveal out \<or> orPhase (nR N) = RDone out" by auto
  have "posOk I k" using N SRecv by (auto simp: oprf_inv_def sGood_def Let_def)
  note k = next_pos(1) [OF this refl]
  have "sRead E I (osPhase (nS N)) < rSent E I (orPhase (nR N))" "sRead E I (osPhase (nS N)) < length (fromR E I)"
    using o k by (auto simp: rSent_def sRead_def SRecv fromR_nth(4))
  from queue_head [OF this] have "\<exists>q. nToS N = fromR E I ! (1 + malMsg E + k div oprfChunk) # q"
    using N SRecv by (simp add: oprf_inv_def sRead_def)
  then obtain q where "nToS N = chunkMsg I (k div oprfChunk) # q" unfolding fromR_nth(3) [OF k] by blast
  then show ?thesis using sChunk [OF SRecv] unfolding chunkMsg_def by blast
next
  case (SFail e)
  then show ?thesis using N by (simp add: oprf_inv_def sGood_def)
qed (use s in auto)

text \<open>And the receiver, unless it has ended or waits for the sender to open its commitment.\<close>

lemma receiver_moves:
  assumes R: "oprf_ready E inputs sp rp" "I = ideal E inputs sp rp" and N: "oprf_inv E inputs sp rp I N"
    and s: "osPhase (nS N) \<noteq> SStart"
    and r: "orPhase (nR N) \<in> {RStart, RCommit, RVole} \<or> (\<exists>k. orPhase (nR N) = RSend k) \<or>
      (\<exists>out. orPhase (nR N) = RReveal out) \<and> osPhase (nS N) = SDone"
  shows "\<exists>N'. oprf_step E (length inputs) inputs (length inputs) N N'"
proof (cases "orPhase (nR N)")
  case RStart
  then show ?thesis by (cases "receiver_begin E inputs (length inputs) (nRPrng N)") (auto dest: rBegin rBeginFail)
next
  case RCommit
  have mal: "oMal E" using N RCommit by (auto simp: oprf_inv_def rGood_def Let_def)
  have "0 < sSent (osPhase (nS N))" using s by (auto simp: sSent_def split: sphase.splits)
  with queue_head [of 0 _ "fromS E I"] obtain q where "nToR N = Commit (oRo E (iWs I)) # q"
    using N RCommit mal by (auto simp: oprf_inv_def rRead_def fromS_def)
  from rCommit [OF RCommit this] show ?thesis by blast
next
  case RVole
  have "nVoleS N = Some (iD I, iSize I)" "nVoleR N = Some (iSize I)" using N s RVole by (auto simp: oprf_inv_def)
  from rVole [OF RVole this ready_facts(5) [OF R]] show ?thesis by blast
next
  case (RSend k)
  obtain Rk ms where "receiver_chunk oprfChunk E inputs (nR N) k = (Rk, ms)" by fastforce
  from rChunk [OF RSend this] show ?thesis by blast
next
  case (RReveal out)
  have mal: "oMal E" using N RReveal by (auto simp: oprf_inv_def rGood_def Let_def)
  have "nToR N = [WsMsg (iWs I)]" using N RReveal r mal by (simp add: oprf_inv_def rRead_def sSent_def fromS_def)
  from rReveal [OF RReveal this] show ?thesis by blast
qed (use r in auto)

lemma stuck_done:
  assumes R: "oprf_ready E inputs sp rp" "I = ideal E inputs sp rp" and N: "oprf_inv E inputs sp rp I N"
    and stuck: "\<nexists>N'. oprf_step E (length inputs) inputs (length inputs) N N'"
  shows "osPhase (nS N) = SDone \<and> (\<exists>out. orPhase (nR N) = RDone out) \<or>
    (\<exists>e. orPhase (nR N) = RFail e \<and> (e = RTE_LOC \<or> (\<exists>msg. e = RuntimeError msg) \<or> e = Terminated))"
proof -
  have s: "osPhase (nS N) \<noteq> SStart"
  proof
    assume "osPhase (nS N) = SStart"
    then show False using stuck by (cases "sender_begin E (length inputs) (nSPrng N)") (auto dest: sBegin sBeginFail)
  qed
  show ?thesis
  proof (cases "orPhase (nR N)")
    case (RFail e)
    from usable_ok [OF ready_facts(2) [OF R]] obtain hh where "baxos_ok (idxTypeBits (iPaxos I)) (iPaxos I) hh" by blast
    from solve_ok [OF R this] N RFail show ?thesis by (auto simp: oprf_inv_def rGood_def)
  next
    case (RDone out)
    then show ?thesis using sender_moves [OF R N] stuck by auto
  next
    case (RReveal out)
    then show ?thesis using sender_moves [OF R N] receiver_moves [OF R N s] stuck by auto
  qed (use receiver_moves [OF R N s] stuck in auto)
qed

subsection \<open>Every run ends\<close>

lemma reach_rank:
  assumes R: "oprf_ready E inputs sp rp" "I = ideal E inputs sp rp" and N: "oprf_inv E inputs sp rp I N"
  shows "\<exists>N'. oprf_reach E (length inputs) inputs (length inputs) N N' \<and> (\<nexists>N''. oprf_step E (length inputs) inputs (length inputs) N' N'')"
  using N
proof (induction "oprf_rank I N" arbitrary: N rule: less_induct)
  case less
  show ?case
  proof (cases "\<exists>N'. oprf_step E (length inputs) inputs (length inputs) N N'")
    case False
    then show ?thesis using reach_start by blast
  next
    case True
    then obtain N' where s: "oprf_step E (length inputs) inputs (length inputs) N N'" by blast
    from less(1) [OF step_rank [OF R less(2) s] step_inv [OF R less(2) s]] obtain Z where
      Z: "oprf_reach E (length inputs) inputs (length inputs) N' Z" "\<nexists>N''. oprf_step E (length inputs) inputs (length inputs) Z N''" by blast
    from Z(1) have "oprf_reach E (length inputs) inputs (length inputs) N Z"
    proof induction
      case reach_start
      show ?case by (rule oprf_reach.reach_step [OF oprf_reach.reach_start s])
    qed (blast intro: oprf_reach.reach_step)
    with Z(2) show ?thesis by blast
  qed
qed

lemma no_infinite_run:
  assumes R: "oprf_ready E inputs sp rp" "I = ideal E inputs sp rp" and N: "oprf_inv E inputs sp rp I (f 0)"
    and run: "\<forall>i. oprf_step E (length inputs) inputs (length inputs) (f i) (f (Suc i))"
  shows False
proof -
  have inv: "oprf_inv E inputs sp rp I (f i)" for i
    using N run by (induction i) (auto intro: step_inv [OF R])
  have "oprf_rank I (f (Suc i)) < oprf_rank I (f i)" for i using step_rank [OF R inv] run by blast
  then show False using wf_no_infinite_down_chainE [OF wf_less, of "\<lambda>i. oprf_rank I (f i)"] by blast
qed

subsection \<open>Both sides compute the same function\<close>

lemma finalB_linear:
  assumes R: "oprf_ready E inputs sp rp" "I = ideal E inputs sp rp" and l: "length (iP I) = iSize I" and i: "i < iSize I"
  shows "GF (iFinalB I ! i) = GF (iA I ! i) + GF (iD I) * GF (iP I ! i)"
proof -
  note F = ready_facts [OF R]
  have b: "iB I ! i = iA I ! i XOR gf128Mul (iD I) (iC I ! i)"
  proof -
    have "iB I ! i = iA I ! i XOR (iA I ! i XOR iB I ! i)" by (simp flip: xor.assoc)
    with F(9) i show ?thesis by simp
  qed
  have "iFinalB I ! i = iB I ! i XOR gf128Mul (iD I) (iP I ! i XOR iC I ! i)"
    using F(6,8) l i by (simp add: iFinalB_def mulAdd_def iMask_def)
  also have "GF \<dots> = GF (iA I ! i) + GF (iD I) * GF (iC I ! i) + GF (iD I) * (GF (iP I ! i) + GF (iC I ! i))"
    unfolding b by (simp only: GF_add [symmetric] GF_gf128Mul)
  also have "\<dots> = GF (iA I ! i) + GF (iD I) * GF (iP I ! i) + (GF (iD I) * GF (iC I ! i) + GF (iD I) * GF (iC I ! i))"
    by (simp only: distrib_left ac_simps)
  finally show ?thesis by simp
qed

text \<open>What the sender computes for an input before the last hash.\<close>

definition evalInput :: "('s, 'h) oprf_env \<Rightarrow> oprf_ideal \<Rightarrow> paxos_hash \<Rightarrow> block \<Rightarrow> block" where
  "evalInput E I hh y = inputVal pxBlocks (oAesHash E) (iPaxos I) hh (iFinalB I) y XOR gf128Mul (iD I) (oAesHash E (oFixedKey E) y)"

definition evalHash :: "('s, 'h) oprf_env \<Rightarrow> oprf_ideal \<Rightarrow> block \<Rightarrow> block \<Rightarrow> block" where
  "evalHash E I u y = (if oMal E then oAesHash E (u XOR iW E I) y else oAesHash E (oFixedKey E) u)"

lemma evalInput_ok:
  assumes R: "oprf_ready E inputs sp rp" "I = ideal E inputs sp rp" and hh: "baxos_ok (idxTypeBits (iPaxos I)) (iPaxos I) hh"
    and sol: "oprf_solve E inputs (iPaxos I) = Inr (iP I, u)" and y: "y \<in> set inputs"
  shows "inputVal pxBlocks (oAesHash E) (iPaxos I) hh (iA I) y = evalInput E I hh y"
proof -
  note F = ready_facts [OF R]
  from y obtain l where l: "l < length inputs" "y = inputs ! l" by (auto simp: in_set_conv_nth)
  have S: "length (iP I) = iSize I" "inputVal pxBlocks (oAesHash E) (iPaxos I) hh (iP I) y = oAesHash E (oFixedKey E) y"
    using solve_ok [OF R hh] sol l by simp_all
  have lb: "length (iFinalB I) = baxos_size (iPaxos I)" using F(6,8) S(1) by (simp add: iFinalB_def mulAdd_def iMask_def iSize_def)
  have "GF (inputVal pxBlocks (oAesHash E) (iPaxos I) hh (iFinalB I) y) =
      GF (inputVal pxBlocks (oAesHash E) (iPaxos I) hh (iA I) y) + GF (iD I) * GF (oAesHash E (oFixedKey E) y)"
    unfolding S(2) [symmetric] using finalB_linear [OF R S(1)]
    by (intro inputVal_linear [OF F(2) hh F(7) [unfolded iSize_def] S(1) [unfolded iSize_def] lb]) (simp add: iSize_def)
  then have "GF (evalInput E I hh y) = GF (inputVal pxBlocks (oAesHash E) (iPaxos I) hh (iA I) y)"
    by (simp add: evalInput_def GF_add [symmetric] add.assoc)
  then show ?thesis by simp
qed

lemma eval_ok:
  assumes R: "oprf_ready E inputs sp rp" "I = ideal E inputs sp rp" and hh: "baxos_ok (idxTypeBits (iPaxos I)) (iPaxos I) hh"
    and l: "length (iP I) = iSize I" and N: "oprf_inv E inputs sp rp I N" "osPhase (nS N) = SDone"
  shows "RsOprfSender_eval E (nS N) sched val T = Inr (map (\<lambda>y. evalHash E I (evalInput E I hh y) y) val)"
proof -
  note F = ready_facts [OF R]
  let ?B = "(iPaxos I)\<lparr>bDebug := False\<rparr>"
  have S: "osPaxos (nS N) = ?B" "osB (nS N) = iFinalB I" "osD (nS N) = iD I" "osW (nS N) = iW E I"
    using N unfolding F(4) cfgBaxos_simps by (auto simp: oprf_inv_def sGood_def Let_def)
  have lb: "length (iFinalB I) = baxos_size (iPaxos I)" using F(6,8) l by (simp add: iFinalB_def mulAdd_def iMask_def iSize_def)
  have add: "\<not> bAddToDecode ?B" unfolding F(4) cfgBaxos_simps by (rule cfgBaxos_simps(3))
  have "Baxos_decode sched (oAesHash E) pxBlocks ?B val (replicate (length val) 0) (iFinalB I) T =
      Inr (map (inputVal pxBlocks (oAesHash E) (iPaxos I) hh (iFinalB I)) val)"
    using Baxos_decode_inputVal [of ?B hh "iFinalB I" "replicate (length val) 0" val] F(2) hh lb add
    by (simp add: usable_debug inputVal_debug putVals_zero)
  moreover have "map2 g (map f val) val = map (\<lambda>y. g (f y) y) val" for g :: "block \<Rightarrow> block \<Rightarrow> block" and f
    by (induction val) simp_all
  ultimately show ?thesis by (simp add: RsOprfSender_eval_def S evalHash_def evalInput_def Let_def)
qed

lemma agree:
  assumes R: "oprf_ready E inputs sp rp" "I = ideal E inputs sp rp" and N: "oprf_inv E inputs sp rp I N"
    and ph: "osPhase (nS N) = SDone" "orPhase (nR N) = RDone res"
  shows "\<exists>f. res = map f inputs \<and> (\<forall>sched val T. RsOprfSender_eval E (nS N) sched val T = Inr (map f val))"
proof -
  from usable_ok [OF ready_facts(2) [OF R]] obtain hh where hh: "baxos_ok (idxTypeBits (iPaxos I)) (iPaxos I) hh" by blast
  from inv_solved [OF N] ph(2) obtain u where sol: "oprf_solve E inputs (iPaxos I) = Inr (iP I, u)" by blast
  from N ph(2) obtain out where out: "iOut E inputs I = Inr out" "res = iResult E inputs I out"
    by (auto simp: oprf_inv_def rGood_def)
  have "out = map (inputVal pxBlocks (oAesHash E) (iPaxos I) hh (iA I)) inputs" using iOut_ok [OF R hh] out(1) by simp
  also have "\<dots> = map (evalInput E I hh) inputs" using evalInput_ok [OF R hh sol] by simp
  finally have "res = map (\<lambda>y. evalHash E I (evalInput E I hh y) y) inputs"
    using out(2) by (auto simp: iResult_def evalHash_def iW_def xor.commute intro!: nth_equalityI)
  then show ?thesis using eval_ok [OF R hh solved_length [OF R sol] N ph(1)] by blast
qed

subsection \<open>More than two parts\<close>

lemma upt_append: "i \<le> j \<Longrightarrow> j \<le> k \<Longrightarrow> [i..<j] @ [j..<k] = [i..<k]"
  using upt_add_eq_append [of i j "k - j"] by simp

lemma chunkXor_first:
  assumes "length p = n" "length c = n" "8 dvd M" "2 * M \<le> n"
  shows "chunkXor M 0 p c = Inr (take (n - M) (map2 (XOR) p c) @ drop (n - M) p)"
proof -
  have m: "min n M = M" "M div 8 * 8 = M" using assms(3,4) by simp_all
  have r: "(if n \<noteq> M then n - M else M) = n - M" using assms(4) by auto
  have "[0..<M] @ [M..<n - M] = [0..<n - M]" using assms(4) by (intro upt_append) simp_all
  then show ?thesis using xor_loop [of 0 "n - M" p c] assms(1,2) unfolding chunkXor_def Let_def assms(1) diff_zero m r by simp
qed

lemma chunkXor_second:
  assumes "length p = n" "length c = n" "8 dvd M" "2 * M < n" "n \<le> 3 * M"
  shows "chunkXor M M p c = Inr (take M p @ take M (drop M (map2 (XOR) p c)) @ drop (M + M) p)"
proof -
  have m: "min (n - M) M = M" "M div 8 * 8 = M" using assms(3,4) by simp_all
  have r: "(if n - M \<noteq> M then n - M - M else M) = n - M - M" using assms(4) by auto
  have "[M..<n - M - M] = []" using assms(5) by simp
  then show ?thesis using xor_loop [of M M p c] assms(1,2,4) unfolding chunkXor_def Let_def assms(1) m r by simp
qed

text \<open>C10: code bug. With more than two parts the remainder loop of the first round runs up to the size of
  the rest and masks it too, so that the next round masks those elements a second time, which removes the
  mask. The second message then carries elements of the receiver's structure in the clear.\<close>

theorem oprf_chunk_overrun:
  assumes "length (orP Rc) = n" "length (orC Rc) = n" "8 dvd M" "2 * M < n" "n < 3 * M"
  shows "\<exists>R1 R2 m1 m2. receiver_chunk M E inputs Rc 0 = (R1, [Chunk m1]) \<and> orPhase R1 = RSend M \<and>
    receiver_chunk M E inputs R1 M = (R2, [Chunk m2]) \<and> (\<forall>j<n - 2 * M. m2 ! j = orP Rc ! (M + j))"
proof -
  define p c where "p = orP Rc" and "c = orC Rc"
  have n: "length p = n" "length c = n" using assms(1,2) by (simp_all add: p_def c_def)
  define p1 where "p1 = take (n - M) (map2 (XOR) p c) @ drop (n - M) p"
  define p2 where "p2 = take M p1 @ take M (drop M (map2 (XOR) p1 c)) @ drop (M + M) p1"
  have l: "length p1 = n" using n by (simp add: p1_def)
  then have l2: "length p2 = n" using n assms(4) by (simp add: p2_def)
  have c1: "chunkXor M 0 p c = Inr p1" unfolding p1_def using n assms(3,4) by (intro chunkXor_first) simp_all
  have c2: "chunkXor M M p1 c = Inr p2" unfolding p2_def using chunkXor_second [OF l n(2) assms(3,4) less_imp_le [OF assms(5)]] .
  define R1 where "R1 = Rc\<lparr>orP := p1, orPhase := RSend M\<rparr>"
  have d: "n - M \<noteq> M" "M < n" "min n M = M" "n - M - M \<noteq> M" "min (n - M) M = M" using assms(4,5) by auto
  have r1: "receiver_chunk M E inputs Rc 0 = (R1, [Chunk (take M p1)])"
    using c1 d(1-3) n unfolding receiver_chunk_def receiver_loop_def Let_def R1_def p_def [symmetric] c_def [symmetric] by (simp add: c_def)
  have "orP R1 = p1" "orC R1 = c" by (simp_all add: R1_def c_def)
  then have r2: "receiver_chunk M E inputs R1 M = (receiver_loop E inputs (R1\<lparr>orP := p2\<rparr>) (M + M), [Chunk (take M (drop M p2))])"
    using c2 d(4,5) l unfolding receiver_chunk_def Let_def by simp
  have "take M (drop M p2) ! j = p ! (M + j)" if "j < n - 2 * M" for j
  proof -
    have j: "j < M" "M + j < n - M" "M + j < n" using that assms(4,5) by auto
    have "take M (drop M p2) ! j = p2 ! (M + j)" using j l2 by simp
    also have "\<dots> = p1 ! (M + j) XOR c ! (M + j)" using j n l unfolding p2_def by (simp add: nth_append)
    also have "p1 ! (M + j) = p ! (M + j) XOR c ! (M + j)" using j n unfolding p1_def by (simp add: nth_append)
    finally show ?thesis by (simp add: xor.assoc)
  qed
  moreover have "orPhase R1 = RSend M" by (simp add: R1_def)
  ultimately show ?thesis using r1 r2 unfolding p_def by blast
qed

text \<open>C11: code bug. When the rest has exactly the size of the part, the code sends the rest instead of the
  part, and it sends it before masking it; the memory of the structure goes with the message and the next
  round reads it after it was freed.\<close>

theorem oprf_chunk_exact:
  assumes "length (orP Rc) = 2 * M" "length (orC Rc) = 2 * M" "8 dvd M" "0 < M"
  shows "\<exists>R1. receiver_chunk M E inputs Rc 0 = (R1, [Chunk (drop M (orP Rc))]) \<and> orPhase R1 = RFail UB"
proof -
  have "chunkXor M 0 (orP Rc) (orC Rc) = Inr (take (2 * M - M) (map2 (XOR) (orP Rc) (orC Rc)) @ drop (2 * M - M) (orP Rc))"
    using assms by (intro chunkXor_first) simp_all
  then show ?thesis using assms by (simp add: receiver_chunk_def Let_def min_absorb2)
qed

subsection \<open>Runs\<close>

text \<open>A configuration for two inputs, with one bin.\<close>

definition oprfSample :: "(nat, block) oprf_env" where
  "oprfSample = \<lparr>oMal = True, oBinSize = 4, oSsp = 40, oDebug = False, oThreads = 1, oSched1 = [], oSched2 = [], oSched3 = [],
     oAesHash = \<lambda>k x. x, oFixedKey = 0, oRo = \<lambda>x. x, oNext = \<lambda>s. (of_nat s, Suc s), oItems = \<lambda>_ _ _. 2,
     oParam = \<lambda>_ _ _ dt. \<lparr>mSparseSize = 4, mDenseSize = 1, mWeight = 3, mG = 1, mSsp = 40, mDt = dt\<rparr>, oGetBinSize = \<lambda>_ _ _. 2,
     oVole = \<lambda>d m. (replicate m 0, replicate m d, replicate m 1)\<rparr>"

lemma oprfSample_vole: "vole_ok (oVole oprfSample)"
proof -
  have "gf128Mul d 1 = d" for d
  proof -
    have "GF (gf128Mul d 1) = GF d" by (simp add: GF_one)
    then show ?thesis by simp
  qed
  then show ?thesis by (simp add: vole_ok_def oprfSample_def)
qed

lemma oprfSample_ready_hash:
  assumes xs: "distinct xs" "xs \<noteq> []" "length xs \<le> 2"
  shows "oprf_ready (oprfSample\<lparr>oAesHash := H\<rparr>) xs sp rp"
proof -
  let ?E = "oprfSample\<lparr>oAesHash := H\<rparr>"
  let ?B = "\<lambda>seed. cfgBaxos ?E (length xs) seed False"
  have "length xs = 1 \<or> length xs = 2" using xs(2,3) by (cases xs rule: remdups_adj.cases) auto
  then have B: "?B s = \<lparr>bNumItems = length xs, bNumBins = 1, bItemsPerBin = 2, bWeight = 3, bSsp = 40,
      bParam = \<lparr>mSparseSize = 4, mDenseSize = 1, mWeight = 3, mG = 1, mSsp = 40, mDt = GF128\<rparr>, bSeed = s, bDebug = False, bAddToDecode = False\<rparr>" for s
    by (auto simp: cfgBaxos_def oprfSample_def)
  have ix: "idxTypeBits (?B s) = 8" for s
  proof -
    let ?Z = "\<lparr>bNumItems = 2, bNumBins = 1, bItemsPerBin = 2, bWeight = 3, bSsp = 40,
      bParam = \<lparr>mSparseSize = 4, mDenseSize = 1, mWeight = 3, mG = 1, mSsp = 40, mDt = GF128\<rparr>, bSeed = 0, bDebug = False, bAddToDecode = False\<rparr>"
    have "idxTypeBits (?B s) = idxTypeBits ?Z" by (simp add: B idxTypeBits_def)
    also have "\<dots> = 8" by code_simp
    finally show ?thesis .
  qed
  have u: "baxos_usable (?B s)" for s using ix [of s] by (simp add: baxos_usable_def B)
  have "lightRows ib (?B s) hh (map f (binIdxs aesHash (?B s) xs b))" for ib hh f b s aesHash
  proof -
    have "length (binIdxs aesHash (?B s) xs b) \<le> length [0..<length xs]" unfolding binIdxs_def by (rule length_filter_le)
    then have "length (binIdxs aesHash (?B s) xs b) \<le> 2" using xs(3) by simp
    then show ?thesis by (auto simp: lightRows_def intro!: le_less_trans [OF length_filter_le])
  qed
  then have f: "baxos_fits (oGetBinSize ?E) (oAesHash ?E) (?B s) xs T" for s T
    using xs(3) by (simp add: baxos_fits_def light_bins_def B)
  have "baxos_size (?B s) < 2 * oprfChunk" for s by (simp add: B baxos_size_def oprfChunk_def)
  moreover have dbg: "oDebug ?E = False" by (simp add: oprfSample_def)
  have "iPaxos (ideal ?E xs sp rp) = ?B (iSeed (ideal ?E xs sp rp))"
    using ideal_simps(1) [of ?E xs sp rp] unfolding dbg .
  moreover have "0 < oBinSize ?E" by (simp add: oprfSample_def)
  moreover have "vole_ok (oVole ?E)" using oprfSample_vole by (simp add: oprfSample_def)
  ultimately show ?thesis using u f xs(1) by (simp add: oprf_ready_def)
qed

lemma oprfSample_ready: "oprf_ready oprfSample [5, 6] sp rp"
proof -
  have "oprfSample\<lparr>oAesHash := \<lambda>k x. x\<rparr> = oprfSample" by (simp add: oprfSample_def)
  then show ?thesis using oprfSample_ready_hash [of "[5, 6]" "\<lambda>k x. x" sp rp] by simp
qed

text \<open>C7: the protocol computes an oblivious PRF. When both sides have ended, whatever the order of their
  steps was, there is one function f such that the receiver holds f of each of its inputs and the sender's
  \<open>eval\<close> gives f of any inputs, with any number of threads.\<close>

theorem oprf_agreement:
  assumes "oprf_ready E inputs sp rp"
    and "oprf_reach E (length inputs) inputs (length inputs) (oprf_init sp rp) N"
    and "osPhase (nS N) = SDone" "orPhase (nR N) = RDone res"
  shows "\<exists>f. res = map f inputs \<and> (\<forall>sched val T. RsOprfSender_eval E (nS N) sched val T = Inr (map f val))"
  by (rule agree [OF assms(1) refl reach_inv [OF assms(1) refl assms(2)] assms(3,4)])

lemma oprf_run_ends:
  assumes "oprf_ready E inputs sp rp"
  shows "\<exists>N. oprf_reach E (length inputs) inputs (length inputs) (oprf_init sp rp) N \<and>
    (osPhase (nS N) = SDone \<and> (\<exists>out. orPhase (nR N) = RDone out) \<or>
     (\<exists>e. orPhase (nR N) = RFail e \<and> (e = RTE_LOC \<or> (\<exists>msg. e = RuntimeError msg) \<or> e = Terminated)))"
proof -
  from reach_rank [OF assms refl oprf_inv_init] obtain N where
    "oprf_reach E (length inputs) inputs (length inputs) (oprf_init sp rp) N" "\<nexists>N'. oprf_step E (length inputs) inputs (length inputs) N N'" by blast
  with stuck_done [OF assms refl reach_inv [OF assms refl]] show ?thesis by blast
qed

theorem oprf_agreement_witness:
  "\<exists>N. oprf_reach oprfSample 2 [5, 6] 2 (oprf_init 1 7) N \<and>
    (case orPhase (nR N) of
       RDone res \<Rightarrow> \<exists>f :: block \<Rightarrow> block. res = [f 5, f 6] \<and> RsOprfSender_eval oprfSample (nS N) [0] [6, 8] 2 = Inr [f 6, f 8]
     | RFail e \<Rightarrow> e \<noteq> UB | _ \<Rightarrow> False)"
proof -
  have l: "length [5, 6 :: block] = 2" by simp
  from oprf_run_ends [OF oprfSample_ready, of 1 7, unfolded l] obtain N where
    N: "oprf_reach oprfSample 2 [5, 6] 2 (oprf_init 1 7) N"
    "osPhase (nS N) = SDone \<and> (\<exists>out. orPhase (nR N) = RDone out) \<or>
     (\<exists>e. orPhase (nR N) = RFail e \<and> (e = RTE_LOC \<or> (\<exists>msg. e = RuntimeError msg) \<or> e = Terminated))" by blast
  show ?thesis
  proof (cases "orPhase (nR N)")
    case (RDone res)
    have "osPhase (nS N) = SDone" using N(2) RDone by simp
    from oprf_agreement [OF oprfSample_ready, unfolded l, OF N(1) this RDone] obtain f :: "block \<Rightarrow> block" where
      "res = map f [5, 6]" "RsOprfSender_eval oprfSample (nS N) [0] [6, 8] 2 = Inr (map f [6, 8])" by blast
    then show ?thesis using N(1) RDone by (intro exI [of _ N]) auto
  qed (use N in auto)
qed

text \<open>C8: a run never gets stuck. A reachable state from which no party can step is one where both have
  ended with a result, or where solving the receiver's system has failed with an exception that the code
  throws there.\<close>

theorem oprf_progress:
  assumes "oprf_ready E inputs sp rp"
    and "oprf_reach E (length inputs) inputs (length inputs) (oprf_init sp rp) N"
    and "\<nexists>N'. oprf_step E (length inputs) inputs (length inputs) N N'"
  shows "osPhase (nS N) = SDone \<and> (\<exists>out. orPhase (nR N) = RDone out) \<or>
    (\<exists>e. orPhase (nR N) = RFail e \<and> (e = RTE_LOC \<or> (\<exists>msg. e = RuntimeError msg) \<or> e = Terminated))"
  by (rule stuck_done [OF assms(1) refl reach_inv [OF assms(1) refl assms(2)] assms(3)])

theorem oprf_progress_witness:
  "\<exists>N. oprf_reach oprfSample 2 [5, 6] 2 (oprf_init 1 7) N \<and> \<not> (\<exists>N'. oprf_step oprfSample 2 [5, 6] 2 N N') \<and>
    (osPhase (nS N) = SDone \<and> (\<exists>out. orPhase (nR N) = RDone out) \<or> (\<exists>e. orPhase (nR N) = RFail e))"
proof -
  have l: "length [5, 6 :: block] = 2" by simp
  from reach_rank [OF oprfSample_ready refl oprf_inv_init, of 1 7, unfolded l] obtain N where
    N: "oprf_reach oprfSample 2 [5, 6] 2 (oprf_init 1 7) N" "\<nexists>N'. oprf_step oprfSample 2 [5, 6] 2 N N'" by blast
  from oprf_progress [OF oprfSample_ready, unfolded l, OF N] N show ?thesis by blast
qed

text \<open>C9: every run of the two parties ends: there is no infinite sequence of steps.\<close>

theorem oprf_terminates:
  assumes "oprf_ready E inputs sp rp"
  shows "\<not> (\<exists>f. f 0 = oprf_init sp rp \<and> (\<forall>i. oprf_step E (length inputs) inputs (length inputs) (f i) (f (Suc i))))"
  using no_infinite_run [OF assms refl] oprf_inv_init by metis

theorem oprf_terminates_witness:
  "\<not> (\<exists>f. f 0 = oprf_init 1 7 \<and> (\<forall>i. oprf_step oprfSample 2 [5, 6] 2 (f i) (f (Suc i))))"
  using oprf_terminates [OF oprfSample_ready, of 1 7] by (simp add: numeral_2_eq_2)

theorem oprf_chunk_overrun_witness:
  "\<exists>R1 R2 m1 m2. receiver_chunk 8 oprfSample [] (nR (oprf_init 1 7 :: (nat, block) oprf_net)\<lparr>orP := replicate 20 5, orC := replicate 20 9\<rparr>) 0 = (R1, [Chunk m1]) \<and>
    receiver_chunk 8 oprfSample [] R1 8 = (R2, [Chunk m2]) \<and> m2 ! 0 = 5"
proof -
  let ?R = "nR (oprf_init 1 7 :: (nat, block) oprf_net)\<lparr>orP := replicate 20 5, orC := replicate 20 9\<rparr>"
  have "length (orP ?R) = 20" "length (orC ?R) = 20" by simp_all
  from oprf_chunk_overrun [OF this, of 8 oprfSample "[]"] obtain R1 R2 m1 m2 where
    r: "receiver_chunk 8 oprfSample [] ?R 0 = (R1, [Chunk m1])" "receiver_chunk 8 oprfSample [] R1 8 = (R2, [Chunk m2])"
      "\<forall>j<20 - 2 * 8. m2 ! j = orP ?R ! (8 + j)" by auto
  then have "m2 ! 0 = 5" using r(3) [THEN spec [of _ 0]] by simp
  with r(1,2) show ?thesis by blast
qed

theorem oprf_chunk_exact_witness:
  "\<exists>R1. receiver_chunk 8 oprfSample [] (nR (oprf_init 1 7 :: (nat, block) oprf_net)\<lparr>orP := replicate 16 5, orC := replicate 16 9\<rparr>) 0 =
      (R1, [Chunk (replicate 8 5)]) \<and> orPhase R1 = RFail UB"
  using oprf_chunk_exact [of "nR (oprf_init 1 7 :: (nat, block) oprf_net)\<lparr>orP := replicate 16 5, orC := replicate 16 9\<rparr>" 8 oprfSample "[]"]
  by simp

end
