(* ===== verification/Psi.thy ===== *)
theory Psi
  imports OprfProps
begin

section \<open>Private set intersection\<close>

text \<open>
  \<open>RsPsiSender\<close> and \<open>RsPsiReceiver\<close> of \<open>src/volePSI/RsPsi.cpp\<close>: what the two sides do with the values of the
  OPRF. The sender evaluates its inputs and sends the low bytes of the values; the receiver puts its own
  values into a hash map and looks the received ones up, in one thread or in several.

  Buffers are lists of bytes, as the code moves them. A hash map is a finite map: an inserted key that is there
  already stays, and inserting the empty key, zero, fails the assertion of \<open>dense_hash_map\<close>. With several
  threads every thread stores what it finds in its part of the memory of \<open>myHashes\<close>, read as 64-bit words, and
  appends it to the result under a lock when it is done; the interleaving of these stores is a schedule.
\<close>

subsection \<open>The parameters\<close>

record psi_base =
  pSenderSize :: nat
  pRecverSize :: nat
  pSsp :: nat
  pMalicious :: bool
  pCompress :: bool
  pNumThreads :: nat
  pMaskSize :: nat

text \<open>The size of a block, and \<open>oc::log2ceil\<close> of a product of two 64-bit numbers, which wraps.\<close>

definition blockSize :: nat where "blockSize = 16"

definition log2ceilMul :: "nat \<Rightarrow> nat \<Rightarrow> nat" where
  "log2ceilMul a b = (let p = a * b mod 2 ^ 64 in if p = 0 then 64 else log2ceil p)"

definition RsPsiBase_init :: "nat \<Rightarrow> nat \<Rightarrow> nat \<Rightarrow> bool \<Rightarrow> nat \<Rightarrow> psi_base" where
  "RsPsiBase_init senderSize recverSize statSecParam malicious numThreads =
     (let maskSize = (if malicious then blockSize
                      else min (divCeil (statSecParam + log2ceilMul senderSize recverSize) 8) blockSize)
      in \<lparr>pSenderSize = senderSize, pRecverSize = recverSize, pSsp = statSecParam, pMalicious = malicious,
          pCompress = (maskSize \<noteq> blockSize), pNumThreads = numThreads, pMaskSize = maskSize\<rparr>)"

subsection \<open>Blocks as bytes\<close>

definition blockByte :: "block \<Rightarrow> nat \<Rightarrow> u8" where "blockByte b i = ucast (drop_bit (8 * i) b)"
definition blockBytes :: "block \<Rightarrow> u8 list" where "blockBytes b = map (blockByte b) [0..<blockSize]"

text \<open>\<open>block::set<u8>\<close> and \<open>memcpy\<close> to the first bytes of a block.\<close>

definition setByte :: "block \<Rightarrow> nat \<Rightarrow> u8 \<Rightarrow> block" where
  "setByte b i v = (b AND NOT (push_bit (8 * i) 0xFF)) OR push_bit (8 * i) (ucast v)"

definition memcpyBlock :: "block \<Rightarrow> u8 list \<Rightarrow> block" where
  "memcpyBlock h bs = fold (\<lambda>i h. setByte h i (bs ! i)) [0..<length bs] h"

definition psiMask :: "nat \<Rightarrow> block" where
  "psiMask n = fold (\<lambda>i m. setByte m i (- 1)) [0..<n] 0"

subsection \<open>The sender\<close>

text \<open>\<open>memmove\<close> within the buffer; \<open>memcpy\<close> on overlapping ranges is undefined.\<close>

definition memmoveIn :: "nat \<Rightarrow> nat \<Rightarrow> nat \<Rightarrow> u8 list \<Rightarrow> u8 list res" where
  "memmoveIn dst src n buf = (if length buf < src + n \<or> length buf < dst + n then Inl UB
     else Inr (storeAt dst (take n (drop src buf)) buf))"

definition memcpyIn :: "nat \<Rightarrow> nat \<Rightarrow> nat \<Rightarrow> u8 list \<Rightarrow> u8 list res" where
  "memcpyIn dst src n buf = (if src < dst + n \<and> dst < src + n then Inl UB else memmoveIn dst src n buf)"

definition psi_compress :: "nat \<Rightarrow> nat \<Rightarrow> u8 list \<Rightarrow> u8 list res" where
  "psi_compress maskSize senderSize buf =
     (let k = min senderSize 100 in
      rbind (foldr_res (\<lambda>i. memmoveIn (i * maskSize) (i * blockSize) maskSize) [0..<k] buf) (\<lambda>buf.
      rbind (foldr_res (\<lambda>i. memcpyIn (i * maskSize) (i * blockSize) maskSize) [k..<senderSize] buf) (\<lambda>buf.
      Inr (take (senderSize * maskSize) buf))))"

text \<open>The sender after the OPRF.\<close>

definition RsPsiSender_run :: "('s, 'h) oprf_env \<Rightarrow> psi_base \<Rightarrow> oprf_sender \<Rightarrow> nat list \<Rightarrow> block list \<Rightarrow> u8 list res" where
  "RsPsiSender_run E B S sched inputs =
     rbind (RsOprfSender_eval E S sched inputs (pNumThreads B)) (\<lambda>h.
     let hashes = concat (map blockBytes h) in
     if pCompress B then psi_compress (pMaskSize B) (pSenderSize B) hashes else Inr hashes)"

subsection \<open>The receiver, in one thread\<close>

type_synonym psi_map = "block \<rightharpoonup> nat"

definition psi_insert :: "block \<times> nat \<Rightarrow> psi_map \<Rightarrow> psi_map res" where
  "psi_insert kv m = (case kv of (k, v) \<Rightarrow> if k = 0 then Inl AssertFail else Inr (if m k = None then m(k \<mapsto> v) else m))"

definition psiKey :: "psi_base \<Rightarrow> block \<Rightarrow> block" where
  "psiKey B h = (if pCompress B then h AND psiMask (pMaskSize B) else h)"

text \<open>The batches of 128 insertions and the remainder loop.\<close>

definition psi_fill :: "psi_base \<Rightarrow> block list \<Rightarrow> psi_map res" where
  "psi_fill B myHashes =
     (let n = pRecverSize B; main = n div 128 * 128; hh = (\<lambda>i. (psiKey B (myHashes ! i), i)) in
      rbind (foldr_res (\<lambda>b. foldr_res (\<lambda>j. psi_insert (hh (128 * b + j))) [0..<128]) [0..<n div 128] Map.empty) (\<lambda>m.
      foldr_res (\<lambda>i. psi_insert (hh i)) [main..<n] m))"

text \<open>Row i of the received matrix.\<close>

definition theirRow :: "psi_base \<Rightarrow> u8 list \<Rightarrow> nat \<Rightarrow> u8 list" where
  "theirRow B theirHashes i = take (pMaskSize B) (drop (i * pMaskSize B) theirHashes)"

definition psi_find :: "psi_base \<Rightarrow> psi_map \<Rightarrow> u8 list \<Rightarrow> nat list" where
  "psi_find B m theirHashes =
     snd (fold (\<lambda>i (h, inter). let h = memcpyBlock h (theirRow B theirHashes i) in
       (h, case m h of Some v \<Rightarrow> inter @ [v] | None \<Rightarrow> inter)) [0..<pSenderSize B] (0, []))"

text \<open>Receiving a buffer of another size than the matrix fails.\<close>

definition psi_recv :: "psi_base \<Rightarrow> u8 list \<Rightarrow> u8 list res" where
  "psi_recv B msg = (if length msg = pSenderSize B * pMaskSize B then Inr msg else Inl (RuntimeError ''bad buffer size''))"

definition RsPsiReceiver_run1 :: "psi_base \<Rightarrow> block list \<Rightarrow> u8 list \<Rightarrow> nat list res" where
  "RsPsiReceiver_run1 B myHashes msg =
     rbind (psi_fill B myHashes) (\<lambda>m. rbind (psi_recv B msg) (\<lambda>theirHashes. Inr (psi_find B m theirHashes)))"

subsection \<open>The receiver, in several threads\<close>

text \<open>The thread of a value: its low 32 bits modulo the number of threads, by \<open>libdivide_u32_do\<close>, which
  is the parameter \<open>div32\<close>.\<close>

definition psiThread :: "(u32 \<Rightarrow> u32) \<Rightarrow> psi_base \<Rightarrow> block \<Rightarrow> nat" where
  "psiThread div32 B h = (let v = (ucast h :: u32) in unat (v - div32 v * of_nat (pNumThreads B)))"

text \<open>Thread t's map. Its batches hold the next 128 values of this thread.\<close>

definition psi_fillThread :: "(u32 \<Rightarrow> u32) \<Rightarrow> psi_base \<Rightarrow> block list \<Rightarrow> nat \<Rightarrow> psi_map res" where
  "psi_fillThread div32 B myHashes t =
     foldr_res (\<lambda>i. psi_insert (myHashes ! i AND psiMask (pMaskSize B), i))
       (filter (\<lambda>i. psiThread div32 B (myHashes ! i) = t) [0..<length myHashes]) Map.empty"

definition psi_findThread :: "(u32 \<Rightarrow> u32) \<Rightarrow> psi_base \<Rightarrow> psi_map \<Rightarrow> u8 list \<Rightarrow> nat \<Rightarrow> nat list" where
  "psi_findThread div32 B m theirHashes t =
     snd (fold (\<lambda>i (h, inter). let h = memcpyBlock h (theirRow B theirHashes i) in
       (h, if psiThread div32 B h = t then (case m h of Some v \<Rightarrow> inter @ [v] | None \<Rightarrow> inter) else inter)) [0..<pSenderSize B] (0, []))"

text \<open>Its steps on the shared memory: a store for each value it finds, and the merge.\<close>

datatype psi_event = Found nat nat | Merge nat

fun eventThread :: "psi_event \<Rightarrow> nat" where
  "eventThread (Found t v) = t"
| "eventThread (Merge t) = t"

definition psi_events :: "nat \<Rightarrow> nat list \<Rightarrow> psi_event list" where
  "psi_events t found = map (Found t) found @ [Merge t]"

record psi_shared =
  sMem :: "nat list"
  sCount :: "nat list"
  sInter :: "nat list"

text \<open>\<open>(u64* )&myHashes[begin]\<close>, two words for a block.\<close>

definition psiBegin :: "nat \<Rightarrow> nat \<Rightarrow> nat \<Rightarrow> nat" where
  "psiBegin n T t = t * n div T"

fun psi_step :: "nat \<Rightarrow> nat \<Rightarrow> psi_event \<Rightarrow> psi_shared \<Rightarrow> psi_shared res" where
  "psi_step n T (Found t v) s =
     (let slot = 2 * psiBegin n T t + sCount s ! t in
      if slot < length (sMem s) then Inr (s\<lparr>sMem := (sMem s)[slot := v], sCount := (sCount s)[t := sCount s ! t + 1]\<rparr>)
      else Inl UB)"
| "psi_step n T (Merge t) s =
     Inr (s\<lparr>sInter := sInter s @ take (sCount s ! t) (drop (2 * psiBegin n T t) (sMem s))\<rparr>)"

definition RsPsiReceiver_runN :: "(u32 \<Rightarrow> u32) \<Rightarrow> nat list \<Rightarrow> psi_base \<Rightarrow> block list \<Rightarrow> u8 list \<Rightarrow> nat list res" where
  "RsPsiReceiver_runN div32 sched B myHashes msg =
     (let T = pNumThreads B; n = length myHashes in
      rbind (mapr (psi_fillThread div32 B myHashes) [0..<T]) (\<lambda>maps.
      rbind (psi_recv B msg) (\<lambda>theirHashes.
      rbind (foldr_res (psi_step n T)
          (interleave sched (map (\<lambda>t. psi_events t (psi_findThread div32 B (maps ! t) theirHashes t)) [0..<T]))
          \<lparr>sMem = concat (map (\<lambda>h. [unat (lo64 h), unat (hi64 h)]) myHashes), sCount = replicate T 0, sInter = []\<rparr>) (\<lambda>s.
      Inr (sInter s)))))"

end
