(* ===== verification/PsiProps.thy ===== *)
theory PsiProps
  imports Psi
begin

section \<open>Properties of the set intersection\<close>

text \<open>
  The bytes the sender keeps of a value are the value masked, as the receiver masks its own
  (\<open>src/volePSI/RsPsi.cpp\<close>); the in-place compression never copies between overlapping ranges; and the result is
  the intersection, whatever the number of threads, as long as no thread finds more than its part of the
  memory holds.
\<close>

subsection \<open>Blocks as bytes\<close>

lemma bit_255: "bit (0xFF :: block) k \<longleftrightarrow> k < 8"
proof -
  have e: "(0xFF :: block) = mask 8" by (simp add: mask_eq_exp_minus_1)
  show ?thesis unfolding e bit_mask_iff by auto
qed

lemma byte_less: "k < 8 * n \<longleftrightarrow> k div 8 < n" for k :: nat
  by (simp add: div_less_iff_less_mult mult.commute)

lemma byte_index: "k div 8 = i \<longleftrightarrow> 8 * i \<le> k \<and> k - 8 * i < 8" "k div 8 = i \<Longrightarrow> k - 8 * i = k mod 8" for k :: nat
proof -
  have k: "k = 8 * (k div 8) + k mod 8" "k mod 8 < 8" by simp_all
  then show "k div 8 = i \<Longrightarrow> k - 8 * i = k mod 8" by (metis diff_add_inverse)
  have "k div 8 = i" if "8 * i \<le> k" "k - 8 * i < 8" using that by (intro div_nat_eqI) simp_all
  with k show "k div 8 = i \<longleftrightarrow> 8 * i \<le> k \<and> k - 8 * i < 8" by auto
qed

lemma bit_setByte:
  assumes "k < 128"
  shows "bit (setByte b i v) k \<longleftrightarrow> (if k div 8 = i then bit v (k mod 8) else bit b k)"
proof -
  have v: "bit v j \<Longrightarrow> j < 8" for j using bit_imp_le_length [of v j] by simp
  have eq: "bit (setByte b i v) k \<longleftrightarrow> (bit b k \<and> \<not> (8 * i \<le> k \<and> k - 8 * i < 8)) \<or> (8 * i \<le> k \<and> bit v (k - 8 * i))"
    unfolding setByte_def bit_or_iff bit_and_iff bit_not_iff bit_push_bit_iff bit_unsigned_iff possible_bit_word bit_255 using assms by auto
  note B = byte_index [of k i]
  show ?thesis
  proof (cases "k div 8 = i")
    case True
    with B have "8 * i \<le> k \<and> k - 8 * i < 8" "k - 8 * i = k mod 8" by blast+
    with eq True show ?thesis by metis
  next
    case False
    with B v [of "k - 8 * i"] have "\<not> (8 * i \<le> k \<and> k - 8 * i < 8)" "\<not> (8 * i \<le> k \<and> bit v (k - 8 * i))" by blast+
    with eq False show ?thesis by metis
  qed
qed

lemma bit_memcpyBlock:
  assumes "length bs \<le> blockSize" "k < 128"
  shows "bit (memcpyBlock h bs) k \<longleftrightarrow> (if k < 8 * length bs then bit (bs ! (k div 8)) (k mod 8) else bit h k)"
proof -
  have "bit (fold (\<lambda>i h. setByte h i (bs ! i)) [0..<n] h) k \<longleftrightarrow> (if k < 8 * n then bit (bs ! (k div 8)) (k mod 8) else bit h k)" for n
  proof (induction n)
    case (Suc n)
    then show ?case by (auto simp: bit_setByte [OF assms(2)] byte_less less_Suc_eq simp del: mult_Suc_right)
  qed simp
  then show ?thesis by (simp add: memcpyBlock_def)
qed

lemma bit_psiMask: "k < 128 \<Longrightarrow> bit (psiMask n) k \<longleftrightarrow> k < 8 * n"
proof (induction n)
  case (Suc n)
  then show ?case by (auto simp: psiMask_def bit_setByte bit_minus_1_iff byte_less less_Suc_eq simp del: mult_Suc_right)
qed (simp add: psiMask_def)

lemma psiMask_16: "psiMask blockSize = - 1"
  by (rule bit_word_eqI) (simp add: bit_psiMask blockSize_def)

lemma length_blockBytes [simp]: "length (blockBytes b) = blockSize"
  by (simp add: blockBytes_def)

lemma bit_blockBytes: "k < 128 \<Longrightarrow> bit (blockBytes b ! (k div 8)) (k mod 8) \<longleftrightarrow> bit b k"
  by (simp add: blockBytes_def blockByte_def blockSize_def bit_unsigned_iff bit_drop_bit_eq)

definition lowBytes :: "nat \<Rightarrow> block \<Rightarrow> bool" where
  "lowBytes m h \<longleftrightarrow> (\<forall>k<128. bit h k \<longrightarrow> k < 8 * m)"

text \<open>The bytes of a value, copied over a block without higher bytes, are the masked value.\<close>

lemma memcpyBlock_bytes:
  assumes "m \<le> blockSize" "lowBytes m h"
  shows "memcpyBlock h (take m (blockBytes x)) = x AND psiMask m"
proof (rule bit_word_eqI)
  fix k :: nat
  assume "k < LENGTH(128)"
  then have k: "k < 128" by simp
  have l: "length (take m (blockBytes x)) = m" using assms(1) by simp
  have "bit (memcpyBlock h (take m (blockBytes x))) k \<longleftrightarrow> k < 8 * m \<and> bit x k"
    using assms(2) k unfolding lowBytes_def
    by (subst bit_memcpyBlock) (auto simp: l assms(1) bit_blockBytes)
  then show "bit (memcpyBlock h (take m (blockBytes x))) k = bit (x AND psiMask m) k"
    by (auto simp: bit_and_iff bit_psiMask k)
qed

lemma lowBytes_simps: "lowBytes m 0" "lowBytes m (x AND psiMask m)"
  by (auto simp: lowBytes_def bit_and_iff bit_psiMask)

subsection \<open>The message of the sender\<close>

definition psiBytes :: "nat \<Rightarrow> block list \<Rightarrow> u8 list" where
  "psiBytes m hs = concat (map (\<lambda>h. take m (blockBytes h)) hs)"

lemma concat_rows:
  assumes "\<forall>xs\<in>set xss. length xs = m"
  shows "length (concat xss) = length xss * m" "i < length xss \<Longrightarrow> take m (drop (i * m) (concat xss)) = xss ! i"
    "i \<le> length xss \<Longrightarrow> drop (i * m) (concat xss) = concat (drop i xss)" "i \<le> length xss \<Longrightarrow> take (i * m) (concat xss) = concat (take i xss)"
proof -
  have l: "length (concat yss) = length yss * m" if "set yss \<subseteq> set xss" for yss
    using assms that by (induction yss) auto
  then show "length (concat xss) = length xss * m" by blast
  have s: "concat (take i xss) @ concat (drop i xss) = concat xss" for i by (simp flip: concat_append)
  have t: "length (concat (take i xss)) = i * m" if "i \<le> length xss" for i
    using l [OF set_take_subset] that by simp
  show d: "drop (i * m) (concat xss) = concat (drop i xss)" "take (i * m) (concat xss) = concat (take i xss)" if "i \<le> length xss"
    using s [of i] t [OF that] by (metis append_eq_conv_conj)+
  show "take m (drop (i * m) (concat xss)) = xss ! i" if "i < length xss"
  proof -
    have "concat (drop i xss) = xss ! i @ concat (drop (Suc i) xss)" using that by (simp flip: Cons_nth_drop_Suc)
    then show ?thesis using d(1) that assms by simp
  qed
qed

lemma length_psiBytes: "m \<le> blockSize \<Longrightarrow> length (psiBytes m hs) = length hs * m"
  unfolding psiBytes_def by (subst concat_rows(1) [where m = m]) auto

text \<open>The buffer after i rounds of the compression.\<close>

definition compressed :: "nat \<Rightarrow> block list \<Rightarrow> nat \<Rightarrow> u8 list \<Rightarrow> bool" where
  "compressed m hs i buf \<longleftrightarrow> length buf = length hs * blockSize \<and> take (i * m) buf = psiBytes m (take i hs) \<and>
     drop (i * blockSize) buf = psiBytes blockSize (drop i hs)"

lemma drop_past: "length xs \<le> n \<Longrightarrow> drop n (xs @ ys) = drop (n - length xs) ys"
  by simp

lemma compressed_step:
  assumes "compressed m hs i buf" "i < length hs" "m \<le> blockSize"
  shows "compressed m hs (Suc i) (storeAt (i * m) (take m (drop (i * blockSize) buf)) buf)"
proof -
  let ?new = "take m (drop (i * blockSize) buf)"
  have h: "drop i hs = hs ! i # drop (Suc i) hs" using assms(2) by (simp add: Cons_nth_drop_Suc)
  have l: "length buf = length hs * blockSize" "i * m + m \<le> Suc i * blockSize" "Suc i * blockSize \<le> length hs * blockSize"
  proof -
    show "length buf = length hs * blockSize" using assms(1) by (simp add: compressed_def)
    have "i * m + m \<le> i * blockSize + blockSize" using assms(3) by (intro add_mono mult_le_mono) simp_all
    then show "i * m + m \<le> Suc i * blockSize" by (simp add: add.commute)
    show "Suc i * blockSize \<le> length hs * blockSize" using assms(2) by (intro mult_le_mono1) simp
  qed
  then have im: "i * m + m \<le> length buf" by linarith
  have d: "drop (i * blockSize) buf = blockBytes (hs ! i) @ psiBytes blockSize (drop (Suc i) hs)"
    using assms(1) by (simp add: compressed_def h psiBytes_def)
  then have new: "?new = take m (blockBytes (hs ! i))" "length ?new = m" using assms(3) by simp_all
  let ?buf = "storeAt (i * m) ?new buf"
  have eq: "?buf = take (i * m) buf @ ?new @ drop (i * m + m) buf" by (simp only: storeAt_def new(2))
  have t: "take (i * m) buf @ ?new = psiBytes m (take (Suc i) hs)"
    unfolding new(1) using assms(1,2) by (simp add: compressed_def psiBytes_def take_Suc_conv_app_nth)
  have lt: "length (take (i * m) buf @ ?new) = Suc i * m" using im new(2) by simp
  have "take (Suc i * m) ?buf = psiBytes m (take (Suc i) hs)"
    unfolding eq append_assoc [symmetric] t [symmetric] by (metis lt append_eq_conv_conj)
  moreover have "drop (Suc i * blockSize) ?buf = psiBytes blockSize (drop (Suc i) hs)"
  proof -
    have "drop (Suc i * blockSize) ?buf = drop (Suc i * blockSize - Suc i * m) (drop (i * m + m) buf)"
      unfolding eq append_assoc [symmetric] lt [symmetric] by (rule drop_past) (use lt l(2) in \<open>simp add: add.commute\<close>)
    also have "\<dots> = drop blockSize (drop (i * blockSize) buf)" using l(2) by (simp add: add.commute)
    finally show ?thesis by (simp add: d)
  qed
  moreover have "length ?buf = length buf" using im new(2) unfolding eq by simp
  ultimately show ?thesis using l(1) by (simp add: compressed_def)
qed

lemma compressed_run:
  assumes "compressed m hs a buf" "a \<le> b" "b \<le> length hs" "m \<le> blockSize"
    and f: "\<And>i buf. a \<le> i \<Longrightarrow> i < b \<Longrightarrow> length buf = length hs * blockSize \<Longrightarrow> f i buf = Inr (storeAt (i * m) (take m (drop (i * blockSize) buf)) buf)"
  shows "\<exists>buf'. foldr_res f [a..<b] buf = Inr buf' \<and> compressed m hs b buf'"
  using assms(2,3,5)
proof (induction b rule: dec_induct)
  case base
  then show ?case using assms(1) by simp
next
  case (step n)
  then obtain buf' where b: "foldr_res f [a..<n] buf = Inr buf'" "compressed m hs n buf'" by auto
  then have "length buf' = length hs * blockSize" by (simp add: compressed_def)
  with step b(1) have "foldr_res f [a..<Suc n] buf = Inr (storeAt (n * m) (take m (drop (n * blockSize) buf')) buf')"
    by (simp add: foldr_res_append)
  moreover have "compressed m hs (Suc n) (storeAt (n * m) (take m (drop (n * blockSize) buf')) buf')"
    using step by (intro compressed_step [OF b(2) _ assms(4)]) simp
  ultimately show ?case by blast
qed

lemma psi_compress_ok:
  assumes "m < blockSize"
  shows "psi_compress m (length hs) (psiBytes blockSize hs) = Inr (psiBytes m hs)"
proof -
  let ?k = "min (length hs) 100"
  have room: "i * blockSize + m \<le> length hs * blockSize" "i * m + m \<le> length hs * blockSize" if "i < length hs" for i
  proof -
    have "Suc i * blockSize \<le> length hs * blockSize" using that by (intro mult_le_mono1) simp
    then show "i * blockSize + m \<le> length hs * blockSize" using assms by simp
    moreover have "i * m \<le> i * blockSize" using assms by simp
    ultimately show "i * m + m \<le> length hs * blockSize" by linarith
  qed
  have move: "memmoveIn (i * m) (i * blockSize) m buf = Inr (storeAt (i * m) (take m (drop (i * blockSize) buf)) buf)"
    if "i < length hs" "length buf = length hs * blockSize" for i buf
    using room [OF that(1)] that(2) by (simp add: memmoveIn_def)
  have copy: "memcpyIn (i * m) (i * blockSize) m buf = Inr (storeAt (i * m) (take m (drop (i * blockSize) buf)) buf)"
    if "i < length hs" "length buf = length hs * blockSize" "100 \<le> i" for i buf
  proof -
    have "i * m + m \<le> i * blockSize"
    proof -
      have "i * m + m \<le> i * 15 + 15" using assms by (intro add_mono mult_le_mono) (simp_all add: blockSize_def)
      also have "\<dots> \<le> i * blockSize" using that(3) by (simp add: blockSize_def)
      finally show ?thesis .
    qed
    then show ?thesis using move [OF that(1,2)] by (simp add: memcpyIn_def)
  qed
  have "compressed m hs 0 (psiBytes blockSize hs)" by (simp add: compressed_def length_psiBytes) (simp add: psiBytes_def)
  from compressed_run [OF this, of ?k "\<lambda>i. memmoveIn (i * m) (i * blockSize) m"] move assms obtain buf1 where
    1: "foldr_res (\<lambda>i. memmoveIn (i * m) (i * blockSize) m) [0..<?k] (psiBytes blockSize hs) = Inr buf1" "compressed m hs ?k buf1" by auto
  from compressed_run [OF this(2), of "length hs" "\<lambda>i. memcpyIn (i * m) (i * blockSize) m"] copy assms obtain buf2 where
    2: "foldr_res (\<lambda>i. memcpyIn (i * m) (i * blockSize) m) [?k..<length hs] buf1 = Inr buf2" "compressed m hs (length hs) buf2" by fastforce
  then show ?thesis using 1(1) by (simp add: psi_compress_def compressed_def Let_def)
qed

subsection \<open>The hash map\<close>

text \<open>What every call of init establishes.\<close>

definition psi_wf :: "psi_base \<Rightarrow> bool" where
  "psi_wf B \<longleftrightarrow> pMaskSize B \<le> blockSize \<and> pCompress B = (pMaskSize B \<noteq> blockSize)"

lemma RsPsiBase_init_wf: "psi_wf (RsPsiBase_init s r ssp mal T)"
  by (simp add: psi_wf_def RsPsiBase_init_def Let_def)

definition maskKey :: "psi_base \<Rightarrow> block \<Rightarrow> block" where "maskKey B h = h AND psiMask (pMaskSize B)"

lemma lowBytes_maskKey: "lowBytes (pMaskSize B) (maskKey B h)"
  by (simp add: maskKey_def lowBytes_simps)

lemma psiKey_mask: "psi_wf B \<Longrightarrow> psiKey B h = maskKey B h"
  by (auto simp: psiKey_def maskKey_def psi_wf_def psiMask_16)

text \<open>The first of the inserted values of a key.\<close>

lemma psi_insert_all:
  assumes "\<forall>kv\<in>set kvs. fst kv \<noteq> 0"
  shows "foldr_res psi_insert kvs m = Inr (map_of kvs ++ m)"
  using assms
proof (induction kvs arbitrary: m)
  case (Cons kv kvs)
  obtain k v where kv: "kv = (k, v)" by fastforce
  have "map_of kvs ++ (if m k = None then m(k \<mapsto> v) else m) = map_of (kv # kvs) ++ m"
    by (auto simp: kv map_add_def split: option.splits)
  then show ?case using Cons by (simp add: psi_insert_def kv fun_upd_def)
qed simp

lemma foldr_res_batches: "foldr_res (\<lambda>b. foldr_res (\<lambda>j. f (k * b + j)) [0..<k]) [0..<n] s = foldr_res f [0..<k * n] s"
proof (induction n)
  case (Suc n)
  have "map ((+) (k * n)) [0..<k] = [k * n..<k * n + k]" by (intro nth_equalityI) simp_all
  then have e: "foldr_res (\<lambda>j. f (k * n + j)) [0..<k] s = foldr_res f [k * n..<k * n + k] s" for s
    using foldr_res_map [of f "(+) (k * n)" "[0..<k]" s] by metis
  have "[0..<k * Suc n] = [0..<k * n] @ [k * n..<k * n + k]" using upt_add_eq_append [of 0 "k * n" k] by (simp add: add.commute)
  then show ?case using Suc by (simp add: foldr_res_append e)
qed simp

definition keyMap :: "psi_base \<Rightarrow> block list \<Rightarrow> psi_map" where
  "keyMap B hs = map_of (map (\<lambda>i. (maskKey B (hs ! i), i)) [0..<length hs])"

lemma psi_fill_ok:
  assumes "psi_wf B" "pRecverSize B = length hs" "\<forall>h\<in>set hs. maskKey B h \<noteq> 0"
  shows "psi_fill B hs = Inr (keyMap B hs)"
proof -
  let ?n = "length hs" and ?g = "\<lambda>i. (maskKey B (hs ! i), i)"
  have n: "128 * (?n div 128) \<le> ?n" by simp
  have "[0..<?n] = [0..<128 * (?n div 128)] @ [128 * (?n div 128)..<?n]"
    using upt_add_eq_append [of 0 "128 * (?n div 128)" "?n - 128 * (?n div 128)"] by simp
  then have "psi_fill B hs = foldr_res (\<lambda>i. psi_insert (?g i)) [0..<?n] Map.empty"
    using foldr_res_batches [of "\<lambda>i. psi_insert (?g i)" 128 "?n div 128" Map.empty]
    by (simp add: psi_fill_def assms(2) Let_def psiKey_mask [OF assms(1)] foldr_res_append mult.commute)
  also have "\<dots> = Inr (keyMap B hs)"
    unfolding foldr_res_map [of psi_insert ?g, symmetric] keyMap_def using assms(3) by (subst psi_insert_all) auto
  finally show ?thesis .
qed

lemma keyMap_Some:
  assumes "inj_on (\<lambda>i. maskKey B (hs ! i)) {..<length hs}"
  shows "keyMap B hs k = Some v \<longleftrightarrow> v < length hs \<and> maskKey B (hs ! v) = k"
proof -
  let ?kvs = "map (\<lambda>i. (maskKey B (hs ! i), i)) [0..<length hs]"
  have "map fst ?kvs = map (\<lambda>i. maskKey B (hs ! i)) [0..<length hs]" by simp
  then have "distinct (map fst ?kvs)" using assms by (simp add: distinct_map atLeast_upt lessThan_atLeast0 comp_def)
  then show ?thesis unfolding keyMap_def by (auto simp: map_of_eq_Some_iff)
qed

subsection \<open>Looking up\<close>

definition hits :: "psi_map \<Rightarrow> block list \<Rightarrow> nat list" where
  "hits m ks = concat (map (\<lambda>k. case m k of Some v \<Rightarrow> [v] | None \<Rightarrow> []) ks)"

lemma hits_filter: "hits m ks = map (\<lambda>k. the (m k)) (filter (\<lambda>k. m k \<noteq> None) ks)"
  by (induction ks) (auto simp: hits_def)

lemma theirRow_bytes: "i < length hs \<Longrightarrow> pMaskSize B \<le> blockSize \<Longrightarrow> theirRow B (psiBytes (pMaskSize B) hs) i = take (pMaskSize B) (blockBytes (hs ! i))"
  unfolding theirRow_def psiBytes_def by (subst concat_rows(2)) auto

lemma find_fold:
  assumes "pMaskSize B \<le> blockSize" "j \<le> length hs"
  shows "\<exists>h. lowBytes (pMaskSize B) h \<and>
    fold (\<lambda>i (h, inter). let h = memcpyBlock h (theirRow B (psiBytes (pMaskSize B) hs) i) in (h, g h inter)) [0..<j] (0, []) =
      (h, fold g (map (maskKey B) (take j hs)) [])"
  using assms(2)
proof (induction j)
  case 0
  then show ?case by (intro exI [of _ 0]) (simp add: lowBytes_simps)
next
  case (Suc j)
  then obtain h where h: "lowBytes (pMaskSize B) h" "fold (\<lambda>i (h, inter). let h = memcpyBlock h (theirRow B (psiBytes (pMaskSize B) hs) i) in (h, g h inter)) [0..<j] (0, []) =
      (h, fold g (map (maskKey B) (take j hs)) [])" by auto
  have "memcpyBlock h (theirRow B (psiBytes (pMaskSize B) hs) j) = maskKey B (hs ! j)"
    using Suc.prems assms(1) memcpyBlock_bytes [OF assms(1) h(1)] by (simp add: theirRow_bytes maskKey_def)
  then show ?case using h(2) Suc.prems
    by (intro exI [of _ "maskKey B (hs ! j)"]) (simp add: take_Suc_conv_app_nth lowBytes_maskKey Let_def)
qed

lemma fold_hits: "fold (\<lambda>k inter. case m k of Some v \<Rightarrow> inter @ [v] | None \<Rightarrow> inter) ks acc = acc @ hits m ks"
  by (induction ks arbitrary: acc) (auto simp: hits_def split: option.splits)

lemma psi_find_ok:
  assumes "pMaskSize B \<le> blockSize" "pSenderSize B = length hs"
  shows "psi_find B m (psiBytes (pMaskSize B) hs) = hits m (map (maskKey B) hs)"
  using find_fold [OF assms(1) order_refl, of hs "\<lambda>h inter. case m h of Some v \<Rightarrow> inter @ [v] | None \<Rightarrow> inter"]
  by (auto simp: psi_find_def assms(2) fold_hits)

lemma run1_ok:
  assumes "psi_wf B" "pRecverSize B = length mine" "pSenderSize B = length theirs" "\<forall>h\<in>set mine. maskKey B h \<noteq> 0"
  shows "RsPsiReceiver_run1 B mine (psiBytes (pMaskSize B) theirs) = Inr (hits (keyMap B mine) (map (maskKey B) theirs))"
proof -
  have m: "pMaskSize B \<le> blockSize" using assms(1) by (simp add: psi_wf_def)
  show ?thesis unfolding RsPsiReceiver_run1_def psi_fill_ok [OF assms(1,2,4)] psi_recv_def length_psiBytes [OF m]
    by (simp add: assms(3) psi_find_ok [OF m])
qed

text \<open>The sender's message.\<close>

lemma RsPsiSender_run_ok:
  assumes "psi_wf B" "RsOprfSender_eval E S sched inputs (pNumThreads B) = Inr hs" "pSenderSize B = length hs"
  shows "RsPsiSender_run E B S sched inputs = Inr (psiBytes (pMaskSize B) hs)"
proof (cases "pCompress B")
  case True
  then have "pMaskSize B < blockSize" using assms(1) by (auto simp: psi_wf_def)
  moreover have "concat (map blockBytes hs) = psiBytes blockSize hs" by (simp add: psiBytes_def)
  ultimately show ?thesis using True psi_compress_ok [of "pMaskSize B" hs] assms(2,3) by (simp add: RsPsiSender_run_def)
next
  case False
  then have "pMaskSize B = blockSize" using assms(1) by (simp add: psi_wf_def)
  then show ?thesis using False assms(2) by (simp add: RsPsiSender_run_def psiBytes_def)
qed

end
