(* ===== verification/PsiThreads.thy ===== *)
theory PsiThreads
  imports PsiProps "HOL-Library.Sublist"
begin

section \<open>The threads of the set intersection\<close>

text \<open>
  The worker threads of \<open>RsPsiReceiver::run\<close> (\<open>src/volePSI/RsPsi.cpp\<close>) store what they find in disjoint parts of
  one memory, as long as no part overflows; then every interleaving gives the same values as one thread.
\<close>

subsection \<open>The thread of a value\<close>

definition div32_ok :: "(u32 \<Rightarrow> u32) \<Rightarrow> nat \<Rightarrow> bool" where
  "div32_ok div32 T \<longleftrightarrow> 0 < T \<and> T < 2 ^ 32 \<and> (\<forall>v. div32 v = v div of_nat T)"

lemma psiThread_mod:
  assumes "div32_ok div32 (pNumThreads B)"
  shows "psiThread div32 B h = unat (ucast h :: u32) mod pNumThreads B"
proof -
  let ?T = "of_nat (pNumThreads B) :: u32" and ?v = "ucast h :: u32"
  have u: "unat ?T = pNumThreads B" using assms by (simp add: div32_ok_def unat_of_nat)
  have "psiThread div32 B h = unat (?v - ?v div ?T * ?T)" using assms by (simp add: psiThread_def div32_ok_def Let_def)
  also have "?v - ?v div ?T * ?T = ?v mod ?T" by (rule minus_div_mult_eq_mod)
  finally show ?thesis by (simp add: unat_mod u)
qed

lemma psiThread_mask:
  assumes "4 \<le> pMaskSize B"
  shows "psiThread div32 B (maskKey B h) = psiThread div32 B h"
proof -
  have "(ucast (maskKey B h) :: u32) = ucast h"
    by (rule bit_word_eqI) (use assms in \<open>auto simp: maskKey_def bit_unsigned_iff bit_and_iff bit_psiMask\<close>)
  then show ?thesis by (simp add: psiThread_def)
qed

lemma map_of_filter_key:
  assumes "\<And>i. P i \<longleftrightarrow> Q (K i)"
  shows "map_of (map (\<lambda>i. (K i, i)) (filter P xs)) k = (if Q k then map_of (map (\<lambda>i. (K i, i)) xs) k else None)"
  by (induction xs) (auto simp: assms)

lemma psi_fillThread_ok:
  assumes "4 \<le> pMaskSize B" "\<forall>h\<in>set hs. maskKey B h \<noteq> 0"
  shows "\<exists>m. psi_fillThread div32 B hs t = Inr m \<and> (\<forall>k. psiThread div32 B k = t \<longrightarrow> m k = keyMap B hs k)"
proof -
  let ?K = "\<lambda>i. maskKey B (hs ! i)"
  let ?I = "filter (\<lambda>i. psiThread div32 B (hs ! i) = t) [0..<length hs]"
  have "psi_fillThread div32 B hs t = foldr_res psi_insert (map (\<lambda>i. (?K i, i)) ?I) Map.empty"
    by (simp add: psi_fillThread_def foldr_res_map maskKey_def)
  also have "\<dots> = Inr (map_of (map (\<lambda>i. (?K i, i)) ?I))" using assms(2) by (subst psi_insert_all) auto
  finally have "psi_fillThread div32 B hs t = \<dots>" .
  moreover have "map_of (map (\<lambda>i. (?K i, i)) ?I) k = keyMap B hs k" if "psiThread div32 B k = t" for k
    using map_of_filter_key [of "\<lambda>i. psiThread div32 B (hs ! i) = t" "\<lambda>k. psiThread div32 B k = t" ?K "[0..<length hs]" k] that
    by (simp add: psiThread_mask [OF assms(1)] keyMap_def)
  ultimately show ?thesis by blast
qed

definition foundKeys :: "(u32 \<Rightarrow> u32) \<Rightarrow> psi_base \<Rightarrow> psi_map \<Rightarrow> block list \<Rightarrow> nat \<Rightarrow> nat list" where
  "foundKeys div32 B m ks t = hits m (filter (\<lambda>k. psiThread div32 B k = t) ks)"

lemma fold_foundKeys:
  "fold (\<lambda>k inter. if psiThread div32 B k = t then (case m k of Some v \<Rightarrow> inter @ [v] | None \<Rightarrow> inter) else inter) ks acc =
    acc @ foundKeys div32 B m ks t"
  by (induction ks arbitrary: acc) (auto simp: foundKeys_def hits_def split: option.splits)

lemma psi_findThread_ok:
  assumes "pMaskSize B \<le> blockSize" "pSenderSize B = length hs"
  shows "psi_findThread div32 B m (psiBytes (pMaskSize B) hs) t = foundKeys div32 B m (map (maskKey B) hs) t"
  using find_fold [OF assms(1) order_refl, of hs "\<lambda>k inter. if psiThread div32 B k = t then (case m k of Some v \<Rightarrow> inter @ [v] | None \<Rightarrow> inter) else inter"]
  by (auto simp: psi_findThread_def assms(2) fold_foundKeys)

lemma foundKeys_cong:
  assumes "\<forall>k. psiThread div32 B k = t \<longrightarrow> m k = m' k"
  shows "foundKeys div32 B m ks t = foundKeys div32 B m' ks t"
  using assms by (induction ks) (auto simp: foundKeys_def hits_def)

text \<open>Every value belongs to one thread.\<close>

lemma foundKeys_partition:
  assumes "\<forall>k\<in>set ks. psiThread div32 B k < T"
  shows "(\<Sum>t<T. mset (foundKeys div32 B m ks t)) = mset (hits m ks)"
  using assms
proof (induction ks)
  case (Cons k ks)
  have "mset (foundKeys div32 B m (k # ks) t) = (if psiThread div32 B k = t then mset (hits m [k]) else {#}) + mset (foundKeys div32 B m ks t)" for t
    by (simp add: foundKeys_def hits_def)
  then have "(\<Sum>t<T. mset (foundKeys div32 B m (k # ks) t)) = mset (hits m [k]) + (\<Sum>t<T. mset (foundKeys div32 B m ks t))"
    using Cons.prems by (simp add: sum.distrib sum.delta' sum.delta)
  then show ?case using Cons by (simp add: hits_def)
qed (simp add: foundKeys_def hits_def)

subsection \<open>The shared memory\<close>

fun foundBy :: "nat \<Rightarrow> psi_event list \<Rightarrow> nat list" where
  "foundBy t [] = []"
| "foundBy t (Found u v # es) = (if u = t then v # foundBy t es else foundBy t es)"
| "foundBy t (Merge u # es) = foundBy t es"

lemma foundBy_append: "foundBy t (es @ fs) = foundBy t es @ foundBy t fs"
  by (induction t es rule: foundBy.induct) simp_all

lemma foundBy_filter: "foundBy t (filter (\<lambda>e. eventThread e = t) es) = foundBy t es"
  by (induction t es rule: foundBy.induct) auto

lemma foundBy_Found: "foundBy t (map (Found t) vs) = vs"
  by (induction vs) simp_all

text \<open>Before a store and before the merge.\<close>

lemma prefix_Found:
  assumes "prefix (q @ [Found t v]) (psi_events t fs)"
  shows "\<exists>k<length fs. q = map (Found t) (take k fs) \<and> v = fs ! k"
proof -
  have "prefix (q @ [Found t v]) (map (Found t) fs)" using assms by (auto simp: psi_events_def)
  then obtain r where r: "map (Found t) fs = q @ [Found t v] @ r" by (auto simp: prefix_def)
  let ?k = "length q"
  have k: "?k < length fs" using arg_cong [OF r, of length] by simp
  have "q = take ?k (map (Found t) fs)" unfolding r by simp
  moreover have "Found t v = map (Found t) fs ! ?k" unfolding r by simp
  ultimately show ?thesis using k by (intro exI [of _ ?k]) (simp add: take_map)
qed

lemma prefix_Merge:
  assumes "prefix (q @ [Merge t]) (psi_events t fs)"
  shows "q = map (Found t) fs"
proof -
  have "\<not> prefix (q @ [Merge t]) (map (Found t) fs)"
  proof
    assume "prefix (q @ [Merge t]) (map (Found t) fs)"
    then obtain r where r: "map (Found t) fs = q @ [Merge t] @ r" by (auto simp: prefix_def)
    have "Merge t \<in> set (map (Found t) fs)" unfolding r by simp
    then show False by auto
  qed
  then show ?thesis using assms by (auto simp: psi_events_def)
qed

definition psi_prefix :: "nat \<Rightarrow> (nat \<Rightarrow> nat list) \<Rightarrow> psi_event list \<Rightarrow> bool" where
  "psi_prefix T fs p \<longleftrightarrow> (\<forall>e\<in>set p. eventThread e < T) \<and> (\<forall>t<T. prefix (filter (\<lambda>e. eventThread e = t) p) (psi_events t (fs t)))"

definition psi_inv :: "nat \<Rightarrow> nat \<Rightarrow> (nat \<Rightarrow> nat list) \<Rightarrow> psi_event list \<Rightarrow> psi_shared \<Rightarrow> bool" where
  "psi_inv n T fs p s \<longleftrightarrow> length (sMem s) = 2 * n \<and> length (sCount s) = T \<and>
     (\<forall>t<T. sCount s ! t = length (foundBy t p) \<and> take (sCount s ! t) (drop (2 * psiBegin n T t) (sMem s)) = foundBy t p) \<and>
     mset (sInter s) = (\<Sum>t\<in>{t. t < T \<and> Merge t \<in> set p}. mset (fs t))"

definition psi_room :: "nat \<Rightarrow> nat \<Rightarrow> (nat \<Rightarrow> nat list) \<Rightarrow> bool" where
  "psi_room n T fs \<longleftrightarrow> (\<forall>t<T. length (fs t) \<le> 2 * (psiBegin n T (Suc t) - psiBegin n T t))"

lemma psi_prefix_butlast: "psi_prefix T fs (p @ [e]) \<Longrightarrow> psi_prefix T fs p"
proof -
  assume a: "psi_prefix T fs (p @ [e])"
  have "prefix (filter (\<lambda>e. eventThread e = t) p) (psi_events t (fs t))" if "t < T" for t
  proof -
    have "prefix (filter (\<lambda>e. eventThread e = t) p @ filter (\<lambda>e. eventThread e = t) [e]) (psi_events t (fs t))"
      using a that unfolding psi_prefix_def filter_append by blast
    then show ?thesis by (rule append_prefixD)
  qed
  with a show ?thesis by (simp add: psi_prefix_def)
qed

lemma foundBy_le: "psi_prefix T fs p \<Longrightarrow> t < T \<Longrightarrow> length (foundBy t p) \<le> length (fs t)"
proof -
  assume "psi_prefix T fs p" "t < T"
  then obtain r where r: "psi_events t (fs t) = filter (\<lambda>e. eventThread e = t) p @ r" by (auto simp: psi_prefix_def prefix_def)
  have "foundBy t (psi_events t (fs t)) = fs t" by (simp add: psi_events_def foundBy_append foundBy_Found)
  then show ?thesis unfolding r foundBy_append foundBy_filter by (metis le_add1 length_append)
qed

lemma psiBegin_mono: "t \<le> u \<Longrightarrow> psiBegin n T t \<le> psiBegin n T u" and psiBegin_last: "0 < T \<Longrightarrow> psiBegin n T T = n"
  by (simp_all add: psiBegin_def div_le_mono)

lemma region_other:
  assumes "slot < a \<or> a + c \<le> slot"
  shows "take c (drop a (mem[slot := v])) = take c (drop a mem)"
  using assms by (intro nth_equalityI) auto

lemma region_own:
  assumes "a + k < length mem"
  shows "take (Suc k) (drop a (mem[a + k := v])) = take k (drop a mem) @ [v]"
  using assms by (intro nth_equalityI) (auto simp: nth_append less_Suc_eq)

lemma psi_step_Found:
  assumes "psi_prefix T fs (p @ [Found t v])" "psi_inv n T fs p s" "psi_room n T fs"
  shows "\<exists>s'. psi_step n T (Found t v) s = Inr s' \<and> psi_inv n T fs (p @ [Found t v]) s'"
proof -
  have t: "t < T" using assms(1) by (simp add: psi_prefix_def)
  have "prefix (filter (\<lambda>e. eventThread e = t) p @ [Found t v]) (psi_events t (fs t))"
    using assms(1) t by (auto simp: psi_prefix_def)
  from prefix_Found [OF this] obtain k where k: "k < length (fs t)" "filter (\<lambda>e. eventThread e = t) p = map (Found t) (take k (fs t))" by blast
  have f: "foundBy t p = take k (fs t)" unfolding foundBy_filter [of t p, symmetric] k(2) foundBy_Found ..
  let ?c = "sCount s ! t" and ?a = "\<lambda>t. 2 * psiBegin n T t"
  have I: "length (sMem s) = 2 * n" "length (sCount s) = T" "mset (sInter s) = (\<Sum>t\<in>{t. t < T \<and> Merge t \<in> set p}. mset (fs t))"
    and J: "\<And>u. u < T \<Longrightarrow> sCount s ! u = length (foundBy u p) \<and> take (sCount s ! u) (drop (?a u) (sMem s)) = foundBy u p"
    using assms(2) by (auto simp: psi_inv_def)
  have c: "?c < length (fs t)" using J [OF t] f k(1) by simp
  have room: "length (fs u) \<le> ?a (Suc u) - ?a u" if "u < T" for u using assms(3) that by (auto simp: psi_room_def diff_mult_distrib2)
  have slot: "?a t + ?c < ?a (Suc t)" using c room [OF t] by linarith
  have mono: "?a u \<le> ?a w" if "u \<le> w" for u w using psiBegin_mono [OF that, of n T] by simp
  have "?a T = 2 * n" using t by (simp add: psiBegin_last)
  with mono [of "Suc t" T] slot t have lt: "?a t + ?c < 2 * n" by simp
  let ?s = "s\<lparr>sMem := (sMem s)[?a t + ?c := v], sCount := (sCount s)[t := ?c + 1]\<rparr>"
  have "psi_step n T (Found t v) s = Inr ?s" using lt I(1) by (simp add: Let_def)
  moreover have "psi_inv n T fs (p @ [Found t v]) ?s" unfolding psi_inv_def
  proof (intro conjI allI impI)
    fix u assume u: "u < T"
    show "sCount ?s ! u = length (foundBy u (p @ [Found t v]))"
      using J [OF u] t I(2) by (simp add: nth_list_update foundBy_append)
    show "take (sCount ?s ! u) (drop (?a u) (sMem ?s)) = foundBy u (p @ [Found t v])"
    proof (cases "u = t")
      case True
      have "take (Suc ?c) (drop (?a t) ((sMem s)[?a t + ?c := v])) = foundBy t p @ [v]"
        using J [OF t] I(1) lt region_own [of "?a t" ?c "sMem s" v] by metis
      then show ?thesis using True t I(2) by (simp add: foundBy_append)
    next
      case False
      have cu: "sCount s ! u \<le> length (fs u)" using J [OF u] foundBy_le [OF psi_prefix_butlast [OF assms(1)] u] by simp
      have "?a t + ?c < ?a u \<or> ?a u + sCount s ! u \<le> ?a t + ?c"
      proof (cases "u < t")
        case True
        then have "?a (Suc u) \<le> ?a t" by (intro mono) simp
        moreover have "?a u \<le> ?a (Suc u)" by (intro mono) simp
        ultimately show ?thesis using cu room [OF u] by linarith
      next
        case l: False
        then have "?a (Suc t) \<le> ?a u" using False by (intro mono) simp
        then show ?thesis using slot by linarith
      qed
      from region_other [OF this, of "sMem s" v] J [OF u]
      have "take (sCount s ! u) (drop (?a u) ((sMem s)[?a t + ?c := v])) = foundBy u p" by metis
      then show ?thesis using False by (simp add: foundBy_append)
    qed
  qed (use I in auto)
  ultimately show ?thesis by blast
qed

lemma psi_step_Merge:
  assumes "psi_prefix T fs (p @ [Merge t])" "psi_inv n T fs p s"
  shows "\<exists>s'. psi_step n T (Merge t) s = Inr s' \<and> psi_inv n T fs (p @ [Merge t]) s'"
proof -
  have t: "t < T" using assms(1) by (simp add: psi_prefix_def)
  have "prefix (filter (\<lambda>e. eventThread e = t) p @ [Merge t]) (psi_events t (fs t))"
    using assms(1) t by (auto simp: psi_prefix_def)
  note q = prefix_Merge [OF this]
  have f: "foundBy t p = fs t" unfolding foundBy_filter [of t p, symmetric] q foundBy_Found ..
  have "Merge t \<notin> set (filter (\<lambda>e. eventThread e = t) p)" unfolding q by auto
  then have m: "Merge t \<notin> set p" by simp
  have "{u. u < T \<and> Merge u \<in> set (p @ [Merge t])} = insert t {u. u < T \<and> Merge u \<in> set p}" using t by auto
  moreover have "finite {u. u < T \<and> Merge u \<in> set p}" by simp
  ultimately have "(\<Sum>u\<in>{u. u < T \<and> Merge u \<in> set (p @ [Merge t])}. mset (fs u)) =
      mset (fs t) + (\<Sum>u\<in>{u. u < T \<and> Merge u \<in> set p}. mset (fs u))" using m by simp
  then show ?thesis using assms(2) t f by (auto simp: psi_inv_def foundBy_append add.commute)
qed

lemma psi_run:
  assumes "psi_prefix T fs p" "psi_room n T fs" "length mem = 2 * n"
  shows "\<exists>s. foldr_res (psi_step n T) p \<lparr>sMem = mem, sCount = replicate T 0, sInter = []\<rparr> = Inr s \<and> psi_inv n T fs p s"
  using assms(1)
proof (induction p rule: rev_induct)
  case Nil
  then show ?case using assms(3) by (simp add: psi_inv_def)
next
  case (snoc e p)
  from snoc.IH [OF psi_prefix_butlast [OF snoc.prems]] obtain s where
    s: "foldr_res (psi_step n T) p \<lparr>sMem = mem, sCount = replicate T 0, sInter = []\<rparr> = Inr s" "psi_inv n T fs p s" by blast
  have "\<exists>s'. psi_step n T e s = Inr s' \<and> psi_inv n T fs (p @ [e]) s'"
    using psi_step_Found [OF _ s(2) assms(2)] psi_step_Merge [OF _ s(2)] snoc.prems by (cases e) blast+
  then obtain s' where "psi_step n T e s = Inr s'" "psi_inv n T fs (p @ [e]) s'" by blast
  with s(1) show ?case by (auto simp: foldr_res_append)
qed

lemma psi_interleaving:
  assumes "psi_room n T fs" "length mem = 2 * n"
  shows "\<exists>s. foldr_res (psi_step n T) (interleave sched (map (\<lambda>t. psi_events t (fs t)) [0..<T])) \<lparr>sMem = mem, sCount = replicate T 0, sInter = []\<rparr> = Inr s \<and>
    mset (sInter s) = (\<Sum>t<T. mset (fs t))"
proof -
  let ?es = "map (\<lambda>t. psi_events t (fs t)) [0..<T]" and ?p = "interleave sched (map (\<lambda>t. psi_events t (fs t)) [0..<T])"
  have own: "owned eventThread ?es" by (auto simp: owned_def psi_events_def)
  have f: "filter (\<lambda>e. eventThread e = t) ?p = psi_events t (fs t)" if "t < T" for t
    using filter_interleave [OF own, of t sched] that by simp
  have "\<forall>e\<in>set ?p. eventThread e < T" by (auto simp: psi_events_def)
  then have "psi_prefix T fs ?p" by (simp add: psi_prefix_def f)
  from psi_run [OF this assms] obtain s where
    s: "foldr_res (psi_step n T) ?p \<lparr>sMem = mem, sCount = replicate T 0, sInter = []\<rparr> = Inr s" "psi_inv n T fs ?p s" by blast
  have "{t. t < T \<and> Merge t \<in> set ?p} = {..<T}" by (auto simp: psi_events_def)
  then show ?thesis using s by (auto simp: psi_inv_def)
qed

subsection \<open>The result\<close>

lemma mapr_exists:
  assumes "\<And>x. x \<in> set xs \<Longrightarrow> \<exists>y. f x = Inr y \<and> P x y"
  shows "\<exists>ys. mapr f xs = Inr ys \<and> length ys = length xs \<and> (\<forall>i<length xs. P (xs ! i) (ys ! i))"
  using assms
proof (induction xs)
  case (Cons x xs)
  then obtain ys where ys: "mapr f xs = Inr ys" "length ys = length xs" "\<forall>i<length xs. P (xs ! i) (ys ! i)" by auto
  from Cons.prems [of x] obtain y where "f x = Inr y" "P x y" by auto
  with ys show ?case by (intro exI [of _ "y # ys"]) (auto simp: nth_Cons split: nat.splits)
qed simp

lemma runN_eq:
  assumes "psi_wf B" "4 \<le> pMaskSize B" "pSenderSize B = length theirs" "\<forall>h\<in>set mine. maskKey B h \<noteq> 0"
  shows "RsPsiReceiver_runN div32 sched B mine (psiBytes (pMaskSize B) theirs) =
    rbind (foldr_res (psi_step (length mine) (pNumThreads B))
        (interleave sched (map (\<lambda>t. psi_events t (foundKeys div32 B (keyMap B mine) (map (maskKey B) theirs) t)) [0..<pNumThreads B]))
        \<lparr>sMem = concat (map (\<lambda>h. [unat (lo64 h), unat (hi64 h)]) mine), sCount = replicate (pNumThreads B) 0, sInter = []\<rparr>) (\<lambda>s. Inr (sInter s))"
proof -
  let ?T = "pNumThreads B"
  have m: "pMaskSize B \<le> blockSize" using assms(1) by (simp add: psi_wf_def)
  have "\<exists>maps. mapr (psi_fillThread div32 B mine) [0..<?T] = Inr maps \<and> length maps = length [0..<?T] \<and>
      (\<forall>i<length [0..<?T]. \<forall>k. psiThread div32 B k = [0..<?T] ! i \<longrightarrow> (maps ! i) k = keyMap B mine k)"
    by (intro mapr_exists psi_fillThread_ok assms)
  then obtain maps where maps: "mapr (psi_fillThread div32 B mine) [0..<?T] = Inr maps"
    "\<And>t. t < ?T \<Longrightarrow> \<forall>k. psiThread div32 B k = t \<longrightarrow> (maps ! t) k = keyMap B mine k" by auto
  have "psi_findThread div32 B (maps ! t) (psiBytes (pMaskSize B) theirs) t = foundKeys div32 B (keyMap B mine) (map (maskKey B) theirs) t" if "t < ?T" for t
    using psi_findThread_ok [OF m assms(3)] foundKeys_cong [OF maps(2) [OF that]] by simp
  then have e: "map (\<lambda>t. psi_events t (psi_findThread div32 B (maps ! t) (psiBytes (pMaskSize B) theirs) t)) [0..<?T] =
      map (\<lambda>t. psi_events t (foundKeys div32 B (keyMap B mine) (map (maskKey B) theirs) t)) [0..<?T]" by simp
  have "psi_recv B (psiBytes (pMaskSize B) theirs) = Inr (psiBytes (pMaskSize B) theirs)"
    by (simp add: psi_recv_def length_psiBytes [OF m] assms(3))
  then show ?thesis unfolding RsPsiReceiver_runN_def maps(1) Let_def by (simp add: e)
qed

text \<open>C4: the threads of the receiver. With several threads the receiver finds the same values as with one,
  up to their order, for every interleaving of the threads' stores, when at least four bytes of the values are
  kept and no thread finds more values than its part of the memory has room for.\<close>

theorem psi_threads_agree:
  assumes "psi_wf B" "4 \<le> pMaskSize B" "div32_ok div32 (pNumThreads B)"
    and "pRecverSize B = length mine" "pSenderSize B = length theirs" "\<forall>h\<in>set mine. maskKey B h \<noteq> 0"
    and "psi_room (length mine) (pNumThreads B) (foundKeys div32 B (keyMap B mine) (map (maskKey B) theirs))"
  shows "\<exists>I J. RsPsiReceiver_run1 B mine (psiBytes (pMaskSize B) theirs) = Inr I \<and>
    RsPsiReceiver_runN div32 sched B mine (psiBytes (pMaskSize B) theirs) = Inr J \<and> mset J = mset I"
proof -
  let ?T = "pNumThreads B" and ?fs = "foundKeys div32 B (keyMap B mine) (map (maskKey B) theirs)"
  have "length (concat (map (\<lambda>h. [unat (lo64 h), unat (hi64 h)]) mine)) = 2 * length mine" by (induction mine) simp_all
  from psi_interleaving [OF assms(7) this] obtain s where
    s: "foldr_res (psi_step (length mine) ?T) (interleave sched (map (\<lambda>t. psi_events t (?fs t)) [0..<?T]))
      \<lparr>sMem = concat (map (\<lambda>h. [unat (lo64 h), unat (hi64 h)]) mine), sCount = replicate ?T 0, sInter = []\<rparr> = Inr s"
    "mset (sInter s) = (\<Sum>t<?T. mset (?fs t))" by blast
  have "psiThread div32 B k < ?T" for k using assms(3) unfolding psiThread_mod [OF assms(3)] by (simp add: div32_ok_def)
  then have "mset (sInter s) = mset (hits (keyMap B mine) (map (maskKey B) theirs))" using s(2) by (simp add: foundKeys_partition)
  then show ?thesis using s(1) run1_ok [OF assms(1,4,5,6)] runN_eq [OF assms(1,2,5,6)] by simp
qed




end
