(* ===== verification/PsiFaults.thy ===== *)
theory PsiFaults
  imports PsiThreads
begin

section \<open>Where the threads of the set intersection go wrong\<close>

text \<open>
  Two runs of the threads of \<open>RsPsiReceiver::run\<close> (\<open>src/volePSI/RsPsi.cpp\<close>) outside the conditions under which
  they agree with one thread, and concrete runs within them.
\<close>

subsection \<open>An overflowing part of the memory\<close>

definition overlapBase :: psi_base where "overlapBase = RsPsiBase_init 8 8 40 True 4"

definition overlapHashes :: "block list" where "overlapHashes = [4, 8, 12, 16, 20, 1, 2, 3]"

lemma overlapBase_simps: "psi_wf overlapBase" "pMaskSize overlapBase = blockSize" "pSenderSize overlapBase = 8" "pRecverSize overlapBase = 8"
  "pNumThreads overlapBase = 4" "maskKey overlapBase h = h" "psi_wf overlapBase"
  unfolding overlapBase_def by (simp_all add: RsPsiBase_init_wf) (simp_all add: RsPsiBase_init_def Let_def maskKey_def psiMask_16)

lemma div4_ok: "div32_ok (\<lambda>v. v div 4) 4" by (simp add: div32_ok_def)





subsection \<open>Fewer than four bytes\<close>






subsection \<open>Runs that agree\<close>

theorem psi_threads_agree_witness:
  "\<exists>I J. RsPsiReceiver_run1 overlapBase overlapHashes (psiBytes blockSize [4, 8, 1, 7, 2, 24, 28, 3]) = Inr I \<and>
    RsPsiReceiver_runN (\<lambda>v. v div 4) [1, 0, 2, 3] overlapBase overlapHashes (psiBytes blockSize [4, 8, 1, 7, 2, 24, 28, 3]) = Inr J \<and> mset J = mset I"
proof -
  note B = overlapBase_simps
  let ?Y = "[4, 8, 1, 7, 2, 24, 28, 3] :: block list"
  have t: "psiThread (\<lambda>v. v div 4) overlapBase h = unat (ucast h :: u32) mod 4" for h
    using psiThread_mod [of "\<lambda>v. v div 4" overlapBase h] div4_ok by (simp add: B)
  have "length (foundKeys (\<lambda>v. v div 4) overlapBase M ?Y i) \<le> 4" if "i < 4" for i and M :: psi_map
  proof -
    have h: "length (hits M ks) \<le> length ks" for ks by (induction ks) (auto simp: hits_def split: option.splits)
    have "i = 0 \<or> i = 1 \<or> i = 2 \<or> i = 3" using that by auto
    then have "length (filter (\<lambda>k. unat (ucast k :: u32) mod 4 = i) ?Y) \<le> 4" by (elim disjE) simp_all
    then show ?thesis using h [of "filter (\<lambda>k. unat (ucast k :: u32) mod 4 = i) ?Y"] by (simp only: foundKeys_def t)
  qed
  then have "psi_room 8 4 (foundKeys (\<lambda>v. v div 4) overlapBase M ?Y)" for M
    by (simp add: psi_room_def psiBegin_def)
  moreover have "map (maskKey overlapBase) hs = hs" for hs by (simp add: B map_idI)
  moreover have "length overlapHashes = 8" "\<forall>h\<in>set overlapHashes. maskKey overlapBase h \<noteq> 0" by (simp_all add: overlapHashes_def B)
  ultimately show ?thesis
    using psi_threads_agree [OF B(1), of "\<lambda>v. v div 4" overlapHashes ?Y "[1, 0, 2, 3]"] div4_ok by (simp add: B blockSize_def)
qed





end
