(* ===== verification/Spec2Isabelle.thy ===== *)
theory Spec2Isabelle
  imports PsiFaults
begin

text \<open>
  A verification development of the PaXoS oblivious key-value store of this repository.
\<close>

end
